(* ===== verification/Kernel_Prelude.thy ===== *)
theory Kernel_Prelude
  imports Main "HOL-Library.Word"
begin

text \<open>
  Shared vocabulary of the development: the machine integer types of the kernel,
  the little-endian byte memory the C code reads and writes through pointers, the
  ``first free slot'' table scan that almost every kernel table uses, and the
  generic lemmas on them.
\<close>

unbundle bit_operations_syntax

type_synonym u8 = "8 word"
type_synonym u16 = "16 word"
type_synonym u32 = "32 word"
type_synonym u64 = "64 word"
type_synonym mem = "u64 \<Rightarrow> u8"

named_theorems scan_simps \<open>facts on table scans\<close>
named_theorems mem_simps \<open>loads after stores\<close>

subsection \<open>Table scans\<close>

text \<open>
  \<open>first_idx P xs\<close> is the loop
  \<^verbatim>\<open>for (i = 0; i < N; i++) if (P(&table[i])) return i;\<close>
\<close>

fun first_idx :: "('a \<Rightarrow> bool) \<Rightarrow> 'a list \<Rightarrow> nat option" where
  "first_idx P [] = None"
| "first_idx P (x # xs) = (if P x then Some 0 else map_option Suc (first_idx P xs))"

text \<open>Little-endian encoding of a word in \<open>n\<close> bytes, and back.\<close>

fun le_bytes :: "nat \<Rightarrow> 'a::len word \<Rightarrow> u8 list" where
  "le_bytes 0 w = []"
| "le_bytes (Suc n) w = ucast w # le_bytes n (drop_bit 8 w)"

fun le_val :: "u8 list \<Rightarrow> 'a::len word" where
  "le_val [] = 0"
| "le_val (b # bs) = ucast b OR push_bit 8 (le_val bs)"

text \<open>Loads and stores of \<open>n\<close> bytes in the byte memory.\<close>

definition ld :: "nat \<Rightarrow> mem \<Rightarrow> u64 \<Rightarrow> 'a::len word" where
  "ld n m a = le_val (map (\<lambda>k. m (a + of_nat k)) [0..<n])"

definition st :: "nat \<Rightarrow> mem \<Rightarrow> u64 \<Rightarrow> 'a::len word \<Rightarrow> mem" where
  "st n m a v = (\<lambda>x. if unat (x - a) < n then le_bytes n v ! unat (x - a) else m x)"

abbreviation ld64 :: "mem \<Rightarrow> u64 \<Rightarrow> u64" where
  "ld64 \<equiv> ld 8"

abbreviation st64 :: "mem \<Rightarrow> u64 \<Rightarrow> u64 \<Rightarrow> mem" where
  "st64 \<equiv> st 8"

text \<open>\<^verbatim>\<open>memset(p, v, n)\<close>\<close>

definition mem_set :: "mem \<Rightarrow> u64 \<Rightarrow> u8 \<Rightarrow> u64 \<Rightarrow> mem" where
  "mem_set m a v n = (\<lambda>x. if x - a < n then v else m x)"

text \<open>\<^verbatim>\<open>memcpy\<close> between ranges that do not overlap.\<close>

definition mem_copy :: "mem \<Rightarrow> u64 \<Rightarrow> u64 \<Rightarrow> u64 \<Rightarrow> mem" where
  "mem_copy m dst src n = (\<lambda>x. if x - dst < n then m (src + (x - dst)) else m x)"

text \<open>The two byte ranges do not meet, also when an address wraps around.\<close>

definition apart :: "nat \<Rightarrow> u64 \<Rightarrow> nat \<Rightarrow> u64 \<Rightarrow> bool" where
  "apart n a k b \<longleftrightarrow> n \<le> unat (b - a) \<and> k \<le> unat (a - b)"

subsection \<open>Facts on scans\<close>

lemma first_idx_None [scan_simps]: "first_idx P xs = None \<longleftrightarrow> (\<forall>x \<in> set xs. \<not> P x)"
  by (induction xs) auto

lemma first_idx_SomeD:
  "first_idx P xs = Some i \<Longrightarrow> i < length xs \<and> P (xs ! i) \<and> (\<forall>j < i. \<not> P (xs ! j))"
proof (induction xs arbitrary: i)
  case (Cons x xs)
  show ?case
  proof (cases "P x")
    case False
    with Cons.prems obtain k where k: "first_idx P xs = Some k" "i = Suc k"
      by auto
    from Cons.IH [OF k(1)] k(2) False show ?thesis
      by (auto simp: nth_Cons split: nat.splits)
  qed (use Cons.prems in auto)
qed simp

lemma first_idx_SomeI:
  "i < length xs \<Longrightarrow> P (xs ! i) \<Longrightarrow> (\<And>j. j < i \<Longrightarrow> \<not> P (xs ! j)) \<Longrightarrow> first_idx P xs = Some i"
proof (induction xs arbitrary: i)
  case (Cons x xs)
  show ?case
  proof (cases i)
    case 0
    with Cons.prems show ?thesis by simp
  next
    case (Suc k)
    with Cons.prems(3) [of 0] have "\<not> P x" by simp
    moreover have "\<not> P (xs ! j)" if "j < k" for j
      using Cons.prems(3) [of "Suc j"] Suc that by simp
    then have "first_idx P xs = Some k"
      using Cons.prems Suc by (intro Cons.IH) auto
    ultimately show ?thesis using Suc by simp
  qed
qed simp

lemma first_idx_map: "first_idx P (map f xs) = first_idx (\<lambda>x. P (f x)) xs"
  by (induction xs) auto

lemma first_idx_Some_iff:
  "first_idx P xs = Some i \<longleftrightarrow> i < length xs \<and> P (xs ! i) \<and> (\<forall>j < i. \<not> P (xs ! j))"
  by (blast intro: first_idx_SomeI dest: first_idx_SomeD)

subsection \<open>Facts on bytes and memory\<close>

lemma length_le_bytes [simp]: "length (le_bytes n w) = n"
  by (induction n arbitrary: w) auto

lemma le_val_le_bytes: "le_val (le_bytes n w) = take_bit (8 * n) (w :: 'a::len word)"
proof (induction n arbitrary: w)
  case (Suc n)
  have "ucast (ucast w :: u8) OR push_bit 8 (take_bit (8 * n) (drop_bit 8 w)) = take_bit (8 + 8 * n) w"
    by (rule bit_eqI) (auto simp: bit_simps)
  then show ?case by (simp add: Suc)
qed simp

lemma le_val_le_bytes64 [simp]: "le_val (le_bytes 8 w) = (w :: u64)"
  using take_bit_length_eq [of w] by (simp add: le_val_le_bytes)

lemma unat_u64: "unat (a::u64) < 18446744073709551616"
  using unsigned_less [of a] by simp

lemma unat_add_small: "unat (a::u64) + k < 2 ^ 64 \<Longrightarrow> unat (a + of_nat k) = unat a + k"
  by (simp add: unat_word_ariths unat_of_nat)

lemma unat_add_word: "unat (a::u64) + unat b < 2 ^ 64 \<Longrightarrow> unat (a + b) = unat a + unat b"
  using unat_add_small [of a "unat b"] by simp

lemma ld_st_same:
  assumes "n \<le> 2 ^ 63"
  shows "ld n (st n m a v) a = take_bit (8 * n) (v :: 'a::len word)"
proof -
  have "map (\<lambda>k. st n m a v (a + of_nat k)) [0..<n] = le_bytes n v"
    using assms by (intro nth_equalityI) (auto simp: st_def unat_of_nat)
  then show ?thesis by (simp add: ld_def le_val_le_bytes)
qed

lemma ld64_st64_same [simp, mem_simps]: "ld64 (st64 m a v) a = v"
  using take_bit_length_eq [of v] by (simp add: ld_st_same)

lemma apart_sym: "apart n a k b \<longleftrightarrow> apart k b n a"
  by (auto simp: apart_def)

lemma apart_offset:
  assumes "apart n a k b" and "j < k"
  shows "n \<le> unat (b + of_nat j - a)"
proof (cases "b = a")
  case False
  have "unat (a - b) + unat (b - a) = 2 ^ 64"
    using False unat_u64 [of a] unat_u64 [of b]
    by (auto simp: unat_sub_if' word_unat_eq_iff)
  then have "unat (b - a) + j < 2 ^ 64" using assms by (simp add: apart_def)
  then have "unat ((b - a) + of_nat j) = unat (b - a) + j" by (rule unat_add_small)
  with assms show ?thesis by (simp add: apart_def algebra_simps)
qed (use assms in \<open>auto simp: apart_def\<close>)

lemma st_apart:
  assumes "apart n a k b" and "j < k"
  shows "st n m a v (b + of_nat j) = m (b + of_nat j)"
  using apart_offset [OF assms] by (simp add: st_def)

lemma ld_st_apart [mem_simps]:
  assumes "apart n a k b"
  shows "ld k (st n m a v) b = ld k m b"
proof -
  have "map (\<lambda>j. st n m a v (b + of_nat j)) [0..<k] = map (\<lambda>j. m (b + of_nat j)) [0..<k]"
    by (rule map_cong) (simp_all add: st_apart [OF assms])
  then show ?thesis by (simp only: ld_def)
qed

text \<open>
  The same laws with addresses written as natural numbers, which is how the components
  state their layouts: an access of \<open>n\<close> bytes at \<open>a\<close> covers the addresses from \<open>a\<close> up
  to \<open>a + n\<close>, and does not wrap.
\<close>

lemma unat_of_nat64: "a < 2 ^ 64 \<Longrightarrow> unat (of_nat a :: u64) = a"
  by (simp add: unat_of_nat)

lemma of_nat_eq_iff64: "a < 2 ^ 64 \<Longrightarrow> b < 2 ^ 64 \<Longrightarrow> (of_nat a :: u64) = of_nat b \<longleftrightarrow> a = b"
  by (metis unat_of_nat64)

lemma apart_nat:
  assumes "A + n \<le> B \<or> B + k \<le> A" and "A + n \<le> 2 ^ 64" and "B + k \<le> 2 ^ 64"
    and "0 < n" and "0 < k"
  shows "apart n (of_nat A) k (of_nat B)"
  using assms by (auto simp: apart_def unat_sub_if' unat_of_nat)

lemma ld_st_nat [mem_simps]:
  assumes "A + n \<le> B \<or> B + k \<le> A" and "A + n \<le> 2 ^ 64" and "B + k \<le> 2 ^ 64"
    and "0 < n" and "0 < k"
  shows "ld k (st n m (of_nat A) v) (of_nat B) = ld k m (of_nat B)"
  using assms by (intro ld_st_apart apart_nat)

lemma st_outside:
  assumes "A + n \<le> 2 ^ 64" and "unat x < A \<or> A + n \<le> unat x" and "0 < n"
  shows "st n m (of_nat A) v x = m x"
proof -
  have "n \<le> unat (x - of_nat A)"
    using assms unat_u64 [of x] by (auto simp: unat_sub_if' unat_of_nat)
  then show ?thesis by (simp add: st_def)
qed

lemma ld_cong_range:
  assumes "A + n \<le> 2 ^ 64" and "\<And>x. A \<le> unat x \<Longrightarrow> unat x < A + n \<Longrightarrow> m x = m' x"
  shows "ld n m (of_nat A) = ld n m' (of_nat A)"
proof -
  have "m (of_nat A + of_nat j) = m' (of_nat A + of_nat j)" if "j < n" for j
  proof -
    have "unat (of_nat A + of_nat j :: u64) = A + j"
      using assms(1) that by (simp flip: of_nat_add add: unat_of_nat64)
    with that assms(2) show ?thesis by simp
  qed
  then have "map (\<lambda>j. m (of_nat A + of_nat j)) [0..<n] = map (\<lambda>j. m' (of_nat A + of_nat j)) [0..<n]"
    by simp
  then show ?thesis unfolding ld_def by (rule arg_cong)
qed

lemma range_offset:
  assumes "unat a + unat n \<le> 2 ^ 64" and "x - a < (n :: u64)"
  shows "unat a \<le> unat x" "unat x < unat a + unat n"
proof -
  have lt: "unat (x - a) < unat n" using assms(2) by (simp add: word_less_nat_alt)
  have "unat x = unat (a + (x - a))" by simp
  also have "\<dots> = unat a + unat (x - a)"
    using lt assms(1) by (intro unat_add_word) simp
  finally show "unat a \<le> unat x" "unat x < unat a + unat n" using lt by simp_all
qed

text \<open>\<^verbatim>\<open>memset\<close> writes its range and nothing else.\<close>

lemma mem_set_inside: "i < unat n \<Longrightarrow> mem_set m a v n (a + of_nat i) = v"
  using unat_of_nat64 [of i] unat_u64 [of n] by (simp add: mem_set_def word_less_nat_alt)

lemma mem_set_changed:
  assumes "unat a + unat n \<le> 2 ^ 64" and "mem_set m a v n x \<noteq> m x"
  shows "unat a \<le> unat x" "unat x < unat a + unat n"
  using range_offset [OF assms(1), of x] assms(2) by (auto simp: mem_set_def split: if_splits)

lemma mem_copy_inside: "i < unat n \<Longrightarrow> mem_copy m dst src n (dst + of_nat i) = m (src + of_nat i)"
  using unat_of_nat64 [of i] unat_u64 [of n] by (simp add: mem_copy_def word_less_nat_alt)

lemma mem_copy_changed:
  "unat dst + unat n \<le> 2 ^ 64 \<Longrightarrow> mem_copy m dst src n x \<noteq> m x \<Longrightarrow> unat dst \<le> unat x \<and> unat x < unat dst + unat n"
  using range_offset [of dst n x] by (auto simp: mem_copy_def split: if_splits)

end
