(* ===== verification/Audit_Log.thy ===== *)
theory Audit_Log
  imports Kernel_Prelude
begin

text \<open>
  The audit log (\<^verbatim>\<open>kernel/audit/audit.h\<close>, \<^verbatim>\<open>kernel/audit/audit.c\<close>): a ring of 4096
  entries that every security-relevant kernel operation appends to.  The abstract log is
  the list of all entries ever recorded; the ring holds its last 4096.
\<close>

datatype audit_event =
    AUDIT_CAP_CREATE | AUDIT_CAP_DENIED | AUDIT_CAP_FORGERY | AUDIT_CAP_REVOKE
  | AUDIT_CAP_DELEGATE | AUDIT_SYSCALL | AUDIT_PROC_FORK | AUDIT_PROC_EXEC
  | AUDIT_PROC_EXIT | AUDIT_MEM_ALLOC | AUDIT_MEM_FREE | AUDIT_FILE_OPEN
  | AUDIT_FILE_WRITE | AUDIT_NET_SEND | AUDIT_NET_RECV | AUDIT_CNSL_BLOCK
  | AUDIT_CNSL_UNBLOCK

record audit_entry =
  ae_timestamp :: u64
  ae_pid :: u32
  ae_event :: audit_event
  ae_arg0 :: u64
  ae_arg1 :: u64

definition AUDIT_RING_SIZE :: nat where
  "AUDIT_RING_SIZE = 4096"

record audit_state =
  g_ring :: "audit_entry list"
  g_head :: u32
  g_total :: u64
  g_tick :: u64

text \<open>An entry after \<^verbatim>\<open>memset(g_ring, 0, ..)\<close>: event code 0 is \<open>AUDIT_CAP_CREATE\<close>.\<close>

definition audit_zero_entry :: audit_entry where
  "audit_zero_entry =
     \<lparr>ae_timestamp = 0, ae_pid = 0, ae_event = AUDIT_CAP_CREATE, ae_arg0 = 0, ae_arg1 = 0\<rparr>"

definition audit_init :: audit_state where
  "audit_init =
     \<lparr>g_ring = replicate AUDIT_RING_SIZE audit_zero_entry, g_head = 0, g_total = 0, g_tick = 0\<rparr>"

definition audit_record ::
    "audit_event \<Rightarrow> u32 \<Rightarrow> u64 \<Rightarrow> u64 \<Rightarrow> audit_state \<Rightarrow> audit_state" where
  "audit_record ev pid arg0 arg1 s =
     (let idx = unat (g_head s AND (of_nat AUDIT_RING_SIZE - 1)) in
      s\<lparr>g_ring := (g_ring s)[idx := \<lparr>ae_timestamp = g_tick s, ae_pid = pid, ae_event = ev,
                                      ae_arg0 = arg0, ae_arg1 = arg1\<rparr>],
        g_tick := g_tick s + 1, g_head := g_head s + 1, g_total := g_total s + 1\<rparr>)"

definition audit_read :: "audit_state \<Rightarrow> audit_entry list \<times> u32" where
  "audit_read s =
     (g_ring s,
      if g_total s < of_nat AUDIT_RING_SIZE then ucast (g_total s) else of_nat AUDIT_RING_SIZE)"

definition audit_total :: "audit_state \<Rightarrow> u64" where
  "audit_total s = g_total s"

text \<open>Recording a whole sequence of events, and the abstract log it stands for.\<close>

type_synonym audit_call = "audit_event \<times> u32 \<times> u64 \<times> u64"

definition audit_records :: "audit_call list \<Rightarrow> audit_state \<Rightarrow> audit_state" where
  "audit_records cs s = fold (\<lambda>(ev, pid, a0, a1). audit_record ev pid a0 a1) cs s"

definition audit_log_entry :: "audit_call list \<Rightarrow> nat \<Rightarrow> audit_entry" where
  "audit_log_entry cs k =
     (case cs ! k of (ev, pid, a0, a1) \<Rightarrow>
       \<lparr>ae_timestamp = of_nat k, ae_pid = pid, ae_event = ev, ae_arg0 = a0, ae_arg1 = a1\<rparr>)"

subsection \<open>Ring refinement\<close>

lemma ring_index: "unat ((of_nat n :: u32) AND 4095) = n mod 4096"
proof -
  have "(of_nat n :: u32) AND 4095 = take_bit 12 (of_nat n)"
    by (simp add: take_bit_eq_mask mask_eq_exp_minus_1)
  then have "unat ((of_nat n :: u32) AND 4095) = take_bit 12 (unat (of_nat n :: u32))"
    by (simp add: unsigned_take_bit_eq)
  also have "\<dots> = take_bit 12 n"
    by (simp add: unat_of_nat take_bit_eq_mod mod_mod_cancel)
  finally show ?thesis by (simp add: take_bit_eq_mod)
qed

lemma audit_records_Nil [simp]: "audit_records [] s = s"
  by (simp add: audit_records_def)

lemma audit_records_snoc [simp]:
  "audit_records (cs @ [(ev, pid, a0, a1)]) s = audit_record ev pid a0 a1 (audit_records cs s)"
  by (simp add: audit_records_def)

lemma audit_record_sel [simp]:
  "g_head (audit_record ev pid a0 a1 s) = g_head s + 1"
  "g_total (audit_record ev pid a0 a1 s) = g_total s + 1"
  "g_tick (audit_record ev pid a0 a1 s) = g_tick s + 1"
  "length (g_ring (audit_record ev pid a0 a1 s)) = length (g_ring s)"
  by (simp_all add: audit_record_def Let_def)

lemma audit_records_counters:
  "g_head (audit_records cs audit_init) = of_nat (length cs)
   \<and> g_total (audit_records cs audit_init) = of_nat (length cs)
   \<and> g_tick (audit_records cs audit_init) = of_nat (length cs)
   \<and> length (g_ring (audit_records cs audit_init)) = 4096"
proof (induction cs rule: rev_induct)
  case Nil
  then show ?case by (simp add: audit_init_def AUDIT_RING_SIZE_def)
next
  case (snoc c cs)
  then show ?case by (cases c) (simp add: add.commute)
qed

lemma mod_window:
  assumes "k < (n::nat)" and "n < k + N"
  shows "k mod N \<noteq> n mod N"
  using assms by (metis add.commute diff_less_mono2 less_diff_conv mod_eq_dvd_iff_nat
      nat_dvd_not_less less_imp_le zero_less_diff diff_add_inverse less_diff_conv2)

lemma audit_log_entry_snoc [simp]:
  "k < length cs \<Longrightarrow> audit_log_entry (cs @ [c]) k = audit_log_entry cs k"
  by (simp add: audit_log_entry_def nth_append)

lemma audit_ring_holds:
  "k < length cs \<Longrightarrow> length cs \<le> k + 4096 \<Longrightarrow>
   g_ring (audit_records cs audit_init) ! (k mod 4096) = audit_log_entry cs k"
proof (induction cs arbitrary: k rule: rev_induct)
  case (snoc c cs)
  obtain ev pid a0 a1 where c: "c = (ev, pid, a0, a1)" by (cases c)
  let ?s = "audit_records cs audit_init"
  let ?n = "length cs"
  have len: "length (g_ring ?s) = 4096" and cnt: "g_head ?s = of_nat ?n" "g_tick ?s = of_nat ?n"
    using audit_records_counters [of cs] by auto
  have ring: "g_ring (audit_records (cs @ [c]) audit_init) =
      (g_ring ?s)[?n mod 4096 := audit_log_entry (cs @ [c]) ?n]"
    by (simp add: c cnt audit_record_def AUDIT_RING_SIZE_def ring_index audit_log_entry_def)
  show ?case
  proof (cases "k = ?n")
    case True
    then show ?thesis by (simp add: ring len)
  next
    case False
    with snoc.prems have "k < ?n" "?n < k + 4096" by auto
    moreover from this have "k mod 4096 \<noteq> ?n mod 4096" by (rule mod_window)
    ultimately show ?thesis using snoc.IH [of k] by (simp add: ring)
  qed
qed simp

subsection \<open>Properties\<close>

text \<open>
  C4.  The ring buffer refines the list of all events ever recorded: after any sequence of
  calls of \<^verbatim>\<open>audit_record\<close> the reader is told how many entries are valid, and each of the last
  4096 events is found in the ring, whole and stamped with its position.
\<close>
theorem audit_ring_refines:
  assumes "length cs < 2 ^ 64"
  shows "unat (audit_total (audit_records cs audit_init)) = length cs
    \<and> unat (snd (audit_read (audit_records cs audit_init))) = min (length cs) AUDIT_RING_SIZE
    \<and> (\<forall>k \<in> {length cs - AUDIT_RING_SIZE ..< length cs}.
         fst (audit_read (audit_records cs audit_init)) ! (k mod AUDIT_RING_SIZE) = audit_log_entry cs k)"
proof -
  have t: "unat (g_total (audit_records cs audit_init)) = length cs"
    using audit_records_counters [of cs] assms by (simp add: unat_of_nat64)
  have "unat (snd (audit_read (audit_records cs audit_init))) = min (length cs) 4096"
    using t by (auto simp: audit_read_def AUDIT_RING_SIZE_def word_less_nat_alt unsigned_ucast_eq take_bit_eq_mod)
  with t audit_ring_holds [of _ cs] show ?thesis
    by (auto simp: audit_total_def AUDIT_RING_SIZE_def audit_read_def)
qed

theorem audit_ring_refines_witness:
  "fst (audit_read (audit_records [(AUDIT_SYSCALL, 1, 2, 3), (AUDIT_CAP_DENIED, 4, 5, 6)] audit_init)) ! 1
     = \<lparr>ae_timestamp = 1, ae_pid = 4, ae_event = AUDIT_CAP_DENIED, ae_arg0 = 5, ae_arg1 = 6\<rparr>"
  using audit_ring_refines [of "[(AUDIT_SYSCALL, 1, 2, 3), (AUDIT_CAP_DENIED, 4, 5, 6)]"]
  by (auto simp: AUDIT_RING_SIZE_def audit_log_entry_def dest: bspec [where x = 1])

end
