(* ===== verification/Blake3.thy ===== *)
theory Blake3
  imports Kernel_Prelude
begin

text \<open>
  The hash function of the kernel (\<^verbatim>\<open>kernel/crypto/blake3.c\<close>): the BLAKE3 compression
  function and the incremental interface that capability tokens and file integrity
  hashes are computed with.  \<open>absorb_byte\<close> is the reference definition: it feeds one byte;
  \<open>blake3_update\<close> with its 64-byte \<^verbatim>\<open>memcpy\<close> chunks is shown equal to it.
\<close>

definition BLOCK_LEN :: u32 where
  "BLOCK_LEN = 64"

definition CHUNK_START :: u32 where "CHUNK_START = 1"
definition CHUNK_END :: u32 where "CHUNK_END = 2"
definition ROOT :: u32 where "ROOT = 8"

definition IV :: "u32 list" where
  "IV = [0x6A09E667, 0xBB67AE85, 0x3C6EF372, 0xA54FF53A,
         0x510E527F, 0x9B05688C, 0x1F83D9AB, 0x5BE0CD19]"

definition MSG_PERMUTATION :: "nat list" where
  "MSG_PERMUTATION = [2, 6, 3, 10, 7, 0, 4, 13, 1, 11, 12, 5, 9, 14, 15, 8]"

definition rotr32 :: "u32 \<Rightarrow> nat \<Rightarrow> u32" where
  "rotr32 x n = drop_bit n x OR push_bit (32 - n) x"

definition g_function ::
    "u32 list \<Rightarrow> nat \<Rightarrow> nat \<Rightarrow> nat \<Rightarrow> nat \<Rightarrow> u32 \<Rightarrow> u32 \<Rightarrow> u32 list" where
  "g_function s a b c d mx my =
     (let s = s[a := s ! a + s ! b + mx];
          s = s[d := rotr32 (s ! d XOR s ! a) 16];
          s = s[c := s ! c + s ! d];
          s = s[b := rotr32 (s ! b XOR s ! c) 12];
          s = s[a := s ! a + s ! b + my];
          s = s[d := rotr32 (s ! d XOR s ! a) 8];
          s = s[c := s ! c + s ! d];
          s = s[b := rotr32 (s ! b XOR s ! c) 7]
      in s)"

definition round_fn :: "u32 list \<Rightarrow> u32 list \<Rightarrow> u32 list" where
  "round_fn s m =
     (let s = g_function s 0 4 8 12 (m ! 0) (m ! 1);
          s = g_function s 1 5 9 13 (m ! 2) (m ! 3);
          s = g_function s 2 6 10 14 (m ! 4) (m ! 5);
          s = g_function s 3 7 11 15 (m ! 6) (m ! 7);
          s = g_function s 0 5 10 15 (m ! 8) (m ! 9);
          s = g_function s 1 6 11 12 (m ! 10) (m ! 11);
          s = g_function s 2 7 8 13 (m ! 12) (m ! 13);
          s = g_function s 3 4 9 14 (m ! 14) (m ! 15)
      in s)"

definition permute :: "u32 list \<Rightarrow> u32 list" where
  "permute m = map (\<lambda>i. m ! (MSG_PERMUTATION ! i)) [0..<16]"

fun rounds :: "nat \<Rightarrow> u32 list \<Rightarrow> u32 list \<Rightarrow> u32 list" where
  "rounds 0 s m = s"
| "rounds (Suc r) s m = rounds r (round_fn s m) (permute m)"

definition compress ::
    "u32 list \<Rightarrow> u32 list \<Rightarrow> u64 \<Rightarrow> u32 \<Rightarrow> u32 \<Rightarrow> u32 list" where
  "compress cv block counter block_len flags =
     (let s = rounds 7 (take 8 cv @ take 4 IV @
                [ucast counter, ucast (drop_bit 32 counter), block_len, flags]) (take 16 block)
      in map (\<lambda>i. s ! i XOR s ! (i + 8)) [0..<8] @ map (\<lambda>i. s ! (i + 8) XOR cv ! i) [0..<8])"

record blake3_ctx =
  chaining :: "u32 list"
  pending :: "u8 list"
  pending_len :: u32
  started :: bool

text \<open>
  \<open>blake3_init\<close> leaves the bytes of \<^verbatim>\<open>ctx->pending\<close> as they were on the stack: they are an
  argument of the model.
\<close>

definition blake3_init :: "u8 list \<Rightarrow> blake3_ctx" where
  "blake3_init stack = \<lparr>chaining = IV, pending = stack, pending_len = 0, started = False\<rparr>"

text \<open>The zero-padded pending block as sixteen little-endian words.\<close>

definition block_words :: "blake3_ctx \<Rightarrow> u32 list" where
  "block_words ctx =
     (let n = unat (pending_len ctx);
          padded = take n (pending ctx) @ replicate (64 - n) 0
      in map (\<lambda>i. le_val (take 4 (drop (4 * i) padded))) [0..<16])"

definition blake3_compress_intermediate :: "blake3_ctx \<Rightarrow> blake3_ctx" where
  "blake3_compress_intermediate ctx =
     (let flags = (if started ctx then 0 else CHUNK_START);
          out16 = compress (chaining ctx) (block_words ctx) 0 (pending_len ctx) flags
      in ctx\<lparr>chaining := take 8 out16, started := True\<rparr>)"

text \<open>One iteration of the loop of \<open>blake3_update\<close>: the new context and the bytes taken.\<close>

definition update_step :: "blake3_ctx \<Rightarrow> u8 list \<Rightarrow> blake3_ctx \<times> nat" where
  "update_step ctx data =
     (let ctx = (if pending_len ctx = BLOCK_LEN
                 then (blake3_compress_intermediate ctx)\<lparr>pending_len := 0\<rparr> else ctx);
          space = BLOCK_LEN - pending_len ctx;
          n = min (length data) (unat space);
          p = unat (pending_len ctx)
      in (ctx\<lparr>pending := take p (pending ctx) @ take n data @ drop (p + n) (pending ctx),
              pending_len := pending_len ctx + of_nat n\<rparr>, n))"

lemma update_step_takes: "data \<noteq> [] \<Longrightarrow> 0 < snd (update_step ctx data)"
proof -
  assume data: "data \<noteq> []"
  have "(64::u32) - x \<noteq> 0" if "x \<noteq> 64" for x :: u32
    using that by (simp add: right_minus_eq)
  with data show ?thesis
    by (auto simp: update_step_def Let_def BLOCK_LEN_def unat_gt_0)
qed

function blake3_update :: "blake3_ctx \<Rightarrow> u8 list \<Rightarrow> blake3_ctx" where
  "blake3_update ctx data =
     (if data = [] then ctx
      else blake3_update (fst (update_step ctx data)) (drop (snd (update_step ctx data)) data))"
  by pat_completeness auto
termination
  by (relation "measure (\<lambda>(ctx, data). length data)") (use update_step_takes in \<open>auto\<close>)

definition blake3_final :: "blake3_ctx \<Rightarrow> u8 list" where
  "blake3_final ctx =
     (let flags = CHUNK_END OR ROOT;
          flags = (if started ctx then flags else flags OR CHUNK_START);
          out16 = compress (chaining ctx) (block_words ctx) 0 (pending_len ctx) flags
      in concat (map (le_bytes 4) (take 8 out16)))"

definition blake3_hash :: "u8 list \<Rightarrow> u8 list \<Rightarrow> u8 list" where
  "blake3_hash stack input = blake3_final (blake3_update (blake3_init stack) input)"

declare blake3_update.simps [simp del]

text \<open>The reference: absorb the input byte by byte.\<close>

definition absorb_byte :: "u8 \<Rightarrow> blake3_ctx \<Rightarrow> blake3_ctx" where
  "absorb_byte b ctx =
     (let ctx = (if pending_len ctx = BLOCK_LEN
                 then (blake3_compress_intermediate ctx)\<lparr>pending_len := 0\<rparr> else ctx)
      in ctx\<lparr>pending := (pending ctx)[unat (pending_len ctx) := b],
             pending_len := pending_len ctx + 1\<rparr>)"

definition blake3_wf :: "blake3_ctx \<Rightarrow> bool" where
  "blake3_wf ctx \<longleftrightarrow> length (pending ctx) = 64 \<and> pending_len ctx \<le> BLOCK_LEN"

text \<open>The flush of a full pending block, shared by the two.\<close>

definition norm_full :: "blake3_ctx \<Rightarrow> blake3_ctx" where
  "norm_full ctx = (if pending_len ctx = BLOCK_LEN
     then (blake3_compress_intermediate ctx)\<lparr>pending_len := 0\<rparr> else ctx)"

text \<open>Contexts that differ only in pending bytes past \<^verbatim>\<open>pending_len\<close>.\<close>

definition ctx_eqv :: "blake3_ctx \<Rightarrow> blake3_ctx \<Rightarrow> bool" where
  "ctx_eqv c d \<longleftrightarrow> blake3_wf c \<and> blake3_wf d \<and> chaining c = chaining d
     \<and> pending_len c = pending_len d \<and> started c = started d
     \<and> take (unat (pending_len c)) (pending c) = take (unat (pending_len d)) (pending d)"

subsection \<open>The chunked update equals the byte-wise reference\<close>

lemma pending_compress [simp]:
  "pending (blake3_compress_intermediate ctx) = pending ctx"
  "pending_len (blake3_compress_intermediate ctx) = pending_len ctx"
  by (simp_all add: blake3_compress_intermediate_def Let_def)

lemma wf_norm_full:
  assumes "blake3_wf ctx"
  shows "length (pending (norm_full ctx)) = 64" and "unat (pending_len (norm_full ctx)) < 64"
proof -
  show "length (pending (norm_full ctx)) = 64"
    using assms by (simp add: norm_full_def blake3_wf_def)
  have "unat (pending_len ctx) < 64" if "pending_len ctx \<noteq> 64"
    using assms that by (simp add: blake3_wf_def BLOCK_LEN_def word_le_nat_alt word_unat_eq_iff)
  then show "unat (pending_len (norm_full ctx)) < 64"
    by (simp add: norm_full_def BLOCK_LEN_def)
qed

lemma absorb_norm_full: "absorb_byte b (norm_full ctx) = absorb_byte b ctx"
  by (simp add: absorb_byte_def norm_full_def BLOCK_LEN_def Let_def)

lemma fold_absorb_room:
  assumes "length (pending ctx) = 64" and "unat (pending_len ctx) + length ds \<le> 64"
  shows "fold absorb_byte ds ctx =
    ctx\<lparr>pending := take (unat (pending_len ctx)) (pending ctx) @ ds
          @ drop (unat (pending_len ctx) + length ds) (pending ctx),
        pending_len := pending_len ctx + of_nat (length ds)\<rparr>"
  using assms
proof (induction ds arbitrary: ctx)
  case (Cons b ds)
  let ?p = "unat (pending_len ctx)"
  from Cons.prems have p: "?p < 64" by simp
  then have ne: "pending_len ctx \<noteq> BLOCK_LEN" by (auto simp: BLOCK_LEN_def)
  have p1: "unat (pending_len ctx + 1) = ?p + 1"
    using p by (simp add: unat_word_ariths)
  have upd: "(pending ctx)[?p := b] = take ?p (pending ctx) @ b # drop (Suc ?p) (pending ctx)"
    using p Cons.prems(1) by (intro upd_conv_take_nth_drop) simp
  have "fold absorb_byte (b # ds) ctx = fold absorb_byte ds
     (ctx\<lparr>pending := (pending ctx)[?p := b], pending_len := pending_len ctx + 1\<rparr>)"
    using ne by (simp add: absorb_byte_def)
  also have "\<dots> = ctx\<lparr>pending := take (?p + 1) ((pending ctx)[?p := b]) @ ds
          @ drop (?p + 1 + length ds) ((pending ctx)[?p := b]),
        pending_len := pending_len ctx + 1 + of_nat (length ds)\<rparr>"
    using Cons.prems p1 by (subst Cons.IH) simp_all
  finally show ?case
    using p Cons.prems(1) by (simp add: upd add.assoc add.commute [of "length ds"])
qed simp

lemma update_step_absorb:
  assumes "blake3_wf ctx" and "data \<noteq> []"
  shows "fst (update_step ctx data) = fold absorb_byte (take (snd (update_step ctx data)) data) ctx"
proof -
  let ?c = "norm_full ctx"
  let ?p = "unat (pending_len ?c)"
  let ?n = "min (length data) (64 - ?p)"
  note room = wf_norm_full [OF assms(1)]
  have sp: "unat (64 - pending_len ?c) = 64 - ?p"
    using room(2) by (simp add: unat_sub word_le_nat_alt)
  have step: "update_step ctx data = (?c\<lparr>pending := take ?p (pending ?c) @ take ?n data
      @ drop (?p + ?n) (pending ?c), pending_len := pending_len ?c + of_nat ?n\<rparr>, ?n)"
    unfolding update_step_def norm_full_def [symmetric] Let_def by (simp add: BLOCK_LEN_def sp)
  have "fold absorb_byte (take ?n data) ctx = fold absorb_byte (take ?n data) ?c"
    using assms(2) room(2) by (cases data) (auto simp: absorb_norm_full take_Cons split: nat.splits)
  also have "\<dots> = fst (update_step ctx data)"
    using room by (subst fold_absorb_room) (auto simp: step min_def)
  finally show ?thesis by (simp add: step)
qed

lemma wf_absorb: "blake3_wf ctx \<Longrightarrow> blake3_wf (absorb_byte b ctx)"
proof -
  assume wf: "blake3_wf ctx"
  note room = wf_norm_full [OF wf]
  have "absorb_byte b ctx = (norm_full ctx)\<lparr>pending := (pending (norm_full ctx))[unat (pending_len (norm_full ctx)) := b],
             pending_len := pending_len (norm_full ctx) + 1\<rparr>"
    by (simp add: absorb_byte_def norm_full_def Let_def)
  then show ?thesis
    using room by (simp add: blake3_wf_def BLOCK_LEN_def word_le_nat_alt unat_word_ariths)
qed

lemma wf_fold_absorb: "blake3_wf ctx \<Longrightarrow> blake3_wf (fold absorb_byte ds ctx)"
  by (induction ds arbitrary: ctx) (simp_all add: wf_absorb)

lemma blake3_update_absorb:
  "blake3_wf ctx \<Longrightarrow> blake3_update ctx data = fold absorb_byte data ctx"
proof (induction ctx data rule: blake3_update.induct)
  case (1 ctx data)
  show ?case
  proof (cases "data = []")
    case False
    let ?n = "snd (update_step ctx data)"
    have "blake3_update ctx data = blake3_update (fst (update_step ctx data)) (drop ?n data)"
      using False by (subst blake3_update.simps) simp
    also have "\<dots> = fold absorb_byte (drop ?n data) (fold absorb_byte (take ?n data) ctx)"
      using 1 False by (simp add: update_step_absorb wf_fold_absorb)
    also have "\<dots> = fold absorb_byte data ctx"
      by (metis append_take_drop_id comp_apply fold_append)
    finally show ?thesis .
  qed (simp add: blake3_update.simps)
qed

lemma ctx_eqv_words:
  assumes "ctx_eqv c d"
  shows "block_words c = block_words d"
proof -
  have "pending_len c = pending_len d"
    and "take (unat (pending_len c)) (pending c) = take (unat (pending_len d)) (pending d)"
    using assms unfolding ctx_eqv_def by blast+
  then show ?thesis unfolding block_words_def Let_def by (simp only:)
qed

lemma ctx_eqv_norm: "ctx_eqv c d \<Longrightarrow> ctx_eqv (norm_full c) (norm_full d)"
  using ctx_eqv_words [of c d]
  by (auto simp: ctx_eqv_def norm_full_def blake3_compress_intermediate_def Let_def blake3_wf_def)

lemma ctx_eqv_absorb:
  assumes "ctx_eqv c d"
  shows "ctx_eqv (absorb_byte b c) (absorb_byte b d)"
proof -
  let ?c = "norm_full c" and ?d = "norm_full d"
  have eqv: "ctx_eqv ?c ?d" using assms by (rule ctx_eqv_norm)
  have wf: "blake3_wf c" "blake3_wf d" using assms by (simp_all add: ctx_eqv_def)
  note room = wf_norm_full [OF wf(1)] wf_norm_full [OF wf(2)]
  have form: "absorb_byte b x = (norm_full x)\<lparr>pending := (pending (norm_full x))[unat (pending_len (norm_full x)) := b],
             pending_len := pending_len (norm_full x) + 1\<rparr>" for x
    by (simp add: absorb_byte_def norm_full_def Let_def)
  have one: "unat (pending_len ?c + 1) = Suc (unat (pending_len ?c))"
    using room by (simp add: unat_word_ariths)
  show ?thesis
    using eqv wf_absorb [OF wf(1), of b] wf_absorb [OF wf(2), of b] room one
    by (auto simp: ctx_eqv_def form take_Suc_conv_app_nth)
qed

lemma ctx_eqv_fold: "ctx_eqv c d \<Longrightarrow> ctx_eqv (fold absorb_byte ds c) (fold absorb_byte ds d)"
  by (induction ds arbitrary: c d) (simp_all add: ctx_eqv_absorb)

lemma ctx_eqv_final: "ctx_eqv c d \<Longrightarrow> blake3_final c = blake3_final d"
  using ctx_eqv_words [of c d] by (auto simp: ctx_eqv_def blake3_final_def)

lemma wf_init: "length stack = 64 \<Longrightarrow> blake3_wf (blake3_init stack)"
  by (simp add: blake3_init_def blake3_wf_def BLOCK_LEN_def)

lemma blake3_hash_stack:
  "length stack = 64 \<Longrightarrow> length stack' = 64 \<Longrightarrow> blake3_hash stack input = blake3_hash stack' input"
  unfolding blake3_hash_def
  by (auto simp: blake3_update_absorb wf_init intro!: ctx_eqv_final ctx_eqv_fold)
     (simp add: ctx_eqv_def wf_init, simp add: blake3_init_def)

lemma length_compress [simp]: "length (compress cv b c l f) = 16"
  by (simp add: compress_def Let_def)

lemma length_blake3_final [simp]: "length (blake3_final ctx) = 32"
proof -
  have "length (concat (map (le_bytes 4) (xs :: u32 list))) = 4 * length xs" for xs
    by (induction xs) auto
  then show ?thesis by (simp add: blake3_final_def Let_def)
qed

subsection \<open>Properties\<close>

text \<open>
  C5.  Streaming: absorbing the input in any two pieces gives the context, hence the digest, that
  absorbing it at once gives.
\<close>
theorem blake3_update_append:
  assumes "blake3_wf ctx"
  shows "blake3_update (blake3_update ctx xs) ys = blake3_update ctx (xs @ ys)"
  using assms by (simp add: blake3_update_absorb wf_fold_absorb)

theorem blake3_update_append_witness:
  "blake3_update (blake3_update (blake3_init (replicate 64 7)) [1, 2]) [3]
     = blake3_update (blake3_init (replicate 64 7)) [1, 2, 3]"
  using blake3_update_append [of "blake3_init (replicate 64 7)" "[1, 2]" "[3]"] by (simp add: wf_init)

text \<open>
  \<^verbatim>\<open>blake3_init\<close> leaves the 64 pending bytes of a stack context uninitialised; the digest is 32
  bytes long and does not depend on them.
\<close>
lemma blake3_hash_ignores_stack:
  assumes "length stack = 64" and "length stack' = 64"
  shows "blake3_hash stack input = blake3_hash stack' input \<and> length (blake3_hash stack input) = 32"
  using blake3_hash_stack [OF assms] by (simp add: blake3_hash_def)

end
