(* ===== verification/Allocator.thy ===== *)
theory Allocator
  imports Kernel_Prelude
begin

text \<open>
  The interface of a byte allocator, as the kernel's clients rely on it: blocks in use are
  disjoint, an allocation adds one block of at least the size asked for, releasing a block
  removes it, neither changes a byte of another block in use, and a client may write what it
  likes inside the blocks it holds.
\<close>

definition same_on :: "(nat \<times> nat) set \<Rightarrow> mem \<Rightarrow> mem \<Rightarrow> bool" where
  "same_on S m m' \<longleftrightarrow> (\<forall>p n x. (p, n) \<in> S \<longrightarrow> p \<le> unat x \<longrightarrow> unat x < p + n \<longrightarrow> m' x = m x)"

definition writes_within :: "(nat \<times> nat) set \<Rightarrow> mem \<Rightarrow> mem \<Rightarrow> bool" where
  "writes_within S m m' \<longleftrightarrow> (\<forall>x. m' x \<noteq> m x \<longrightarrow> (\<exists>p n. (p, n) \<in> S \<and> p \<le> unat x \<and> unat x < p + n))"

lemma same_on_refl [simp]: "same_on S m m"
  by (simp add: same_on_def)

lemma same_on_trans: "same_on S m m' \<Longrightarrow> same_on S m' m'' \<Longrightarrow> same_on S m m''"
  by (simp add: same_on_def)

lemma same_on_subset: "same_on S m m' \<Longrightarrow> T \<subseteq> S \<Longrightarrow> same_on T m m'"
  unfolding same_on_def by blast

lemma same_onD: "same_on S m m' \<Longrightarrow> (p, n) \<in> S \<Longrightarrow> p \<le> unat x \<Longrightarrow> unat x < p + n \<Longrightarrow> m' x = m x"
  unfolding same_on_def by blast

lemma same_on_ld:
  assumes "same_on S m m'" and "(p, n) \<in> S" and "p \<le> a" and "a + k \<le> p + n" and "p + n \<le> 2 ^ 64"
  shows "ld k m' (of_nat a) = ld k m (of_nat a)"
  using assms by (intro ld_cong_range) (auto elim!: same_onD)

locale allocator =
  fixes inv :: "'h \<Rightarrow> bool"
    and used :: "'h \<Rightarrow> (nat \<times> nat) set"
    and bytes :: "'h \<Rightarrow> mem"
    and poke :: "mem \<Rightarrow> 'h \<Rightarrow> 'h"
    and alloc :: "'h \<Rightarrow> u64 \<Rightarrow> (u64 \<times> 'h) option"
    and release :: "'h \<Rightarrow> u64 \<Rightarrow> 'h option"
  assumes used_range: "inv h \<Longrightarrow> (p, n) \<in> used h \<Longrightarrow> 0 < p \<and> p + n < 2 ^ 64"
    and used_disjoint: "inv h \<Longrightarrow> (p, n) \<in> used h \<Longrightarrow> (q, k) \<in> used h \<Longrightarrow>
          (p, n) = (q, k) \<or> p + n \<le> q \<or> q + k \<le> p"
    and bytes_poke [simp]: "bytes (poke m h) = m"
    and poke_ok: "inv h \<Longrightarrow> writes_within (used h) (bytes h) m \<Longrightarrow> inv (poke m h) \<and> used (poke m h) = used h"
    and alloc_ok: "inv h \<Longrightarrow> \<exists>p h'. alloc h sz = Some (p, h') \<and> inv h' \<and> same_on (used h) (bytes h) (bytes h')
          \<and> (p = 0 \<and> h' = h \<or>
             (\<exists>n. p \<noteq> 0 \<and> unat sz \<le> n \<and> (unat p, n) \<notin> used h \<and> used h' = insert (unat p, n) (used h)))"
    and release_ok: "inv h \<Longrightarrow> (unat ptr, n) \<in> used h \<Longrightarrow> \<exists>h'. release h ptr = Some h' \<and> inv h'
          \<and> used h' = used h - {(unat ptr, n)} \<and> same_on (used h') (bytes h) (bytes h')"
begin

lemma alloc_cases:
  assumes "inv h"
  obtains (fail) "alloc h sz = Some (0, h)"
  | (ok) p h' n where "alloc h sz = Some (p, h')" "inv h'" "p \<noteq> 0" "unat sz \<le> n"
      "used h' = insert (unat p, n) (used h)" "(unat p, n) \<notin> used h" "same_on (used h) (bytes h) (bytes h')"
  using alloc_ok [OF assms, of sz] by blast

text \<open>A fresh block overlaps no block already in use.\<close>

lemma alloc_fresh:
  assumes "inv h" and "alloc h sz = Some (p, h')" and "p \<noteq> 0" and "(q, k) \<in> used h"
  shows "\<exists>n. unat sz \<le> n \<and> (unat p, n) \<in> used h' \<and> (unat p + n \<le> q \<or> q + k \<le> unat p)"
  using assms(1)
proof (cases rule: alloc_cases [where sz = sz])
  case fail
  with assms show ?thesis by simp
next
  case (ok p' h'' n)
  with assms(2) have "p' = p" "h'' = h'" by auto
  with ok assms(4) used_disjoint [of h' "unat p" n q k] show ?thesis by auto
qed

text \<open>Releasing what was just allocated gives back the blocks and the bytes there were before.\<close>

lemma alloc_release:
  assumes "inv h" and "alloc h sz = Some (p, h')" and "p \<noteq> 0"
  shows "\<exists>h''. release h' p = Some h'' \<and> inv h'' \<and> used h'' = used h \<and> same_on (used h) (bytes h) (bytes h'')"
  using assms(1)
proof (cases rule: alloc_cases [where sz = sz])
  case fail
  with assms show ?thesis by simp
next
  case (ok p' h1 n)
  with assms(2) have eq: "p' = p" "h1 = h'" by auto
  with ok release_ok [of h' p n] obtain h'' where r: "release h' p = Some h''" "inv h''"
    "used h'' = used h' - {(unat p, n)}" "same_on (used h'') (bytes h') (bytes h'')" by auto
  have u: "used h'' = used h" using r(3) ok(5,6) eq by auto
  moreover have "same_on (used h) (bytes h) (bytes h'')"
    using ok(7) r(4) unfolding eq u by (rule same_on_trans)
  ultimately show ?thesis using r(1,2) by blast
qed

text \<open>Writing inside one block in use leaves the others as they are.\<close>

lemma poke_block:
  assumes "inv h" and "(p, n) \<in> used h"
    and "\<And>x. m x \<noteq> bytes h x \<Longrightarrow> p \<le> unat x \<and> unat x < p + n"
  shows "inv (poke m h)" "used (poke m h) = used h" "same_on (used h - {(p, n)}) (bytes h) m"
proof -
  have w: "writes_within (used h) (bytes h) m"
    using assms(2,3) unfolding writes_within_def by blast
  then show "inv (poke m h)" "used (poke m h) = used h" using poke_ok [OF assms(1)] by auto
  show "same_on (used h - {(p, n)}) (bytes h) m"
    unfolding same_on_def
  proof (intro allI impI)
    fix q k and x :: u64
    assume q: "(q, k) \<in> used h - {(p, n)}" and x: "q \<le> unat x" "unat x < q + k"
    show "m x = bytes h x"
    proof (rule ccontr)
      assume "m x \<noteq> bytes h x"
      with assms(3) have "p \<le> unat x" "unat x < p + n" by auto
      with x q used_disjoint [OF assms(1,2), of q k] show False by auto
    qed
  qed
qed

text \<open>
  Moving a block to a larger one: allocate, copy, release the old block.  The bytes copied
  arrive, and every other block in use keeps its own.
\<close>

lemma grow_block:
  assumes i: "inv h" and old: "(unat old, k) \<in> used h" and al: "alloc h sz = Some (p, h1)" and nz: "p \<noteq> 0"
    and len: "unat len \<le> unat sz" "unat len \<le> k"
  shows "\<exists>h3 n. release (poke (mem_copy (bytes h1) p old len) h1) old = Some h3 \<and> inv h3 \<and> unat sz \<le> n
    \<and> used h3 = insert (unat p, n) (used h - {(unat old, k)}) \<and> (unat p, n) \<notin> used h
    \<and> (\<forall>j < unat len. bytes h3 (p + of_nat j) = bytes h (old + of_nat j))
    \<and> same_on (used h - {(unat old, k)}) (bytes h) (bytes h3)"
proof -
  let ?m = "mem_copy (bytes h1) p old len"
  from i obtain n where n: "inv h1" "unat sz \<le> n" "used h1 = insert (unat p, n) (used h)"
    "(unat p, n) \<notin> used h" "same_on (used h) (bytes h) (bytes h1)"
  proof (cases rule: alloc_cases [where sz = sz])
    case (ok p' h' n)
    with al that [of n] show ?thesis by auto
  qed (use al nz in simp)
  have pn: "unat p + n < 2 ^ 64" "unat old + k < 2 ^ 64"
    using used_range [OF n(1), of "unat p" n] used_range [OF i old] n(3) by simp_all
  have ch: "unat p \<le> unat x \<and> unat x < unat p + n" if "?m x \<noteq> bytes h1 x" for x
    using mem_copy_changed [OF _ that] pn(1) n(2) len(1) by simp
  have "(unat p, n) \<in> used h1" using n(3) by simp
  note pk = poke_block [where m = "mem_copy (bytes h1) p old len", OF n(1) this ch]
  let ?h2 = "poke ?m h1"
  have "(unat old, k) \<in> used ?h2" using pk(2) n(3) old by simp
  from release_ok [OF pk(1) this] obtain h3 where h3: "release ?h2 old = Some h3" "inv h3"
    "used h3 = used ?h2 - {(unat old, k)}" "same_on (used h3) ?m (bytes h3)" by auto
  have ne: "(unat p, n) \<noteq> (unat old, k)" using n(4) old by auto
  have u3: "used h3 = insert (unat p, n) (used h - {(unat old, k)})"
    using h3(3) pk(2) n(3) ne by auto
  have "bytes h3 (p + of_nat j) = bytes h (old + of_nat j)" if j: "j < unat len" for j
  proof -
    have "unat (p + of_nat j) = unat p + j" "unat (old + of_nat j) = unat old + j"
      using j pn len n(2) by (intro unat_add_small; simp)+
    then have "bytes h3 (p + of_nat j) = ?m (p + of_nat j)"
      and "bytes h1 (old + of_nat j) = bytes h (old + of_nat j)"
      using j len n(2) by (auto intro: same_onD [OF h3(4)] same_onD [OF n(5) old] simp: u3)
    with j show ?thesis by (simp add: mem_copy_inside)
  qed
  moreover have "same_on (used h - {(unat old, k)}) (bytes h) (bytes h3)"
  proof (rule same_on_trans [OF same_on_trans])
    show "same_on (used h - {(unat old, k)}) (bytes h) (bytes h1)"
      by (rule same_on_subset [OF n(5)]) blast
    show "same_on (used h - {(unat old, k)}) (bytes h1) ?m"
      by (rule same_on_subset [OF pk(3)]) (use n(3,4) in auto)
    show "same_on (used h - {(unat old, k)}) ?m (bytes h3)"
      by (rule same_on_subset [OF h3(4)]) (auto simp: u3)
  qed
  ultimately show ?thesis using h3(1,2) n(2,4) u3 by blast
qed

end

end
