(* ===== verification/Kmalloc.thy ===== *)
theory Kmalloc
  imports Allocator
begin

text \<open>
  The kernel heap (\<^verbatim>\<open>kernel/mm/kmalloc.c\<close>): a first-fit allocator whose block headers live
  in the heap memory itself, chained by \<^verbatim>\<open>next\<close> pointers.  The model works on the byte
  memory, as the C code does.  The abstract heap is the list of blocks that tile the heap.
  \<^verbatim>\<open>kmalloc\<close> and \<^verbatim>\<open>kfree\<close> hold \<^verbatim>\<open>g_heap_lock\<close> with interrupts off from the first header
  they read to the last they write, so each is one atomic step.
\<close>

definition HEADER_SIZE :: u64 where "HEADER_SIZE = 32"
definition MIN_ALLOC :: u64 where "MIN_ALLOC = 16"
definition HEAP_MAGIC :: u64 where "HEAP_MAGIC = 0xE7F00D1DEADBEEF"

definition ALIGN_UP :: "u64 \<Rightarrow> u64 \<Rightarrow> u64" where
  "ALIGN_UP x a = (x + a - 1) AND NOT (a - 1)"

text \<open>The fields of \<^verbatim>\<open>block_header_t\<close> at their offsets: magic 0, size 8, free 16, next 24.\<close>

definition hdr_magic :: "mem \<Rightarrow> u64 \<Rightarrow> u64" where "hdr_magic m h = ld 8 m h"
definition hdr_size :: "mem \<Rightarrow> u64 \<Rightarrow> u64" where "hdr_size m h = ld 8 m (h + 8)"
definition hdr_free :: "mem \<Rightarrow> u64 \<Rightarrow> u8" where "hdr_free m h = ld 1 m (h + 16)"
definition hdr_next :: "mem \<Rightarrow> u64 \<Rightarrow> u64" where "hdr_next m h = ld 8 m (h + 24)"

definition set_magic :: "u64 \<Rightarrow> u64 \<Rightarrow> mem \<Rightarrow> mem" where "set_magic h v m = st 8 m h v"
definition set_size :: "u64 \<Rightarrow> u64 \<Rightarrow> mem \<Rightarrow> mem" where "set_size h v m = st 8 m (h + 8) v"
definition set_free :: "u64 \<Rightarrow> u8 \<Rightarrow> mem \<Rightarrow> mem" where "set_free h v m = st 1 m (h + 16) v"
definition set_next :: "u64 \<Rightarrow> u64 \<Rightarrow> mem \<Rightarrow> mem" where "set_next h v m = st 8 m (h + 24) v"

record heap =
  h_mem :: mem
  g_heap_head :: u64
  g_heap_start :: u64
  g_heap_end :: u64

definition kmalloc_init :: "u64 \<Rightarrow> u64 \<Rightarrow> mem \<Rightarrow> heap" where
  "kmalloc_init heap_start heap_size m =
     \<lparr>h_mem = set_next heap_start 0 (set_free heap_start 1
        (set_size heap_start (heap_size - HEADER_SIZE) (set_magic heap_start HEAP_MAGIC m))),
      g_heap_head = heap_start, g_heap_start = heap_start, g_heap_end = heap_start + heap_size\<rparr>"

definition in_heap :: "heap \<Rightarrow> u64 \<Rightarrow> bool" where
  "in_heap H p \<longleftrightarrow> g_heap_start H \<le> p \<and> p < g_heap_end H"

definition valid_hdr :: "heap \<Rightarrow> mem \<Rightarrow> u64 \<Rightarrow> bool" where
  "valid_hdr H m h \<longleftrightarrow> h \<noteq> 0 \<and> in_heap H h \<and> hdr_magic m h = HEAP_MAGIC \<and> 0 < hdr_size m h"

text \<open>The body of the \<^verbatim>\<open>if (cur->free && cur->size >= size)\<close> branch of \<^verbatim>\<open>kmalloc\<close>.\<close>

definition kmalloc_take :: "heap \<Rightarrow> u64 \<Rightarrow> u64 \<Rightarrow> mem \<Rightarrow> u64 \<times> mem" where
  "kmalloc_take H sz cur m =
     (let remaining = hdr_size m cur - sz in
      if HEADER_SIZE + MIN_ALLOC \<le> remaining then
        (let split = cur + HEADER_SIZE + sz in
         if \<not> in_heap H split then (0, m)
         else
           (let m = set_magic split HEAP_MAGIC m;
                m = set_size split (remaining - HEADER_SIZE) m;
                m = set_free split 1 m;
                m = set_next split (hdr_next m cur) m;
                m = set_next cur split m;
                m = set_size cur sz m;
                m = set_free cur 0 m
            in (cur + HEADER_SIZE, m)))
      else (cur + HEADER_SIZE, set_free cur 0 m))"

partial_function (option) kmalloc_scan ::
    "heap \<Rightarrow> u64 \<Rightarrow> u64 \<Rightarrow> mem \<Rightarrow> (u64 \<times> mem) option" where
  "kmalloc_scan H sz cur m =
     (if cur = 0 then Some (0, m)
      else if \<not> valid_hdr H m cur then Some (0, m)
      else if hdr_free m cur \<noteq> 0 \<and> sz \<le> hdr_size m cur then Some (kmalloc_take H sz cur m)
      else kmalloc_scan H sz (hdr_next m cur) m)"

definition kmalloc :: "heap \<Rightarrow> u64 \<Rightarrow> (u64 \<times> heap) option" where
  "kmalloc H sz =
     (if sz = 0 \<or> g_heap_head H = 0 then Some (0, H)
      else if g_heap_end H - g_heap_start H < sz then Some (0, H)
      else
        (let sz = ALIGN_UP sz 16;
             sz = (if sz < MIN_ALLOC then MIN_ALLOC else sz)
         in map_option (\<lambda>(p, m). (p, H\<lparr>h_mem := m\<rparr>))
              (kmalloc_scan H sz (g_heap_head H) (h_mem H))))"

definition kzalloc :: "heap \<Rightarrow> u64 \<Rightarrow> (u64 \<times> heap) option" where
  "kzalloc H sz =
     map_option (\<lambda>(p, H). (p, if p \<noteq> 0 then H\<lparr>h_mem := mem_set (h_mem H) p 0 sz\<rparr> else H))
       (kmalloc H sz)"

partial_function (option) kfree_coalesce :: "heap \<Rightarrow> u64 \<Rightarrow> mem \<Rightarrow> mem option" where
  "kfree_coalesce H cur m =
     (if cur = 0 \<or> hdr_next m cur = 0 then Some m
      else if \<not> valid_hdr H m cur \<or> \<not> valid_hdr H m (hdr_next m cur) then Some m
      else if hdr_free m cur \<noteq> 0 \<and> hdr_free m (hdr_next m cur) \<noteq> 0 then
        kfree_coalesce H cur
          (set_next cur (hdr_next m (hdr_next m cur))
            (set_size cur (hdr_size m cur + (HEADER_SIZE + hdr_size m (hdr_next m cur))) m))
      else kfree_coalesce H (hdr_next m cur) m)"

definition kfree :: "heap \<Rightarrow> u64 \<Rightarrow> heap option" where
  "kfree H ptr =
     (if ptr = 0 then Some H
      else if \<not> in_heap H ptr then Some H
      else
        (let hdr = ptr - HEADER_SIZE in
         if \<not> valid_hdr H (h_mem H) hdr then Some H
         else if hdr_free (h_mem H) hdr \<noteq> 0 then Some H
         else map_option (\<lambda>m. H\<lparr>h_mem := m\<rparr>)
                (kfree_coalesce H (g_heap_head H) (set_free hdr 1 (h_mem H)))))"

partial_function (option) total_used_scan :: "heap \<Rightarrow> u64 \<Rightarrow> u64 \<Rightarrow> u64 option" where
  "total_used_scan H cur used =
     (if cur \<noteq> 0 \<and> valid_hdr H (h_mem H) cur
      then total_used_scan H (hdr_next (h_mem H) cur)
             (if hdr_free (h_mem H) cur = 0 then used + hdr_size (h_mem H) cur else used)
      else Some used)"

definition kmalloc_total_used :: "heap \<Rightarrow> u64 option" where
  "kmalloc_total_used H = total_used_scan H (g_heap_head H) 0"

subsection \<open>The abstract heap\<close>

text \<open>A block is its header address, its payload size and whether it is free.\<close>

type_synonym block = "nat \<times> nat \<times> bool"

text \<open>First fit on the block list; the address returned is that of the payload.\<close>

fun alloc_blocks :: "nat \<Rightarrow> block list \<Rightarrow> (nat \<times> block list) option" where
  "alloc_blocks n [] = None"
| "alloc_blocks n ((a, s, f) # bs) =
     (if f \<and> n \<le> s then
        Some (a + 32, if 48 \<le> s - n then (a, n, False) # (a + 32 + n, s - n - 32, True) # bs
                      else (a, s, False) # bs)
      else map_option (\<lambda>(p, bs'). (p, (a, s, f) # bs')) (alloc_blocks n bs))"

fun coalesce_blocks :: "block list \<Rightarrow> block list" where
  "coalesce_blocks ((a, s, f) # (b, t, g) # bs) =
     (if f \<and> g then coalesce_blocks ((a, s + (32 + t), True) # bs)
      else (a, s, f) # coalesce_blocks ((b, t, g) # bs))"
| "coalesce_blocks [x] = [x]"
| "coalesce_blocks [] = []"

definition mark_free :: "nat \<Rightarrow> block list \<Rightarrow> block list" where
  "mark_free h bs = map (\<lambda>(a, s, f). (a, s, f \<or> a = h)) bs"

definition free_blocks :: "nat \<Rightarrow> block list \<Rightarrow> block list" where
  "free_blocks h bs = coalesce_blocks (mark_free h bs)"

text \<open>The memory holds exactly the headers of these blocks, chained in order.\<close>

fun chain :: "mem \<Rightarrow> u64 \<Rightarrow> block list \<Rightarrow> bool" where
  "chain m p [] \<longleftrightarrow> p = 0"
| "chain m p ((a, s, f) # bs) \<longleftrightarrow>
     p = of_nat a \<and> hdr_magic m (of_nat a) = HEAP_MAGIC \<and> hdr_size m (of_nat a) = of_nat s
     \<and> (hdr_free m (of_nat a) \<noteq> 0 \<longleftrightarrow> f) \<and> chain m (hdr_next m (of_nat a)) bs"

text \<open>The blocks tile the addresses from \<open>lo\<close> to \<open>hi\<close>: no gap, no overlap.\<close>

fun tiles :: "nat \<Rightarrow> block list \<Rightarrow> nat \<Rightarrow> bool" where
  "tiles lo [] hi \<longleftrightarrow> lo = hi"
| "tiles lo ((a, s, f) # bs) hi \<longleftrightarrow> lo = a \<and> 16 \<le> s \<and> tiles (a + 32 + s) bs hi"

text \<open>Every payload but the last has a size that is a multiple of 16.\<close>

fun aligned :: "block list \<Rightarrow> bool" where
  "aligned [] \<longleftrightarrow> True"
| "aligned [x] \<longleftrightarrow> True"
| "aligned ((a, s, f) # y # bs) \<longleftrightarrow> 16 dvd s \<and> aligned (y # bs)"

fun coalesced :: "block list \<Rightarrow> bool" where
  "coalesced ((a, s, f) # (b, t, g) # bs) \<longleftrightarrow> \<not> (f \<and> g) \<and> coalesced ((b, t, g) # bs)"
| "coalesced bs \<longleftrightarrow> True"

definition heap_rel :: "heap \<Rightarrow> block list \<Rightarrow> bool" where
  "heap_rel H bs \<longleftrightarrow>
     chain (h_mem H) (g_heap_head H) bs \<and> tiles (unat (g_heap_start H)) bs (unat (g_heap_end H))
     \<and> bs \<noteq> [] \<and> aligned bs \<and> coalesced bs
     \<and> 0 < unat (g_heap_start H) \<and> 16 dvd unat (g_heap_start H)"

text \<open>
  \<open>heap_bounds\<close>: the part of the heap from \<open>lo\<close> on, used in the induction along the chain.
  \<open>live\<close>: the payloads in use, as pairs of address and size; \<open>round16\<close> is the size \<^verbatim>\<open>kmalloc\<close>
  serves a request with.
\<close>

definition heap_bounds :: "heap \<Rightarrow> nat \<Rightarrow> nat \<Rightarrow> bool" where
  "heap_bounds H lo hi \<longleftrightarrow> 0 < lo \<and> unat (g_heap_start H) \<le> lo \<and> hi = unat (g_heap_end H)"

definition heap_inv :: "heap \<Rightarrow> bool" where
  "heap_inv H \<longleftrightarrow> (\<exists>bs. heap_rel H bs)"

definition live :: "heap \<Rightarrow> (nat \<times> nat) set" where
  "live H = {(p, n). \<exists>bs a. heap_rel H bs \<and> (a, n, False) \<in> set bs \<and> p = a + 32}"

definition round16 :: "nat \<Rightarrow> nat" where "round16 n = (n + 15) div 16 * 16"

definition changed_free :: "mem \<Rightarrow> mem \<Rightarrow> block list \<Rightarrow> bool" where
  "changed_free m m' bs \<longleftrightarrow>
     (\<forall>x. m' x \<noteq> m x \<longrightarrow> (\<exists>(a, s, f) \<in> set bs. f \<and> a \<le> unat x \<and> unat x < a + 32 + s))"

text \<open>
  The heaps a client can bring about: it allocates, frees blocks it holds, and writes inside
  blocks it holds.
\<close>

inductive heap_reach :: "heap \<Rightarrow> heap \<Rightarrow> bool" for H0 where
  start: "heap_reach H0 H0"
| alloc: "heap_reach H0 H \<Longrightarrow> kmalloc H sz = Some (p, H') \<Longrightarrow> heap_reach H0 H'"
| free: "heap_reach H0 H \<Longrightarrow> (unat p, n) \<in> live H \<Longrightarrow> kfree H p = Some H' \<Longrightarrow> heap_reach H0 H'"
| wr: "heap_reach H0 H \<Longrightarrow> writes_within (live H) (h_mem H) m \<Longrightarrow> heap_reach H0 (H\<lparr>h_mem := m\<rparr>)"

subsection \<open>Header fields\<close>

lemma ld_st_off [mem_simps]:
  assumes "a + unat i + n \<le> b + unat j \<or> b + unat j + k \<le> a + unat i"
    and "a + unat i + n \<le> 2 ^ 64" and "b + unat j + k \<le> 2 ^ 64" and "0 < n" and "0 < k"
  shows "ld k (st n m (of_nat a + i) v) (of_nat b + j) = ld k m (of_nat b + j)"
  using ld_st_nat [of "a + unat i" n "b + unat j" k m v] assms by simp

lemmas ld_st_off0 [mem_simps] =
  ld_st_off [where i = 0, simplified] ld_st_off [where j = 0, simplified]

lemma ld8_st8_same [simp, mem_simps]: "ld (Suc 0) (st (Suc 0) m a v) a = (v :: u8)"
  using ld_st_same [of 1 m a v] take_bit_length_eq [of v] by simp

lemmas hdr_defs = hdr_magic_def hdr_size_def hdr_free_def hdr_next_def
  set_magic_def set_size_def set_free_def set_next_def

lemma hdr_same:
  assumes "a + 32 \<le> 2 ^ 64"
  shows
    "hdr_magic (set_magic (of_nat a) v m) (of_nat a) = v"
    "hdr_magic (set_size (of_nat a) v m) (of_nat a) = hdr_magic m (of_nat a)"
    "hdr_magic (set_free (of_nat a) w m) (of_nat a) = hdr_magic m (of_nat a)"
    "hdr_magic (set_next (of_nat a) v m) (of_nat a) = hdr_magic m (of_nat a)"
    "hdr_size (set_magic (of_nat a) v m) (of_nat a) = hdr_size m (of_nat a)"
    "hdr_size (set_size (of_nat a) v m) (of_nat a) = v"
    "hdr_size (set_free (of_nat a) w m) (of_nat a) = hdr_size m (of_nat a)"
    "hdr_size (set_next (of_nat a) v m) (of_nat a) = hdr_size m (of_nat a)"
    "hdr_free (set_magic (of_nat a) v m) (of_nat a) = hdr_free m (of_nat a)"
    "hdr_free (set_size (of_nat a) v m) (of_nat a) = hdr_free m (of_nat a)"
    "hdr_free (set_free (of_nat a) w m) (of_nat a) = w"
    "hdr_free (set_next (of_nat a) v m) (of_nat a) = hdr_free m (of_nat a)"
    "hdr_next (set_magic (of_nat a) v m) (of_nat a) = hdr_next m (of_nat a)"
    "hdr_next (set_size (of_nat a) v m) (of_nat a) = hdr_next m (of_nat a)"
    "hdr_next (set_free (of_nat a) w m) (of_nat a) = hdr_next m (of_nat a)"
    "hdr_next (set_next (of_nat a) v m) (of_nat a) = v"
  using assms by (simp_all add: hdr_defs mem_simps)

text \<open>A write inside the header of a block, seen from outside it.\<close>

lemma st_off_outside:
  assumes "a + 32 \<le> 2 ^ 64" and "unat x < a \<or> a + 32 \<le> unat x" and "i + n \<le> 32" and "0 < n"
  shows "st n m (of_nat (a + i)) u x = m x"
  using assms by (intro st_outside) auto

lemma set_outside:
  assumes "a + 32 \<le> 2 ^ 64" and "unat x < a \<or> a + 32 \<le> unat x"
  shows "set_magic (of_nat a) v m x = m x" "set_size (of_nat a) v m x = m x"
    "set_free (of_nat a) w m x = m x" "set_next (of_nat a) v m x = m x"
  using st_off_outside [OF assms, of 0 8 m v] st_off_outside [OF assms, of 8 8 m v]
    st_off_outside [OF assms, of 16 1 m w] st_off_outside [OF assms, of 24 8 m v]
  by (simp_all add: hdr_defs)

lemma hdr_cong:
  assumes "a + 32 \<le> 2 ^ 64" and "\<And>x. a \<le> unat x \<Longrightarrow> unat x < a + 32 \<Longrightarrow> m x = m' x"
  shows "hdr_magic m (of_nat a) = hdr_magic m' (of_nat a)"
    and "hdr_size m (of_nat a) = hdr_size m' (of_nat a)"
    and "hdr_free m (of_nat a) = hdr_free m' (of_nat a)"
    and "hdr_next m (of_nat a) = hdr_next m' (of_nat a)"
proof -
  have "ld n m (of_nat (a + i)) = ld n m' (of_nat (a + i))" if "i + n \<le> 32" for n i
    using assms that by (intro ld_cong_range) auto
  from this [of 0 8] this [of 8 8] this [of 16 1] this [of 24 8]
  show "hdr_magic m (of_nat a) = hdr_magic m' (of_nat a)"
    and "hdr_size m (of_nat a) = hdr_size m' (of_nat a)"
    and "hdr_free m (of_nat a) = hdr_free m' (of_nat a)"
    and "hdr_next m (of_nat a) = hdr_next m' (of_nat a)"
    by (simp_all add: hdr_defs)
qed

subsection \<open>Chains and tilings\<close>

lemma tiles_le: "tiles lo bs hi \<Longrightarrow> lo \<le> hi"
proof (induction bs arbitrary: lo)
  case (Cons b bs)
  obtain a s f where "b = (a, s, f)" by (cases b)
  with Cons.prems Cons.IH [of "a + 32 + s"] show ?case by simp
qed simp

lemma tiles_bounds:
  "tiles lo bs hi \<Longrightarrow> (a, s, f) \<in> set bs \<Longrightarrow> lo \<le> a \<and> a + 32 + s \<le> hi \<and> 16 \<le> s"
proof (induction bs arbitrary: lo)
  case (Cons b bs)
  obtain c t g where "b = (c, t, g)" by (cases b)
  with Cons.prems Cons.IH [of "c + 32 + t"] tiles_le [of "c + 32 + t" bs hi] show ?case by auto
qed simp

lemma chain_cong:
  assumes "\<And>a s f. (a, s, f) \<in> set bs \<Longrightarrow> a + 32 \<le> 2 ^ 64"
    and "\<And>a s f x. (a, s, f) \<in> set bs \<Longrightarrow> a \<le> unat x \<Longrightarrow> unat x < a + 32 \<Longrightarrow> m x = m' x"
  shows "chain m p bs \<longleftrightarrow> chain m' p bs"
  using assms
proof (induction bs arbitrary: p)
  case (Cons b bs)
  obtain a s f where b: "b = (a, s, f)" by (cases b)
  have a: "a + 32 \<le> 2 ^ 64" using Cons.prems(1) [of a s f] by (simp add: b)
  have same: "m x = m' x" if "a \<le> unat x" "unat x < a + 32" for x
    using Cons.prems(2) [of a s f x] that by (simp add: b)
  note eqs = hdr_cong [OF a same]
  have tail: "chain m q bs = chain m' q bs" for q
  proof (rule Cons.IH)
    show "c + 32 \<le> 2 ^ 64" if "(c, t, g) \<in> set bs" for c t g
      using Cons.prems(1) [of c t g] that by simp
    show "m x = m' x" if "(c, t, g) \<in> set bs" "c \<le> unat x" "unat x < c + 32" for c t g x
      using Cons.prems(2) [of c t g x] that by simp
  qed
  show ?case by (cases "p = of_nat a") (simp_all add: b eqs tail)
qed simp

lemma chain_outside:
  assumes "tiles lo bs hi" and "hi < 2 ^ 64" and "chain m p bs"
    and "\<And>x. lo \<le> unat x \<Longrightarrow> unat x < hi \<Longrightarrow> m' x = m x"
  shows "chain m' p bs"
proof -
  have "chain m' p bs \<longleftrightarrow> chain m p bs"
  proof (rule chain_cong)
    fix a s f
    assume "(a, s, f) \<in> set bs"
    then have a: "lo \<le> a" "a + 32 + s \<le> hi" using tiles_bounds [OF assms(1)] by auto
    then show "a + 32 \<le> 2 ^ 64" using assms(2) by simp
    show "m' x = m x" if "a \<le> unat x" "unat x < a + 32" for x
      using a that by (intro assms(4)) simp_all
  qed
  with assms(3) show ?thesis by simp
qed

subsection \<open>The scan refines first fit\<close>

lemma heap_bounds_hi: "heap_bounds H lo hi \<Longrightarrow> hi < 2 ^ 64"
  using unat_u64 [of "g_heap_end H"] by (simp add: heap_bounds_def)

lemma in_heap_nat:
  assumes "heap_bounds H lo hi" and "lo \<le> a" and "a < hi"
  shows "in_heap H (of_nat a)"
  using assms heap_bounds_hi [OF assms(1)]
  by (simp add: heap_bounds_def in_heap_def word_le_nat_alt word_less_nat_alt unat_of_nat64)

lemma valid_hdr_chain:
  assumes "chain m p ((a, s, f) # bs)" and "tiles lo ((a, s, f) # bs) hi" and "heap_bounds H lo hi"
  shows "valid_hdr H m p" and "p \<noteq> 0"
proof -
  have b: "lo = a" "16 \<le> s" "a + 32 + s \<le> hi"
    using assms(2) tiles_le [of "a + 32 + s" bs hi] by auto
  note hi = heap_bounds_hi [OF assms(3)]
  have p: "p = of_nat a" "unat p = a" using assms(1) b hi by (auto simp: unat_of_nat64)
  have "0 < a" using assms(3) b by (simp add: heap_bounds_def)
  then show "p \<noteq> 0" using p(2) by auto
  moreover have "in_heap H p" using in_heap_nat [OF assms(3), of a] b p(1) by simp
  moreover have "hdr_size m p = of_nat s" using assms(1) by simp
  then have "0 < hdr_size m p"
    using b hi by (simp add: word_less_nat_alt unat_of_nat64)
  ultimately show "valid_hdr H m p" using assms(1) by (simp add: valid_hdr_def)
qed

lemma split_cond: "d < 2 ^ 64 \<Longrightarrow> HEADER_SIZE + MIN_ALLOC \<le> (of_nat d :: u64) \<longleftrightarrow> 48 \<le> d"
  by (simp add: HEADER_SIZE_def MIN_ALLOC_def word_le_nat_alt unat_of_nat64)

lemma kmalloc_take_correct:
  assumes ch: "chain m (of_nat a) ((a, n + d, True) # bs)" and ti: "tiles a ((a, n + d, True) # bs) hi"
    and bd: "heap_bounds H a hi"
  shows "\<exists>m'. kmalloc_take H (of_nat n) (of_nat a) m = (of_nat (a + 32), m')
     \<and> chain m' (of_nat a) (if 48 \<le> d then (a, n, False) # (a + 32 + n, d - 32, True) # bs
                              else (a, n + d, False) # bs)
     \<and> (\<forall>x. unat x < a \<or> a + 32 + (n + d) \<le> unat x \<longrightarrow> m' x = m x)"
proof -
  have hi: "hi < 2 ^ 64" and ahi: "a + 32 + (n + d) \<le> hi"
    using heap_bounds_hi [OF bd] ti tiles_le [of "a + 32 + (n + d)" bs hi] by auto
  have ti': "tiles (a + 32 + (n + d)) bs hi" using ti by simp
  have rem: "hdr_size m (of_nat a) - of_nat n = of_nat d"
    using ch by simp
  have cond: "HEADER_SIZE + MIN_ALLOC \<le> (of_nat d :: u64) \<longleftrightarrow> 48 \<le> d"
    using ahi hi by (intro split_cond) simp
  have p: "(of_nat a :: u64) + HEADER_SIZE = of_nat (a + 32)" by (simp add: HEADER_SIZE_def)
  have tail: "chain m' (hdr_next m (of_nat a)) bs"
    if "\<And>x. a + 32 + (n + d) \<le> unat x \<Longrightarrow> m' x = m x" for m'
    by (rule chain_outside [OF ti' hi, of m]) (use ch in simp, rule that)
  have a32: "a + 32 \<le> 2 ^ 64" using ahi hi by simp
  note outa = set_outside [OF a32] and samea = hdr_same [OF a32]
  show ?thesis
  proof (cases "48 \<le> d")
    case False
    let ?m = "set_free (of_nat a) 0 m"
    have "kmalloc_take H (of_nat n) (of_nat a) m = (of_nat (a + 32), ?m)"
      by (simp only: kmalloc_take_def Let_def rem cond False if_False p)
    moreover have "chain ?m (hdr_next m (of_nat a)) bs" by (rule tail) (simp add: outa)
    then have "chain ?m (of_nat a) ((a, n + d, False) # bs)" using ch by (simp add: samea)
    ultimately show ?thesis using False by (auto simp: outa)
  next
    case True
    define b where "b = a + 32 + n"
    have b: "a + 32 \<le> b" "b + 32 \<le> a + 32 + (n + d)"
      using True by (auto simp: b_def)
    have sp: "of_nat (a + 32) + of_nat n = (of_nat b :: u64)"
      by (simp add: b_def)
    have inh: "in_heap H (of_nat b)"
      using b ahi by (intro in_heap_nat [OF bd]) auto
    have sz: "of_nat d - HEADER_SIZE = (of_nat (d - 32) :: u64)"
      using True by (simp add: HEADER_SIZE_def)
    let ?m1 = "set_free (of_nat b) 1 (set_size (of_nat b) (of_nat (d - 32))
                 (set_magic (of_nat b) HEAP_MAGIC m))"
    let ?m2 = "set_next (of_nat b) (hdr_next m (of_nat a)) ?m1"
    let ?m3 = "set_free (of_nat a) 0 (set_size (of_nat a) (of_nat n) (set_next (of_nat a) (of_nat b) ?m2))"
    have b32: "b + 32 \<le> 2 ^ 64" using b ahi hi by auto
    note outb = set_outside [OF b32] and sameb = hdr_same [OF b32]
    have "\<And>x. a \<le> unat x \<Longrightarrow> unat x < a + 32 \<Longrightarrow> ?m2 x = m x"
      and "\<And>x. a \<le> unat x \<Longrightarrow> unat x < a + 32 \<Longrightarrow> ?m1 x = m x"
      using b(1) by (simp_all add: outb)
    note at_a = hdr_cong(1) [OF a32 this(1)] hdr_cong(4) [OF a32 this(2)]
    have take: "kmalloc_take H (of_nat n) (of_nat a) m = (of_nat (a + 32), ?m3)"
      by (simp only: kmalloc_take_def Let_def rem cond True if_True p sp sz inh not_True_eq_False
          if_False at_a(2))
    have "\<And>x. b \<le> unat x \<Longrightarrow> unat x < b + 32 \<Longrightarrow> ?m3 x = ?m2 x"
      using b(1) by (simp add: outa)
    note at_b = hdr_cong [OF b32 this]
    have frame: "?m3 x = m x" if "unat x < a \<or> a + 32 + (n + d) \<le> unat x" for x
      using that b by (auto simp: outa outb)
    have "chain ?m3 (hdr_next m (of_nat a)) bs" by (rule tail) (simp add: frame)
    then have "chain ?m3 (of_nat a) ((a, n, False) # (b, d - 32, True) # bs)"
      using ch by (simp only: chain.simps at_b) (simp add: samea sameb at_a)
    with take True frame show ?thesis by (auto simp: b_def)
  qed
qed

lemma kmalloc_scan_correct:
  assumes "chain m cur bs" and "tiles lo bs hi" and "heap_bounds H lo hi" and "16 \<le> n" and "n < 2 ^ 64"
  shows "case alloc_blocks n bs of
      None \<Rightarrow> kmalloc_scan H (of_nat n) cur m = Some (0, m)
    | Some (q, bs') \<Rightarrow> (\<exists>m'. kmalloc_scan H (of_nat n) cur m = Some (of_nat q, m') \<and> chain m' cur bs'
         \<and> (\<forall>x. m' x \<noteq> m x \<longrightarrow> (\<exists>(a, s, f) \<in> set bs. f \<and> a \<le> unat x \<and> unat x < a + 32 + s)))"
  using assms(1-3)
proof (induction bs arbitrary: cur lo)
  case Nil
  then show ?case by (simp add: kmalloc_scan.simps)
next
  case (Cons b bs)
  obtain a s f where b: "b = (a, s, f)" by (cases b)
  have cur: "cur = of_nat a" and lo: "lo = a" and s: "16 \<le> s" "a + 32 + s \<le> hi" and hi: "hi < 2 ^ 64"
    using Cons.prems tiles_le [of "a + 32 + s" bs hi] heap_bounds_hi by (auto simp: b)
  have valid: "valid_hdr H m cur" "cur \<noteq> 0"
    using valid_hdr_chain [OF Cons.prems [unfolded b]] by auto
  have fit: "hdr_free m cur \<noteq> 0 \<and> of_nat n \<le> hdr_size m cur \<longleftrightarrow> f \<and> n \<le> s"
    using Cons.prems(1) s hi assms(5) by (simp add: b word_le_nat_alt unat_of_nat64)
  note unf = kmalloc_scan.simps [of H "of_nat n" cur m]
  show ?case
  proof (cases "f \<and> n \<le> s")
    case True
    then have sn: "n + (s - n) = s" by simp
    obtain m' where m': "kmalloc_take H (of_nat n) (of_nat a) m = (of_nat (a + 32), m')"
      "chain m' (of_nat a) (if 48 \<le> s - n then (a, n, False) # (a + 32 + n, s - n - 32, True) # bs
                              else (a, s, False) # bs)"
      "\<forall>x. unat x < a \<or> a + 32 + s \<le> unat x \<longrightarrow> m' x = m x"
      using kmalloc_take_correct [of m a n "s - n" bs hi H, unfolded sn] Cons.prems True
      by (auto simp: b lo)
    have frame: "\<exists>(a, s, f) \<in> set (b # bs). f \<and> a \<le> unat x \<and> unat x < a + 32 + s"
      if "m' x \<noteq> m x" for x
    proof -
      have "a \<le> unat x" "unat x < a + 32 + s"
        using m'(3) that not_le by blast+
      with True show ?thesis by (intro bexI [of _ b]) (auto simp: b)
    qed
    have "kmalloc_scan H (of_nat n) cur m = Some (of_nat (a + 32), m')"
      using True valid fit m'(1) by (subst unf) (simp add: cur)
    moreover have "alloc_blocks n (b # bs) = Some (a + 32,
        if 48 \<le> s - n then (a, n, False) # (a + 32 + n, s - n - 32, True) # bs else (a, s, False) # bs)"
      using True by (simp add: b)
    ultimately show ?thesis
      using m'(2) frame unfolding cur by (simp only: option.case prod.case) blast
  next
    case False
    have tl: "chain m (hdr_next m cur) bs" "tiles (a + 32 + s) bs hi" "heap_bounds H (a + 32 + s) hi"
      using Cons.prems by (auto simp: b lo heap_bounds_def)
    have scan: "kmalloc_scan H (of_nat n) cur m = kmalloc_scan H (of_nat n) (hdr_next m cur) m"
      using False valid fit by (subst unf) auto
    have ab: "alloc_blocks n (b # bs) = map_option (\<lambda>(p, bs'). (p, b # bs')) (alloc_blocks n bs)"
      using False by (auto simp: b)
    show ?thesis
    proof (cases "alloc_blocks n bs")
      case None
      with Cons.IH [OF tl] show ?thesis by (simp only: ab scan) simp
    next
      case (Some r)
      obtain q bs' where r: "r = (q, bs')" by (cases r)
      with Cons.IH [OF tl] Some obtain m' where
        m': "kmalloc_scan H (of_nat n) (hdr_next m cur) m = Some (of_nat q, m')"
        "chain m' (hdr_next m cur) bs'"
        "\<forall>x. m' x \<noteq> m x \<longrightarrow> (\<exists>(a, s, f) \<in> set bs. f \<and> a \<le> unat x \<and> unat x < a + 32 + s)"
        by auto
      have "m' x = m x" if "unat x < a + 32" for x
      proof (rule ccontr)
        assume "m' x \<noteq> m x"
        then obtain c t g where "(c, t, g) \<in> set bs" "c \<le> unat x" using m'(3) by blast
        with tiles_bounds [OF tl(2), of c t g] that show False by simp
      qed
      then have "hdr_magic m' cur = hdr_magic m cur" "hdr_size m' cur = hdr_size m cur"
        "hdr_free m' cur = hdr_free m cur" "hdr_next m' cur = hdr_next m cur"
        using s hi unfolding cur by (intro hdr_cong; simp)+
      then have "chain m' cur (b # bs')"
        using Cons.prems(1) m'(2) by (simp add: b cur)
      moreover have "\<forall>x. m' x \<noteq> m x \<longrightarrow>
          (\<exists>(a, s, f) \<in> set (b # bs). f \<and> a \<le> unat x \<and> unat x < a + 32 + s)"
        using m'(3) by auto
      ultimately show ?thesis
        using m'(1) by (simp only: ab scan Some r option.map option.case prod.case) blast
    qed
  qed
qed


subsection \<open>The coalescing pass\<close>

lemma coalesce_step:
  assumes ch: "chain m (of_nat a) ((a, s, True) # (b, t, True) # bs)"
    and ti: "tiles a ((a, s, True) # (b, t, True) # bs) hi" and hi: "hi < 2 ^ 64"
  defines "m' \<equiv> set_next (of_nat a) (hdr_next m (of_nat b))
      (set_size (of_nat a) (of_nat s + (HEADER_SIZE + of_nat t)) m)"
  shows "chain m' (of_nat a) ((a, s + (32 + t), True) # bs)"
    and "tiles a ((a, s + (32 + t), True) # bs) hi"
    and "unat x < a \<or> a + 32 \<le> unat x \<Longrightarrow> m' x = m x"
proof -
  have b: "b = a + 32 + s" and ti': "tiles (a + 32 + (s + (32 + t))) bs hi"
    using ti by (auto simp: add_ac)
  have le: "a + 32 + (s + (32 + t)) \<le> hi" using tiles_le [OF ti'] .
  have a32: "a + 32 \<le> 2 ^ 64" using le hi by simp
  note outa = set_outside [OF a32] and samea = hdr_same [OF a32]
  show out: "m' x = m x" if "unat x < a \<or> a + 32 \<le> unat x" for x
    using that by (simp add: m'_def outa)
  show "tiles a ((a, s + (32 + t), True) # bs) hi" using ti ti' by simp
  have "chain m' (hdr_next m (of_nat b)) bs"
    by (rule chain_outside [OF ti' hi, of m]) (use ch in simp, simp add: out)
  then show "chain m' (of_nat a) ((a, s + (32 + t), True) # bs)"
    using ch by (simp add: m'_def samea HEADER_SIZE_def)
qed

lemma kfree_coalesce_correct:
  assumes "chain m cur bs" and "tiles lo bs hi" and "heap_bounds H lo hi"
  shows "\<exists>m'. kfree_coalesce H cur m = Some m' \<and> chain m' cur (coalesce_blocks bs)
     \<and> (\<forall>x. m' x \<noteq> m x \<longrightarrow> (\<exists>(a, s, f) \<in> set bs. f \<and> a \<le> unat x \<and> unat x < a + 32))"
  using assms
proof (induction bs arbitrary: m cur lo rule: coalesce_blocks.induct)
  case (1 a s f b t g bs)
  note prems = "1.prems"
  have cur: "cur = of_nat a" "lo = a" using prems by auto
  have nx: "hdr_next m (of_nat a) = of_nat b" using prems(1) by simp
  have hi: "hi < 2 ^ 64" using heap_bounds_hi [OF prems(3)] .
  have v1: "valid_hdr H m cur" "cur \<noteq> 0" using valid_hdr_chain [OF prems] by auto
  have tl: "chain m (of_nat b) ((b, t, g) # bs)" "tiles (a + 32 + s) ((b, t, g) # bs) hi"
      "heap_bounds H (a + 32 + s) hi"
    using prems by (auto simp: cur heap_bounds_def)
  have v2: "valid_hdr H m (of_nat b)" "(of_nat b :: u64) \<noteq> 0" using valid_hdr_chain [OF tl] by auto
  show ?case
  proof (cases "f \<and> g")
    case True
    let ?m = "set_next (of_nat a) (hdr_next m (of_nat b))
        (set_size (of_nat a) (of_nat s + (HEADER_SIZE + of_nat t)) m)"
    have st: "chain m (of_nat a) ((a, s, True) # (b, t, True) # bs)"
      "tiles a ((a, s, True) # (b, t, True) # bs) hi" using prems cur True by auto
    note step = coalesce_step [OF st hi]
    have run: "kfree_coalesce H cur m = kfree_coalesce H cur ?m"
      using v1 v2 prems(1) True by (subst kfree_coalesce.simps) (simp add: cur nx)
    obtain m' where m': "kfree_coalesce H cur ?m = Some m'"
      "chain m' cur (coalesce_blocks ((a, s + (32 + t), True) # bs))"
      "\<forall>x. m' x \<noteq> ?m x \<longrightarrow>
        (\<exists>(c, u, f) \<in> set ((a, s + (32 + t), True) # bs). f \<and> c \<le> unat x \<and> unat x < c + 32)"
      using "1.IH"(1) [OF True, of ?m cur lo] step(1,2) prems(3) unfolding cur by blast
    have "\<exists>(c, u, f) \<in> set ((a, s, f) # (b, t, g) # bs). f \<and> c \<le> unat x \<and> unat x < c + 32"
      if "m' x \<noteq> m x" for x
    proof (cases "a \<le> unat x \<and> unat x < a + 32")
      case False
      then have "m' x \<noteq> ?m x" using step(3) [of x] that by auto
      with m'(3) False show ?thesis by auto
    qed (use True in auto)
    with m'(1,2) show ?thesis unfolding run coalesce_blocks.simps(1) if_P [OF True] by blast
  next
    case False
    have run: "kfree_coalesce H cur m = kfree_coalesce H (of_nat b) m"
      using v1 v2 prems(1) False by (subst kfree_coalesce.simps) (auto simp: cur nx)
    obtain m' where m': "kfree_coalesce H (of_nat b) m = Some m'"
      "chain m' (of_nat b) (coalesce_blocks ((b, t, g) # bs))"
      "\<forall>x. m' x \<noteq> m x \<longrightarrow>
        (\<exists>(c, u, f) \<in> set ((b, t, g) # bs). f \<and> c \<le> unat x \<and> unat x < c + 32)"
      using "1.IH"(2) [OF False tl] by blast
    have same: "m' x = m x" if "unat x < a + 32" for x
    proof (rule ccontr)
      assume "m' x \<noteq> m x"
      then obtain c u h where "(c, u, h) \<in> set ((b, t, g) # bs)" "c \<le> unat x" using m'(3) by blast
      with tiles_bounds [OF tl(2), of c u h] that show False by simp
    qed
    have a32: "a + 32 \<le> 2 ^ 64" using tiles_le [OF tl(2)] hi by simp
    have "chain m' cur ((a, s, f) # coalesce_blocks ((b, t, g) # bs))"
      using prems(1) m'(2) nx hdr_cong [OF a32, of m' m] same by (simp add: cur)
    moreover have "\<forall>x. m' x \<noteq> m x \<longrightarrow>
        (\<exists>(c, u, f) \<in> set ((a, s, f) # (b, t, g) # bs). f \<and> c \<le> unat x \<and> unat x < c + 32)"
      using m'(3) by auto
    ultimately show ?thesis
      using m'(1) unfolding run coalesce_blocks.simps(1) if_not_P [OF False] by blast
  qed
next
  case (2 x)
  then show ?case by (cases x) (auto simp: kfree_coalesce.simps)
next
  case 3
  then show ?case by (auto simp: kfree_coalesce.simps)
qed

subsection \<open>The abstract operations keep the heap well formed\<close>

lemma alloc_blocks_None: "alloc_blocks n bs = None \<longleftrightarrow> (\<forall>(a, s, f) \<in> set bs. \<not> (f \<and> n \<le> s))"
  by (induction n bs rule: alloc_blocks.induct) auto

lemma alloc_blocks_SomeE:
  assumes "alloc_blocks n bs = Some (q, bs')"
  obtains pre a s post where "bs = pre @ (a, s, True) # post" and "n \<le> s" and "q = a + 32"
    and "bs' = pre @ (if 48 \<le> s - n then [(a, n, False), (a + 32 + n, s - n - 32, True)]
                      else [(a, s, False)]) @ post"
  using assms
proof (induction n bs arbitrary: bs' thesis rule: alloc_blocks.induct)
  case (2 n a s f bs)
  show ?case
  proof (cases "f \<and> n \<le> s")
    case True
    with "2.prems"(2) show ?thesis by (intro "2.prems"(1) [of "[]" a s bs]) (auto split: if_splits)
  next
    case False
    with "2.prems"(2) obtain bs'' where r: "alloc_blocks n bs = Some (q, bs'')" "bs' = (a, s, f) # bs''"
      by auto
    show ?thesis
    proof (rule "2.IH" [OF False _ r(1)])
      fix pre b t post
      assume "bs = pre @ (b, t, True) # post" "n \<le> t" "q = b + 32"
        "bs'' = pre @ (if 48 \<le> t - n then [(b, n, False), (b + 32 + n, t - n - 32, True)]
                      else [(b, t, False)]) @ post"
      with r(2) show thesis by (intro "2.prems"(1) [of "(a, s, f) # pre" b t post]) simp_all
    qed
  qed
qed simp

lemma tiles_append: "tiles lo (xs @ ys) hi \<longleftrightarrow> (\<exists>mid. tiles lo xs mid \<and> tiles mid ys hi)"
proof (induction xs arbitrary: lo)
  case (Cons x xs)
  then show ?case by (cases x) auto
qed simp

lemma aligned_append:
  "aligned (xs @ ys) \<longleftrightarrow> (ys = [] \<and> aligned xs) \<or> (ys \<noteq> [] \<and> (\<forall>(a, s, f) \<in> set xs. 16 dvd s) \<and> aligned ys)"
proof (induction xs rule: aligned.induct)
  case (2 x)
  then show ?case by (cases ys; cases x) auto
next
  case (3 a s f y bs)
  then show ?case by auto
qed auto

lemma coalesced_append:
  "coalesced (xs @ ys) \<longleftrightarrow> coalesced xs \<and> coalesced ys
     \<and> (xs \<noteq> [] \<and> ys \<noteq> [] \<longrightarrow> \<not> (snd (snd (last xs)) \<and> snd (snd (hd ys))))"
proof (induction xs rule: coalesced.induct)
  case (1 a s f b t g bs)
  then show ?case by auto
next
  case "2_1"
  then show ?case by simp
qed (cases ys; auto)

lemma alloc_blocks_tiles:
  assumes "tiles lo bs hi" and "16 \<le> n" and "alloc_blocks n bs = Some (q, bs')"
  shows "tiles lo bs' hi"
  using assms(3)
proof (cases rule: alloc_blocks_SomeE)
  case (1 pre a s post)
  with assms(1,2) show ?thesis by (auto simp: tiles_append add_ac)
qed

lemma alloc_blocks_aligned:
  assumes "aligned bs" and "16 dvd n" and "alloc_blocks n bs = Some (q, bs')"
  shows "aligned bs'"
  using assms(3)
proof (cases rule: alloc_blocks_SomeE)
  case (1 pre a s post)
  show ?thesis
  proof (cases "post = []")
    case True
    with 1 assms(1,2) show ?thesis by (auto simp: aligned_append)
  next
    case False
    with 1(1) assms(1) have d: "16 dvd s" "aligned post" "\<forall>(a, s, f) \<in> set pre. 16 dvd s"
      by (cases post; auto simp: aligned_append)+
    obtain y ys where y: "post = y # ys" using False by (cases post) auto
    have "16 dvd s - n - 32" if "48 \<le> s - n"
      by (rule dvd_diff_nat [OF dvd_diff_nat [OF d(1) assms(2)]]) simp
    with 1 d assms(2) y show ?thesis by (auto simp: aligned_append)
  qed
qed

lemma alloc_blocks_coalesced:
  assumes "coalesced bs" and "alloc_blocks n bs = Some (q, bs')"
  shows "coalesced bs'"
  using assms(2)
proof (cases rule: alloc_blocks_SomeE)
  case (1 pre a s post)
  with assms(1) have d: "coalesced pre" "coalesced ((a, s, True) # post)"
    "pre \<noteq> [] \<longrightarrow> \<not> snd (snd (last pre))"
    by (auto simp: coalesced_append)
  then have p: "coalesced post" "post \<noteq> [] \<longrightarrow> \<not> snd (snd (hd post))"
    by (cases post; auto)+
  then have "coalesced ((a + 32 + n, s - n - 32, True) # post)" "coalesced ((a, s, False) # post)"
    by (cases post; auto)+
  with 1 d p show ?thesis by (auto simp: coalesced_append)
qed

lemma coalesce_blocks_tiles: "tiles lo bs hi \<Longrightarrow> tiles lo (coalesce_blocks bs) hi"
  by (induction bs arbitrary: lo rule: coalesce_blocks.induct) (auto simp: add_ac)

lemma coalesce_blocks_aligned: "aligned bs \<Longrightarrow> aligned (coalesce_blocks bs)"
proof (induction bs rule: coalesce_blocks.induct)
  case (1 a s f b t g bs)
  show ?case
  proof (cases "f \<and> g")
    case True
    have "aligned ((a, s + (32 + t), True) # bs)" using "1.prems" by (cases bs) auto
    with 1 True show ?thesis by simp
  next
    case False
    have "coalesce_blocks ((b, t, g) # bs) \<noteq> []"
      by (induction "(b, t, g) # bs" arbitrary: b t g bs rule: coalesce_blocks.induct) auto
    then obtain y ys where "coalesce_blocks ((b, t, g) # bs) = y # ys" by (cases "coalesce_blocks ((b, t, g) # bs)") auto
    with 1 False show ?thesis by auto
  qed
qed auto

lemma coalesce_blocks_hd:
  "coalesce_blocks ((a, s, f) # bs) \<noteq> [] \<and> (\<exists>u. hd (coalesce_blocks ((a, s, f) # bs)) = (a, u, f))"
  by (induction "(a, s, f) # bs" arbitrary: s f bs rule: coalesce_blocks.induct) auto

lemma coalesce_blocks_coalesced: "coalesced (coalesce_blocks bs)"
proof (induction bs rule: coalesce_blocks.induct)
  case (1 a s f b t g bs)
  then show ?case
    using coalesce_blocks_hd [of b t g bs]
    by (cases "coalesce_blocks ((b, t, g) # bs)") auto
qed auto

text \<open>Coalescing touches free blocks only.\<close>

lemma coalesce_blocks_used:
  "(a, s, False) \<in> set (coalesce_blocks bs) \<longleftrightarrow> (a, s, False) \<in> set bs"
  by (induction bs rule: coalesce_blocks.induct) auto

subsection \<open>Requests\<close>

lemma ALIGN_UP_16:
  assumes "unat sz + 15 < 2 ^ 64"
  shows "ALIGN_UP sz 16 = of_nat (round16 (unat sz))"
proof -
  have n: "unat (sz + 15) = unat sz + 15" using assms unat_add_small [of sz 15] by simp
  have clear: "w AND NOT (mask 4) = push_bit 4 (drop_bit 4 w)" for w :: u64
    by (rule bit_word_eqI) (auto simp: bit_simps)
  have "(15 :: u64) = mask 4" by (simp add: mask_eq_exp_minus_1)
  with clear have "(sz + 15) AND NOT 15 = push_bit 4 (drop_bit 4 (sz + 15))" by metis
  also have "\<dots> = of_nat (unat (drop_bit 4 (sz + 15))) * 16" by (simp add: push_bit_eq_mult)
  also have "\<dots> = of_nat (round16 (unat sz))"
    by (simp only: unat_drop_bit_eq n) (simp add: round16_def drop_bit_eq_div)
  finally show ?thesis by (simp add: ALIGN_UP_def add.commute)
qed

lemma round16_bounds: "n \<le> round16 n" "round16 n < n + 16" "16 dvd round16 n"
  unfolding round16_def by presburger+

lemma round16_pos: "0 < n \<Longrightarrow> 16 \<le> round16 n"
  unfolding round16_def by presburger

lemma heap_rel_bounds:
  assumes "heap_rel H bs"
  shows "heap_bounds H (unat (g_heap_start H)) (unat (g_heap_end H))"
    and "unat (g_heap_start H) \<le> unat (g_heap_end H)"
    and "unat (g_heap_end H - g_heap_start H) = unat (g_heap_end H) - unat (g_heap_start H)"
    and "16 \<le> unat (g_heap_start H)"
proof -
  show "heap_bounds H (unat (g_heap_start H)) (unat (g_heap_end H))"
    using assms by (simp add: heap_rel_def heap_bounds_def)
  show le: "unat (g_heap_start H) \<le> unat (g_heap_end H)"
    using assms tiles_le unfolding heap_rel_def by blast
  then show "unat (g_heap_end H - g_heap_start H) = unat (g_heap_end H) - unat (g_heap_start H)"
    by (simp add: unat_sub word_le_nat_alt)
  show "16 \<le> unat (g_heap_start H)"
    using assms unfolding heap_rel_def by (meson dvd_imp_le)
qed

lemma heap_rel_head:
  assumes "heap_rel H bs"
  shows "g_heap_head H \<noteq> 0"
proof -
  obtain a s f bs' where b: "bs = (a, s, f) # bs'" using assms by (cases bs) (auto simp: heap_rel_def)
  show ?thesis
    using assms valid_hdr_chain(2) [OF _ _ heap_rel_bounds(1) [OF assms]] unfolding heap_rel_def b by blast
qed

text \<open>A request larger than the heap fits no block, so the early return is the failing scan.\<close>

lemma alloc_blocks_too_big:
  assumes "tiles lo bs hi" and "hi - lo < n"
  shows "alloc_blocks n bs = None"
  using tiles_bounds [OF assms(1)] assms(2) by (fastforce simp: alloc_blocks_None)

lemma kmalloc_refines:
  assumes "heap_rel H bs" and "sz \<noteq> 0"
  shows "case alloc_blocks (round16 (unat sz)) bs of
      None \<Rightarrow> kmalloc H sz = Some (0, H)
    | Some (q, bs') \<Rightarrow> (\<exists>m'. kmalloc H sz = Some (of_nat q, H\<lparr>h_mem := m'\<rparr>)
         \<and> heap_rel (H\<lparr>h_mem := m'\<rparr>) bs' \<and> changed_free (h_mem H) m' bs)"
proof -
  let ?n = "round16 (unat sz)"
  note hb = heap_rel_bounds [OF assms(1)]
  have r: "chain (h_mem H) (g_heap_head H) bs" "tiles (unat (g_heap_start H)) bs (unat (g_heap_end H))"
    "aligned bs" "coalesced bs" using assms(1) by (auto simp: heap_rel_def)
  have pos: "0 < unat sz" using assms(2) by (simp add: unat_gt_0)
  note e64 = unat_u64 [of "g_heap_end H"]
  show ?thesis
  proof (cases "g_heap_end H - g_heap_start H < sz")
    case True
    then have "unat (g_heap_end H) - unat (g_heap_start H) < ?n"
      using hb(3) round16_bounds(1) [of "unat sz"] by (simp add: word_less_nat_alt)
    then have "alloc_blocks ?n bs = None" using alloc_blocks_too_big [OF r(2)] by simp
    with True assms(2) heap_rel_head [OF assms(1)] show ?thesis by (simp add: kmalloc_def)
  next
    case False
    then have le: "unat sz + 16 \<le> unat (g_heap_end H)"
      using hb by (simp add: word_less_nat_alt)
    then have n: "?n < 2 ^ 64" "unat sz + 15 < 2 ^ 64"
      using e64 round16_bounds(2) [of "unat sz"] by simp_all
    have "\<not> (of_nat ?n :: u64) < 16"
      using n(1) round16_pos [OF pos] by (simp add: word_less_nat_alt unat_of_nat64)
    then have k: "kmalloc H sz = map_option (\<lambda>(p, m). (p, H\<lparr>h_mem := m\<rparr>))
        (kmalloc_scan H (of_nat ?n) (g_heap_head H) (h_mem H))"
      using False assms(2) heap_rel_head [OF assms(1)] ALIGN_UP_16 [OF n(2)]
      by (simp add: kmalloc_def MIN_ALLOC_def)
    note scan = kmalloc_scan_correct [OF r(1,2) hb(1) round16_pos [OF pos] n(1)]
    show ?thesis
    proof (cases "alloc_blocks ?n bs")
      case None
      with scan k show ?thesis by simp
    next
      case (Some qb)
      obtain q bs' where qb: "qb = (q, bs')" by (cases qb)
      from scan Some qb obtain m' where m': "kmalloc_scan H (of_nat ?n) (g_heap_head H) (h_mem H) = Some (of_nat q, m')"
        "chain m' (g_heap_head H) bs'" "changed_free (h_mem H) m' bs"
        by (auto simp: changed_free_def)
      have s: "alloc_blocks ?n bs = Some (q, bs')" using Some qb by simp
      have "bs' \<noteq> []" using s by (rule alloc_blocks_SomeE) auto
      then have "heap_rel (H\<lparr>h_mem := m'\<rparr>) bs'"
        using m'(2) assms(1) alloc_blocks_tiles [OF r(2) round16_pos [OF pos] s]
          alloc_blocks_aligned [OF r(3) round16_bounds(3) s] alloc_blocks_coalesced [OF r(4) s]
        by (simp add: heap_rel_def)
      with m' k s show ?thesis by auto
    qed
  qed
qed

subsection \<open>Freeing\<close>

lemma mark_free_simps [simp]:
  "mark_free h [] = []" "mark_free h ((a, s, f) # bs) = (a, s, f \<or> a = h) # mark_free h bs"
  by (simp_all add: mark_free_def)

lemma tiles_mark_free: "tiles lo (mark_free h bs) hi \<longleftrightarrow> tiles lo bs hi"
  by (induction lo bs hi rule: tiles.induct) auto

lemma aligned_mark_free: "aligned (mark_free h bs) \<longleftrightarrow> aligned bs"
  by (induction bs rule: aligned.induct) (auto simp: mark_free_def)

lemma mark_free_notin: "(\<And>s f. (h, s, f) \<notin> set bs) \<Longrightarrow> mark_free h bs = bs"
  by (induction bs) (auto simp: mark_free_def)

text \<open>Setting the \<^verbatim>\<open>free\<close> field of one header of the chain.\<close>

lemma chain_set_free:
  assumes "chain m p bs" and "tiles lo bs hi" and "hi < 2 ^ 64" and "(h, s, f) \<in> set bs"
  shows "chain (set_free (of_nat h) 1 m) p (mark_free h bs)"
  using assms(1,2,4)
proof (induction bs arbitrary: p lo)
  case (Cons b bs)
  obtain a t g where b: "b = (a, t, g)" by (cases b)
  have ti: "tiles (a + 32 + t) bs hi" and at: "a + 32 + t \<le> hi" "16 \<le> t"
    using Cons.prems(2) tiles_le [of "a + 32 + t" bs hi] by (auto simp: b)
  show ?case
  proof (cases "h = a")
    case True
    have a: "a + 32 \<le> 2 ^ 64" using at assms(3) by simp
    have "chain (set_free (of_nat a) 1 m) (hdr_next m (of_nat a)) bs"
    proof (rule chain_outside [OF ti assms(3)])
      show "chain m (hdr_next m (of_nat a)) bs" using Cons.prems(1) by (simp add: b)
      show "set_free (of_nat a) 1 m x = m x" if "a + 32 + t \<le> unat x" for x
        using that by (intro set_outside(3) [OF a]) simp
    qed
    moreover have "mark_free a bs = bs"
      using tiles_bounds [OF ti] by (intro mark_free_notin) fastforce
    ultimately show ?thesis
      using Cons.prems(1) True by (simp add: b hdr_same [OF a])
  next
    case False
    then have h: "(h, s, f) \<in> set bs" using Cons.prems(3) by (simp add: b)
    have hb: "a + 32 + t \<le> h" "h + 32 \<le> 2 ^ 64" using tiles_bounds [OF ti h] assms(3) by auto
    have eq: "set_free (of_nat h) 1 m x = m x" if "unat x < a + 32" for x
      using that hb(1) by (intro set_outside(3) [OF hb(2)]) simp
    have a: "a + 32 \<le> 2 ^ 64" using at assms(3) by simp
    note same = hdr_cong [OF a, of "set_free (of_nat h) 1 m" m, OF eq]
    have "chain (set_free (of_nat h) 1 m) (hdr_next m (of_nat a)) (mark_free h bs)"
      using Cons.prems(1) by (intro Cons.IH [OF _ ti h]) (simp add: b)
    with Cons.prems(1) False show ?thesis by (simp add: b same)
  qed
qed simp

lemma free_blocks_tiles: "tiles lo bs hi \<Longrightarrow> tiles lo (free_blocks h bs) hi"
  by (simp add: free_blocks_def coalesce_blocks_tiles tiles_mark_free)

lemma free_blocks_aligned: "aligned bs \<Longrightarrow> aligned (free_blocks h bs)"
  by (simp add: free_blocks_def coalesce_blocks_aligned aligned_mark_free)

lemma free_blocks_nonempty: "bs \<noteq> [] \<Longrightarrow> free_blocks h bs \<noteq> []"
  using coalesce_blocks_hd by (cases bs) (auto simp: free_blocks_def)

lemma free_blocks_used:
  "(a, s, False) \<in> set (free_blocks h bs) \<longleftrightarrow> (a, s, False) \<in> set bs \<and> a \<noteq> h"
  by (force simp: free_blocks_def coalesce_blocks_used mark_free_def)

lemma chain_mem:
  "chain m p bs \<Longrightarrow> (a, s, f) \<in> set bs \<Longrightarrow>
     hdr_magic m (of_nat a) = HEAP_MAGIC \<and> hdr_size m (of_nat a) = of_nat s \<and> (hdr_free m (of_nat a) \<noteq> 0 \<longleftrightarrow> f)"
  by (induction m p bs rule: chain.induct) auto

lemma kfree_refines:
  assumes "heap_rel H bs" and "(a, s, False) \<in> set bs"
  shows "\<exists>m'. kfree H (of_nat (a + 32)) = Some (H\<lparr>h_mem := m'\<rparr>)
     \<and> heap_rel (H\<lparr>h_mem := m'\<rparr>) (free_blocks a bs) \<and> changed_free (h_mem H) m' (mark_free a bs)"
proof -
  note hb = heap_rel_bounds [OF assms(1)]
  have r: "chain (h_mem H) (g_heap_head H) bs" "tiles (unat (g_heap_start H)) bs (unat (g_heap_end H))"
    "aligned bs" "bs \<noteq> []" using assms(1) by (auto simp: heap_rel_def)
  have hi: "unat (g_heap_end H) < 2 ^ 64" by (rule heap_bounds_hi [OF hb(1)])
  have ab: "unat (g_heap_start H) \<le> a" "a + 32 + s \<le> unat (g_heap_end H)" "16 \<le> s"
    using tiles_bounds [OF r(2) assms(2)] by auto
  have u: "unat (of_nat a :: u64) = a" "unat (of_nat (a + 32) :: u64) = a + 32" "unat (of_nat s :: u64) = s"
    using ab hi by (intro unat_of_nat64; simp)+
  have nz: "(of_nat (a + 32) :: u64) \<noteq> 0" "(of_nat a :: u64) \<noteq> 0" 
    using u hb(4) ab(1) by (metis add_is_0 unat_0 zero_neq_numeral, metis not_numeral_le_zero order_trans unat_0)
  have ih: "in_heap H (of_nat (a + 32))" "in_heap H (of_nat a)"
    using ab by (intro in_heap_nat [OF hb(1)]; simp)+
  note hd = chain_mem [OF r(1) assms(2)]
  have "0 < (of_nat s :: u64)" using u(3) ab(3) by (simp add: word_less_nat_alt)
  with ih nz hd have v: "valid_hdr H (h_mem H) (of_nat a)" by (simp add: valid_hdr_def)
  have sub: "(of_nat (a + 32) :: u64) - HEADER_SIZE = of_nat a" by (simp add: HEADER_SIZE_def)
  have "chain (set_free (of_nat a) 1 (h_mem H)) (g_heap_head H) (mark_free a bs)"
    by (rule chain_set_free [OF r(1,2) hi assms(2)])
  from kfree_coalesce_correct [OF this, unfolded tiles_mark_free, OF r(2) hb(1)]
  obtain m' where m': "kfree_coalesce H (g_heap_head H) (set_free (of_nat a) 1 (h_mem H)) = Some m'"
    "chain m' (g_heap_head H) (free_blocks a bs)"
    "\<forall>x. m' x \<noteq> set_free (of_nat a) 1 (h_mem H) x \<longrightarrow>
       (\<exists>(a, s, f) \<in> set (mark_free a bs). f \<and> a \<le> unat x \<and> unat x < a + 32)"
    by (auto simp: free_blocks_def)
  have k: "kfree H (of_nat (a + 32)) = Some (H\<lparr>h_mem := m'\<rparr>)"
    unfolding kfree_def Let_def sub using nz(1) ih(1) v hd m'(1) by simp
  have "heap_rel (H\<lparr>h_mem := m'\<rparr>) (free_blocks a bs)"
    using m'(2) assms(1) free_blocks_tiles [OF r(2)] free_blocks_aligned [OF r(3)]
      free_blocks_nonempty [OF r(4)] coalesce_blocks_coalesced
    by (simp add: heap_rel_def free_blocks_def)
  moreover have "changed_free (h_mem H) m' (mark_free a bs)"
    unfolding changed_free_def
  proof (intro allI impI)
    fix x
    assume ch: "m' x \<noteq> h_mem H x"
    have am: "(a, s, True) \<in> set (mark_free a bs)" using assms(2) by (force simp: mark_free_def)
    show "\<exists>(b, t, f) \<in> set (mark_free a bs). f \<and> b \<le> unat x \<and> unat x < b + 32 + t"
    proof (cases "m' x = set_free (of_nat a) 1 (h_mem H) x")
      case True
      then have "\<not> (unat x < a \<or> a + 32 \<le> unat x)"
        using ch set_outside(3) [of a x 1 "h_mem H"] ab hi by auto
      with am show ?thesis by (intro bexI [OF _ am]) auto
    next
      case False
      with m'(3) obtain b t where "(b, t, True) \<in> set (mark_free a bs)" "b \<le> unat x" "unat x < b + 32"
        by auto
      then show ?thesis by force
    qed
  qed
  ultimately show ?thesis using k by blast
qed

subsection \<open>The heap provides the allocator interface\<close>

lemma chain_unique:
  assumes "chain m p bs" and "chain m p cs" and "tiles lo bs hi" and "tiles lo cs hi" and "hi < 2 ^ 64"
  shows "bs = cs"
  using assms(1-4)
proof (induction bs arbitrary: p lo cs)
  case Nil
  show ?case
  proof (cases cs)
    case (Cons c cs')
    obtain a t g where "c = (a, t, g)" by (cases c)
    with Nil.prems(3,4) Cons tiles_le [of "a + 32 + t" cs' hi] show ?thesis by auto
  qed simp
next
  case (Cons b bs)
  note IH = Cons.IH
  obtain a s f where b: "b = (a, s, f)" by (cases b)
  show ?case
  proof (cases cs)
    case Nil
    with Cons.prems(3,4) tiles_le [of "a + 32 + s" bs hi] show ?thesis by (simp add: b)
  next
    case (Cons c cs')
    obtain a' t g where c: "c = (a', t, g)" by (cases c)
    note prems = Cons.prems [unfolded b c Cons chain.simps tiles.simps]
    have a: "a' = a" "lo = a" using prems by simp_all
    have le: "a + 32 + s \<le> hi" "a + 32 + t \<le> hi"
      using prems tiles_le a by blast+
    have "(of_nat t :: u64) = of_nat s" using prems a by simp
    then have t: "t = s" using le assms(5) of_nat_eq_iff64 [of t s] by simp
    have g: "g = f" using prems a by simp
    have "bs = cs'"
    proof (rule IH)
      show "chain m (hdr_next m (of_nat a)) bs" "chain m (hdr_next m (of_nat a)) cs'"
        "tiles (a + 32 + s) bs hi" "tiles (a + 32 + s) cs' hi"
        using prems a t by auto
    qed
    with a t g show ?thesis by (simp add: b c Cons)
  qed
qed

lemma heap_rel_unique: "heap_rel H bs \<Longrightarrow> heap_rel H cs \<Longrightarrow> bs = cs"
  using chain_unique [OF _ _ _ _ heap_bounds_hi [OF heap_rel_bounds(1)]]
  unfolding heap_rel_def by blast

lemma live_rel: "heap_rel H bs \<Longrightarrow> live H = {(p, n). \<exists>a. (a, n, False) \<in> set bs \<and> p = a + 32}"
  using heap_rel_unique by (auto simp: live_def)

lemma tiles_disjoint:
  "tiles lo bs hi \<Longrightarrow> (a, s, f) \<in> set bs \<Longrightarrow> (b, t, g) \<in> set bs \<Longrightarrow>
     (a, s, f) = (b, t, g) \<or> a + 32 + s \<le> b \<or> b + 32 + t \<le> a"
proof (induction bs arbitrary: lo)
  case (Cons c bs)
  obtain c1 c2 c3 where c: "c = (c1, c2, c3)" by (cases c)
  have ti: "tiles (c1 + 32 + c2) bs hi" "lo = c1" using Cons.prems(1) by (auto simp: c)
  show ?case
    using Cons.prems(2,3) Cons.IH [OF ti(1)] tiles_bounds [OF ti(1), of a s f] tiles_bounds [OF ti(1), of b t g]
    by (auto simp: c)
qed simp

lemma live_range:
  assumes "heap_inv H" and "(p, n) \<in> live H"
  shows "unat (g_heap_start H) + 32 \<le> p" "p + n \<le> unat (g_heap_end H)" "16 \<le> n"
proof -
  obtain bs a where "heap_rel H bs" "(a, n, False) \<in> set bs" "p = a + 32"
    using assms by (auto simp: live_def)
  then show "unat (g_heap_start H) + 32 \<le> p" "p + n \<le> unat (g_heap_end H)" "16 \<le> n"
    using tiles_bounds [of _ bs] by (auto simp: heap_rel_def)
qed

lemma live_disjoint:
  assumes "heap_inv H" and "(p, n) \<in> live H" and "(q, k) \<in> live H"
  shows "(p, n) = (q, k) \<or> p + n \<le> q \<or> q + k \<le> p"
proof -
  obtain bs where r: "heap_rel H bs" using assms(1) by (auto simp: heap_inv_def)
  then have t: "tiles (unat (g_heap_start H)) bs (unat (g_heap_end H))" by (simp add: heap_rel_def)
  from assms(2,3) live_rel [OF r] obtain a b where "(a, n, False) \<in> set bs" "p = a + 32"
    "(b, k, False) \<in> set bs" "q = b + 32" by auto
  with tiles_disjoint [OF t] show ?thesis by fastforce
qed

text \<open>Writes inside payloads in use touch no header, so the heap does not see them.\<close>

lemma heap_rel_poke:
  assumes "heap_rel H bs" and "writes_within (live H) (h_mem H) m"
  shows "heap_rel (H\<lparr>h_mem := m\<rparr>) bs"
proof -
  have t: "tiles (unat (g_heap_start H)) bs (unat (g_heap_end H))" using assms(1) by (simp add: heap_rel_def)
  have "chain (h_mem H) p bs = chain m p bs" for p
  proof (rule chain_cong)
    fix a s f
    assume a: "(a, s, f) \<in> set bs"
    then show "a + 32 \<le> 2 ^ 64"
      using tiles_bounds [OF t a] heap_bounds_hi [OF heap_rel_bounds(1) [OF assms(1)]] by simp
    show "h_mem H x = m x" if x: "a \<le> unat x" "unat x < a + 32" for x
    proof (rule ccontr)
      assume "h_mem H x \<noteq> m x"
      then obtain q k where "(q, k) \<in> live H" "q \<le> unat x" "unat x < q + k"
        using assms(2) unfolding writes_within_def by metis
      moreover from this(1) live_rel [OF assms(1)] obtain b where "(b, k, False) \<in> set bs" "q = b + 32" by auto
      ultimately show False using tiles_disjoint [OF t a, of b k False] x by auto
    qed
  qed
  with assms(1) show ?thesis by (simp add: heap_rel_def)
qed

lemma changed_free_same_on:
  assumes "tiles lo bs hi" and "changed_free m m' bs" and "\<And>p n. (p, n) \<in> S \<Longrightarrow> \<exists>a. (a, n, False) \<in> set bs \<and> p = a + 32"
  shows "same_on S m m'"
  unfolding same_on_def
proof (intro allI impI)
  fix p n and x :: u64
  assume "(p, n) \<in> S" and x: "p \<le> unat x" "unat x < p + n"
  from this(1) assms(3) obtain a where a: "(a, n, False) \<in> set bs" "p = a + 32" by blast
  show "m' x = m x"
  proof (rule ccontr)
    assume "m' x \<noteq> m x"
    with assms(2) obtain b t where "(b, t, True) \<in> set bs" "b \<le> unat x" "unat x < b + 32 + t"
      unfolding changed_free_def by auto
    with tiles_disjoint [OF assms(1) a(1), of b t True] x a(2) show False by auto
  qed
qed

lemma heap_poke_ok:
  assumes "heap_inv H" and "writes_within (live H) (h_mem H) m"
  shows "heap_inv (H\<lparr>h_mem := m\<rparr>) \<and> live (H\<lparr>h_mem := m\<rparr>) = live H"
proof -
  obtain bs where r: "heap_rel H bs" using assms(1) by (auto simp: heap_inv_def)
  from heap_rel_poke [OF r assms(2)] r show ?thesis
    using live_rel by (simp add: heap_inv_def) blast
qed

lemma alloc_blocks_used:
  assumes "tiles lo bs hi" and "16 \<le> n" and "alloc_blocks n bs = Some (q, bs')"
  obtains a k where "q = a + 32" "n \<le> k" "(a, k, False) \<notin> set bs"
    "\<And>b t. (b, t, False) \<in> set bs' \<longleftrightarrow> (b, t) = (a, k) \<or> (b, t, False) \<in> set bs"
  using assms(3)
proof (cases rule: alloc_blocks_SomeE)
  case (1 pre a s post)
  have fresh: "(a, k, False) \<notin> set bs" for k
    using tiles_disjoint [OF assms(1), of a k False a s True] 1(1) by auto
  show ?thesis
  proof (cases "48 \<le> s - n")
    case True
    with 1 fresh show ?thesis by (intro that [of a n]) auto
  next
    case False
    with 1 fresh show ?thesis by (intro that [of a s]) auto
  qed
qed

lemma kmalloc_ok:
  assumes "heap_inv H"
  shows "\<exists>p H'. kmalloc H sz = Some (p, H') \<and> heap_inv H' \<and> same_on (live H) (h_mem H) (h_mem H')
    \<and> (p = 0 \<and> H' = H \<or>
       (\<exists>n. p \<noteq> 0 \<and> unat sz \<le> n \<and> (unat p, n) \<notin> live H \<and> live H' = insert (unat p, n) (live H)))"
proof (cases "sz = 0")
  case True
  with assms show ?thesis by (simp add: kmalloc_def)
next
  case False
  let ?n = "round16 (unat sz)"
  obtain bs where r: "heap_rel H bs" using assms by (auto simp: heap_inv_def)
  have t: "tiles (unat (g_heap_start H)) bs (unat (g_heap_end H))" using r by (simp add: heap_rel_def)
  have n16: "16 \<le> ?n" using False by (intro round16_pos) (simp add: unat_gt_0)
  show ?thesis
  proof (cases "alloc_blocks ?n bs")
    case None
    with kmalloc_refines [OF r False] assms show ?thesis by simp
  next
    case (Some qb)
    obtain q bs' where s: "alloc_blocks ?n bs = Some (q, bs')" using Some by (cases qb) simp
    with kmalloc_refines [OF r False] obtain m' where m': "kmalloc H sz = Some (of_nat q, H\<lparr>h_mem := m'\<rparr>)"
      "heap_rel (H\<lparr>h_mem := m'\<rparr>) bs'" "changed_free (h_mem H) m' bs" by auto
    obtain a k where a: "q = a + 32" "?n \<le> k" "(a, k, False) \<notin> set bs"
      "\<And>b t. (b, t, False) \<in> set bs' \<longleftrightarrow> (b, t) = (a, k) \<or> (b, t, False) \<in> set bs"
      using alloc_blocks_used [OF t n16 s] by blast
    have "(a, k, False) \<in> set bs'" using a(4) by simp
    then have "a + 32 + k \<le> unat (g_heap_end H)" using tiles_bounds [OF alloc_blocks_tiles [OF t n16 s]] by auto
    then have u: "unat (of_nat q :: u64) = q"
      using a(1) heap_bounds_hi [OF heap_rel_bounds(1) [OF r]] by (intro unat_of_nat64) simp
    have lv: "live H = {(p, n). \<exists>a. (a, n, False) \<in> set bs \<and> p = a + 32}"
      "live (H\<lparr>h_mem := m'\<rparr>) = {(p, n). \<exists>a. (a, n, False) \<in> set bs' \<and> p = a + 32}"
      using live_rel [OF r] live_rel [OF m'(2)] by auto
    have so: "same_on (live H) (h_mem H) m'"
      by (rule changed_free_same_on [OF t m'(3)]) (simp add: lv)
    have nz: "(of_nat q :: u64) \<noteq> 0" using u a(1) by auto
    have fr: "(q, k) \<notin> live H" using a(1,3) by (simp add: lv)
    have ins: "live (H\<lparr>h_mem := m'\<rparr>) = insert (q, k) (live H)"
      unfolding lv using a(1,4) by auto
    have "unat sz \<le> k" using a(2) round16_bounds(1) [of "unat sz"] by simp
    then show ?thesis
      using m'(1,2) so nz fr ins u by (intro exI [of _ "of_nat q"] exI [of _ "H\<lparr>h_mem := m'\<rparr>"])
        (auto simp: heap_inv_def)
  qed
qed

lemma kfree_ok:
  assumes "heap_inv H" and "(unat p, n) \<in> live H"
  shows "\<exists>H'. kfree H p = Some H' \<and> heap_inv H' \<and> live H' = live H - {(unat p, n)}
    \<and> same_on (live H') (h_mem H) (h_mem H')"
proof -
  obtain bs where r: "heap_rel H bs" using assms(1) by (auto simp: heap_inv_def)
  have t: "tiles (unat (g_heap_start H)) bs (unat (g_heap_end H))" using r by (simp add: heap_rel_def)
  obtain a where a: "(a, n, False) \<in> set bs" "unat p = a + 32" using assms(2) live_rel [OF r] by auto
  have p: "p = of_nat (a + 32)" using arg_cong [OF a(2), of "of_nat :: nat \<Rightarrow> u64"] by simp
  from kfree_refines [OF r a(1)] obtain m' where m': "kfree H p = Some (H\<lparr>h_mem := m'\<rparr>)"
    "heap_rel (H\<lparr>h_mem := m'\<rparr>) (free_blocks a bs)" "changed_free (h_mem H) m' (mark_free a bs)"
    unfolding p by auto
  have only: "t = n" if "(a, t, False) \<in> set bs" for t
    using tiles_disjoint [OF t a(1) that] by auto
  have lv: "live (H\<lparr>h_mem := m'\<rparr>) = live H - {(unat p, n)}"
    unfolding live_rel [OF r] live_rel [OF m'(2)] free_blocks_used a(2) using only by auto
  have "same_on (live H - {(unat p, n)}) (h_mem H) m'"
  proof (rule changed_free_same_on [OF _ m'(3)])
    show "tiles (unat (g_heap_start H)) (mark_free a bs) (unat (g_heap_end H))"
      using t by (simp add: tiles_mark_free)
    fix q k
    assume "(q, k) \<in> live H - {(unat p, n)}"
    then obtain b where "(b, k, False) \<in> set bs" "q = b + 32" "b \<noteq> a"
      using live_rel [OF r] only a(2) by auto
    then show "\<exists>b. (b, k, False) \<in> set (mark_free a bs) \<and> q = b + 32"
      by (force simp: mark_free_def)
  qed
  with m' lv show ?thesis by (auto simp: heap_inv_def)
qed

interpretation kheap: allocator heap_inv live h_mem "\<lambda>m H. H\<lparr>h_mem := m\<rparr>" kmalloc kfree
proof unfold_locales
  show "0 < p \<and> p + n < 2 ^ 64" if "heap_inv H" "(p, n) \<in> live H" for H p n
    using live_range [OF that] heap_bounds_hi heap_rel_bounds(1) that(1)
    by (fastforce simp: heap_inv_def)
qed (rule live_disjoint heap_poke_ok kmalloc_ok kfree_ok refl | simp)+

subsection \<open>Initialisation, zeroed blocks, accounting\<close>

lemma kmalloc_init_rel:
  assumes "16 dvd unat start" and "0 < unat start" and "48 \<le> unat len" and "unat start + unat len < 2 ^ 64"
  shows "heap_rel (kmalloc_init start len m) [(unat start, unat len - 32, True)]"
proof -
  have s: "(of_nat (unat start) :: u64) = start" by simp
  have le: "unat start + 32 \<le> 2 ^ 64" using assms(3,4) by simp
  have e: "unat (start + len) = unat start + unat len" using assms(4) unat_add_word [of start len] by simp
  have l: "(of_nat (unat len - 32) :: u64) = len - 32"
    using assms(3) by (simp add: of_nat_diff)
  show ?thesis
    using assms hdr_same [OF le, unfolded s]
    by (simp add: heap_rel_def kmalloc_init_def e l HEADER_SIZE_def)
qed

lemma kzalloc_zeroes:
  assumes "heap_inv H" and "kzalloc H sz = Some (p, H')" and "p \<noteq> 0"
  shows "heap_inv H'" and "\<exists>n. unat sz \<le> n \<and> live H' = insert (unat p, n) (live H) \<and> (unat p, n) \<notin> live H"
    and "same_on (live H) (h_mem H) (h_mem H')"
    and "\<forall>i < unat sz. h_mem H' (p + of_nat i) = 0"
proof -
  obtain p1 H1 where k: "kmalloc H sz = Some (p1, H1)" "p1 = p"
    "H' = H1\<lparr>h_mem := mem_set (h_mem H1) p 0 sz\<rparr>"
    using assms(2,3) by (auto simp: kzalloc_def split: if_splits)
  from assms(1) obtain n where n: "heap_inv H1" "unat sz \<le> n" "live H1 = insert (unat p, n) (live H)"
      "(unat p, n) \<notin> live H" "same_on (live H) (h_mem H) (h_mem H1)"
  proof (cases rule: kheap.alloc_cases [where sz = sz])
    case fail
    with k assms(3) show ?thesis by simp
  next
    case (ok p' h' n)
    with k that [of n] show ?thesis by auto
  qed
  have pn: "unat p + n < 2 ^ 64" using kheap.used_range [OF n(1), of "unat p" n] n(3) by simp
  have outside: "unat p \<le> unat x \<and> unat x < unat p + n"
    if "mem_set (h_mem H1) p 0 sz x \<noteq> h_mem H1 x" for x
    using mem_set_changed [OF _ that] pn n(2) by simp
  note poke = kheap.poke_block [OF n(1), of "unat p" n "mem_set (h_mem H1) p 0 sz", OF _ outside]
  show "heap_inv H'" using poke(1) n(3) by (simp add: k(3))
  show "\<exists>n. unat sz \<le> n \<and> live H' = insert (unat p, n) (live H) \<and> (unat p, n) \<notin> live H"
    using poke(2) n by (auto simp: k(3))
  have "same_on (live H) (h_mem H1) (mem_set (h_mem H1) p 0 sz)"
    using poke(3) n(3,4) by (auto intro: same_on_subset)
  then show "same_on (live H) (h_mem H) (h_mem H')"
    using same_on_trans [OF n(5)] by (simp add: k(3))
  show "\<forall>i < unat sz. h_mem H' (p + of_nat i) = 0"
    by (simp add: k(3) mem_set_inside)
qed

lemma total_used_scan_correct:
  assumes "chain (h_mem H) cur bs" and "tiles lo bs hi" and "heap_bounds H lo hi"
  shows "total_used_scan H cur u = Some (u + of_nat (\<Sum>(a, s, f) \<leftarrow> bs. if f then 0 else s))"
  using assms
proof (induction bs arbitrary: cur lo u)
  case Nil
  then show ?case by (simp add: total_used_scan.simps)
next
  case (Cons b bs)
  obtain a s f where b: "b = (a, s, f)" by (cases b)
  have v: "valid_hdr H (h_mem H) cur" "cur \<noteq> 0" using valid_hdr_chain Cons.prems unfolding b by blast+
  have cur: "cur = of_nat a" "hdr_size (h_mem H) cur = of_nat s" "hdr_free (h_mem H) cur \<noteq> 0 \<longleftrightarrow> f"
    using Cons.prems(1) by (auto simp: b)
  have tl: "chain (h_mem H) (hdr_next (h_mem H) cur) bs" "tiles (a + 32 + s) bs hi"
    "heap_bounds H (a + 32 + s) hi" using Cons.prems by (auto simp: b heap_bounds_def)
  show ?case
    using v cur(2,3) Cons.IH [OF tl] by (subst total_used_scan.simps) (cases f; simp add: b add_ac)
qed

subsection \<open>Reachable heaps\<close>

lemma kmalloc_bounds:
  "kmalloc H sz = Some (p, H') \<Longrightarrow> g_heap_start H' = g_heap_start H \<and> g_heap_end H' = g_heap_end H"
  by (auto simp: kmalloc_def Let_def split: if_splits)

lemma kfree_bounds:
  "kfree H p = Some H' \<Longrightarrow> g_heap_start H' = g_heap_start H \<and> g_heap_end H' = g_heap_end H"
  by (auto simp: kfree_def Let_def split: if_splits)

lemma heap_reach_inv:
  assumes "heap_reach H0 H" and "heap_inv H0"
  shows "heap_inv H \<and> g_heap_start H = g_heap_start H0 \<and> g_heap_end H = g_heap_end H0"
  using assms
proof (induction rule: heap_reach.induct)
  case (alloc H sz p H')
  with kmalloc_ok [of H sz] kmalloc_bounds [OF alloc.hyps(2)] show ?case by auto
next
  case (free H p n H')
  with kfree_ok [of H p n] kfree_bounds [OF free.hyps(3)] show ?case by auto
next
  case (wr H m)
  with heap_poke_ok [of H m] show ?case by simp
qed simp

lemma coalesced_all_free:
  assumes "coalesced bs" and "bs \<noteq> []" and "\<forall>(a, s, f) \<in> set bs. f" and "tiles lo bs hi"
  shows "bs = [(lo, hi - lo - 32, True)]"
  using assms by (cases bs rule: coalesced.cases) auto

lemma heap_empty_rel:
  assumes "heap_inv H" and "live H = {}"
  shows "heap_rel H [(unat (g_heap_start H), unat (g_heap_end H) - unat (g_heap_start H) - 32, True)]"
proof -
  obtain bs where r: "heap_rel H bs" using assms(1) by (auto simp: heap_inv_def)
  have "\<forall>(a, s, f) \<in> set bs. f" using assms(2) live_rel [OF r] by fastforce
  with r have "bs = [(unat (g_heap_start H), unat (g_heap_end H) - unat (g_heap_start H) - 32, True)]"
    by (intro coalesced_all_free) (auto simp: heap_rel_def)
  with r show ?thesis by simp
qed

subsection \<open>Properties\<close>

text \<open>
  C2.  \<^verbatim>\<open>kmalloc\<close> refines first fit.  On a well-formed heap the scan of the header chain in memory
  ends; it returns NULL and changes nothing exactly when no free block can hold the request rounded
  up to 16; otherwise it returns the payload of the first block that can, splits it when at
  least 48 bytes are left over, and writes only to bytes of free blocks.
\<close>
theorem kmalloc_first_fit:
  assumes "heap_rel H bs" and "sz \<noteq> 0"
  shows "case alloc_blocks (round16 (unat sz)) bs of
      None \<Rightarrow> kmalloc H sz = Some (0, H)
    | Some (q, bs') \<Rightarrow> (\<exists>m'. kmalloc H sz = Some (of_nat q, H\<lparr>h_mem := m'\<rparr>)
         \<and> heap_rel (H\<lparr>h_mem := m'\<rparr>) bs' \<and> changed_free (h_mem H) m' bs)"
  by (rule kmalloc_refines [OF assms])

theorem kmalloc_first_fit_witness:
  "\<exists>m'. kmalloc (kmalloc_init 4096 4096 (\<lambda>_. 0)) 100
     = Some (4128, (kmalloc_init 4096 4096 (\<lambda>_. 0))\<lparr>h_mem := m'\<rparr>)"
proof -
  have "heap_rel (kmalloc_init 4096 4096 (\<lambda>_. 0)) [(4096, 4064, True)]"
    using kmalloc_init_rel [of 4096 4096 "\<lambda>_. 0"] by simp
  from kmalloc_first_fit [OF this, of 100] show ?thesis by (auto simp: round16_def)
qed

text \<open>
  C3.  \<^verbatim>\<open>kfree\<close> of a pointer to a block in use ends, marks exactly that block free, merges every run
  of adjacent free blocks, keeps the heap well formed and writes only to free blocks.
\<close>
theorem kfree_coalesces:
  assumes "heap_rel H bs" and "(a, s, False) \<in> set bs"
  shows "\<exists>m'. kfree H (of_nat (a + 32)) = Some (H\<lparr>h_mem := m'\<rparr>)
     \<and> heap_rel (H\<lparr>h_mem := m'\<rparr>) (free_blocks a bs) \<and> changed_free (h_mem H) m' (mark_free a bs)"
  by (rule kfree_refines [OF assms])

theorem kfree_coalesces_witness:
  "\<exists>H H'. kmalloc (kmalloc_init 4096 4096 (\<lambda>_. 0)) 100 = Some (4128, H) \<and> kfree H 4128 = Some H'
     \<and> heap_rel H' [(4096, 4064, True)]"
proof -
  have "heap_rel (kmalloc_init 4096 4096 (\<lambda>_. 0)) [(4096, 4064, True)]"
    using kmalloc_init_rel [of 4096 4096 "\<lambda>_. 0"] by simp
  from kmalloc_refines [OF this, of 100] obtain H where
    k: "kmalloc (kmalloc_init 4096 4096 (\<lambda>_. 0)) 100 = Some (4128, H)"
    and r: "heap_rel H [(4096, 112, False), (4240, 3920, True)]"
    by (auto simp: round16_def)
  from kfree_coalesces [OF r, of 4096 112] k show ?thesis
    by (auto simp: free_blocks_def)
qed

text \<open>
  C1.  From initialisation on, whatever a client allocates, frees and writes inside its own
  blocks: blocks in use lie inside the heap and never overlap, the next \<^verbatim>\<open>kmalloc\<close> returns, and
  once every block has been freed the heap is the one free block it started as, so no memory
  is lost to fragmentation.
\<close>
theorem heap_safety:
  assumes "16 dvd unat start" and "0 < unat start" and "48 \<le> unat len" and "unat start + unat len < 2 ^ 64"
    and "heap_reach (kmalloc_init start len m) H"
  shows "(\<forall>p n q k. (p, n) \<in> live H \<longrightarrow> (q, k) \<in> live H \<longrightarrow>
        unat start + 32 \<le> p \<and> p + n \<le> unat start + unat len \<and> ((p, n) = (q, k) \<or> p + n \<le> q \<or> q + k \<le> p))
    \<and> (\<forall>sz. \<exists>r. kmalloc H sz = Some r)
    \<and> (live H = {} \<longrightarrow> heap_rel H [(unat start, unat len - 32, True)])"
proof (intro conjI)
  have i0: "heap_inv (kmalloc_init start len m)"
    using kmalloc_init_rel [OF assms(1-4)] by (auto simp: heap_inv_def)
  have g: "g_heap_start H = start" "g_heap_end H = start + len" and i: "heap_inv H"
    using heap_reach_inv [OF assms(5) i0] by (auto simp: kmalloc_init_def)
  have e: "unat (start + len) = unat start + unat len" using unat_add_word assms(4) by blast
  show "\<forall>p n q k. (p, n) \<in> live H \<longrightarrow> (q, k) \<in> live H \<longrightarrow>
      unat start + 32 \<le> p \<and> p + n \<le> unat start + unat len \<and> ((p, n) = (q, k) \<or> p + n \<le> q \<or> q + k \<le> p)"
  proof (intro allI impI)
    fix p n q k
    assume "(p, n) \<in> live H" "(q, k) \<in> live H"
    with live_range [OF i, of p n] live_disjoint [OF i, of p n q k]
    show "unat start + 32 \<le> p \<and> p + n \<le> unat start + unat len \<and> ((p, n) = (q, k) \<or> p + n \<le> q \<or> q + k \<le> p)"
      unfolding g e by blast
  qed
  show "\<forall>sz. \<exists>r. kmalloc H sz = Some r" using kmalloc_ok [OF i] by blast
  show "live H = {} \<longrightarrow> heap_rel H [(unat start, unat len - 32, True)]"
    using heap_empty_rel [OF i] by (simp add: g e)
qed

theorem heap_safety_witness:
  "\<forall>sz. \<exists>r. kmalloc (kmalloc_init 4096 4096 (\<lambda>_. 0)) sz = Some r"
  using heap_safety [of 4096 4096 "\<lambda>_. 0" "kmalloc_init 4096 4096 (\<lambda>_. 0)"] heap_reach.start
  by simp

text \<open>
  \<^verbatim>\<open>kmalloc_total_used\<close> ends and returns the payload bytes of the blocks in use.
\<close>
lemma kmalloc_total_used_sum:
  assumes "heap_rel H bs"
  shows "kmalloc_total_used H = Some (of_nat (\<Sum>(a, s, f) \<leftarrow> bs. if f then 0 else s))"
  using total_used_scan_correct [OF _ _ heap_rel_bounds(1) [OF assms], of "g_heap_head H" bs 0] assms
  by (simp add: heap_rel_def kmalloc_total_used_def)

end
