(* ===== verification/Capability.thy ===== *)
theory Capability
  imports Audit_Log Blake3 Kmalloc
begin

text \<open>
  Capability tokens (\<^verbatim>\<open>kernel/cap/capability.c\<close>, \<^verbatim>\<open>kernel/cap/broker.c\<close>).  A token is 128 bits:
  resource class, resource id and rights in \<^verbatim>\<open>upper\<close>, a keyed BLAKE3 tag bound to the owner's pid
  in \<^verbatim>\<open>lower\<close>.  Revoked tokens are kept in a table in the kernel heap that doubles when it is
  full.  The abstract state is the list of revoked tokens.
\<close>

definition CAP_RES_KERNEL :: u32 where "CAP_RES_KERNEL = 5"

definition CAP_RIGHT_DELEGATE :: u64 where "CAP_RIGHT_DELEGATE = push_bit 4 1"
definition CAP_RIGHT_REVOKE :: u64 where "CAP_RIGHT_REVOKE = push_bit 5 1"

record cap_token =
  ct_upper :: u64
  ct_lower :: u64

definition CAP_NULL :: cap_token where
  "CAP_NULL = \<lparr>ct_upper = 0, ct_lower = 0\<rparr>"

definition REVOKE_TABLE_INITIAL_CAPACITY :: u32 where "REVOKE_TABLE_INITIAL_CAPACITY = 256"
definition REVOKE_TABLE_MAX_CAPACITY :: u32 where "REVOKE_TABLE_MAX_CAPACITY = 65536"

record cap_state =
  g_kernel_secret :: "u8 list"
  g_revoke_table :: u64
  g_revoke_count :: u32
  g_revoke_capacity :: u32

text \<open>What the operations touch: the module's variables, the kernel heap and the audit log.\<close>

record cap_kernel =
  ck_cap :: cap_state
  ck_heap :: heap
  ck_audit :: audit_state

text \<open>
  The random source: \<^verbatim>\<open>cpuid\<close>'s \<^verbatim>\<open>ecx\<close>, the time-stamp counter, and the value and carry flag of
  each execution of \<^verbatim>\<open>rdrand\<close>.
\<close>

record rng_env =
  cpuid_ecx :: u32
  tsc_lo :: u32
  tsc_hi :: u32
  rdrand_results :: "(u64 \<times> bool) list"

definition has_rdrand :: "rng_env \<Rightarrow> bool" where
  "has_rdrand e \<longleftrightarrow> cpuid_ecx e AND push_bit 30 1 \<noteq> 0"

fun rdrand_loop :: "nat \<Rightarrow> (u64 \<times> bool) list \<Rightarrow> u64 \<Rightarrow> u64" where
  "rdrand_loop (Suc n) ((v, ok) # rs) val = (if ok then v else rdrand_loop n rs v)"
| "rdrand_loop n rs val = val"

definition rdrand64 :: "rng_env \<Rightarrow> u64" where
  "rdrand64 e =
     (if \<not> has_rdrand e
      then (push_bit 32 (ucast (tsc_hi e)) OR ucast (tsc_lo e)) XOR 0xA5A5A5A5A5A5A5A5
      else rdrand_loop 10 (rdrand_results e) 0)"

definition revoke_table_ensure_capacity :: "cap_kernel \<Rightarrow> (bool \<times> cap_kernel) option" where
  "revoke_table_ensure_capacity k =
     (let c = ck_cap k in
      if g_revoke_count c < g_revoke_capacity c then Some (True, k)
      else if REVOKE_TABLE_MAX_CAPACITY \<le> g_revoke_capacity c then Some (False, k)
      else
        (let new_capacity = (if g_revoke_capacity c = 0 then REVOKE_TABLE_INITIAL_CAPACITY
                             else g_revoke_capacity c * 2);
             new_capacity = (if REVOKE_TABLE_MAX_CAPACITY < new_capacity
                             then REVOKE_TABLE_MAX_CAPACITY else new_capacity)
         in case kmalloc (ck_heap k) (16 * ucast new_capacity) of
              None \<Rightarrow> None
            | Some (new_table, H) \<Rightarrow>
                if new_table = 0 then Some (False, k\<lparr>ck_heap := H\<rparr>)
                else
                  (let moved =
                     (if g_revoke_table c \<noteq> 0 then
                        kfree (H\<lparr>h_mem := mem_copy (h_mem H) new_table (g_revoke_table c)
                                   (16 * ucast (g_revoke_count c))\<rparr>) (g_revoke_table c)
                      else Some H)
                   in map_option (\<lambda>H. (True, k\<lparr>ck_heap := H,
                        ck_cap := c\<lparr>g_revoke_table := new_table, g_revoke_capacity := new_capacity\<rparr>\<rparr>))
                        moved)))"

definition cap_subsystem_init :: "rng_env \<Rightarrow> rng_env \<Rightarrow> rng_env \<Rightarrow> rng_env \<Rightarrow> cap_kernel \<Rightarrow> cap_kernel option" where
  "cap_subsystem_init e0 e1 e2 e3 k =
     (let secret = concat (map (le_bytes 8) [rdrand64 e0, rdrand64 e1, rdrand64 e2, rdrand64 e3]);
          freed = (if g_revoke_table (ck_cap k) \<noteq> 0 then kfree (ck_heap k) (g_revoke_table (ck_cap k))
                   else Some (ck_heap k))
      in map_option (\<lambda>H. k\<lparr>ck_heap := H,
           ck_cap := \<lparr>g_kernel_secret = secret, g_revoke_table = 0, g_revoke_count = 0,
                      g_revoke_capacity = 0\<rparr>\<rparr>) freed)"

text \<open>
  The digest does not depend on the stack bytes in the hash context (\<open>blake3_hash_stack\<close>): the
  model takes them to be zero.
\<close>

definition build_lower :: "u8 list \<Rightarrow> u64 \<Rightarrow> u32 \<Rightarrow> u64" where
  "build_lower secret upper pid =
     (let buf = le_bytes 8 upper @ le_bytes 4 pid @ secret;
          digest = blake3_hash (replicate 64 0) buf
      in le_val (take 8 digest))"

definition ck_record :: "audit_event \<Rightarrow> u32 \<Rightarrow> u64 \<Rightarrow> u64 \<Rightarrow> cap_kernel \<Rightarrow> cap_kernel" where
  "ck_record ev pid a0 a1 k = k\<lparr>ck_audit := audit_record ev pid a0 a1 (ck_audit k)\<rparr>"

definition cap_create :: "u32 \<Rightarrow> u32 \<Rightarrow> u64 \<Rightarrow> u32 \<Rightarrow> cap_kernel \<Rightarrow> cap_token \<times> cap_kernel" where
  "cap_create res res_id rights owner_pid k =
     (let upper = push_bit 48 (ucast (res AND 0xFFFF)) OR push_bit 16 (ucast res_id) OR (rights AND 0xFFFF);
          lower = build_lower (g_kernel_secret (ck_cap k)) upper owner_pid
      in (\<lparr>ct_upper = upper, ct_lower = lower\<rparr>, ck_record AUDIT_CAP_CREATE owner_pid upper lower k))"

definition revoke_entry :: "cap_kernel \<Rightarrow> nat \<Rightarrow> cap_token" where
  "revoke_entry k i =
     (let a = g_revoke_table (ck_cap k) + 16 * of_nat i in
      \<lparr>ct_upper = ld64 (h_mem (ck_heap k)) a, ct_lower = ld64 (h_mem (ck_heap k)) (a + 8)\<rparr>)"

text \<open>The search loop of \<^verbatim>\<open>cap_validate\<close> and \<^verbatim>\<open>cap_revoke\<close>.\<close>

definition in_revoke_table :: "cap_token \<Rightarrow> cap_kernel \<Rightarrow> bool" where
  "in_revoke_table t k \<longleftrightarrow>
     list_ex (\<lambda>i. ct_upper (revoke_entry k i) = ct_upper t \<and> ct_lower (revoke_entry k i) = ct_lower t)
       [0..<unat (g_revoke_count (ck_cap k))]"

definition cap_validate :: "cap_token \<Rightarrow> u32 \<Rightarrow> u64 \<Rightarrow> cap_kernel \<Rightarrow> bool \<times> cap_kernel" where
  "cap_validate token pid required_rights k =
     (if ct_upper token = 0 \<and> ct_lower token = 0 then (False, ck_record AUDIT_CAP_DENIED pid 0 0 k)
      else
        (let expected = build_lower (g_kernel_secret (ck_cap k)) (ct_upper token) pid in
         if expected \<noteq> ct_lower token
         then (False, ck_record AUDIT_CAP_FORGERY pid (ct_upper token) (ct_lower token) k)
         else if in_revoke_table token k
         then (False, ck_record AUDIT_CAP_DENIED pid (ct_upper token) (ct_lower token) k)
         else
           (let token_rights = ct_upper token AND 0xFFFF in
            if token_rights AND required_rights \<noteq> required_rights
            then (False, ck_record AUDIT_CAP_DENIED pid (ct_upper token) required_rights k)
            else (True, k))))"

definition cap_revoke :: "cap_token \<Rightarrow> cap_token \<Rightarrow> u32 \<Rightarrow> cap_kernel \<Rightarrow> (bool \<times> cap_kernel) option" where
  "cap_revoke authority target revoker_pid k =
     (let (ok, k) = cap_validate authority revoker_pid CAP_RIGHT_REVOKE k in
      if \<not> ok then Some (False, k)
      else
        (let auth_res = drop_bit 48 (ct_upper authority) AND 0xFFFF;
             target_res = drop_bit 48 (ct_upper target) AND 0xFFFF
         in
         if auth_res \<noteq> ucast CAP_RES_KERNEL \<and> auth_res \<noteq> target_res
         then Some (False, ck_record AUDIT_CAP_DENIED revoker_pid (ct_upper target) 0 k)
         else if ct_upper target = 0 \<and> ct_lower target = 0 then Some (False, k)
         else if in_revoke_table target k then Some (True, k)
         else case revoke_table_ensure_capacity k of
             None \<Rightarrow> None
           | Some (False, k) \<Rightarrow> Some (False, k)
           | Some (True, k) \<Rightarrow>
               (let a = g_revoke_table (ck_cap k) + 16 * ucast (g_revoke_count (ck_cap k));
                    m = st64 (st64 (h_mem (ck_heap k)) a (ct_upper target)) (a + 8) (ct_lower target);
                    k = k\<lparr>ck_heap := (ck_heap k)\<lparr>h_mem := m\<rparr>,
                          ck_cap := (ck_cap k)\<lparr>g_revoke_count := g_revoke_count (ck_cap k) + 1\<rparr>\<rparr>
                in Some (True, ck_record AUDIT_CAP_REVOKE revoker_pid (ct_upper target) (ct_lower target) k))))"

definition cap_delegate :: "cap_token \<Rightarrow> u32 \<Rightarrow> u32 \<Rightarrow> u64 \<Rightarrow> cap_kernel \<Rightarrow> cap_token \<times> cap_kernel" where
  "cap_delegate src src_pid target_pid subset_rights k =
     (let (ok, k) = cap_validate src src_pid CAP_RIGHT_DELEGATE k in
      if \<not> ok then (CAP_NULL, k)
      else
        (let original_rights = ct_upper src AND 0xFFFF;
             new_rights = original_rights AND subset_rights;
             upper = (ct_upper src AND NOT 0xFFFF) OR new_rights;
             lower = build_lower (g_kernel_secret (ck_cap k)) upper target_pid
         in (\<lparr>ct_upper = upper, ct_lower = lower\<rparr>, ck_record AUDIT_CAP_DELEGATE target_pid upper lower k)))"

definition broker_check :: "u32 \<Rightarrow> cap_token \<Rightarrow> u64 \<Rightarrow> cap_kernel \<Rightarrow> bool \<times> cap_kernel" where
  "broker_check pid token required_rights k =
     (let (result, k) = cap_validate token pid required_rights k in
      (result, if result then k else ck_record AUDIT_CAP_DENIED pid (ct_upper token) required_rights k))"

subsection \<open>The abstract state\<close>

definition revoked :: "cap_kernel \<Rightarrow> cap_token list" where
  "revoked k = map (revoke_entry k) [0..<unat (g_revoke_count (ck_cap k))]"

text \<open>The table has its own block of the heap, large enough for its capacity.\<close>

definition table_block :: "cap_kernel \<Rightarrow> bool" where
  "table_block k \<longleftrightarrow>
     (if g_revoke_table (ck_cap k) = 0 then g_revoke_capacity (ck_cap k) = 0
      else \<exists>n. (unat (g_revoke_table (ck_cap k)), n) \<in> live (ck_heap k) \<and> 16 * unat (g_revoke_capacity (ck_cap k)) \<le> n)"

definition cap_inv :: "cap_kernel \<Rightarrow> bool" where
  "cap_inv k \<longleftrightarrow> heap_inv (ck_heap k) \<and> table_block k
     \<and> unat (g_revoke_count (ck_cap k)) \<le> unat (g_revoke_capacity (ck_cap k))
     \<and> unat (g_revoke_capacity (ck_cap k)) \<le> 65536"

text \<open>The blocks of the other users of the heap.\<close>

definition other_blocks :: "cap_kernel \<Rightarrow> (nat \<times> nat) set" where
  "other_blocks k = {(p, n) \<in> live (ck_heap k). p \<noteq> unat (g_revoke_table (ck_cap k))}"

definition others_kept :: "cap_kernel \<Rightarrow> cap_kernel \<Rightarrow> bool" where
  "others_kept k k' \<longleftrightarrow> other_blocks k' = other_blocks k
     \<and> same_on (other_blocks k) (h_mem (ck_heap k)) (h_mem (ck_heap k'))"

definition rights_of :: "cap_token \<Rightarrow> u64" where "rights_of t = ct_upper t AND 0xFFFF"
definition class_of :: "cap_token \<Rightarrow> u64" where "class_of t = drop_bit 48 (ct_upper t)"
definition id_of :: "cap_token \<Rightarrow> u32" where "id_of t = ucast (drop_bit 16 (ct_upper t))"

text \<open>The token is genuine for the process: its tag is the one the kernel computes.\<close>

definition authentic :: "cap_kernel \<Rightarrow> cap_token \<Rightarrow> u32 \<Rightarrow> bool" where
  "authentic k t pid \<longleftrightarrow> t \<noteq> CAP_NULL \<and> ct_lower t = build_lower (g_kernel_secret (ck_cap k)) (ct_upper t) pid"

text \<open>
  The states a running kernel can go through: any calls of the module, and other code that
  allocates, frees its own blocks and writes inside them.
\<close>

inductive cap_reach :: "cap_kernel \<Rightarrow> cap_kernel \<Rightarrow> bool" for k0 where
  start: "cap_reach k0 k0"
| create: "cap_reach k0 k \<Longrightarrow> cap_reach k0 (snd (cap_create res rid rights pid k))"
| check: "cap_reach k0 k \<Longrightarrow> cap_reach k0 (snd (broker_check pid t rights k))"
| delegate: "cap_reach k0 k \<Longrightarrow> cap_reach k0 (snd (cap_delegate t pid pid' rights k))"
| revoke: "cap_reach k0 k \<Longrightarrow> cap_revoke au t pid k = Some (b, k') \<Longrightarrow> cap_reach k0 k'"
| other_alloc: "cap_reach k0 k \<Longrightarrow> kmalloc (ck_heap k) sz = Some (p, H) \<Longrightarrow> cap_reach k0 (k\<lparr>ck_heap := H\<rparr>)"
| other_free: "cap_reach k0 k \<Longrightarrow> (unat p, n) \<in> other_blocks k \<Longrightarrow> kfree (ck_heap k) p = Some H \<Longrightarrow>
    cap_reach k0 (k\<lparr>ck_heap := H\<rparr>)"
| other_write: "cap_reach k0 k \<Longrightarrow> writes_within (other_blocks k) (h_mem (ck_heap k)) m \<Longrightarrow>
    cap_reach k0 (k\<lparr>ck_heap := (ck_heap k)\<lparr>h_mem := m\<rparr>\<rparr>)"

subsection \<open>The revocation table\<close>

lemma ck_record_sel [simp]:
  "ck_cap (ck_record ev pid a b k) = ck_cap k" "ck_heap (ck_record ev pid a b k) = ck_heap k"
  by (simp_all add: ck_record_def)

lemma revoke_entry_cong:
  assumes "\<And>j. j < 16 * c \<Longrightarrow> h_mem (ck_heap k') (g_revoke_table (ck_cap k') + of_nat j)
      = h_mem (ck_heap k) (g_revoke_table (ck_cap k) + of_nat j)" and "i < c"
  shows "revoke_entry k' i = revoke_entry k i"
proof -
  have "h_mem (ck_heap k') (g_revoke_table (ck_cap k') + 16 * of_nat i + of_nat j)
      = h_mem (ck_heap k) (g_revoke_table (ck_cap k) + 16 * of_nat i + of_nat j)" if "j < 16" for j
    using assms(1) [of "16 * i + j"] assms(2) that by (simp add: add.assoc)
  from this this [of "8 + _"] show ?thesis
    by (auto simp: revoke_entry_def Let_def ld_def add.assoc intro!: arg_cong [where f = le_val])
qed

lemma revoked_cong:
  assumes "\<And>j. j < 16 * unat (g_revoke_count (ck_cap k)) \<Longrightarrow>
      h_mem (ck_heap k') (g_revoke_table (ck_cap k') + of_nat j)
      = h_mem (ck_heap k) (g_revoke_table (ck_cap k) + of_nat j)"
    and "g_revoke_count (ck_cap k') = g_revoke_count (ck_cap k)"
  shows "revoked k' = revoked k"
  using revoke_entry_cong [OF assms(1)] assms(2) by (simp add: revoked_def)

lemma revoked_record [simp]: "revoked (ck_record ev pid a b k) = revoked k"
  by (rule revoked_cong) simp_all

lemma inv_record [simp]: "cap_inv (ck_record ev pid a b k) = cap_inv k"
  by (simp add: cap_inv_def table_block_def)

lemma in_revoke_table_iff: "in_revoke_table t k \<longleftrightarrow> t \<in> set (revoked k)"
proof -
  have "ct_upper x = ct_upper t \<and> ct_lower x = ct_lower t \<longleftrightarrow> x = t" for x :: cap_token
    by (cases x; cases t) auto
  then show ?thesis by (auto simp: in_revoke_table_def revoked_def list_ex_iff)
qed

lemma cap_validate_state:
  "ck_cap (snd (cap_validate t pid r k)) = ck_cap k" "ck_heap (snd (cap_validate t pid r k)) = ck_heap k"
  by (simp_all add: cap_validate_def Let_def)

lemma cap_validate_iff:
  "fst (cap_validate t pid r k) \<longleftrightarrow> authentic k t pid \<and> t \<notin> set (revoked k) \<and> rights_of t AND r = r"
  by (cases t) (auto simp: cap_validate_def Let_def authentic_def CAP_NULL_def in_revoke_table_iff rights_of_def)

lemma table_block_range:
  assumes "heap_inv (ck_heap k)" and "table_block k" and "g_revoke_table (ck_cap k) \<noteq> 0"
    and "j < 16 * unat (g_revoke_capacity (ck_cap k))"
  obtains n where "(unat (g_revoke_table (ck_cap k)), n) \<in> live (ck_heap k)"
    "unat (g_revoke_table (ck_cap k) + of_nat j) = unat (g_revoke_table (ck_cap k)) + j" "j < n"
proof -
  obtain n where n: "(unat (g_revoke_table (ck_cap k)), n) \<in> live (ck_heap k)"
    "16 * unat (g_revoke_capacity (ck_cap k)) \<le> n" using assms(2,3) by (auto simp: table_block_def)
  have "unat (g_revoke_table (ck_cap k)) + n < 2 ^ 64" using kheap.used_range [OF assms(1) n(1)] by simp
  then have "unat (g_revoke_table (ck_cap k) + of_nat j) = unat (g_revoke_table (ck_cap k)) + j"
    using assms(4) n(2) by (intro unat_add_small) simp
  with n that assms(4) show ?thesis by simp
qed

text \<open>The table and its block survive whatever keeps the bytes of that block.\<close>

lemma cap_inv_other:
  assumes "cap_inv k" and "heap_inv H" and "live (ck_heap k) - other_blocks k \<subseteq> live H"
    and "same_on (live (ck_heap k) - other_blocks k) (h_mem (ck_heap k)) (h_mem H)"
  shows "cap_inv (k\<lparr>ck_heap := H\<rparr>)" and "revoked (k\<lparr>ck_heap := H\<rparr>) = revoked k"
proof -
  let ?t = "g_revoke_table (ck_cap k)"
  have own: "(unat ?t, n) \<in> live (ck_heap k) - other_blocks k" if "(unat ?t, n) \<in> live (ck_heap k)" for n
    using that by (simp add: other_blocks_def)
  show "cap_inv (k\<lparr>ck_heap := H\<rparr>)"
    using assms(1-3) own unfolding cap_inv_def table_block_def by (auto split: if_splits)
  show "revoked (k\<lparr>ck_heap := H\<rparr>) = revoked k"
  proof (rule revoked_cong)
    fix j
    assume "j < 16 * unat (g_revoke_count (ck_cap k))"
    with assms(1) have j: "j < 16 * unat (g_revoke_capacity (ck_cap k))"
      and i: "heap_inv (ck_heap k)" "table_block k" "?t \<noteq> 0"
      by (auto simp: cap_inv_def table_block_def split: if_splits)
    obtain n where "(unat ?t, n) \<in> live (ck_heap k)" "unat (?t + of_nat j) = unat ?t + j" "j < n"
      using table_block_range [OF i j] by blast
    with own same_onD [OF assms(4), of "unat ?t" n "?t + of_nat j"]
    show "h_mem (ck_heap (k\<lparr>ck_heap := H\<rparr>)) (g_revoke_table (ck_cap (k\<lparr>ck_heap := H\<rparr>)) + of_nat j)
        = h_mem (ck_heap k) (?t + of_nat j)" by simp
  qed simp
qed

definition next_capacity :: "u32 \<Rightarrow> u32" where
  "next_capacity c = (let n = (if c = 0 then 256 else c * 2) in if 65536 < n then 65536 else n)"

lemma next_capacity_bounds:
  assumes "c < 65536"
  shows "unat c < unat (next_capacity c)" "unat (next_capacity c) \<le> 65536"
    "unat (16 * ucast (next_capacity c) :: u64) = 16 * unat (next_capacity c)"
proof -
  have d: "unat (c * 2) = unat c * 2" using assms by (simp add: unat_word_ariths word_less_nat_alt)
  have c0: "unat c = 0 \<longleftrightarrow> c = 0" by (simp add: unat_eq_0)
  show 1: "unat c < unat (next_capacity c)" and 2: "unat (next_capacity c) \<le> 65536"
    using assms d c0 by (auto simp: next_capacity_def Let_def word_less_nat_alt)
  have u: "unat (ucast (next_capacity c) :: u64) = unat (next_capacity c)"
    by (simp add: unsigned_ucast_eq take_bit_eq_mod) (use 2 in simp)
  show "unat (16 * ucast (next_capacity c) :: u64) = 16 * unat (next_capacity c)"
    using 2 by (simp add: unat_word_ariths u)
qed

lemma unat_count16:
  "unat (c :: u32) \<le> 65536 \<Longrightarrow> unat (16 * ucast c :: u64) = 16 * unat c"
  by (simp add: unat_word_ariths unsigned_ucast_eq take_bit_eq_mod)

lemma ensure_capacity_unfold:
  "revoke_table_ensure_capacity k =
     (if g_revoke_count (ck_cap k) < g_revoke_capacity (ck_cap k) then Some (True, k)
      else if 65536 \<le> g_revoke_capacity (ck_cap k) then Some (False, k)
      else case kmalloc (ck_heap k) (16 * ucast (next_capacity (g_revoke_capacity (ck_cap k)))) of
             None \<Rightarrow> None
           | Some (p, H) \<Rightarrow>
               if p = 0 then Some (False, k\<lparr>ck_heap := H\<rparr>)
               else map_option (\<lambda>H. (True, k\<lparr>ck_heap := H,
                        ck_cap := (ck_cap k)\<lparr>g_revoke_table := p,
                          g_revoke_capacity := next_capacity (g_revoke_capacity (ck_cap k))\<rparr>\<rparr>))
                     (if g_revoke_table (ck_cap k) \<noteq> 0
                      then kfree (H\<lparr>h_mem := mem_copy (h_mem H) p (g_revoke_table (ck_cap k))
                             (16 * ucast (g_revoke_count (ck_cap k)))\<rparr>) (g_revoke_table (ck_cap k))
                      else Some H))"
  unfolding revoke_table_ensure_capacity_def next_capacity_def Let_def
    REVOKE_TABLE_MAX_CAPACITY_def REVOKE_TABLE_INITIAL_CAPACITY_def by (simp only:)

lemma live_start_unique:
  assumes "heap_inv H" and "(p, n) \<in> live H" and "(p, k) \<in> live H"
  shows "k = n"
  using live_disjoint [OF assms] live_range(3) [OF assms(1,2)] live_range(3) [OF assms(1,3)] by auto

lemma others_kept_new:
  assumes "heap_inv H'" and "live H' = insert (unat p, n) (other_blocks k)"
    and "(unat p, n) \<notin> live (ck_heap k)" and "same_on (other_blocks k) (h_mem (ck_heap k)) (h_mem H')"
    and "g_revoke_table c = p"
  shows "others_kept k (k\<lparr>ck_heap := H', ck_cap := c\<rparr>)"
proof -
  have "q \<noteq> unat p" if "(q, m) \<in> other_blocks k" for q m
    using live_start_unique [OF assms(1), of "unat p" n m] assms(2,3) that
    by (auto simp: other_blocks_def)
  then have "other_blocks (k\<lparr>ck_heap := H', ck_cap := c\<rparr>) = other_blocks k"
    unfolding other_blocks_def [of "k\<lparr>ck_heap := H', ck_cap := c\<rparr>"] using assms(2,5) by auto
  with assms(4) show ?thesis by (simp add: others_kept_def)
qed

text \<open>
  Growing: the table is moved or allocated, its entries arrive, and the other users of the heap
  notice nothing.
\<close>

lemma ensure_capacity_ok:
  assumes inv: "cap_inv k"
  shows "\<exists>b k'. revoke_table_ensure_capacity k = Some (b, k') \<and> cap_inv k' \<and> revoked k' = revoked k
    \<and> others_kept k k' \<and> ck_audit k' = ck_audit k
    \<and> g_kernel_secret (ck_cap k') = g_kernel_secret (ck_cap k)
    \<and> g_revoke_count (ck_cap k') = g_revoke_count (ck_cap k)
    \<and> (b \<longrightarrow> unat (g_revoke_count (ck_cap k')) < unat (g_revoke_capacity (ck_cap k')))
    \<and> (\<not> b \<longrightarrow> k' = k)"
proof -
  let ?c = "ck_cap k" and ?H = "ck_heap k"
  let ?nc = "next_capacity (g_revoke_capacity ?c)"
  have hi: "heap_inv ?H" and tb: "table_block k"
    and cc: "unat (g_revoke_count ?c) \<le> unat (g_revoke_capacity ?c)" "unat (g_revoke_capacity ?c) \<le> 65536"
    using inv by (auto simp: cap_inv_def)
  have self: "others_kept k k" by (simp add: others_kept_def)
  show ?thesis
  proof (cases "g_revoke_count ?c < g_revoke_capacity ?c \<or> 65536 \<le> g_revoke_capacity ?c")
    case True
    then show ?thesis using inv self
      by (cases "g_revoke_count ?c < g_revoke_capacity ?c")
        (auto simp: ensure_capacity_unfold word_less_nat_alt)
  next
    case False
    then have lt: "g_revoke_capacity ?c < 65536" by (simp add: not_le)
    note nc = next_capacity_bounds [OF lt]
    have c16: "unat (16 * ucast (g_revoke_count ?c) :: u64) = 16 * unat (g_revoke_count ?c)"
      using cc by (intro unat_count16) simp
    from hi show ?thesis
    proof (cases rule: kheap.alloc_cases [where sz = "16 * ucast ?nc"])
      case fail
      then show ?thesis using False inv self by (intro exI [of _ False]) (simp add: ensure_capacity_unfold)
    next
      case (ok p H n)
      show ?thesis
      proof (cases "g_revoke_table ?c = 0")
        case True
        let ?k' = "k\<lparr>ck_heap := H, ck_cap := ?c\<lparr>g_revoke_table := p, g_revoke_capacity := ?nc\<rparr>\<rparr>"
        have e: "revoke_table_ensure_capacity k = Some (True, ?k')"
          using False ok(1,3) True by (simp add: ensure_capacity_unfold)
        have c0: "g_revoke_count ?c = 0" "g_revoke_capacity ?c = 0"
          using tb True cc(1) by (auto simp: table_block_def unat_eq_0)
        have "cap_inv ?k'"
          using ok nc c0 by (auto simp: cap_inv_def table_block_def)
        moreover have "revoked ?k' = revoked k" by (simp add: revoked_def c0)
        moreover have "other_blocks k = live ?H"
          using live_range [OF hi] True by (fastforce simp: other_blocks_def)
        then have "others_kept k ?k'"
          using ok by (intro others_kept_new [of H p n]) auto
        ultimately show ?thesis using e nc(1) c0 by auto
      next
        case nz: False
        then obtain kk where blk: "(unat (g_revoke_table ?c), kk) \<in> live ?H"
          "16 * unat (g_revoke_capacity ?c) \<le> kk" using tb by (auto simp: table_block_def)
        have l1: "unat (16 * ucast (g_revoke_count ?c) :: u64) \<le> unat (16 * ucast ?nc :: u64)"
          "unat (16 * ucast (g_revoke_count ?c) :: u64) \<le> kk"
          using c16 nc cc blk(2) by auto
        from kheap.grow_block [OF hi blk(1) ok(1,3) l1]
        obtain H3 n3 where g: "kfree (H\<lparr>h_mem := mem_copy (h_mem H) p (g_revoke_table ?c)
              (16 * ucast (g_revoke_count ?c))\<rparr>) (g_revoke_table ?c) = Some H3" "heap_inv H3"
            "unat (16 * ucast ?nc :: u64) \<le> n3"
            "live H3 = insert (unat p, n3) (live ?H - {(unat (g_revoke_table ?c), kk)})"
            "\<forall>j < unat (16 * ucast (g_revoke_count ?c) :: u64). h_mem H3 (p + of_nat j) = h_mem ?H (g_revoke_table ?c + of_nat j)"
            "same_on (live ?H - {(unat (g_revoke_table ?c), kk)}) (h_mem ?H) (h_mem H3)"
            "(unat p, n3) \<notin> live ?H"
          by auto
        let ?k' = "k\<lparr>ck_heap := H3, ck_cap := ?c\<lparr>g_revoke_table := p, g_revoke_capacity := ?nc\<rparr>\<rparr>"
        have e: "revoke_table_ensure_capacity k = Some (True, ?k')"
          using False ok(1,3) nz g(1) by (simp add: ensure_capacity_unfold)
        have "cap_inv ?k'"
          using g(2-4) nc ok(3) cc by (auto simp: cap_inv_def table_block_def)
        moreover have "revoked ?k' = revoked k"
          using g(5) c16 by (intro revoked_cong) simp_all
        moreover have "live ?H - {(unat (g_revoke_table ?c), kk)} = other_blocks k"
          using live_start_unique [OF hi blk(1)] by (auto simp: other_blocks_def)
        then have "others_kept k ?k'"
          using g by (intro others_kept_new [of H3 p n3]) auto
        ultimately show ?thesis using e nc(1) cc(1) by auto
      qed
    qed
  qed
qed

lemma unat_ucast_u32 [simp]: "unat (ucast (c :: u32) :: u64) = unat c"
  using unsigned_less [of c, where 'a = nat] by (simp add: unsigned_ucast_eq take_bit_eq_mod)

lemma ucast_u32: "(ucast (c :: u32) :: u64) = of_nat (unat c)"
  by simp

text \<open>Appending one entry at the end of the table.\<close>

definition append_entry :: "cap_token \<Rightarrow> cap_kernel \<Rightarrow> cap_kernel" where
  "append_entry t k =
     (let a = g_revoke_table (ck_cap k) + 16 * ucast (g_revoke_count (ck_cap k));
          m = st64 (st64 (h_mem (ck_heap k)) a (ct_upper t)) (a + 8) (ct_lower t)
      in k\<lparr>ck_heap := (ck_heap k)\<lparr>h_mem := m\<rparr>,
           ck_cap := (ck_cap k)\<lparr>g_revoke_count := g_revoke_count (ck_cap k) + 1\<rparr>\<rparr>)"

lemma append_entry_ok:
  assumes inv: "cap_inv k" and room: "unat (g_revoke_count (ck_cap k)) < unat (g_revoke_capacity (ck_cap k))"
  shows "cap_inv (append_entry t k)" "revoked (append_entry t k) = revoked k @ [t]"
    "others_kept k (append_entry t k)"
proof -
  let ?t = "g_revoke_table (ck_cap k)" and ?c = "unat (g_revoke_count (ck_cap k))" and ?m = "h_mem (ck_heap k)"
  let ?A = "unat ?t + 16 * ?c"
  let ?m' = "st64 (st64 ?m (of_nat ?A) (ct_upper t)) (of_nat ?A + 8) (ct_lower t)"
  have hi: "heap_inv (ck_heap k)" and tb: "table_block k" and cc: "unat (g_revoke_capacity (ck_cap k)) \<le> 65536"
    using inv by (auto simp: cap_inv_def)
  have tnz: "?t \<noteq> 0" using tb room by (auto simp: table_block_def)
  then obtain n where n: "(unat ?t, n) \<in> live (ck_heap k)" "16 * unat (g_revoke_capacity (ck_cap k)) \<le> n"
    using tb by (auto simp: table_block_def)
  have lim: "unat ?t + n < 2 ^ 64" using kheap.used_range [OF hi n(1)] by simp
  have A16: "?A + 16 \<le> unat ?t + n" using room n(2) by simp
  have a: "?t + 16 * ucast (g_revoke_count (ck_cap k)) = of_nat ?A"
    by (simp only: of_nat_add of_nat_mult ucast_u32) simp
  have ap: "append_entry t k = k\<lparr>ck_heap := (ck_heap k)\<lparr>h_mem := ?m'\<rparr>,
           ck_cap := (ck_cap k)\<lparr>g_revoke_count := g_revoke_count (ck_cap k) + 1\<rparr>\<rparr>"
    unfolding append_entry_def Let_def a ..
  have ch: "?A \<le> unat x \<and> unat x < ?A + 16" if "?m' x \<noteq> ?m x" for x
  proof (rule ccontr)
    assume out: "\<not> (?A \<le> unat x \<and> unat x < ?A + 16)"
    have "st64 ?m (of_nat ?A) (ct_upper t) x = ?m x"
      using out A16 lim by (intro st_outside) auto
    moreover have "st64 m (of_nat (?A + 8)) (ct_lower t) x = m x" for m
      using out A16 lim by (intro st_outside) auto
    ultimately show False using that by simp
  qed
  have own: "unat ?t \<le> unat x \<and> unat x < unat ?t + n" if "?m' x \<noteq> ?m x" for x
    using ch [OF that] A16 by simp
  note pk = kheap.poke_block [where m = ?m', OF hi n(1) own]
  have c1: "unat (g_revoke_count (ck_cap k) + 1) = ?c + 1"
    using room cc by (simp add: unat_word_ariths)
  show "cap_inv (append_entry t k)"
    using inv pk(1,2) room c1 by (auto simp: ap cap_inv_def table_block_def)
  have ob: "other_blocks k = live (ck_heap k) - {(unat ?t, n)}"
    using live_start_unique [OF hi n(1)] by (auto simp: other_blocks_def)
  show "others_kept k (append_entry t k)"
    using pk(2,3) unfolding others_kept_def ob by (simp add: ap other_blocks_def) (use live_start_unique [OF hi n(1)] in auto)
  have old: "revoke_entry (append_entry t k) i = revoke_entry k i" if "i < ?c" for i
  proof (rule revoke_entry_cong [OF _ that])
    fix j
    assume j: "j < 16 * ?c"
    have "unat (?t + of_nat j) = unat ?t + j" using j A16 lim by (intro unat_add_small) simp
    then have "?m' (?t + of_nat j) = ?m (?t + of_nat j)" using ch [of "?t + of_nat j"] j by auto
    then show "h_mem (ck_heap (append_entry t k)) (g_revoke_table (ck_cap (append_entry t k)) + of_nat j)
        = ?m (?t + of_nat j)" by (simp add: ap)
  qed
  have e8: "(of_nat ?A + 8 :: u64) = of_nat (?A + 8)" by simp
  have "ld64 ?m' (of_nat ?A) = ct_upper t"
    unfolding e8 using A16 lim by (subst ld_st_nat) (simp_all only: ld64_st64_same, simp_all)
  moreover have "ld64 ?m' (of_nat ?A + 8) = ct_lower t" by (simp add: ld64_st64_same)
  ultimately have new: "revoke_entry (append_entry t k) ?c = t"
    by (simp add: revoke_entry_def ap)
  show "revoked (append_entry t k) = revoked k @ [t]"
    using old new c1 by (simp add: revoked_def ap)
qed

definition may_revoke :: "cap_kernel \<Rightarrow> cap_token \<Rightarrow> cap_token \<Rightarrow> u32 \<Rightarrow> bool" where
  "may_revoke k au t pid \<longleftrightarrow> authentic k au pid \<and> au \<notin> set (revoked k)
     \<and> rights_of au AND CAP_RIGHT_REVOKE = CAP_RIGHT_REVOKE
     \<and> (class_of au = 5 \<or> class_of au = class_of t) \<and> t \<noteq> CAP_NULL"

lemma class_of_mask [simp]: "class_of t AND 0xFFFF = class_of t"
proof -
  have "drop_bit 48 u AND mask 16 = drop_bit 48 u" for u :: u64
    by (rule bit_word_eqI) (auto simp: bit_simps dest: bit_imp_le_length)
  then show ?thesis by (simp add: mask_eq_exp_minus_1 class_of_def)
qed

lemma revoked_validate [simp]: "revoked (snd (cap_validate t pid r k)) = revoked k"
  by (simp add: cap_validate_def Let_def)

lemma inv_validate [simp]: "cap_inv (snd (cap_validate t pid r k)) = cap_inv k"
  by (simp add: cap_validate_def Let_def)

lemma cap_validate_True: "fst (cap_validate t pid r k) \<Longrightarrow> snd (cap_validate t pid r k) = k"
  by (auto simp: cap_validate_def Let_def split: if_splits)

lemma others_kept_same: "ck_heap k' = ck_heap k \<Longrightarrow> ck_cap k' = ck_cap k \<Longrightarrow> others_kept k k'"
  by (simp add: others_kept_def other_blocks_def)

lemma others_kept_trans: "others_kept k k' \<Longrightarrow> others_kept k' k'' \<Longrightarrow> others_kept k k''"
  by (auto simp: others_kept_def elim: same_on_trans)

lemma not_null_iff: "ct_upper t = 0 \<and> ct_lower t = 0 \<longleftrightarrow> t = CAP_NULL"
  by (cases t) (simp add: CAP_NULL_def)

lemma cap_revoke_unfold:
  "cap_revoke au t pid k =
     (if \<not> fst (cap_validate au pid CAP_RIGHT_REVOKE k) then Some (False, snd (cap_validate au pid CAP_RIGHT_REVOKE k))
      else if class_of au \<noteq> 5 \<and> class_of au \<noteq> class_of t then Some (False, ck_record AUDIT_CAP_DENIED pid (ct_upper t) 0 k)
      else if t = CAP_NULL then Some (False, k)
      else if t \<in> set (revoked k) then Some (True, k)
      else case revoke_table_ensure_capacity k of
             None \<Rightarrow> None
           | Some (b, k) \<Rightarrow> if b then Some (True, ck_record AUDIT_CAP_REVOKE pid (ct_upper t) (ct_lower t) (append_entry t k))
                              else Some (False, k))"
proof (cases "fst (cap_validate au pid CAP_RIGHT_REVOKE k)")
  case True
  then have v: "cap_validate au pid CAP_RIGHT_REVOKE k = (True, k)"
    using cap_validate_True [of au pid CAP_RIGHT_REVOKE k] by (simp add: prod_eq_iff)
  show ?thesis
    unfolding cap_revoke_def v class_of_def [symmetric] not_null_iff
      in_revoke_table_iff CAP_RES_KERNEL_def
    by (auto simp: append_entry_def Let_def split: option.splits bool.splits)
next
  case False
  then show ?thesis by (cases "cap_validate au pid CAP_RIGHT_REVOKE k") (simp add: cap_revoke_def)
qed

lemma cap_revoke_ok:
  assumes inv: "cap_inv k"
  shows "\<exists>b k'. cap_revoke au t pid k = Some (b, k') \<and> cap_inv k' \<and> others_kept k k'
    \<and> g_kernel_secret (ck_cap k') = g_kernel_secret (ck_cap k)
    \<and> (b \<longrightarrow> may_revoke k au t pid \<and> set (revoked k') = insert t (set (revoked k)))
    \<and> (\<not> b \<longrightarrow> revoked k' = revoked k)
    \<and> (may_revoke k au t pid \<longrightarrow> \<not> b \<longrightarrow> k' = k)"
proof (cases "may_revoke k au t pid")
  case False
  have "\<exists>k'. cap_revoke au t pid k = Some (False, k') \<and> ck_heap k' = ck_heap k \<and> ck_cap k' = ck_cap k \<and> revoked k' = revoked k
      \<and> cap_inv k'"
    using False inv by (auto simp: cap_revoke_unfold may_revoke_def cap_validate_iff cap_validate_state)
  then show ?thesis using False others_kept_same by fastforce
next
  case True
  then have v: "fst (cap_validate au pid CAP_RIGHT_REVOKE k)" by (simp add: cap_validate_iff may_revoke_def)
  have cl: "class_of au = 5 \<or> class_of au = class_of t" "t \<noteq> CAP_NULL" using True by (auto simp: may_revoke_def)
  show ?thesis
  proof (cases "t \<in> set (revoked k)")
    case dup: True
    then show ?thesis using v cl True inv others_kept_same [of k k]
      by (intro exI [of _ True] exI [of _ k]) (auto simp: cap_revoke_unfold)
  next
    case notin: False
    from ensure_capacity_ok [OF inv] obtain b k1 where k1: "revoke_table_ensure_capacity k = Some (b, k1)"
      "cap_inv k1" "revoked k1 = revoked k" "others_kept k k1"
      "g_kernel_secret (ck_cap k1) = g_kernel_secret (ck_cap k)"
      "b \<longrightarrow> unat (g_revoke_count (ck_cap k1)) < unat (g_revoke_capacity (ck_cap k1))" "\<not> b \<longrightarrow> k1 = k"
      by blast
    show ?thesis
    proof (cases b)
      case b: True
      let ?k2 = "append_entry t k1"
      let ?k3 = "ck_record AUDIT_CAP_REVOKE pid (ct_upper t) (ct_lower t) ?k2"
      note ap = append_entry_ok [OF k1(2), of t]
      have r: "cap_revoke au t pid k = Some (True, ?k3)"
        using v cl notin k1(1) b by (auto simp: cap_revoke_unfold)
      have o: "others_kept k ?k3"
        using others_kept_trans [OF k1(4) others_kept_trans [OF ap(3) others_kept_same [of ?k3 ?k2]]] k1(6) b by simp
      have "g_kernel_secret (ck_cap ?k3) = g_kernel_secret (ck_cap k)"
        using k1(5) by (simp add: append_entry_def Let_def)
      with r o ap k1 b True show ?thesis
        by (intro exI [of _ True] exI [of _ ?k3]) simp
    next
      case nb: False
      then have "cap_revoke au t pid k = Some (False, k)"
        using v cl notin k1(1,7) by (auto simp: cap_revoke_unfold)
      with inv others_kept_same [of k k] show ?thesis by (intro exI [of _ False] exI [of _ k]) simp
    qed
  qed
qed

subsection \<open>Reachable states\<close>

lemma same_on_separate:
  assumes "heap_inv H" and "T \<subseteq> live H" and "writes_within T (h_mem H) m"
  shows "same_on (live H - T) (h_mem H) m"
  unfolding same_on_def
proof (intro allI impI)
  fix p n and x :: u64
  assume p: "(p, n) \<in> live H - T" and x: "p \<le> unat x" "unat x < p + n"
  show "m x = h_mem H x"
  proof (rule ccontr)
    assume "m x \<noteq> h_mem H x"
    with assms(3) obtain q k where q: "(q, k) \<in> T" "q \<le> unat x" "unat x < q + k"
      unfolding writes_within_def by blast
    with p assms(2) live_disjoint [OF assms(1), of p n q k] x show False by auto
  qed
qed

lemma cap_reach_inv:
  assumes "cap_reach k0 k" and "cap_inv k0"
  shows "cap_inv k \<and> set (revoked k0) \<subseteq> set (revoked k) \<and> g_kernel_secret (ck_cap k) = g_kernel_secret (ck_cap k0)"
  using assms
proof (induction rule: cap_reach.induct)
  case (create k res rid rights pid)
  then show ?case by (simp add: cap_create_def Let_def)
next
  case (check k pid t rights)
  then show ?case by (simp add: broker_check_def case_prod_unfold Let_def cap_validate_state)
next
  case (delegate k t pid pid' rights)
  then show ?case by (simp add: cap_delegate_def case_prod_unfold Let_def cap_validate_state)
next
  case (revoke k au t pid b k')
  then have i: "cap_inv k" by simp
  have "cap_inv k' \<and> set (revoked k) \<subseteq> set (revoked k') \<and> g_kernel_secret (ck_cap k') = g_kernel_secret (ck_cap k)"
    using cap_revoke_ok [OF i, of au t pid] unfolding revoke.hyps(2) by (cases b) auto
  with revoke show ?case by auto
next
  case (other_alloc k sz p H)
  have i: "cap_inv k" using other_alloc by simp
  then have hi: "heap_inv (ck_heap k)" by (simp add: cap_inv_def)
  have "heap_inv H \<and> live (ck_heap k) \<subseteq> live H \<and> same_on (live (ck_heap k)) (h_mem (ck_heap k)) (h_mem H)"
    using kmalloc_ok [OF hi, of sz] unfolding other_alloc.hyps(2) by auto
  then have h: "heap_inv H" "live (ck_heap k) - other_blocks k \<subseteq> live H"
    "same_on (live (ck_heap k) - other_blocks k) (h_mem (ck_heap k)) (h_mem H)"
    using same_on_subset [OF _ Diff_subset] by blast+
  from cap_inv_other [OF i h] other_alloc show ?case by simp
next
  case (other_free k p n H)
  have i: "cap_inv k" using other_free by simp
  then have hi: "heap_inv (ck_heap k)" by (simp add: cap_inv_def)
  have l: "(unat p, n) \<in> live (ck_heap k)" using other_free.hyps(2) by (simp add: other_blocks_def)
  have h: "heap_inv H" "live H = live (ck_heap k) - {(unat p, n)}" "same_on (live H) (h_mem (ck_heap k)) (h_mem H)"
    using kfree_ok [OF hi l] unfolding other_free.hyps(3) option.inject by blast+
  have sub: "live (ck_heap k) - other_blocks k \<subseteq> live H" using h(2) other_free.hyps(2) by blast
  from cap_inv_other [OF i h(1) sub same_on_subset [OF h(3) sub]] other_free show ?case by simp
next
  case (other_write k m)
  let ?H = "(ck_heap k)\<lparr>h_mem := m\<rparr>"
  have i: "cap_inv k" using other_write by simp
  then have hi: "heap_inv (ck_heap k)" by (simp add: cap_inv_def)
  have w: "writes_within (live (ck_heap k)) (h_mem (ck_heap k)) m"
    using other_write.hyps(2) unfolding writes_within_def other_blocks_def by blast
  note p = heap_poke_ok [OF hi w]
  have "other_blocks k \<subseteq> live (ck_heap k)" by (auto simp: other_blocks_def)
  from same_on_separate [OF hi this other_write.hyps(2)]
  have so: "same_on (live (ck_heap k) - other_blocks k) (h_mem (ck_heap k)) (h_mem ?H)" by simp
  have sub: "live (ck_heap k) - other_blocks k \<subseteq> live ?H" using p by auto
  from cap_inv_other [OF i _ sub so] p other_write show ?case by simp
qed simp

subsection \<open>Token fields\<close>

lemma cap_create_fields:
  assumes "cap_create res rid rights pid k = (t, k')"
  shows "class_of t = ucast (res AND 0xFFFF)" "id_of t = rid" "rights_of t = rights AND 0xFFFF"
    "ct_lower t = build_lower (g_kernel_secret (ck_cap k)) (ct_upper t) pid"
proof -
  let ?r = "ucast (res AND mask 16) :: u64"
  have t: "ct_upper t = push_bit 48 ?r OR push_bit 16 (ucast rid) OR (rights AND mask 16)"
    "ct_lower t = build_lower (g_kernel_secret (ck_cap k)) (ct_upper t) pid"
    using assms by (auto simp: cap_create_def Let_def mask_eq_exp_minus_1)
  have "drop_bit 48 (push_bit 48 ?r OR push_bit 16 (ucast rid) OR (rights AND mask 16)) = ?r"
    by (rule bit_word_eqI) (auto simp: bit_simps dest: bit_imp_le_length)
  then show "class_of t = ucast (res AND 0xFFFF)"
    using t(1) by (simp add: class_of_def mask_eq_exp_minus_1)
  have "ucast (drop_bit 16 (push_bit 48 ?r OR push_bit 16 (ucast rid) OR (rights AND mask 16))) = rid"
    by (rule bit_word_eqI) (auto simp: bit_simps dest: bit_imp_le_length)
  then show "id_of t = rid" using t(1) by (simp add: id_of_def)
  have "(push_bit 48 ?r OR push_bit 16 (ucast rid) OR (rights AND mask 16)) AND mask 16 = rights AND mask 16"
    by (rule bit_word_eqI) (auto simp: bit_simps)
  then show "rights_of t = rights AND 0xFFFF" using t(1) by (simp add: rights_of_def mask_eq_exp_minus_1)
  show "ct_lower t = build_lower (g_kernel_secret (ck_cap k)) (ct_upper t) pid" by (fact t(2))
qed

lemma delegate_fields:
  assumes "u' = (u AND NOT 0xFFFF) OR ((u AND 0xFFFF) AND s)"
  shows "(u' :: u64) AND 0xFFFF = u AND 0xFFFF AND s" "drop_bit 16 u' = drop_bit 16 u" "drop_bit 48 u' = drop_bit 48 u"
proof -
  have u: "u' = (u AND NOT (mask 16)) OR ((u AND mask 16) AND s)" using assms by (simp add: mask_eq_exp_minus_1)
  have "u' AND mask 16 = u AND mask 16 AND s" unfolding u by (rule bit_word_eqI) (auto simp: bit_simps)
  then show "u' AND 0xFFFF = u AND 0xFFFF AND s" by (simp add: mask_eq_exp_minus_1)
  show "drop_bit 16 u' = drop_bit 16 u" "drop_bit 48 u' = drop_bit 48 u"
    unfolding u by (rule bit_word_eqI; auto simp: bit_simps dest: bit_imp_le_length)+
qed

subsection \<open>A small kernel, for the examples\<close>

definition demo_kernel :: cap_kernel where
  "demo_kernel = \<lparr>ck_cap = \<lparr>g_kernel_secret = replicate 32 9, g_revoke_table = 0, g_revoke_count = 0,
       g_revoke_capacity = 0\<rparr>, ck_heap = kmalloc_init 4096 8192 (\<lambda>_. 0), ck_audit = audit_init\<rparr>"

definition demo_authority :: cap_token where
  "demo_authority = fst (cap_create 5 0 (CAP_RIGHT_REVOKE OR CAP_RIGHT_DELEGATE) 7 demo_kernel)"

definition demo_token :: cap_token where "demo_token = \<lparr>ct_upper = 1, ct_lower = 2\<rparr>"

lemma demo_heap: "heap_rel (ck_heap demo_kernel) [(4096, 8160, True)]"
  using kmalloc_init_rel [of 4096 8192 "\<lambda>_. 0"] by (simp add: demo_kernel_def)

lemma demo_inv: "cap_inv demo_kernel"
  using demo_heap by (auto simp: cap_inv_def table_block_def heap_inv_def) (auto simp: demo_kernel_def)

lemma demo_revoked [simp]: "revoked demo_kernel = []"
  by (simp add: revoked_def demo_kernel_def)

lemma demo_authority_fields:
  "class_of demo_authority = 5" "rights_of demo_authority = 48" "authentic demo_kernel demo_authority 7"
proof -
  have c: "cap_create 5 0 (CAP_RIGHT_REVOKE OR CAP_RIGHT_DELEGATE) 7 demo_kernel =
      (demo_authority, snd (cap_create 5 0 (CAP_RIGHT_REVOKE OR CAP_RIGHT_DELEGATE) 7 demo_kernel))"
    by (simp add: demo_authority_def)
  note f = cap_create_fields [OF c]
  show 1: "class_of demo_authority = 5" "rights_of demo_authority = 48"
    using f by (simp_all add: CAP_RIGHT_REVOKE_def CAP_RIGHT_DELEGATE_def)
  have "class_of CAP_NULL \<noteq> 5" by (simp add: class_of_def CAP_NULL_def)
  with 1 have "demo_authority \<noteq> CAP_NULL" by auto
  with f(4) show "authentic demo_kernel demo_authority 7" by (simp add: authentic_def)
qed

lemma demo_may_revoke: "may_revoke demo_kernel demo_authority demo_token 7"
  using demo_authority_fields
  by (simp add: may_revoke_def CAP_RIGHT_REVOKE_def) (simp add: demo_token_def CAP_NULL_def)

lemma demo_revoke: "\<exists>k. cap_revoke demo_authority demo_token 7 demo_kernel = Some (True, k)"
proof -
  have v: "fst (cap_validate demo_authority 7 CAP_RIGHT_REVOKE demo_kernel)"
    using demo_may_revoke by (simp add: cap_validate_iff may_revoke_def)
  obtain H where H: "kmalloc (ck_heap demo_kernel) 4096 = Some (4128, H)"
    using kmalloc_refines [OF demo_heap, of 4096] by (auto simp: round16_def)
  have "\<exists>k. revoke_table_ensure_capacity demo_kernel = Some (True, k)"
    using H by (simp add: ensure_capacity_unfold next_capacity_def) (simp add: demo_kernel_def)
  moreover have "demo_token \<noteq> CAP_NULL" by (simp add: demo_token_def CAP_NULL_def)
  ultimately show ?thesis using v demo_authority_fields(1) by (auto simp: cap_revoke_unfold)
qed

subsection \<open>Properties\<close>

text \<open>
  C6.  Revocation is permanent: once \<^verbatim>\<open>cap_revoke\<close> has accepted a token, the broker refuses it to every
  process and for every right, whatever tokens are minted, delegated, checked and revoked later
  (the table growing as often as it must) and whatever other code does with its own heap blocks.
\<close>
theorem cap_revocation_permanent:
  assumes "cap_inv k" and "cap_revoke au t pid k = Some (True, k1)" and "cap_reach k1 k2"
  shows "\<not> fst (broker_check pid' t r k2)"
proof -
  have "cap_inv k1" "t \<in> set (revoked k1)"
    using cap_revoke_ok [OF assms(1), of au t pid] unfolding assms(2) by auto
  then have "t \<in> set (revoked k2)" using cap_reach_inv [OF assms(3)] by blast
  then show ?thesis by (simp add: broker_check_def case_prod_unfold Let_def cap_validate_iff)
qed

theorem cap_revocation_permanent_witness:
  "\<exists>k1. cap_revoke demo_authority demo_token 7 demo_kernel = Some (True, k1) \<and> \<not> fst (broker_check 3 demo_token 1 k1)"
  using cap_revocation_permanent [OF demo_inv _ cap_reach.start] demo_revoke by blast

text \<open>
  C7.  \<^verbatim>\<open>cap_revoke\<close> refines adding a token to a set.  It returns; it succeeds only for an authority that
  is genuine, not itself revoked, carries the revoke right and is of the kernel class or of the
  target's class; on success exactly the target is added, on failure nothing is; a failure of
  an entitled caller (no memory, table full) leaves the kernel as it was; and
  the blocks of every other user of the heap keep their place and their bytes.
\<close>
theorem cap_revoke_refines:
  assumes "cap_inv k"
  shows "\<exists>b k'. cap_revoke au t pid k = Some (b, k') \<and> cap_inv k' \<and> others_kept k k'
    \<and> g_kernel_secret (ck_cap k') = g_kernel_secret (ck_cap k)
    \<and> (b \<longrightarrow> may_revoke k au t pid \<and> set (revoked k') = insert t (set (revoked k)))
    \<and> (\<not> b \<longrightarrow> revoked k' = revoked k)
    \<and> (may_revoke k au t pid \<longrightarrow> \<not> b \<longrightarrow> k' = k)"
  by (rule cap_revoke_ok [OF assms])

theorem cap_revoke_refines_witness:
  "\<exists>k'. cap_revoke demo_authority demo_token 7 demo_kernel = Some (True, k') \<and> set (revoked k') = {demo_token}"
  using cap_revoke_refines [OF demo_inv, of demo_authority demo_token 7] demo_revoke by auto

text \<open>
  C8.  The broker's decision: access is granted exactly to a genuine, unrevoked token whose rights
  include those asked for, and then nothing is written; every refusal appends two entries to
  the audit log for that process, the first saying whether the tag was wrong, and changes nothing else.
\<close>
theorem broker_check_decision:
  "fst (broker_check pid t r k) = (authentic k t pid \<and> t \<notin> set (revoked k) \<and> rights_of t AND r = r)
   \<and> snd (broker_check pid t r k) =
      (if fst (broker_check pid t r k) then k
       else ck_record AUDIT_CAP_DENIED pid (ct_upper t) r
              (if t = CAP_NULL then ck_record AUDIT_CAP_DENIED pid 0 0 k
               else if \<not> authentic k t pid then ck_record AUDIT_CAP_FORGERY pid (ct_upper t) (ct_lower t) k
               else ck_record AUDIT_CAP_DENIED pid (ct_upper t)
                      (if t \<in> set (revoked k) then ct_lower t else r) k))"
proof -
  have f: "fst (broker_check pid t r k) = fst (cap_validate t pid r k)"
    by (simp add: broker_check_def case_prod_unfold Let_def)
  have "snd (cap_validate t pid r k) =
      (if fst (cap_validate t pid r k) then k
       else if t = CAP_NULL then ck_record AUDIT_CAP_DENIED pid 0 0 k
       else if \<not> authentic k t pid then ck_record AUDIT_CAP_FORGERY pid (ct_upper t) (ct_lower t) k
       else ck_record AUDIT_CAP_DENIED pid (ct_upper t) (if t \<in> set (revoked k) then ct_lower t else r) k)"
    by (auto simp: cap_validate_def Let_def not_null_iff authentic_def in_revoke_table_iff)
  then show ?thesis unfolding f
    by (auto simp: cap_validate_iff broker_check_def case_prod_unfold Let_def)
qed

theorem broker_check_decision_witness:
  "fst (broker_check 7 demo_authority CAP_RIGHT_REVOKE demo_kernel)
   \<and> \<not> fst (broker_check 7 demo_authority 1 demo_kernel)"
  using broker_check_decision [of 7 demo_authority CAP_RIGHT_REVOKE demo_kernel]
    broker_check_decision [of 7 demo_authority 1 demo_kernel] demo_authority_fields
  by (simp add: CAP_RIGHT_REVOKE_def)

text \<open>
  C9.  Minting and checking round trip: the token carries the class, the id and the rights asked
  for, and its owner is granted exactly what those rights include, unless the token is
  revoked or happens to be all zero.
\<close>
theorem cap_create_validate:
  assumes "cap_create res rid rights pid k = (t, k')"
  shows "class_of t = ucast (res AND 0xFFFF) \<and> id_of t = rid \<and> rights_of t = rights AND 0xFFFF
    \<and> fst (cap_validate t pid r k') = (t \<noteq> CAP_NULL \<and> t \<notin> set (revoked k) \<and> rights AND 0xFFFF AND r = r)"
proof -
  have k': "revoked k' = revoked k" "ck_cap k' = ck_cap k" using assms by (auto simp: cap_create_def Let_def)
  then show ?thesis
    using cap_create_fields [OF assms] by (auto simp: cap_validate_iff authentic_def and.assoc)
qed

theorem cap_create_validate_witness:
  "fst (cap_validate demo_authority 7 32 (snd (cap_create 5 0 (CAP_RIGHT_REVOKE OR CAP_RIGHT_DELEGATE) 7 demo_kernel)))"
  using cap_create_validate [of 5 0 "CAP_RIGHT_REVOKE OR CAP_RIGHT_DELEGATE" 7 demo_kernel demo_authority _ 32]
    demo_authority_fields(3)
  by (simp add: demo_authority_def CAP_RIGHT_REVOKE_def CAP_RIGHT_DELEGATE_def authentic_def prod_eq_iff)

text \<open>
  C10.  Delegation never amplifies: a token is handed out only against a valid token with the
  delegate right, names the same resource, carries no right the original lacks, and is
  genuine for the process it was made for.
\<close>
theorem cap_delegate_attenuates:
  assumes "cap_delegate src pid pid' sub k = (t, k')" and "t \<noteq> CAP_NULL"
  shows "fst (cap_validate src pid CAP_RIGHT_DELEGATE k) \<and> class_of t = class_of src \<and> id_of t = id_of src
    \<and> rights_of t = rights_of src AND sub \<and> authentic k' t pid'
    \<and> (\<forall>r. fst (cap_validate t pid' r k') \<longrightarrow> rights_of src AND r = r)"
proof -
  have v: "fst (cap_validate src pid CAP_RIGHT_DELEGATE k)"
    using assms by (auto simp: cap_delegate_def case_prod_unfold Let_def split: if_splits)
  have t: "ct_upper t = (ct_upper src AND NOT 0xFFFF) OR ((ct_upper src AND 0xFFFF) AND sub)"
    "authentic k' t pid'"
    using assms(1) assms(2) v cap_validate_True [OF v]
    by (simp_all add: cap_delegate_def case_prod_unfold Let_def authentic_def) auto
  note d = delegate_fields [OF t(1)]
  have rt: "rights_of t = rights_of src AND sub" using d(1) by (simp add: rights_of_def and.assoc)
  have "rights_of src AND r = r" if "rights_of t AND r = r" for r
  proof (rule bit_word_eqI)
    fix n
    have "bit ((rights_of src AND sub) AND r) n = bit r n" using that rt by simp
    then show "bit (rights_of src AND r) n = bit r n" by (auto simp: bit_simps)
  qed
  then have "\<forall>r. fst (cap_validate t pid' r k') \<longrightarrow> rights_of src AND r = r" by (simp add: cap_validate_iff)
  moreover have "class_of t = class_of src" "id_of t = id_of src"
    using d(2,3) by (simp_all only: class_of_def id_of_def)
  ultimately show ?thesis using v t(2) rt by blast
qed

theorem cap_delegate_attenuates_witness:
  "rights_of (fst (cap_delegate demo_authority 7 8 CAP_RIGHT_REVOKE demo_kernel)) = 32"
proof -
  let ?d = "cap_delegate demo_authority 7 8 CAP_RIGHT_REVOKE demo_kernel"
  have v: "fst (cap_validate demo_authority 7 CAP_RIGHT_DELEGATE demo_kernel)"
    using demo_authority_fields by (simp add: cap_validate_iff CAP_RIGHT_DELEGATE_def)
  have u: "ct_upper (fst ?d) = (ct_upper demo_authority AND NOT 0xFFFF) OR ((ct_upper demo_authority AND 0xFFFF) AND CAP_RIGHT_REVOKE)"
    using v by (simp add: cap_delegate_def case_prod_unfold Let_def)
  have "drop_bit 48 (ct_upper (fst ?d)) = 5"
    using delegate_fields(3) [OF u] demo_authority_fields(1) by (simp add: class_of_def)
  then have "fst ?d \<noteq> CAP_NULL" by (auto simp: CAP_NULL_def)
  with cap_delegate_attenuates [of demo_authority 7 8 CAP_RIGHT_REVOKE demo_kernel "fst ?d" "snd ?d"]
  show ?thesis using demo_authority_fields(2) by (simp add: CAP_RIGHT_REVOKE_def)
qed

end
