(* ===== verification/Frame_Allocator.thy ===== *)
theory Frame_Allocator
  imports Kernel_Prelude
begin

text \<open>
  The interface of the physical page allocator for the code that maps and shares pages: a page
  handed out was unreferenced, is page aligned and has one reference; freeing drops one.
\<close>

locale frame_allocator =
  fixes finv :: "'s \<Rightarrow> bool"
    and refs :: "'s \<Rightarrow> u64 \<Rightarrow> nat"
    and falloc :: "'s \<Rightarrow> u32 \<Rightarrow> (u64 \<times> 's) option"
    and ffree :: "'s \<Rightarrow> u64 \<Rightarrow> 's"
  assumes falloc_ok: "finv s \<Longrightarrow> \<exists>p s'. falloc s z = Some (p, s') \<and> finv s' \<and>
      (p = 0 \<and> s' = s \<or> p \<noteq> 0 \<and> p AND 0xFFF = 0 \<and> refs s p = 0 \<and> refs s' = (refs s)(p := 1))"
    and ffree_ok: "finv s \<Longrightarrow> 0 < refs s pg \<Longrightarrow> finv (ffree s pg) \<and> refs (ffree s pg) = (refs s)(pg := refs s pg - 1)"
begin

lemma falloc_cases:
  assumes "finv s"
  obtains (none) "falloc s z = Some (0, s)"
  | (page) p s' where "falloc s z = Some (p, s')" "finv s'" "p \<noteq> 0" "p AND 0xFFF = 0" "refs s p = 0"
      "refs s' = (refs s)(p := 1)"
  using falloc_ok [OF assms, of z] by blast

text \<open>Allocating a page and giving it back changes no reference count.\<close>

lemma falloc_ffree:
  assumes "finv s" and "falloc s z = Some (p, s')" and "p \<noteq> 0"
  shows "finv (ffree s' p) \<and> refs (ffree s' p) = refs s"
  using assms(1)
proof (cases rule: falloc_cases [where z = z])
  case none
  with assms show ?thesis by simp
next
  case (page p' t)
  with assms(2) have "p' = p" "t = s'" by auto
  with page ffree_ok [of s' p] show ?thesis by auto
qed

text \<open>Giving back several pages, each once.\<close>

lemma ffree_all:
  assumes "finv s" and "distinct ps" and "\<forall>p \<in> set ps. 0 < refs s p"
  shows "finv (fold (\<lambda>p s. ffree s p) ps s) \<and> refs (fold (\<lambda>p s. ffree s p) ps s) = (\<lambda>p. if p \<in> set ps then refs s p - 1 else refs s p)"
  using assms
proof (induction ps arbitrary: s)
  case (Cons p ps)
  have f: "finv (ffree s p)" "refs (ffree s p) = (refs s)(p := refs s p - 1)" using ffree_ok [of s p] Cons.prems by auto
  have "\<forall>q \<in> set ps. 0 < refs (ffree s p) q" using Cons.prems(2,3) unfolding f(2) by auto
  from Cons.IH [OF f(1) _ this] show ?case using Cons.prems(2) by (auto simp: f(2) fun_eq_iff)
qed simp

end

text \<open>
  The same interface for a client that keeps pages of its own, such as page tables: \<open>avail\<close> are the pages
  that may still be handed out, and an allocation takes one of them.
\<close>

locale page_source = frame_allocator +
  fixes avail :: "'s \<Rightarrow> u64 set"
  assumes falloc_avail: "finv s \<Longrightarrow> falloc s z = Some (p, s') \<Longrightarrow> p \<noteq> 0 \<Longrightarrow> p \<in> avail s \<and> avail s' = avail s - {p}"
begin

text \<open>A new page is none of the client's pages, and joins them.\<close>

lemma falloc_new:
  assumes "finv s" and "T \<inter> avail s = {}" and "falloc s z = Some (p, s')" and "p \<noteq> 0"
  shows "p \<notin> T" and "insert p T \<inter> avail s' = {}" and "avail s' \<subseteq> avail s"
  using falloc_avail [OF assms(1,3,4)] assms(2) by auto

end

end
