(* ===== verification/Pmm.thy ===== *)
theory Pmm
  imports Frame_Allocator
begin

text \<open>
  The physical page allocator (\<^verbatim>\<open>kernel/mm/pmm.c\<close>): a table of page frames in three zones, each
  with a cursor for next-fit search and a counter of free frames.  The frame table is modelled as
  a list; that it lies in the first frames of the memory it describes shows only in those frames
  being locked.
\<close>

definition PAGE_SIZE :: u64 where "PAGE_SIZE = 4096"
definition PAGE_SHIFT :: nat where "PAGE_SHIFT = 12"

definition ZONE_GREEN :: u32 where "ZONE_GREEN = 0"
definition ZONE_YELLOW :: u32 where "ZONE_YELLOW = 1"
definition ZONE_RED :: u32 where "ZONE_RED = 2"
definition ZONE_COUNT :: u32 where "ZONE_COUNT = 3"

definition PF_FREE :: u8 where "PF_FREE = 1"
definition PF_LOCKED :: u8 where "PF_LOCKED = 2"

record page_frame =
  pf_ref_count :: u32
  pf_zone :: u32
  pf_flags :: u8

record pmm =
  g_frames :: "page_frame list"
  g_frame_base :: u64
  g_frame_count :: u64
  g_alloc_start :: u64
  g_zone_cursor :: "u64 list"
  g_zone_free :: "u64 list"

definition phys_to_idx :: "pmm \<Rightarrow> u64 \<Rightarrow> u64" where
  "phys_to_idx s phys = drop_bit PAGE_SHIFT (phys - g_frame_base s)"

definition idx_to_phys :: "pmm \<Rightarrow> u64 \<Rightarrow> u64" where
  "idx_to_phys s idx = g_frame_base s + push_bit PAGE_SHIFT idx"

definition sizeof_page_frame :: u64 where "sizeof_page_frame = 12"

definition pmm_init :: "u64 \<Rightarrow> u64 \<Rightarrow> pmm" where
  "pmm_init mem_base mem_size =
     (let frame_count = mem_size div PAGE_SIZE;
          db_bytes = frame_count * sizeof_page_frame;
          db_pages = (db_bytes + PAGE_SIZE - 1) div PAGE_SIZE;
          usable = frame_count - db_pages;
          zone_size = usable div ucast ZONE_COUNT;
          red_size = usable - (zone_size * 2);
          frame = (\<lambda>i. if i < db_pages
                       then \<lparr>pf_ref_count = 1, pf_zone = ZONE_GREEN, pf_flags = PF_LOCKED\<rparr>
                       else \<lparr>pf_ref_count = 0,
                             pf_zone = (if i - db_pages < zone_size then ZONE_GREEN
                                     else if i - db_pages < zone_size * 2 then ZONE_YELLOW else ZONE_RED),
                             pf_flags = PF_FREE\<rparr>)
      in \<lparr>g_frames = map (\<lambda>i. frame (of_nat i)) [0..<unat frame_count],
          g_frame_base = mem_base, g_frame_count = frame_count, g_alloc_start = db_pages,
          g_zone_cursor = [db_pages, db_pages + zone_size, db_pages + zone_size * 2],
          g_zone_free = [zone_size, zone_size, red_size]\<rparr>)"

text \<open>The test of the search loop.\<close>

definition frame_fits :: "pmm \<Rightarrow> u32 \<Rightarrow> u64 \<Rightarrow> bool" where
  "frame_fits s z i \<longleftrightarrow>
     (let f = g_frames s ! unat i in
      pf_zone f = z \<and> pf_flags f AND PF_FREE \<noteq> 0 \<and> pf_flags f AND PF_LOCKED = 0 \<and> pf_ref_count f = 0)"

text \<open>
  The \<^verbatim>\<open>do .. while (i != start)\<close> loop: the index of the frame found, or None inside Some when the
  loop leaves without one.
\<close>

partial_function (option) pmm_scan :: "pmm \<Rightarrow> u32 \<Rightarrow> u64 \<Rightarrow> u64 \<Rightarrow> u64 option option" where
  "pmm_scan s z start i =
     (let i = (if g_frame_count s \<le> i then g_alloc_start s else i) in
      if frame_fits s z i then Some (Some i)
      else if i + 1 = start then Some None
      else pmm_scan s z start (i + 1))"

definition pmm_take :: "pmm \<Rightarrow> u32 \<Rightarrow> u64 \<Rightarrow> pmm" where
  "pmm_take s z i =
     (let f = g_frames s ! unat i;
          cur = (if g_frame_count s \<le> i + 1 then g_alloc_start s else i + 1)
      in s\<lparr>g_frames := (g_frames s)[unat i := f\<lparr>pf_flags := pf_flags f AND NOT PF_FREE, pf_ref_count := 1\<rparr>],
           g_zone_cursor := (g_zone_cursor s)[unat z := cur],
           g_zone_free := (g_zone_free s)[unat z := g_zone_free s ! unat z - 1]\<rparr>)"

definition pmm_alloc :: "pmm \<Rightarrow> u32 \<Rightarrow> (u64 \<times> pmm) option" where
  "pmm_alloc s z =
     (if ZONE_COUNT \<le> z then Some (0, s)
      else if g_zone_free s ! unat z = 0 then Some (0, s)
      else
        (let start = g_zone_cursor s ! unat z in
         map_option (\<lambda>r. case r of None \<Rightarrow> (0, s) | Some i \<Rightarrow> (idx_to_phys s i, pmm_take s z i))
           (pmm_scan s z start start)))"

definition pmm_free :: "pmm \<Rightarrow> u64 \<Rightarrow> pmm" where
  "pmm_free s phys =
     (if phys = 0 then s
      else
        (let idx = phys_to_idx s phys in
         if g_frame_count s \<le> idx then s
         else
           (let f = g_frames s ! unat idx in
            if pf_flags f AND PF_LOCKED \<noteq> 0 then s
            else
              (let f = (if 0 < pf_ref_count f then f\<lparr>pf_ref_count := pf_ref_count f - 1\<rparr> else f) in
               if pf_ref_count f = 0
               then s\<lparr>g_frames := (g_frames s)[unat idx := f\<lparr>pf_flags := pf_flags f OR PF_FREE\<rparr>],
                      g_zone_free := (g_zone_free s)[unat (pf_zone f) := g_zone_free s ! unat (pf_zone f) + 1]\<rparr>
               else s\<lparr>g_frames := (g_frames s)[unat idx := f]\<rparr>))))"

definition pmm_ref :: "pmm \<Rightarrow> u64 \<Rightarrow> pmm" where
  "pmm_ref s phys =
     (let idx = phys_to_idx s phys in
      if idx < g_frame_count s
      then (let f = g_frames s ! unat idx in
            s\<lparr>g_frames := (g_frames s)[unat idx := f\<lparr>pf_ref_count := pf_ref_count f + 1\<rparr>]\<rparr>)
      else s)"

definition pmm_zone_of :: "pmm \<Rightarrow> u64 \<Rightarrow> u32" where
  "pmm_zone_of s phys =
     (let idx = phys_to_idx s phys in
      if g_frame_count s \<le> idx then ZONE_RED else pf_zone (g_frames s ! unat idx))"

definition pmm_free_pages :: "pmm \<Rightarrow> u32 \<Rightarrow> u64" where
  "pmm_free_pages s z = (if ZONE_COUNT \<le> z then 0 else g_zone_free s ! unat z)"

definition pmm_total_pages :: "pmm \<Rightarrow> u64" where
  "pmm_total_pages s = g_frame_count s"

subsection \<open>The invariant\<close>

text \<open>The frames of a zone that can be handed out.\<close>

definition zone_frames :: "pmm \<Rightarrow> u32 \<Rightarrow> nat set" where
  "zone_frames s z = {i. i < length (g_frames s) \<and> pf_zone (g_frames s ! i) = z \<and> pf_ref_count (g_frames s ! i) = 0}"

definition frame_ok :: "nat \<Rightarrow> nat \<Rightarrow> page_frame \<Rightarrow> bool" where
  "frame_ok start i f \<longleftrightarrow> pf_zone f < ZONE_COUNT \<and> (pf_flags f AND PF_FREE \<noteq> 0 \<longleftrightarrow> pf_ref_count f = 0)
     \<and> (pf_flags f AND PF_LOCKED \<noteq> 0 \<longleftrightarrow> i < start) \<and> (i < start \<longrightarrow> pf_ref_count f \<noteq> 0)"

definition pmm_inv :: "pmm \<Rightarrow> bool" where
  "pmm_inv s \<longleftrightarrow> length (g_frames s) = unat (g_frame_count s) \<and> g_frame_base s \<noteq> 0
     \<and> unat (g_frame_base s) + unat (g_frame_count s) * 4096 < 2 ^ 64 \<and> 4096 dvd unat (g_frame_base s)
     \<and> unat (g_alloc_start s) \<le> unat (g_frame_count s)
     \<and> length (g_zone_cursor s) = 3 \<and> length (g_zone_free s) = 3
     \<and> (\<forall>z < 3. g_alloc_start s \<le> g_zone_cursor s ! z \<and> g_zone_cursor s ! z \<le> g_frame_count s)
     \<and> (\<forall>z < 3. unat (g_zone_free s ! z) = card (zone_frames s (of_nat z)))
     \<and> (\<forall>i < length (g_frames s). frame_ok (unat (g_alloc_start s)) i (g_frames s ! i))"

text \<open>How often a physical page is referenced; 0 for what is free, locked or no page of the table.\<close>

definition pmm_refs :: "pmm \<Rightarrow> u64 \<Rightarrow> nat" where
  "pmm_refs s phys =
     (let i = unat (phys_to_idx s phys) in
      if i < length (g_frames s) \<and> unat (g_alloc_start s) \<le> i \<and> phys = idx_to_phys s (phys_to_idx s phys)
      then unat (pf_ref_count (g_frames s ! i)) else 0)"

subsection \<open>Addresses and indices\<close>

lemma unat_push_shift: "unat (i :: u64) * 4096 < 2 ^ 64 \<Longrightarrow> unat (push_bit 12 i) = unat i * 4096"
  by (simp add: push_bit_eq_mult unat_word_ariths)

lemma drop_push_shift:
  assumes "unat (i :: u64) * 4096 < 2 ^ 64"
  shows "drop_bit 12 (push_bit 12 i) = i"
proof -
  have "unat (drop_bit 12 (push_bit 12 i)) = unat i"
    unfolding unat_drop_bit_eq unat_push_shift [OF assms] by (simp add: drop_bit_eq_div)
  then show ?thesis by (simp only: word_unat_eq_iff)
qed

lemma idx_phys_idx:
  assumes "pmm_inv s" and "i < g_frame_count s"
  shows "phys_to_idx s (idx_to_phys s i) = i" "idx_to_phys s i \<noteq> 0"
    "unat (idx_to_phys s i) = unat (g_frame_base s) + unat i * 4096"
proof -
  have lim: "unat (g_frame_base s) + unat i * 4096 < 2 ^ 64" and b: "0 < unat (g_frame_base s)"
    using assms by (auto simp: pmm_inv_def word_less_nat_alt unat_gt_0)
  show "phys_to_idx s (idx_to_phys s i) = i"
    using lim by (simp add: phys_to_idx_def idx_to_phys_def PAGE_SHIFT_def drop_push_shift)
  have "unat (push_bit 12 i) = unat i * 4096" using lim by (intro unat_push_shift) simp
  then show u: "unat (idx_to_phys s i) = unat (g_frame_base s) + unat i * 4096"
    using lim unat_add_word [of "g_frame_base s" "push_bit 12 i"] by (simp add: idx_to_phys_def PAGE_SHIFT_def)
  show "idx_to_phys s i \<noteq> 0"
  proof
    assume "idx_to_phys s i = 0"
    with u b show False by simp
  qed
qed

subsection \<open>The search loop\<close>

lemma frame_fits_iff:
  assumes "pmm_inv s" and "i < g_frame_count s"
  shows "frame_fits s z i \<longleftrightarrow> unat i \<in> zone_frames s z"
proof -
  have l: "unat i < length (g_frames s)" using assms by (simp add: pmm_inv_def word_less_nat_alt)
  with assms(1) have "frame_ok (unat (g_alloc_start s)) (unat i) (g_frames s ! unat i)"
    unfolding pmm_inv_def by blast
  with l show ?thesis by (auto simp: frame_fits_def zone_frames_def frame_ok_def)
qed

lemma zone_frames_range:
  assumes "pmm_inv s" and "j \<in> zone_frames s z"
  shows "unat (g_alloc_start s) \<le> j" "j < unat (g_frame_count s)"
proof -
  have j: "j < length (g_frames s)" "pf_ref_count (g_frames s ! j) = 0" using assms(2) by (auto simp: zone_frames_def)
  with assms(1) have "frame_ok (unat (g_alloc_start s)) j (g_frames s ! j)" unfolding pmm_inv_def by blast
  with j show "unat (g_alloc_start s) \<le> j" by (auto simp: frame_ok_def)
  show "j < unat (g_frame_count s)" using j assms(1) by (simp add: pmm_inv_def)
qed

lemma scan_step:
  assumes "pmm_inv s" and "n < unat (g_frame_count s)"
  shows "pmm_scan s z start (of_nat n) =
    (if n \<in> zone_frames s z then Some (Some (of_nat n))
     else if n + 1 = unat start then Some None else pmm_scan s z start (of_nat (n + 1)))"
proof -
  have n: "n + 1 < 2 ^ 64" using assms(2) unat_u64 [of "g_frame_count s"] by simp
  have u: "unat (of_nat n :: u64) = n" using n by (intro unat_of_nat64) simp
  have u1: "unat (of_nat (n + 1) :: u64) = n + 1" using n by (rule unat_of_nat64)
  have lt: "(of_nat n :: u64) < g_frame_count s" using assms(2) u by (simp add: word_less_nat_alt)
  then have nle: "\<not> g_frame_count s \<le> (of_nat n :: u64)" by simp
  have st: "(of_nat n + 1 :: u64) = start \<longleftrightarrow> n + 1 = unat start"
    using u1 by (simp add: word_unat_eq_iff add.commute)
  have ff: "frame_fits s z (of_nat n) \<longleftrightarrow> n \<in> zone_frames s z"
    using frame_fits_iff [OF assms(1) lt] u by simp
  show ?thesis
    by (subst pmm_scan.simps) (simp only: nle if_False Let_def ff st of_nat_add of_nat_1)
qed

lemma scan_up:
  assumes "pmm_inv s" and "n \<le> j" and "j \<in> zone_frames s z" and "\<not> (n < unat start \<and> unat start \<le> j)"
  shows "\<exists>k. n \<le> k \<and> k \<le> j \<and> k \<in> zone_frames s z \<and> pmm_scan s z start (of_nat n) = Some (Some (of_nat k))"
  using assms(2,4)
proof (induction n rule: inc_induct)
  case base
  then show ?case using scan_step [OF assms(1) zone_frames_range(2) [OF assms(1,3)]] assms(3) by auto
next
  case (step n)
  have lt: "n < unat (g_frame_count s)" using step.hyps zone_frames_range(2) [OF assms(1,3)] by simp
  show ?case
  proof (cases "n \<in> zone_frames s z")
    case True
    with scan_step [OF assms(1) lt] step.hyps show ?thesis by (intro exI [of _ n]) simp
  next
    case False
    have "n + 1 \<noteq> unat start" using step.prems step.hyps by auto
    with False scan_step [OF assms(1) lt] have "pmm_scan s z start (of_nat n) = pmm_scan s z start (of_nat (Suc n))"
      by simp
    moreover have "\<not> (Suc n < unat start \<and> unat start \<le> j)" using step.prems by auto
    ultimately show ?thesis using step.IH by (metis Suc_leD)
  qed
qed

lemma scan_wrap:
  assumes "pmm_inv s" and "n \<le> unat (g_frame_count s)" and "\<And>k. n \<le> k \<Longrightarrow> k \<notin> zone_frames s z"
    and "unat start \<le> n" and "g_alloc_start s < g_frame_count s"
  shows "pmm_scan s z start (of_nat n) = pmm_scan s z start (g_alloc_start s)"
  using assms(2-4)
proof (induction n rule: inc_induct)
  case base
  show ?case
    by (subst (1 2) pmm_scan.simps) (use assms(5) in \<open>simp add: Let_def not_le\<close>)
next
  case (step n)
  have "pmm_scan s z start (of_nat n) = pmm_scan s z start (of_nat (Suc n))"
    using scan_step [OF assms(1) step.hyps(2)] step.prems by simp
  with step show ?case by simp
qed

lemma pmm_scan_finds:
  assumes "pmm_inv s" and "zone_frames s z \<noteq> {}" and "g_alloc_start s \<le> start" and "start \<le> g_frame_count s"
  shows "\<exists>k. k \<in> zone_frames s z \<and> pmm_scan s z start start = Some (Some (of_nat k))"
proof -
  obtain j where j: "j \<in> zone_frames s z" using assms(2) by blast
  note jr = zone_frames_range [OF assms(1) j]
  show ?thesis
  proof (cases "\<exists>j \<in> zone_frames s z. unat start \<le> j")
    case True
    then obtain j where "j \<in> zone_frames s z" "unat start \<le> j" by blast
    with scan_up [OF assms(1), of "unat start" j z start] show ?thesis by auto
  next
    case False
    have lt: "g_alloc_start s < g_frame_count s" using jr by (simp add: word_less_nat_alt)
    have "pmm_scan s z start start = pmm_scan s z start (g_alloc_start s)"
      using scan_wrap [OF assms(1), of "unat start" z start] False assms(4) lt by (auto simp: word_le_nat_alt)
    moreover have "j < unat start" using False j by force
    ultimately show ?thesis
      using scan_up [OF assms(1) jr(1) j, of start] by auto
  qed
qed

subsection \<open>The operations keep the invariant\<close>

lemma zone_frames_finite [simp]: "finite (zone_frames s z)"
  by (simp add: zone_frames_def)

lemma zone_frames_update:
  assumes "i < length (g_frames s)" and "pf_zone f = pf_zone (g_frames s ! i)"
  shows "zone_frames (s\<lparr>g_frames := (g_frames s)[i := f]\<rparr>) z =
    (if z \<noteq> pf_zone f then zone_frames s z
     else if pf_ref_count f = 0 then insert i (zone_frames s z) else zone_frames s z - {i})"
  using assms by (auto simp: zone_frames_def nth_list_update)

lemma zone_frames_other [simp]:
  "zone_frames (s\<lparr>g_zone_cursor := c\<rparr>) z = zone_frames s z" "zone_frames (s\<lparr>g_zone_free := c\<rparr>) z = zone_frames s z"
  by (simp_all add: zone_frames_def)

lemma zone3: "(z :: u32) < 3 \<longleftrightarrow> unat z < 3"
  by (simp add: word_less_nat_alt)

lemma pmm_invD:
  assumes "pmm_inv s" and "i < length (g_frames s)"
  shows "frame_ok (unat (g_alloc_start s)) i (g_frames s ! i)" "unat (pf_zone (g_frames s ! i)) < 3"
  using assms unfolding pmm_inv_def frame_ok_def ZONE_COUNT_def zone3 by blast+

lemma pmm_inv_zone:
  assumes "pmm_inv s" and "unat z < 3"
  shows "unat (g_zone_free s ! unat z) = card (zone_frames s z)"
    "g_alloc_start s \<le> g_zone_cursor s ! unat z" "g_zone_cursor s ! unat z \<le> g_frame_count s"
proof -
  have "unat (g_zone_free s ! unat z) = card (zone_frames s (of_nat (unat z)))"
    using assms unfolding pmm_inv_def by blast
  then show "unat (g_zone_free s ! unat z) = card (zone_frames s z)" by simp
  show "g_alloc_start s \<le> g_zone_cursor s ! unat z" "g_zone_cursor s ! unat z \<le> g_frame_count s"
    using assms unfolding pmm_inv_def by blast+
qed

lemma zone_card_le: "pmm_inv s \<Longrightarrow> card (zone_frames s z) \<le> unat (g_frame_count s)"
  using card_mono [of "{..< length (g_frames s)}" "zone_frames s z"]
  by (auto simp: zone_frames_def pmm_inv_def)

lemma of_nat_zone: "z < 3 \<Longrightarrow> (of_nat z :: u32) = w \<longleftrightarrow> z = unat w"
  by (auto simp: word_unat_eq_iff unsigned_of_nat take_bit_eq_mod)

text \<open>Replacing one unlocked frame, with the counter of its zone adjusted.\<close>

lemma pmm_inv_update:
  assumes inv: "pmm_inv s" and i: "i < length (g_frames s)" "unat (g_alloc_start s) \<le> i"
    and f: "pf_zone f = pf_zone (g_frames s ! i)" "frame_ok (unat (g_alloc_start s)) i f"
    and c: "length c = 3" "\<And>z. z < 3 \<Longrightarrow> g_alloc_start s \<le> c ! z \<and> c ! z \<le> g_frame_count s"
    and zf: "unat zf = card (zone_frames (s\<lparr>g_frames := (g_frames s)[i := f]\<rparr>) (pf_zone f))"
  shows "pmm_inv (s\<lparr>g_frames := (g_frames s)[i := f], g_zone_cursor := c,
      g_zone_free := (g_zone_free s)[unat (pf_zone f) := zf]\<rparr>)" (is "pmm_inv ?s'")
proof -
  have z3: "unat (pf_zone f) < 3" using pmm_invD(2) [OF inv i(1)] f(1) by simp
  have len: "length (g_zone_free s) = 3" using inv by (simp add: pmm_inv_def)
  have "unat ((g_zone_free s)[unat (pf_zone f) := zf] ! z) = card (zone_frames ?s' (of_nat z))" if "z < 3" for z
  proof (cases "z = unat (pf_zone f)")
    case True
    then show ?thesis using zf len z3 by (simp add: zone_frames_def)
  next
    case False
    then have ne: "(of_nat z :: u32) \<noteq> pf_zone f" using of_nat_zone [OF that] by simp
    have "zone_frames ?s' (of_nat z) = zone_frames s (of_nat z)"
      using zone_frames_update [OF i(1) f(1), of "of_nat z"] ne by (simp add: zone_frames_def)
    with False that inv show ?thesis by (simp add: pmm_inv_def)
  qed
  moreover have "frame_ok (unat (g_alloc_start s)) j ((g_frames s)[i := f] ! j)" if "j < length (g_frames s)" for j
    using pmm_invD(1) [OF inv that] f(2) i(1) by (cases "j = i") auto
  ultimately show ?thesis using inv c unfolding pmm_inv_def by simp
qed

lemma pf_flag_simps [simp]:
  "(x AND NOT PF_FREE) AND PF_FREE = 0" "(x AND NOT PF_FREE) AND PF_LOCKED = x AND PF_LOCKED"
  "(x OR PF_FREE) AND PF_FREE \<noteq> 0" "(x OR PF_FREE) AND PF_LOCKED = x AND PF_LOCKED"
proof -
  have b: "PF_FREE = 1" "PF_LOCKED = push_bit 1 1" by (simp_all add: PF_FREE_def PF_LOCKED_def)
  show "(x AND NOT PF_FREE) AND PF_FREE = 0" unfolding b by (rule bit_word_eqI; auto simp: bit_simps)
  have "(x OR PF_FREE) AND PF_FREE = 1" unfolding b by (rule bit_word_eqI; auto simp: bit_simps)
  then show "(x OR PF_FREE) AND PF_FREE \<noteq> 0" by simp
  show "(x AND NOT PF_FREE) AND PF_LOCKED = x AND PF_LOCKED" "(x OR PF_FREE) AND PF_LOCKED = x AND PF_LOCKED"
    unfolding b by (rule bit_word_eqI; auto simp: bit_simps)+
qed

lemma PF_FREE_nz [simp]: "PF_FREE \<noteq> 0"
  by (simp add: PF_FREE_def)

lemma pmm_take_ok:
  assumes inv: "pmm_inv s" and k: "k \<in> zone_frames s z"
  shows "pmm_inv (pmm_take s z (of_nat k))"
    "zone_frames (pmm_take s z (of_nat k)) z' = zone_frames s z' - {k}"
    "g_frames (pmm_take s z (of_nat k)) =
      (g_frames s)[k := (g_frames s ! k)\<lparr>pf_flags := pf_flags (g_frames s ! k) AND NOT PF_FREE, pf_ref_count := 1\<rparr>]"
proof -
  let ?f = "(g_frames s ! k)\<lparr>pf_flags := pf_flags (g_frames s ! k) AND NOT PF_FREE, pf_ref_count := 1\<rparr>"
  note kr = zone_frames_range [OF inv k]
  have kl: "k < length (g_frames s)" "pf_zone (g_frames s ! k) = z" using k by (auto simp: zone_frames_def)
  have c64: "unat (g_frame_count s) < 2 ^ 64" using unat_u64 [of "g_frame_count s"] by simp
  have u: "unat (of_nat k :: u64) = k" using kr c64 by (intro unat_of_nat64) simp
  have u1: "unat (of_nat (k + 1) :: u64) = k + 1" using kr c64 by (intro unat_of_nat64) simp
  let ?cur = "if g_frame_count s \<le> of_nat k + 1 then g_alloc_start s else of_nat k + 1"
  have t: "pmm_take s z (of_nat k) = s\<lparr>g_frames := (g_frames s)[k := ?f],
      g_zone_cursor := (g_zone_cursor s)[unat z := ?cur],
      g_zone_free := (g_zone_free s)[unat (pf_zone ?f) := g_zone_free s ! unat z - 1]\<rparr>"
    by (simp add: pmm_take_def Let_def u kl(2))
  then show "g_frames (pmm_take s z (of_nat k)) = (g_frames s)[k := ?f]" by simp
  have z3: "unat z < 3" using pmm_invD(2) [OF inv kl(1)] kl(2) by simp
  have fo: "frame_ok (unat (g_alloc_start s)) k ?f"
    using pmm_invD(1) [OF inv kl(1)] kr by (auto simp: frame_ok_def)
  have zf: "zone_frames (s\<lparr>g_frames := (g_frames s)[k := ?f]\<rparr>) z' = zone_frames s z' - {k}" for z'
    using zone_frames_update [OF kl(1), of ?f z'] kl k by (auto simp: zone_frames_def)
  then show "zone_frames (pmm_take s z (of_nat k)) z' = zone_frames s z' - {k}"
    unfolding t by (simp add: zone_frames_def)
  have cz: "unat (g_zone_free s ! unat z) = card (zone_frames s z)" by (rule pmm_inv_zone [OF inv z3])
  moreover have "0 < card (zone_frames s z)" using k by (auto simp: card_gt_0_iff)
  ultimately have "g_zone_free s ! unat z \<noteq> 0" by auto
  with cz have "unat (g_zone_free s ! unat z - 1) = card (zone_frames s z) - 1"
    by (simp add: unat_minus_one)
  then have cnt: "unat (g_zone_free s ! unat z - 1) = card (zone_frames (s\<lparr>g_frames := (g_frames s)[k := ?f]\<rparr>) (pf_zone ?f))"
    using k kl(2) by (simp add: zf)
  have cur: "g_alloc_start s \<le> ?cur \<and> ?cur \<le> g_frame_count s"
    using u1 kr inv by (auto simp: word_le_nat_alt pmm_inv_def add.commute)
  show "pmm_inv (pmm_take s z (of_nat k))"
    unfolding t
  proof (rule pmm_inv_update [OF inv kl(1) kr(1) _ fo _ _ cnt])
    show "length ((g_zone_cursor s)[unat z := ?cur]) = 3" using inv by (simp add: pmm_inv_def)
    show "g_alloc_start s \<le> (g_zone_cursor s)[unat z := ?cur] ! z' \<and> (g_zone_cursor s)[unat z := ?cur] ! z' \<le> g_frame_count s"
      if "z' < 3" for z'
    proof (cases "z' = unat z")
      case True
      then show ?thesis using cur that inv by (simp add: pmm_inv_def)
    next
      case False
      then show ?thesis using that inv by (simp add: pmm_inv_def)
    qed
  qed simp
qed

lemma pmm_alloc_ok:
  assumes inv: "pmm_inv s"
  shows "(unat z < 3 \<and> zone_frames s z \<noteq> {} \<longrightarrow>
      (\<exists>k \<in> zone_frames s z. pmm_alloc s z = Some (idx_to_phys s (of_nat k), pmm_take s z (of_nat k))))
    \<and> (\<not> (unat z < 3 \<and> zone_frames s z \<noteq> {}) \<longrightarrow> pmm_alloc s z = Some (0, s))"
proof (cases "unat z < 3")
  case True
  note z = pmm_inv_zone [OF inv True]
  have nz: "\<not> ZONE_COUNT \<le> z" using True by (simp add: ZONE_COUNT_def word_le_nat_alt)
  show ?thesis
  proof (cases "zone_frames s z = {}")
    case True
    with z(1) have "g_zone_free s ! unat z = 0" by (simp add: unat_eq_0)
    with True nz show ?thesis by (simp add: pmm_alloc_def)
  next
    case False
    then have "card (zone_frames s z) \<noteq> 0" by simp
    with z(1) have f0: "g_zone_free s ! unat z \<noteq> 0" by (metis unat_0)
    from pmm_scan_finds [OF inv False z(2,3)] obtain k where
      "k \<in> zone_frames s z" "pmm_scan s z (g_zone_cursor s ! unat z) (g_zone_cursor s ! unat z) = Some (Some (of_nat k))"
      by blast
    with f0 nz True False show ?thesis by (auto simp: pmm_alloc_def Let_def)
  qed
next
  case False
  then show ?thesis by (simp add: pmm_alloc_def ZONE_COUNT_def word_le_nat_alt)
qed

text \<open>The frame behind a referenced page.\<close>

lemma pmm_refs_pos:
  assumes inv: "pmm_inv s" and r: "0 < pmm_refs s p"
  obtains k where "k < length (g_frames s)" "unat (g_alloc_start s) \<le> k" "unat (phys_to_idx s p) = k"
    "p = idx_to_phys s (of_nat k)" "pmm_refs s p = unat (pf_ref_count (g_frames s ! k))" "p \<noteq> 0"
    "phys_to_idx s p < g_frame_count s" "pf_flags (g_frames s ! k) AND PF_LOCKED = 0"
proof -
  let ?k = "unat (phys_to_idx s p)"
  have k: "?k < length (g_frames s)" "unat (g_alloc_start s) \<le> ?k" "p = idx_to_phys s (phys_to_idx s p)"
    "pmm_refs s p = unat (pf_ref_count (g_frames s ! ?k))"
    using r by (auto simp: pmm_refs_def Let_def split: if_splits)
  have lt: "phys_to_idx s p < g_frame_count s" using k(1) inv by (simp add: pmm_inv_def word_less_nat_alt)
  have "p \<noteq> 0" using idx_phys_idx(2) [OF inv lt] k(3) by simp
  moreover have "pf_flags (g_frames s ! ?k) AND PF_LOCKED = 0"
    using pmm_invD(1) [OF inv k(1)] k(2) by (auto simp: frame_ok_def)
  ultimately show ?thesis using that [of ?k] k lt by simp
qed

text \<open>How the counts change when one unlocked frame is replaced.\<close>

lemma pmm_refs_update:
  assumes inv: "pmm_inv s" and k: "k < length (g_frames s)" "unat (g_alloc_start s) \<le> k"
    and s': "g_frames s' = (g_frames s)[k := f]" "g_frame_base s' = g_frame_base s" "g_alloc_start s' = g_alloc_start s"
  shows "pmm_refs s' = (pmm_refs s)(idx_to_phys s (of_nat k) := unat (pf_ref_count f))"
proof
  fix p
  have conv: "phys_to_idx s' q = phys_to_idx s q" "idx_to_phys s' i = idx_to_phys s i" for q i
    by (simp_all add: phys_to_idx_def idx_to_phys_def s')
  have kl: "k < unat (g_frame_count s)" using inv k(1) by (simp add: pmm_inv_def)
  have ku: "unat (of_nat k :: u64) = k" using kl unat_u64 [of "g_frame_count s"] by (intro unat_of_nat64) simp
  then have kw: "of_nat k < g_frame_count s" using kl by (simp add: word_less_nat_alt)
  show "pmm_refs s' p = ((pmm_refs s)(idx_to_phys s (of_nat k) := unat (pf_ref_count f))) p"
  proof (cases "p = idx_to_phys s (of_nat k)")
    case True
    then have "phys_to_idx s p = of_nat k" using idx_phys_idx(1) [OF inv kw] by simp
    then show ?thesis using True k ku by (simp add: pmm_refs_def Let_def conv s')
  next
    case False
    then have "unat (phys_to_idx s p) \<noteq> k \<or> p \<noteq> idx_to_phys s (phys_to_idx s p)" by auto
    with False show ?thesis by (auto simp: pmm_refs_def Let_def conv s')
  qed
qed

lemma pmm_alloc_refs:
  assumes inv: "pmm_inv s"
  shows "\<exists>p s'. pmm_alloc s z = Some (p, s') \<and> pmm_inv s' \<and>
    (p = 0 \<and> s' = s \<or> p \<noteq> 0 \<and> p AND 0xFFF = 0 \<and> pmm_refs s p = 0 \<and> pmm_refs s' = (pmm_refs s)(p := 1))"
proof (cases "unat z < 3 \<and> zone_frames s z \<noteq> {}")
  case True
  with pmm_alloc_ok [OF inv, of z] obtain k where k: "k \<in> zone_frames s z"
    "pmm_alloc s z = Some (idx_to_phys s (of_nat k), pmm_take s z (of_nat k))" by blast
  note kr = zone_frames_range [OF inv k(1)]
  have kl: "k < length (g_frames s)" using k(1) by (simp add: zone_frames_def)
  have ku: "unat (of_nat k :: u64) = k" using kr(2) unat_u64 [of "g_frame_count s"] by (intro unat_of_nat64) simp
  have kw: "of_nat k < g_frame_count s" using kr(2) ku by (simp add: word_less_nat_alt)
  note ix = idx_phys_idx [OF inv kw]
  note t = pmm_take_ok [OF inv k(1)]
  have "pmm_refs (pmm_take s z (of_nat k)) = (pmm_refs s)(idx_to_phys s (of_nat k) := 1)"
    by (subst pmm_refs_update [OF inv kl kr(1) t(3)]) (simp_all add: pmm_take_def Let_def)
  moreover have "pmm_refs s (idx_to_phys s (of_nat k)) = 0"
    using k(1) ix(1) ku by (simp add: pmm_refs_def zone_frames_def)
  moreover have "idx_to_phys s (of_nat k) AND 0xFFF = 0"
  proof -
    have "4096 dvd unat (idx_to_phys s (of_nat k))" using ix(3) inv by (simp add: pmm_inv_def)
    then have "take_bit 12 (idx_to_phys s (of_nat k)) = 0"
      by (simp add: take_bit_eq_mod word_unat_eq_iff unat_mod dvd_imp_mod_0)
    then show ?thesis by (simp add: take_bit_eq_mask mask_eq_exp_minus_1)
  qed
  ultimately show ?thesis using k(2) t(1) ix(2) by blast
next
  case False
  with pmm_alloc_ok [OF inv, of z] inv show ?thesis by blast
qed

lemma pmm_free_ok:
  assumes inv: "pmm_inv s" and r: "0 < pmm_refs s p"
  shows "pmm_inv (pmm_free s p)" "pmm_refs (pmm_free s p) = (pmm_refs s)(p := pmm_refs s p - 1)"
proof -
  obtain k where k: "k < length (g_frames s)" "unat (g_alloc_start s) \<le> k" "unat (phys_to_idx s p) = k"
    "p = idx_to_phys s (of_nat k)" "pmm_refs s p = unat (pf_ref_count (g_frames s ! k))" "p \<noteq> 0"
    "phys_to_idx s p < g_frame_count s" "pf_flags (g_frames s ! k) AND PF_LOCKED = 0"
    using pmm_refs_pos [OF assms] by blast
  let ?f = "(g_frames s ! k)\<lparr>pf_ref_count := pf_ref_count (g_frames s ! k) - 1\<rparr>"
  have pos: "pf_ref_count (g_frames s ! k) \<noteq> 0" using r k(5) by auto
  then have m1: "unat (pf_ref_count ?f) = pmm_refs s p - 1" using k(5) by (simp add: unat_minus_one)
  note fo = pmm_invD [OF inv k(1)]
  let ?z = "pf_zone (g_frames s ! k)"
  have kw: "\<not> g_frame_count s \<le> phys_to_idx s p" using k(7) by simp
  have cz: "unat (g_zone_free s ! unat ?z) = card (zone_frames s ?z)" by (rule pmm_inv_zone [OF inv fo(2)])
  have cur: "length (g_zone_cursor s) = 3" "\<And>z. z < 3 \<Longrightarrow> g_alloc_start s \<le> g_zone_cursor s ! z \<and> g_zone_cursor s ! z \<le> g_frame_count s"
    using inv by (auto simp: pmm_inv_def)
  show "pmm_refs (pmm_free s p) = (pmm_refs s)(p := pmm_refs s p - 1)"
  proof (cases "pf_ref_count ?f = 0")
    case True
    let ?g = "?f\<lparr>pf_flags := pf_flags ?f OR PF_FREE\<rparr>"
    have "g_frames (pmm_free s p) = (g_frames s)[k := ?g]" "g_frame_base (pmm_free s p) = g_frame_base s"
        "g_alloc_start (pmm_free s p) = g_alloc_start s"
      using True k kw pos by (simp_all add: pmm_free_def Let_def word_gt_0)
    from pmm_refs_update [OF inv k(1,2) this] show ?thesis using m1 k(4) by simp
  next
    case False
    have "g_frames (pmm_free s p) = (g_frames s)[k := ?f]" "g_frame_base (pmm_free s p) = g_frame_base s"
        "g_alloc_start (pmm_free s p) = g_alloc_start s"
      using False k kw pos by (simp_all add: pmm_free_def Let_def word_gt_0)
    from pmm_refs_update [OF inv k(1,2) this] show ?thesis using m1 k(4) by simp
  qed
  show "pmm_inv (pmm_free s p)"
  proof (cases "pf_ref_count ?f = 0")
    case True
    let ?g = "?f\<lparr>pf_flags := pf_flags ?f OR PF_FREE\<rparr>"
    have e: "pmm_free s p = s\<lparr>g_frames := (g_frames s)[k := ?g], g_zone_cursor := g_zone_cursor s,
        g_zone_free := (g_zone_free s)[unat (pf_zone ?g) := g_zone_free s ! unat ?z + 1]\<rparr>"
      using True k kw pos by (simp add: pmm_free_def Let_def word_gt_0)
    have zf: "zone_frames (s\<lparr>g_frames := (g_frames s)[k := ?g]\<rparr>) (pf_zone ?g) = insert k (zone_frames s ?z)"
      using zone_frames_update [OF k(1), of ?g ?z] True by simp
    have nin: "k \<notin> zone_frames s ?z" using pos by (simp add: zone_frames_def)
    have "card (zone_frames s ?z) < 2 ^ 64 - 1"
    proof -
      have "insert k (zone_frames s ?z) \<subseteq> {..< length (g_frames s)}" using k(1) by (auto simp: zone_frames_def)
      then have "card (insert k (zone_frames s ?z)) \<le> length (g_frames s)" using card_mono [of "{..< length (g_frames s)}"] by simp
      then show ?thesis using nin inv unat_u64 [of "g_frame_count s"] by (simp add: pmm_inv_def)
    qed
    then have "unat (g_zone_free s ! unat ?z + 1) = card (zone_frames s ?z) + 1"
      using cz unat_add_small [of "g_zone_free s ! unat ?z" 1] by simp
    then have cnt: "unat (g_zone_free s ! unat ?z + 1) = card (zone_frames (s\<lparr>g_frames := (g_frames s)[k := ?g]\<rparr>) (pf_zone ?g))"
      unfolding zf using nin by simp
    show ?thesis unfolding e
      by (rule pmm_inv_update [OF inv k(1,2) _ _ cur cnt]) (use True fo k in \<open>auto simp: frame_ok_def\<close>)
  next
    case False
    have e: "pmm_free s p = s\<lparr>g_frames := (g_frames s)[k := ?f], g_zone_cursor := g_zone_cursor s,
        g_zone_free := (g_zone_free s)[unat (pf_zone ?f) := g_zone_free s ! unat ?z]\<rparr>"
      using False k kw pos by (simp add: pmm_free_def Let_def word_gt_0)
    have cnt: "unat (g_zone_free s ! unat ?z) = card (zone_frames (s\<lparr>g_frames := (g_frames s)[k := ?f]\<rparr>) (pf_zone ?f))"
      using zone_frames_update [OF k(1), of ?f ?z] False pos cz by (simp add: zone_frames_def)
    show ?thesis unfolding e
      by (rule pmm_inv_update [OF inv k(1,2) _ _ cur cnt]) (use False pos fo k in \<open>auto simp: frame_ok_def\<close>)
  qed
qed

interpretation pmm_frames: frame_allocator pmm_inv pmm_refs pmm_alloc pmm_free
  by unfold_locales (rule pmm_alloc_refs, assumption, simp add: pmm_free_ok)

text \<open>The pages that can be handed out.\<close>

definition pmm_avail :: "pmm \<Rightarrow> u64 set" where
  "pmm_avail s = (\<lambda>k. idx_to_phys s (of_nat k)) ` {k. k < length (g_frames s) \<and> pf_ref_count (g_frames s ! k) = 0}"

lemma idx_to_phys_inj:
  assumes "pmm_inv s" and "j < length (g_frames s)" and "k < length (g_frames s)"
    and "idx_to_phys s (of_nat j) = idx_to_phys s (of_nat k)"
  shows "j = k"
proof -
  have c: "length (g_frames s) = unat (g_frame_count s)" using assms(1) by (simp add: pmm_inv_def)
  have u: "unat (idx_to_phys s (of_nat i)) = unat (g_frame_base s) + i * 4096" if i: "i < length (g_frames s)" for i
  proof -
    have n: "unat (of_nat i :: u64) = i" using i c unat_u64 [of "g_frame_count s"] by (intro unat_of_nat64) simp
    then have "of_nat i < g_frame_count s" using i c by (simp add: word_less_nat_alt)
    from idx_phys_idx(3) [OF assms(1) this] show ?thesis unfolding n .
  qed
  have "unat (g_frame_base s) + j * 4096 = unat (g_frame_base s) + k * 4096"
    unfolding u [OF assms(2), symmetric] u [OF assms(3), symmetric] assms(4) ..
  then show ?thesis by simp
qed

lemma pmm_alloc_avail:
  assumes inv: "pmm_inv s" and al: "pmm_alloc s z = Some (p, s')" and nz: "p \<noteq> 0"
  shows "p \<in> pmm_avail s \<and> pmm_avail s' = pmm_avail s - {p}"
proof -
  have "unat z < 3 \<and> zone_frames s z \<noteq> {}" using pmm_alloc_ok [OF inv, of z] al nz by auto
  then obtain k where k: "k \<in> zone_frames s z" and p: "p = idx_to_phys s (of_nat k)" and s': "s' = pmm_take s z (of_nat k)"
    using pmm_alloc_ok [OF inv, of z] al by auto
  have kl: "k < length (g_frames s)" "pf_ref_count (g_frames s ! k) = 0" using k by (auto simp: zone_frames_def)
  let ?f = "(g_frames s ! k)\<lparr>pf_flags := pf_flags (g_frames s ! k) AND NOT PF_FREE, pf_ref_count := 1\<rparr>"
  have g: "g_frames s' = (g_frames s)[k := ?f]" unfolding s' by (rule pmm_take_ok(3) [OF inv k])
  have b: "idx_to_phys s' i = idx_to_phys s i" for i by (simp add: s' pmm_take_def idx_to_phys_def Let_def)
  have "{j. j < length (g_frames s') \<and> pf_ref_count (g_frames s' ! j) = 0}
      = {j. j < length (g_frames s) \<and> pf_ref_count (g_frames s ! j) = 0} - {k}"
  proof -
    have n: "g_frames s' ! j = (if j = k then ?f else g_frames s ! j)" for j unfolding g using kl(1) by simp
    have l: "length (g_frames s') = length (g_frames s)" unfolding g by simp
    show ?thesis unfolding l n by auto
  qed
  moreover have inj: "inj_on (\<lambda>j. idx_to_phys s (of_nat j)) {j. j < length (g_frames s)}"
    by (rule inj_onI) (rule idx_to_phys_inj [OF inv], simp_all)
  ultimately have "pmm_avail s' = (\<lambda>j. idx_to_phys s (of_nat j)) ` ({j. j < length (g_frames s) \<and> pf_ref_count (g_frames s ! j) = 0} - {k})"
    by (simp add: pmm_avail_def b)
  also have "\<dots> = pmm_avail s - (\<lambda>j. idx_to_phys s (of_nat j)) ` {k}" unfolding pmm_avail_def
    by (rule inj_on_image_set_diff [OF inj]) (use kl in auto)
  also have "\<dots> = pmm_avail s - {p}" unfolding p by simp
  finally show ?thesis using kl p unfolding pmm_avail_def by blast
qed

interpretation pmm_pages: page_source pmm_inv pmm_refs pmm_alloc pmm_free pmm_avail
  by unfold_locales (rule pmm_alloc_avail)

lemma pmm_ref_ok:
  assumes inv: "pmm_inv s" and r: "0 < pmm_refs s p" "pmm_refs s p < 2 ^ 32 - 1"
  shows "pmm_inv (pmm_ref s p)" "pmm_refs (pmm_ref s p) = (pmm_refs s)(p := pmm_refs s p + 1)"
proof -
  obtain k where k: "k < length (g_frames s)" "unat (g_alloc_start s) \<le> k" "unat (phys_to_idx s p) = k"
    "p = idx_to_phys s (of_nat k)" "pmm_refs s p = unat (pf_ref_count (g_frames s ! k))" "p \<noteq> 0"
    "phys_to_idx s p < g_frame_count s" "pf_flags (g_frames s ! k) AND PF_LOCKED = 0"
    using pmm_refs_pos [OF inv r(1)] by blast
  let ?f = "(g_frames s ! k)\<lparr>pf_ref_count := pf_ref_count (g_frames s ! k) + 1\<rparr>"
  have u: "unat (pf_ref_count ?f) = pmm_refs s p + 1" using k(5) r(2) by (simp add: unat_word_ariths)
  then have nz: "pf_ref_count ?f \<noteq> 0" by auto
  have pos: "pf_ref_count (g_frames s ! k) \<noteq> 0" using r k(5) by auto
  note fo = pmm_invD [OF inv k(1)]
  let ?z = "pf_zone (g_frames s ! k)"
  have e: "pmm_ref s p = s\<lparr>g_frames := (g_frames s)[k := ?f], g_zone_cursor := g_zone_cursor s,
        g_zone_free := (g_zone_free s)[unat (pf_zone ?f) := g_zone_free s ! unat ?z]\<rparr>"
    using k by (simp add: pmm_ref_def Let_def)
  then have "g_frames (pmm_ref s p) = (g_frames s)[k := ?f]" "g_frame_base (pmm_ref s p) = g_frame_base s"
        "g_alloc_start (pmm_ref s p) = g_alloc_start s" by simp_all
  from pmm_refs_update [OF inv k(1,2) this] show "pmm_refs (pmm_ref s p) = (pmm_refs s)(p := pmm_refs s p + 1)"
    using u k(4) by simp
  have cz: "unat (g_zone_free s ! unat ?z) = card (zone_frames s ?z)" by (rule pmm_inv_zone [OF inv fo(2)])
  have cnt: "unat (g_zone_free s ! unat ?z) = card (zone_frames (s\<lparr>g_frames := (g_frames s)[k := ?f]\<rparr>) (pf_zone ?f))"
    using zone_frames_update [OF k(1), of ?f ?z] nz pos cz by (simp add: zone_frames_def)
  have cur: "length (g_zone_cursor s) = 3" "\<And>z. z < 3 \<Longrightarrow> g_alloc_start s \<le> g_zone_cursor s ! z \<and> g_zone_cursor s ! z \<le> g_frame_count s"
    using inv by (auto simp: pmm_inv_def)
  show "pmm_inv (pmm_ref s p)" unfolding e
    by (rule pmm_inv_update [OF inv k(1,2) _ _ cur cnt]) (use nz pos fo k in \<open>auto simp: frame_ok_def\<close>)
qed

subsection \<open>Initialisation\<close>

lemma card_interval: "card {i. i < (n :: nat) \<and> a \<le> i \<and> i < b} = min n b - a"
proof -
  have "{i. i < n \<and> a \<le> i \<and> i < b} = {a ..< min n b}" by auto
  then show ?thesis by simp
qed

lemma pmm_init_inv:
  assumes "mem_base \<noteq> 0" and "4096 dvd unat mem_base" and "unat mem_base + unat mem_size < 2 ^ 64"
    and "4096 \<le> unat mem_size"
  shows "pmm_inv (pmm_init mem_base mem_size)"
proof -
  define fc where "fc = unat mem_size div 4096"
  define db where "db = (fc * 12 + 4095) div 4096"
  define zs where "zs = (fc - db) div 3"
  have fc: "fc * 4096 \<le> unat mem_size" "0 < fc" using assms(4) by (auto simp: fc_def)
  have lim: "fc < 2 ^ 52" "fc * 12 + 4096 < 2 ^ 64"
    using fc(1) unat_u64 [of mem_size] by auto
  have "db < fc + 1" unfolding db_def by (rule less_mult_imp_div_less) (use fc(2) in simp)
  then have dbfc: "db \<le> fc" by simp
  have ufc: "unat (of_nat fc :: u64) = fc" using lim by (intro unat_of_nat64) simp
  have wfc: "mem_size div PAGE_SIZE = of_nat fc"
    using ufc by (simp add: PAGE_SIZE_def fc_def word_unat_eq_iff unat_div)
  have wdb: "(of_nat fc * sizeof_page_frame + PAGE_SIZE - 1) div PAGE_SIZE = of_nat db"
  proof -
    have e: "of_nat fc * sizeof_page_frame + PAGE_SIZE - 1 = (of_nat (fc * 12 + 4095) :: u64)"
      by (simp add: sizeof_page_frame_def PAGE_SIZE_def)
    have "unat (of_nat (fc * 12 + 4095) :: u64) = fc * 12 + 4095" using lim by (intro unat_of_nat64) simp
    moreover have "unat (of_nat db :: u64) = db" using dbfc lim by (intro unat_of_nat64) simp
    ultimately show ?thesis unfolding e by (simp only: word_unat_eq_iff unat_div PAGE_SIZE_def db_def) simp
  qed
  have udb: "unat (of_nat db :: u64) = db" using dbfc lim by (intro unat_of_nat64) simp
  have us: "(of_nat fc - of_nat db) div ucast ZONE_COUNT = (of_nat zs :: u64)"
  proof -
    have "(of_nat fc - of_nat db :: u64) = of_nat (fc - db)" using dbfc by simp
    moreover have "unat (of_nat (fc - db) :: u64) = fc - db" "unat (of_nat zs :: u64) = zs"
      using lim by (auto simp: zs_def intro!: unat_of_nat64)
    ultimately show ?thesis by (simp add: word_unat_eq_iff unat_div ZONE_COUNT_def zs_def)
  qed
  let ?s = "pmm_init mem_base mem_size"
  let ?frame = "\<lambda>i. if i < db then \<lparr>pf_ref_count = 1, pf_zone = ZONE_GREEN, pf_flags = PF_LOCKED\<rparr>
     else \<lparr>pf_ref_count = 0, pf_zone = (if i < db + zs then ZONE_GREEN else if i < db + zs * 2 then ZONE_YELLOW else ZONE_RED), pf_flags = PF_FREE\<rparr>"
  have init: "?s = \<lparr>g_frames = map ?frame [0..<fc], g_frame_base = mem_base, g_frame_count = of_nat fc, g_alloc_start = of_nat db,
      g_zone_cursor = [of_nat db, of_nat (db + zs), of_nat (db + zs * 2)],
      g_zone_free = [of_nat zs, of_nat zs, of_nat (fc - db - zs * 2)]\<rparr>"
  proof -
    have z2: "zs * 2 \<le> fc - db" by (simp add: zs_def)
    have lt: "(of_nat a :: u64) < of_nat b \<longleftrightarrow> a < b" if "a \<le> 2 * fc" "b \<le> 2 * fc" for a b
      using that lim by (simp add: word_less_nat_alt unat_of_nat64)
    have fr: "(if (of_nat i :: u64) < of_nat db then \<lparr>pf_ref_count = 1, pf_zone = ZONE_GREEN, pf_flags = PF_LOCKED\<rparr>
         else \<lparr>pf_ref_count = 0, pf_zone = (if of_nat i - of_nat db < (of_nat zs :: u64) then ZONE_GREEN
            else if of_nat i - of_nat db < (of_nat zs * 2 :: u64) then ZONE_YELLOW else ZONE_RED), pf_flags = PF_FREE\<rparr>) = ?frame i"
      if "i < fc" for i
    proof (cases "i < db")
      case True
      then show ?thesis using lt [of i db] dbfc by simp
    next
      case False
      have sub: "(of_nat i - of_nat db :: u64) = of_nat (i - db)" using False by simp
      have m2: "(of_nat zs * 2 :: u64) = of_nat (zs * 2)" by simp
      show ?thesis unfolding sub m2
        using False lt [of i db] lt [of "i - db" zs] lt [of "i - db" "zs * 2"] that z2 dbfc by auto
    qed
    have red: "(of_nat fc - of_nat db - of_nat zs * 2 :: u64) = of_nat (fc - db - zs * 2)"
      using z2 dbfc by simp
    show ?thesis
      unfolding pmm_init_def Let_def wfc wdb us ufc red using fr by auto
  qed
  have nthf: "g_frames ?s ! i = ?frame i" if "i < fc" for i using that unfolding init by simp
  have zc: "zone_frames ?s z = {i. i < fc \<and> db \<le> i \<and> pf_zone (?frame i) = z}" for z
    using nthf unfolding zone_frames_def init by auto
  have zg: "zone_frames ?s 0 = {i. i < fc \<and> db \<le> i \<and> i < db + zs}"
    "zone_frames ?s 1 = {i. i < fc \<and> db + zs \<le> i \<and> i < db + zs * 2}"
    "zone_frames ?s 2 = {i. i < fc \<and> db + zs * 2 \<le> i \<and> i < fc}"
    unfolding zc by (auto simp: ZONE_GREEN_def ZONE_YELLOW_def ZONE_RED_def split: if_splits)
  have z2: "db + zs * 2 \<le> fc" using dbfc by (simp add: zs_def)
  have cards: "card (zone_frames ?s 0) = zs" "card (zone_frames ?s 1) = zs" "card (zone_frames ?s 2) = fc - db - zs * 2"
    unfolding zg card_interval using z2 by auto
  have u: "unat (of_nat n :: u64) = n" if "n \<le> fc" for n using that lim by (intro unat_of_nat64) simp
  have z3: "(\<forall>z < 3. P z) \<longleftrightarrow> P 0 \<and> P 1 \<and> P (2 :: nat)" for P
    by (auto simp: less_Suc_eq numeral_3_eq_3 numeral_2_eq_2)
  show ?thesis
    unfolding pmm_inv_def z3
  proof (intro conjI allI impI)
    show "unat (g_frame_base ?s) + unat (g_frame_count ?s) * 4096 < 2 ^ 64"
      using assms(3) fc(1) u [of fc] by (simp add: init)
    show "frame_ok (unat (g_alloc_start ?s)) i (g_frames ?s ! i)" if "i < length (g_frames ?s)" for i
      using that nthf [of i] u [OF dbfc]
      by (auto simp: init frame_ok_def ZONE_COUNT_def ZONE_GREEN_def ZONE_YELLOW_def ZONE_RED_def PF_LOCKED_def PF_FREE_def)
    show "unat (g_zone_free ?s ! 0) = card (zone_frames ?s (of_nat 0))" using cards u [of zs] z2 by (simp add: init)
    show "unat (g_zone_free ?s ! 1) = card (zone_frames ?s (of_nat 1))" using cards u [of zs] z2 by (simp add: init)
    show "unat (g_zone_free ?s ! 2) = card (zone_frames ?s (of_nat 2))"
      using cards u [of "fc - db - zs * 2"] z2 by (simp add: init)
  qed (use assms(1,2) u [of fc] u [of db] u [of "db + zs"] u [of "db + zs * 2"] z2 dbfc in \<open>simp_all add: init word_le_nat_alt\<close>)
qed

text \<open>What callers may do: allocate, and free or share pages they hold a reference to.\<close>

inductive pmm_reach :: "pmm \<Rightarrow> pmm \<Rightarrow> bool" for s0 where
  start: "pmm_reach s0 s0"
| alloc: "pmm_reach s0 s \<Longrightarrow> pmm_alloc s z = Some (p, s') \<Longrightarrow> pmm_reach s0 s'"
| free: "pmm_reach s0 s \<Longrightarrow> 0 < pmm_refs s p \<Longrightarrow> pmm_reach s0 (pmm_free s p)"
| ref: "pmm_reach s0 s \<Longrightarrow> 0 < pmm_refs s p \<Longrightarrow> pmm_refs s p < 2 ^ 32 - 1 \<Longrightarrow> pmm_reach s0 (pmm_ref s p)"

lemma pmm_reach_inv: "pmm_reach s0 s \<Longrightarrow> pmm_inv s0 \<Longrightarrow> pmm_inv s"
proof (induction rule: pmm_reach.induct)
  case (alloc s z p s')
  then show ?case using pmm_alloc_refs [of s z] by auto
qed (auto simp: pmm_free_ok pmm_ref_ok)

lemma pmm_free_pages_card:
  "pmm_inv s \<Longrightarrow> unat z < 3 \<Longrightarrow> unat (pmm_free_pages s z) = card (zone_frames s z)"
  using pmm_inv_zone(1) [of s z] by (simp add: pmm_free_pages_def ZONE_COUNT_def word_le_nat_alt)

text \<open>A zone with no free frame whose counter says otherwise, and a cursor at the start: the
  search never ends.\<close>

lemma scan_never_ends:
  assumes "\<And>j. g_alloc_start s \<le> j \<Longrightarrow> j < g_frame_count s \<Longrightarrow> \<not> frame_fits s z j"
    and "g_alloc_start s < g_frame_count s" and "g_alloc_start s \<le> i"
  shows "pmm_scan s z (g_alloc_start s) i = None"
proof -
  have "s = s1 \<longrightarrow> z = z1 \<longrightarrow> start = g_alloc_start s \<longrightarrow> g_alloc_start s \<le> i \<longrightarrow> False"
    if "pmm_scan s1 z1 start i = Some y" for s1 z1 start i y
  proof (rule pmm_scan.raw_induct [of "\<lambda>s1 z1 start i y. s = s1 \<longrightarrow> z = z1 \<longrightarrow> start = g_alloc_start s \<longrightarrow> g_alloc_start s \<le> i \<longrightarrow> False", OF _ that])
    fix f s1 z1 start i y
    assume IH: "\<And>s1 z1 start i y. f s1 z1 start i = Some y \<Longrightarrow>
        s = s1 \<longrightarrow> z = z1 \<longrightarrow> start = g_alloc_start s \<longrightarrow> g_alloc_start s \<le> i \<longrightarrow> False"
      and r: "(let i = if g_frame_count s1 \<le> i then g_alloc_start s1 else i
         in if frame_fits s1 z1 i then Some (Some i) else if i + 1 = start then Some None else f s1 z1 start (i + 1)) = Some y"
    show "s = s1 \<longrightarrow> z = z1 \<longrightarrow> start = g_alloc_start s \<longrightarrow> g_alloc_start s \<le> i \<longrightarrow> False"
    proof (intro impI)
      assume e: "s = s1" "z = z1" "start = g_alloc_start s" "g_alloc_start s \<le> i"
      define j where "j = (if g_frame_count s \<le> i then g_alloc_start s else i)"
      have j: "g_alloc_start s \<le> j" "j < g_frame_count s" using e(4) assms(2) by (auto simp: j_def)
      have "unat j + 1 < 2 ^ 64" using j(2) unat_u64 [of "g_frame_count s"] by (simp add: word_less_nat_alt)
      then have j1: "unat (j + 1) = unat j + 1" using unat_add_small [of j 1] by simp
      then have le: "g_alloc_start s \<le> j + 1" and ne: "j + 1 \<noteq> g_alloc_start s"
        using j(1) by (auto simp: word_le_nat_alt)
      have "f s z (g_alloc_start s) (j + 1) = Some y"
        using r ne assms(1) [OF j] unfolding e(1,2) [symmetric] e(3) j_def [symmetric] Let_def by simp
      with IH le show False by blast
    qed
  qed
  then show ?thesis using assms(3) by (cases "pmm_scan s z (g_alloc_start s) i") auto
qed

subsection \<open>Properties\<close>

text \<open>
  C11.  On a consistent table \<^verbatim>\<open>pmm_alloc\<close> returns, for every zone: if the zone has a free frame the
  result is a page-aligned, so far unreferenced page of that zone, which now has exactly one
  reference, and the free counter drops by one; otherwise it is 0 and nothing changes.
\<close>
theorem pmm_alloc_correct:
  assumes "pmm_inv s"
  shows "\<exists>p s'. pmm_alloc s z = Some (p, s') \<and> pmm_inv s' \<and>
    (if unat z < 3 \<and> zone_frames s z \<noteq> {}
     then p \<noteq> 0 \<and> p AND 0xFFF = 0 \<and> pmm_zone_of s p = z \<and> pmm_refs s p = 0 \<and> pmm_refs s' = (pmm_refs s)(p := 1)
       \<and> unat (pmm_free_pages s' z) + 1 = unat (pmm_free_pages s z)
     else p = 0 \<and> s' = s)"
proof (cases "unat z < 3 \<and> zone_frames s z \<noteq> {}")
  case True
  with pmm_alloc_ok [OF assms, of z] obtain k where k: "k \<in> zone_frames s z"
    "pmm_alloc s z = Some (idx_to_phys s (of_nat k), pmm_take s z (of_nat k))" by blast
  let ?p = "idx_to_phys s (of_nat k)" and ?s = "pmm_take s z (of_nat k)"
  note kr = zone_frames_range [OF assms k(1)]
  have ku: "unat (of_nat k :: u64) = k" using kr(2) unat_u64 [of "g_frame_count s"] by (intro unat_of_nat64) simp
  have kw: "of_nat k < g_frame_count s" using kr(2) ku by (simp add: word_less_nat_alt)
  note ix = idx_phys_idx [OF assms kw]
  note t = pmm_take_ok [OF assms k(1)]
  have zo: "pmm_zone_of s ?p = z" using ix(1) kw k(1) ku by (simp add: pmm_zone_of_def zone_frames_def Let_def not_le [symmetric])
  have "unat (pmm_free_pages ?s z) + 1 = unat (pmm_free_pages s z)"
    using pmm_free_pages_card [OF t(1)] pmm_free_pages_card [OF assms] True k(1) t(2)
    by (simp add: card_gt_0_iff Suc_diff_1 flip: Suc_eq_plus1)
  with True zo k(2) ix(2) pmm_alloc_refs [OF assms, of z] show ?thesis by auto
next
  case False
  with pmm_alloc_ok [OF assms, of z] assms show ?thesis by auto
qed

definition demo_pmm :: pmm where "demo_pmm = pmm_init 0x100000 20480"

lemma demo_pmm_inv: "pmm_inv demo_pmm"
  unfolding demo_pmm_def by (rule pmm_init_inv) simp_all

lemma demo_pmm_zone: "3 \<in> zone_frames demo_pmm 2"
  by (simp add: zone_frames_def demo_pmm_def pmm_init_def PAGE_SIZE_def sizeof_page_frame_def ZONE_COUNT_def
      ZONE_RED_def ZONE_GREEN_def ZONE_YELLOW_def Let_def upt_rec)

theorem pmm_alloc_correct_witness:
  "\<exists>p s'. pmm_alloc demo_pmm 2 = Some (p, s') \<and> p \<noteq> 0 \<and> pmm_zone_of demo_pmm p = 2"
proof -
  have "zone_frames demo_pmm 2 \<noteq> {}" using demo_pmm_zone by blast
  with pmm_alloc_correct [OF demo_pmm_inv, of 2] show ?thesis by auto
qed

text \<open>
  C12.  Reference counting: in every state reachable from initialisation by allocating and by
  freeing and sharing pages that are held, the table is consistent, so each zone counter is exactly
  the number of frames free in the zone; freeing a held page drops one reference and affects
  no other page.
\<close>
theorem pmm_refcounts:
  assumes "mem_base \<noteq> 0" and "4096 dvd unat mem_base" and "unat mem_base + unat mem_size < 2 ^ 64"
    and "4096 \<le> unat mem_size" and "pmm_reach (pmm_init mem_base mem_size) s"
  shows "(\<forall>z. unat z < 3 \<longrightarrow> unat (pmm_free_pages s z) = card (zone_frames s z))
    \<and> (\<forall>p. 0 < pmm_refs s p \<longrightarrow> pmm_refs (pmm_free s p) = (pmm_refs s)(p := pmm_refs s p - 1))
    \<and> (\<forall>p. 0 < pmm_refs s p \<and> pmm_refs s p < 2 ^ 32 - 1 \<longrightarrow> pmm_refs (pmm_ref s p) = (pmm_refs s)(p := pmm_refs s p + 1))"
proof -
  have "pmm_inv s" using pmm_reach_inv [OF assms(5) pmm_init_inv [OF assms(1-4)]] .
  then show ?thesis using pmm_free_pages_card pmm_free_ok(2) pmm_ref_ok(2) by blast
qed

theorem pmm_refcounts_witness:
  "unat (pmm_free_pages demo_pmm 2) = card (zone_frames demo_pmm 2)"
  using pmm_refcounts [of "0x100000" 20480 demo_pmm] pmm_reach.start by (simp add: demo_pmm_def)

text \<open>
  C13.  Freeing a page that is not allocated is not caught: it raises the counter of the zone with
  no frame to show for it.  On a machine of five frames, one such call lets the third allocation
  from the zone of two frames search forever.
\<close>
theorem pmm_free_unheld_hangs:
  "\<exists>s1 s2 s3 p q. s1 = pmm_free demo_pmm 0x103000 \<and> pmm_refs demo_pmm 0x103000 = 0
    \<and> pmm_alloc s1 ZONE_RED = Some (p, s2) \<and> pmm_alloc s2 ZONE_RED = Some (q, s3) \<and> pmm_alloc s3 ZONE_RED = None"
proof -
  define fr :: "u32 \<Rightarrow> u8 \<Rightarrow> page_frame" where "fr r f = \<lparr>pf_ref_count = r, pf_zone = 2, pf_flags = f\<rparr>" for r f
  define st :: "page_frame \<Rightarrow> page_frame \<Rightarrow> u64 \<Rightarrow> u64 \<Rightarrow> pmm" where
    "st a b cur n = \<lparr>g_frames = [\<lparr>pf_ref_count = 1, pf_zone = 0, pf_flags = 2\<rparr>, \<lparr>pf_ref_count = 0, pf_zone = 0, pf_flags = 1\<rparr>,
      \<lparr>pf_ref_count = 0, pf_zone = 1, pf_flags = 1\<rparr>, a, b], g_frame_base = 0x100000, g_frame_count = 5, g_alloc_start = 1,
      g_zone_cursor = [1, 2, cur], g_zone_free = [1, 1, n]\<rparr>" for a b cur n
  note d = frame_fits_def PF_FREE_def PF_LOCKED_def st_def fr_def
  have s1: "pmm_free demo_pmm 0x103000 = st (fr 0 1) (fr 0 1) 3 3" unfolding st_def fr_def by code_simp
  have r0: "pmm_refs demo_pmm 0x103000 = 0" by code_simp
  have "pmm_scan (st (fr 0 1) (fr 0 1) 3 3) 2 3 3 = Some (Some 3)" by (subst pmm_scan.simps) (simp add: d)
  then have a1: "pmm_alloc (st (fr 0 1) (fr 0 1) 3 3) ZONE_RED = Some (0x103000, st (fr 1 0) (fr 0 1) 4 2)"
    by (simp add: pmm_alloc_def pmm_take_def idx_to_phys_def PAGE_SHIFT_def ZONE_RED_def ZONE_COUNT_def d)
  have "pmm_scan (st (fr 1 0) (fr 0 1) 4 2) 2 4 4 = Some (Some 4)" by (subst pmm_scan.simps) (simp add: d)
  then have a2: "pmm_alloc (st (fr 1 0) (fr 0 1) 4 2) ZONE_RED = Some (0x104000, st (fr 1 0) (fr 1 0) 1 1)"
    by (simp add: pmm_alloc_def pmm_take_def idx_to_phys_def PAGE_SHIFT_def ZONE_RED_def ZONE_COUNT_def d)
  let ?s3 = "st (fr 1 0) (fr 1 0) 1 1"
  have "\<not> frame_fits ?s3 2 j" if "j < 5" for j
  proof -
    have "unat j < 5" using that by (simp add: word_less_nat_alt)
    then have "unat j \<in> {0, 1, 2, 3, 4}" by auto
    then show ?thesis by (auto simp: d)
  qed
  then have "pmm_scan ?s3 2 1 1 = None" using scan_never_ends [of ?s3 2 1] by (simp add: st_def)
  then have "pmm_alloc ?s3 ZONE_RED = None" by (simp add: pmm_alloc_def ZONE_RED_def ZONE_COUNT_def st_def)
  with s1 r0 a1 a2 show ?thesis by metis
qed

end
