(* ===== verification/Vmm.thy ===== *)
theory Vmm
  imports Pmm
begin

text \<open>
  Page tables (\<^verbatim>\<open>kernel/mm/vmm.c\<close>).  Physical memory is identity mapped, so the tables are read and
  written in the byte memory at their physical addresses.  The state holds that memory, the page
  allocator, the kernel's top-level table and the \<^verbatim>\<open>cr3\<close> register; the TLB is not modelled.
\<close>

definition VMM_PRESENT :: u64 where "VMM_PRESENT = push_bit 0 1"
definition VMM_WRITE :: u64 where "VMM_WRITE = push_bit 1 1"
definition VMM_USER :: u64 where "VMM_USER = push_bit 2 1"
definition VMM_HUGE :: u64 where "VMM_HUGE = push_bit 7 1"
definition VMM_NX :: u64 where "VMM_NX = push_bit 63 1"
definition VMM_ADDR_MASK :: u64 where "VMM_ADDR_MASK = 0x000FFFFFFFFFF000"

record vmm =
  vm_mem :: mem
  vm_pmm :: pmm
  kernel_pml4 :: u64
  vm_cr3 :: u64

definition read_cr3 :: "vmm \<Rightarrow> u64" where "read_cr3 s = vm_cr3 s"
definition write_cr3 :: "vmm \<Rightarrow> u64 \<Rightarrow> vmm" where "write_cr3 s v = s\<lparr>vm_cr3 := v\<rparr>"

text \<open>\<^verbatim>\<open>table[i]\<close> for a table of 64-bit entries at address \<open>t\<close>.\<close>

definition entry_addr :: "u64 \<Rightarrow> u64 \<Rightarrow> u64" where "entry_addr t i = t + 8 * i"

definition alloc_table :: "vmm \<Rightarrow> u64 \<Rightarrow> (u64 \<times> vmm) option" where
  "alloc_table s entry =
     (let e = ld64 (vm_mem s) entry in
      if e AND VMM_PRESENT \<noteq> 0 then Some (e AND VMM_ADDR_MASK, s)
      else case pmm_alloc (vm_pmm s) ZONE_GREEN of
          None \<Rightarrow> None
        | Some (p, pm) \<Rightarrow>
            if p = 0 then Some (0, s\<lparr>vm_pmm := pm\<rparr>)
            else
              (let m = mem_set (vm_mem s) p 0 4096;
                   m = st64 m entry ((p AND VMM_ADDR_MASK) OR VMM_PRESENT OR VMM_WRITE OR VMM_USER)
               in Some (p, s\<lparr>vm_pmm := pm, vm_mem := m\<rparr>)))"

definition vmm_init :: "vmm \<Rightarrow> vmm" where
  "vmm_init s = s\<lparr>kernel_pml4 := read_cr3 s AND NOT 0xFFF\<rparr>"

definition vmm_get_kernel_pml4 :: "vmm \<Rightarrow> u64" where
  "vmm_get_kernel_pml4 s = kernel_pml4 s"

text \<open>The copy loop of \<^verbatim>\<open>vmm_make_user_pml4\<close>.\<close>

fun copy_entries :: "nat \<Rightarrow> u64 \<Rightarrow> u64 \<Rightarrow> mem \<Rightarrow> mem" where
  "copy_entries 0 dst src m = m"
| "copy_entries (Suc n) dst src m =
     (let m = copy_entries n dst src m in
      st64 m (entry_addr dst (of_nat n)) (ld64 m (entry_addr src (of_nat n))))"

definition vmm_make_user_pml4 :: "vmm \<Rightarrow> (u64 \<times> vmm) option" where
  "vmm_make_user_pml4 s =
     (case pmm_alloc (vm_pmm s) ZONE_GREEN of
        None \<Rightarrow> None
      | Some (phys, pm) \<Rightarrow>
          if phys = 0 then Some (0, s\<lparr>vm_pmm := pm\<rparr>)
          else Some (phys, s\<lparr>vm_pmm := pm, vm_mem := copy_entries 512 phys (kernel_pml4 s) (vm_mem s)\<rparr>))"

definition idx4 :: "u64 \<Rightarrow> u64" where "idx4 virt = drop_bit 39 virt AND 0x1FF"
definition idx3 :: "u64 \<Rightarrow> u64" where "idx3 virt = drop_bit 30 virt AND 0x1FF"
definition idx2 :: "u64 \<Rightarrow> u64" where "idx2 virt = drop_bit 21 virt AND 0x1FF"
definition idx1 :: "u64 \<Rightarrow> u64" where "idx1 virt = drop_bit 12 virt AND 0x1FF"

definition vmm_map_into :: "vmm \<Rightarrow> u64 \<Rightarrow> u64 \<Rightarrow> u64 \<Rightarrow> u64 \<Rightarrow> (bool \<times> vmm) option" where
  "vmm_map_into s pml4_phys phys virt fl =
     (if pml4_phys = 0 then Some (False, s)
      else case alloc_table s (entry_addr pml4_phys (idx4 virt)) of
          None \<Rightarrow> None
        | Some (pdpt, s) \<Rightarrow> if pdpt = 0 then Some (False, s)
      else case alloc_table s (entry_addr pdpt (idx3 virt)) of
          None \<Rightarrow> None
        | Some (pd, s) \<Rightarrow> if pd = 0 then Some (False, s)
      else case alloc_table s (entry_addr pd (idx2 virt)) of
          None \<Rightarrow> None
        | Some (pt, s) \<Rightarrow> if pt = 0 then Some (False, s)
      else Some (True, s\<lparr>vm_mem := st64 (vm_mem s) (entry_addr pt (idx1 virt))
                                     ((phys AND NOT 0xFFF) OR fl OR VMM_PRESENT)\<rparr>))"

definition vmm_map :: "vmm \<Rightarrow> u64 \<Rightarrow> u64 \<Rightarrow> u64 \<Rightarrow> (bool \<times> vmm) option" where
  "vmm_map s phys virt fl =
     (case alloc_table s (entry_addr (kernel_pml4 s) (idx4 virt)) of
          None \<Rightarrow> None
        | Some (pdpt, s) \<Rightarrow> if pdpt = 0 then Some (False, s)
      else case alloc_table s (entry_addr pdpt (idx3 virt)) of
          None \<Rightarrow> None
        | Some (pd, s) \<Rightarrow> if pd = 0 then Some (False, s)
      else case alloc_table s (entry_addr pd (idx2 virt)) of
          None \<Rightarrow> None
        | Some (pt, s) \<Rightarrow> if pt = 0 then Some (False, s)
      else Some (True, s\<lparr>vm_mem := st64 (vm_mem s) (entry_addr pt (idx1 virt))
                                     ((phys AND NOT 0xFFF) OR fl OR VMM_PRESENT)\<rparr>))"

definition vmm_unmap_into :: "vmm \<Rightarrow> u64 \<Rightarrow> u64 \<Rightarrow> vmm" where
  "vmm_unmap_into s pml4_phys virt =
     (if pml4_phys = 0 then s
      else
        (let e4 = ld64 (vm_mem s) (entry_addr pml4_phys (idx4 virt)) in
         if e4 AND VMM_PRESENT = 0 then s
         else
           (let e3 = ld64 (vm_mem s) (entry_addr (e4 AND VMM_ADDR_MASK) (idx3 virt)) in
            if e3 AND VMM_PRESENT = 0 then s
            else if e3 AND VMM_HUGE \<noteq> 0 then s
            else
              (let e2 = ld64 (vm_mem s) (entry_addr (e3 AND VMM_ADDR_MASK) (idx2 virt)) in
               if e2 AND VMM_PRESENT = 0 then s
               else if e2 AND VMM_HUGE \<noteq> 0 then s
               else s\<lparr>vm_mem := st64 (vm_mem s) (entry_addr (e2 AND VMM_ADDR_MASK) (idx1 virt)) 0\<rparr>))))"

definition vmm_unmap :: "vmm \<Rightarrow> u64 \<Rightarrow> vmm" where
  "vmm_unmap s virt = vmm_unmap_into s (kernel_pml4 s) virt"

definition vmm_get_phys_into :: "vmm \<Rightarrow> u64 \<Rightarrow> u64 \<Rightarrow> u64" where
  "vmm_get_phys_into s pml4_phys virt =
     (if pml4_phys = 0 then 0
      else
        (let e4 = ld64 (vm_mem s) (entry_addr pml4_phys (idx4 virt)) in
         if e4 AND VMM_PRESENT = 0 then 0
         else
           (let e3 = ld64 (vm_mem s) (entry_addr (e4 AND VMM_ADDR_MASK) (idx3 virt)) in
            if e3 AND VMM_PRESENT = 0 then 0
            else if e3 AND VMM_HUGE \<noteq> 0
            then (e3 AND VMM_ADDR_MASK AND NOT 0x3FFFFFFF) OR (virt AND 0x3FFFFFFF)
            else
              (let e2 = ld64 (vm_mem s) (entry_addr (e3 AND VMM_ADDR_MASK) (idx2 virt)) in
               if e2 AND VMM_PRESENT = 0 then 0
               else if e2 AND VMM_HUGE \<noteq> 0
               then (e2 AND VMM_ADDR_MASK AND NOT 0x1FFFFF) OR (virt AND 0x1FFFFF)
               else
                 (let pte = ld64 (vm_mem s) (entry_addr (e2 AND VMM_ADDR_MASK) (idx1 virt)) in
                  if pte AND VMM_PRESENT = 0 then 0
                  else (pte AND VMM_ADDR_MASK) OR (virt AND 0xFFF))))))"

definition vmm_get_phys :: "vmm \<Rightarrow> u64 \<Rightarrow> u64" where
  "vmm_get_phys s virt = vmm_get_phys_into s (kernel_pml4 s) virt"

definition vmm_switch :: "vmm \<Rightarrow> u64 \<Rightarrow> vmm" where
  "vmm_switch s pml4 = write_cr3 s pml4"

end
