(* ===== verification/Vmm_Facts.thy ===== *)
theory Vmm_Facts
  imports Vmm
begin

text \<open>
  What mapping and unmapping a page do to the address space that a top-level page table describes.
\<close>

subsection \<open>Entries of tables\<close>

text \<open>A table is a page whose address fits into an entry.\<close>

definition is_table :: "u64 \<Rightarrow> bool" where
  "is_table t \<longleftrightarrow> t AND 0xFFF = 0 \<and> t AND VMM_ADDR_MASK = t"

definition ent :: "vmm \<Rightarrow> u64 \<Rightarrow> u64 \<Rightarrow> u64" where
  "ent s t i = ld64 (vm_mem s) (entry_addr t i)"

lemma aligned_page:
  fixes t :: u64
  assumes "t AND 0xFFF = 0"
  shows "unat t mod 4096 = 0"
proof -
  have "(0xFFF :: u64) = mask 12" by (simp add: mask_eq_exp_minus_1)
  then have "take_bit 12 t = 0" using assms by (simp add: take_bit_eq_mask)
  then have "unat (take_bit 12 t) = 0" by simp
  then show ?thesis by (simp add: take_bit_eq_mod unat_mod)
qed

lemma page_end:
  fixes t :: u64
  assumes "t AND 0xFFF = 0"
  shows "unat t + 4096 \<le> 2 ^ 64"
proof -
  have "unat t mod 4096 = 0" by (rule aligned_page [OF assms])
  then obtain k where k: "unat t = 4096 * k" by auto
  have "unat t < 18446744073709551616" by (rule unat_u64)
  then have "k < 4503599627370496" unfolding k by simp
  then show ?thesis unfolding k by simp
qed

lemma pages_apart:
  fixes t p :: u64
  assumes "t AND 0xFFF = 0" and "p AND 0xFFF = 0" and "t \<noteq> p"
  shows "unat t + 4096 \<le> unat p \<or> unat p + 4096 \<le> unat t"
proof -
  obtain k l where kl: "unat t = 4096 * k" "unat p = 4096 * l" using aligned_page assms(1,2) by (metis mod_0_imp_dvd dvdE)
  moreover have "k \<noteq> l" using kl assms(3) by (auto simp: word_unat_eq_iff)
  ultimately show ?thesis by auto
qed

lemma entry_nat:
  assumes "t AND 0xFFF = 0" and "i < 512"
  shows "entry_addr t i = of_nat (unat t + 8 * unat i)"
  by (simp add: entry_addr_def)

lemma ld_entry_st:
  assumes "t AND 0xFFF = 0" and "i < 512" and "t' AND 0xFFF = 0" and "i' < 512"
  shows "ld64 (st64 m (entry_addr t i) v) (entry_addr t' i') = (if t' = t \<and> i' = i then v else ld64 m (entry_addr t' i'))"
proof (cases "t' = t \<and> i' = i")
  case False
  have i: "unat i < 512" "unat i' < 512" using assms(2,4) by (simp_all add: word_less_nat_alt)
  have ne: "t' \<noteq> t \<or> unat i' \<noteq> unat i" using False by (auto simp: word_unat_eq_iff)
  have "unat t + 8 * unat i + 8 \<le> unat t' + 8 * unat i' \<or> unat t' + 8 * unat i' + 8 \<le> unat t + 8 * unat i"
  proof (cases "t' = t")
    case True
    then show ?thesis using ne by auto
  next
    case False
    then show ?thesis using pages_apart [OF assms(1,3)] i by auto
  qed
  moreover have "unat t + 8 * unat i + 8 \<le> 2 ^ 64" "unat t' + 8 * unat i' + 8 \<le> 2 ^ 64"
    using page_end [OF assms(1)] page_end [OF assms(3)] i by simp_all
  ultimately have "ld64 (st64 m (of_nat (unat t + 8 * unat i)) v) (of_nat (unat t' + 8 * unat i')) = ld64 m (of_nat (unat t' + 8 * unat i'))"
    by (intro ld_st_nat) simp_all
  then show ?thesis unfolding entry_nat [OF assms(1,2)] entry_nat [OF assms(3,4)] if_not_P [OF False] .
qed simp

lemma ld_entry_set:
  assumes "p AND 0xFFF = 0" and "t AND 0xFFF = 0" and "i < 512"
  shows "ld64 (mem_set m p 0 4096) (entry_addr t i) = (if t = p then 0 else ld64 m (entry_addr t i))"
proof -
  have i: "unat i < 512" using assms(3) by (simp add: word_less_nat_alt)
  have te: "unat t + 4096 \<le> 2 ^ 64" by (rule page_end [OF assms(2)])
  have at: "unat (entry_addr t i + of_nat k) = unat t + 8 * unat i + k" if "k < 8" for k
  proof -
    have "unat t + 8 * unat i + k < 2 ^ 64" using te i that by simp
    then show ?thesis unfolding entry_nat [OF assms(2,3)] of_nat_add [symmetric] by (rule unat_of_nat64)
  qed
  show ?thesis
  proof (cases "t = p")
    case True
    have "mem_set m p 0 4096 (entry_addr t i + of_nat k) = 0" if k: "k < 8" for k
    proof -
      have "entry_addr t i + of_nat k = p + of_nat (8 * unat i + k)" unfolding entry_nat [OF assms(2,3)] True by (simp add: entry_addr_def)
      then show ?thesis using i k mem_set_inside [of "8 * unat i + k" 4096 m p 0] by (simp only: unat_numeral) simp
    qed
    then have "map (\<lambda>k. mem_set m p 0 4096 (entry_addr t i + of_nat k)) [0..<8] = map (\<lambda>k. 0) [0..<8]" by (intro map_cong) auto
    then have "ld64 (mem_set m p 0 4096) (entry_addr t i) = le_val (map (\<lambda>k. 0) [0..<8])" by (simp only: ld_def)
    also have "\<dots> = 0" by (simp add: upt_rec)
    finally show ?thesis using True by simp
  next
    case False
    have "mem_set m p 0 4096 (entry_addr t i + of_nat k) = m (entry_addr t i + of_nat k)" if k: "k < 8" for k
    proof (rule ccontr)
      assume "mem_set m p 0 4096 (entry_addr t i + of_nat k) \<noteq> m (entry_addr t i + of_nat k)"
      then have "unat p \<le> unat (entry_addr t i + of_nat k) \<and> unat (entry_addr t i + of_nat k) < unat p + 4096"
        using mem_set_changed [of p 4096 m 0 "entry_addr t i + of_nat k"] page_end [OF assms(1)] by simp
      then show False unfolding at [OF k] using pages_apart [OF assms(2,1) False] i k by auto
    qed
    then have "map (\<lambda>k. mem_set m p 0 4096 (entry_addr t i + of_nat k)) [0..<8] = map (\<lambda>k. m (entry_addr t i + of_nat k)) [0..<8]"
      by (intro map_cong) auto
    then show ?thesis using False by (simp only: ld_def) simp
  qed
qed

subsection \<open>Translation\<close>

text \<open>\<^verbatim>\<open>vmm_get_phys_into\<close> as a function of the entries alone.\<close>

definition present :: "u64 \<Rightarrow> bool" where "present e \<longleftrightarrow> e AND VMM_PRESENT \<noteq> 0"
definition huge :: "u64 \<Rightarrow> bool" where "huge e \<longleftrightarrow> e AND VMM_HUGE \<noteq> 0"
definition target :: "u64 \<Rightarrow> u64" where "target e = e AND VMM_ADDR_MASK"

text \<open>The table of the next level that an entry leads to, if it leads to one.\<close>

definition below :: "bool \<Rightarrow> u64 \<Rightarrow> u64 option" where
  "below may_be_huge e = (if present e \<and> \<not> (may_be_huge \<and> huge e) then Some (target e) else None)"

definition tr1 :: "(u64 \<Rightarrow> u64 \<Rightarrow> u64) \<Rightarrow> u64 \<Rightarrow> u64 \<Rightarrow> u64" where
  "tr1 E t v = (let e = E t (idx1 v) in if \<not> present e then 0 else target e OR (v AND 0xFFF))"

definition tr2 :: "(u64 \<Rightarrow> u64 \<Rightarrow> u64) \<Rightarrow> u64 \<Rightarrow> u64 \<Rightarrow> u64" where
  "tr2 E t v = (let e = E t (idx2 v) in
      if \<not> present e then 0
      else if huge e then (e AND VMM_ADDR_MASK AND NOT 0x1FFFFF) OR (v AND 0x1FFFFF)
      else tr1 E (target e) v)"

definition tr3 :: "(u64 \<Rightarrow> u64 \<Rightarrow> u64) \<Rightarrow> u64 \<Rightarrow> u64 \<Rightarrow> u64" where
  "tr3 E t v = (let e = E t (idx3 v) in
      if \<not> present e then 0
      else if huge e then (e AND VMM_ADDR_MASK AND NOT 0x3FFFFFFF) OR (v AND 0x3FFFFFFF)
      else tr2 E (target e) v)"

definition translate :: "(u64 \<Rightarrow> u64 \<Rightarrow> u64) \<Rightarrow> u64 \<Rightarrow> u64 \<Rightarrow> u64" where
  "translate E t v = (let e = E t (idx4 v) in if \<not> present e then 0 else tr3 E (target e) v)"

lemma get_phys_translate: "t4 \<noteq> 0 \<Longrightarrow> vmm_get_phys_into s t4 v = translate (ent s) t4 v"
  unfolding vmm_get_phys_into_def translate_def tr3_def tr2_def tr1_def Let_def ent_def present_def huge_def target_def
  by (simp only: if_False not_not cong: if_cong)

lemma idx_bound [simp]: "idx4 v < 512" "idx3 v < 512" "idx2 v < 512" "idx1 v < 512"
proof -
  have "x AND 0x1FF \<le> 0x1FF" for x :: u64 by (rule word_and_le1)
  then have "x AND 0x1FF < 512" for x :: u64 by (rule le_less_trans) simp
  then show "idx4 v < 512" "idx3 v < 512" "idx2 v < 512" "idx1 v < 512" by (simp_all add: idx4_def idx3_def idx2_def idx1_def)
qed

text \<open>Two addresses in the same page.\<close>

definition same_page :: "u64 \<Rightarrow> u64 \<Rightarrow> bool" where
  "same_page v w \<longleftrightarrow> idx4 v = idx4 w \<and> idx3 v = idx3 w \<and> idx2 v = idx2 w \<and> idx1 v = idx1 w"

subsection \<open>The tree of tables\<close>

text \<open>
  \<open>L\<close> gives the level of each table that the root \<open>t4\<close> leads to.  Every entry that leads to a table leads to
  one of the next lower level, and no two entries lead to the same.
\<close>

definition tree_ok :: "(u64 \<Rightarrow> nat option) \<Rightarrow> (u64 \<Rightarrow> u64 \<Rightarrow> u64) \<Rightarrow> u64 \<Rightarrow> bool" where
  "tree_ok L E t4 \<longleftrightarrow> L t4 = Some 4 \<and> (\<forall>t \<in> dom L. is_table t \<and> t \<noteq> 0)
     \<and> (\<forall>t n i u. L t = Some (Suc n) \<and> 0 < n \<and> i < 512 \<and> below (n < 3) (E t i) = Some u \<longrightarrow> L u = Some n)
     \<and> (\<forall>t n i t' n' i' u. L t = Some (Suc n) \<and> 0 < n \<and> i < 512 \<and> below (n < 3) (E t i) = Some u
          \<and> L t' = Some (Suc n') \<and> 0 < n' \<and> i' < 512 \<and> below (n' < 3) (E t' i') = Some u \<longrightarrow> t = t' \<and> i = i')"

lemma tree_root: "tree_ok L E t4 \<Longrightarrow> L t4 = Some 4"
  and tree_table: "tree_ok L E t4 \<Longrightarrow> L t = Some n \<Longrightarrow> is_table t \<and> t \<noteq> 0"
  unfolding tree_ok_def by blast+

lemma tree_below:
  assumes "tree_ok L E t4" and "L t = Some (Suc n)" and "0 < n" and "i < 512" and "below (n < 3) (E t i) = Some u"
  shows "L u = Some n"
  using assms unfolding tree_ok_def by blast

lemma tree_inj:
  assumes "tree_ok L E t4" and "L t = Some (Suc n)" and "0 < n" and "i < 512" and "below (n < 3) (E t i) = Some u"
    and "L t' = Some (Suc n')" and "0 < n'" and "i' < 512" and "below (n' < 3) (E t' i') = Some u"
  shows "t = t' \<and> i = i'"
  using assms unfolding tree_ok_def by blast

lemma tree_step:
  assumes T: "tree_ok L E t4"
  shows "present (E t4 (idx4 v)) \<Longrightarrow> L (target (E t4 (idx4 v))) = Some 3"
    and "L u = Some 3 \<Longrightarrow> present (E u (idx3 v)) \<Longrightarrow> \<not> huge (E u (idx3 v)) \<Longrightarrow> L (target (E u (idx3 v))) = Some 2"
    and "L u = Some 2 \<Longrightarrow> present (E u (idx2 v)) \<Longrightarrow> \<not> huge (E u (idx2 v)) \<Longrightarrow> L (target (E u (idx2 v))) = Some 1"
proof -
  have r: "L t4 = Some (Suc 3)" using T by (simp add: tree_ok_def)
  show "L (target (E t4 (idx4 v))) = Some 3" if "present (E t4 (idx4 v))"
    using that tree_below [OF T r, of "idx4 v"] by (simp add: below_def)
  show "L (target (E u (idx3 v))) = Some 2" if "L u = Some 3" "present (E u (idx3 v))" "\<not> huge (E u (idx3 v))"
    using that tree_below [OF T, of u 2 "idx3 v"] by (simp add: below_def)
  show "L (target (E u (idx2 v))) = Some 1" if "L u = Some 2" "present (E u (idx2 v))" "\<not> huge (E u (idx2 v))"
    using that tree_below [OF T, of u 1 "idx2 v"] by (simp add: below_def)
qed

lemma word_bits_table:
  assumes "is_table p"
  defines "e \<equiv> (p AND VMM_ADDR_MASK) OR VMM_PRESENT OR VMM_WRITE OR VMM_USER"
  shows "present e" and "\<not> huge e" and "target e = p"
proof -
  have pm: "p AND VMM_ADDR_MASK = p" and p0: "p AND 0xFFF = 0" using assms(1) by (simp_all add: is_table_def)
  have b: "\<not> bit p n" if "n < 12" for n
  proof -
    have "bit (p AND 0xFFF) n = (bit p n \<and> bit (0xFFF :: u64) n)" by (simp add: bit_and_iff)
    moreover have "(0xFFF :: u64) = mask 12" by (simp add: mask_eq_exp_minus_1)
    then have "bit (0xFFF :: u64) n" using that by (simp only: bit_mask_iff) simp
    ultimately show ?thesis using p0 by simp
  qed
  have e: "e = p OR 7" unfolding e_def pm by (simp add: VMM_PRESENT_def VMM_WRITE_def VMM_USER_def or.assoc)
  have "bit e 0" unfolding e by (simp add: bit_or_iff)
  then show "present e" unfolding present_def VMM_PRESENT_def by (metis and_exp_eq_0_iff_not_bit push_bit_of_1)
  have "\<not> bit e 7" unfolding e using b [of 7] by (simp add: bit_or_iff bit_numeral_rec)
  then show "\<not> huge e" unfolding huge_def VMM_HUGE_def by (metis and_exp_eq_0_iff_not_bit push_bit_of_1)
  have "target e = (p AND VMM_ADDR_MASK) OR (7 AND VMM_ADDR_MASK)" unfolding target_def e by (rule bit.conj_disj_distrib2)
  then show "target e = p" unfolding pm by (simp add: VMM_ADDR_MASK_def)
qed

subsection \<open>A new table\<close>

text \<open>An absent entry of a table of level 2 or more is made to lead to a zeroed page.\<close>

definition new_table :: "(u64 \<Rightarrow> nat option) \<Rightarrow> (u64 \<Rightarrow> u64 \<Rightarrow> u64) \<Rightarrow> u64 \<Rightarrow> u64 \<Rightarrow> u64 \<Rightarrow> u64 \<Rightarrow> (u64 \<Rightarrow> u64 \<Rightarrow> u64) \<Rightarrow> bool" where
  "new_table L E t i p e E' \<longleftrightarrow> present e \<and> \<not> huge e \<and> target e = p
     \<and> (\<forall>t' i'. t' \<in> dom L \<or> t' = p \<longrightarrow> i' < 512 \<longrightarrow> E' t' i' = (if t' = t \<and> i' = i then e else if t' = p then 0 else E t' i'))"

lemma not_present_0 [simp]: "\<not> present 0" "below h 0 = None"
  by (simp_all add: present_def below_def)

lemma translate_zero:
  assumes "\<And>j. j < 512 \<Longrightarrow> E p j = 0"
  shows "tr1 E p v = 0" "tr2 E p v = 0" "tr3 E p v = 0"
  using assms by (simp_all add: tr1_def tr2_def tr3_def)

lemma new_table_translate:
  assumes T: "tree_ok L E t4" and lt: "L t = Some (Suc n)" "0 < n" and ab: "\<not> present (E t i)" and p: "L p = None"
    and N: "new_table L E t i p e E'"
  shows "translate E' t4 v = translate E t4 v"
proof -
  have e: "present e" "\<not> huge e" "target e = p" using N by (simp_all add: new_table_def)
  have pt: "p \<noteq> t" using p lt by auto
  have E': "E' t' i' = (if t' = t \<and> i' = i then e else E t' i')" if "L t' = Some m" "i' < 512" for t' i' m
    using N that p unfolding new_table_def by (auto simp: domIff)
  have "E' p j = 0" if "j < 512" for j using N that pt unfolding new_table_def by auto
  note z = translate_zero [of E' p v, OF this]
  have 1: "tr1 E' u v = tr1 E u v" if "L u = Some 1" for u
    using E' [OF that idx_bound(4) [of v]] that lt by (auto simp: tr1_def)
  have 2: "tr2 E' u v = tr2 E u v" if u: "L u = Some 2" for u
  proof (cases "u = t \<and> idx2 v = i")
    case True
    then have "E' u (idx2 v) = e" "\<not> present (E u (idx2 v))" using E' [OF u idx_bound(3) [of v]] ab by simp_all
    then show ?thesis using e z(1) unfolding tr2_def Let_def by simp
  next
    case False
    have "E' u (idx2 v) = E u (idx2 v)" using E' [OF u idx_bound(3) [of v]] unfolding if_not_P [OF False] .
    then show ?thesis using 1 tree_step(3) [OF T u] by (simp add: tr2_def Let_def)
  qed
  have 3: "tr3 E' u v = tr3 E u v" if u: "L u = Some 3" for u
  proof (cases "u = t \<and> idx3 v = i")
    case True
    then have "E' u (idx3 v) = e" "\<not> present (E u (idx3 v))" using E' [OF u idx_bound(2) [of v]] ab by simp_all
    then show ?thesis using e z(2) unfolding tr3_def Let_def by simp
  next
    case False
    have "E' u (idx3 v) = E u (idx3 v)" using E' [OF u idx_bound(2) [of v]] unfolding if_not_P [OF False] .
    then show ?thesis using 2 tree_step(2) [OF T u] by (simp add: tr3_def Let_def)
  qed
  have r: "L t4 = Some 4" using T by (simp add: tree_ok_def)
  show ?thesis
  proof (cases "t4 = t \<and> idx4 v = i")
    case True
    then have "E' t4 (idx4 v) = e" "\<not> present (E t4 (idx4 v))" using E' [OF r idx_bound(1) [of v]] ab by simp_all
    then show ?thesis using e z(3) unfolding translate_def Let_def by simp
  next
    case False
    have "E' t4 (idx4 v) = E t4 (idx4 v)" using E' [OF r idx_bound(1) [of v]] unfolding if_not_P [OF False] .
    then show ?thesis using 3 tree_step(1) [OF T] by (simp add: translate_def Let_def)
  qed
qed

lemma new_table_tree:
  assumes T: "tree_ok L E t4" and lt: "L t = Some (Suc n)" "0 < n" and ab: "\<not> present (E t i)" and p: "L p = None" "is_table p" "p \<noteq> 0"
    and i: "i < 512" and N: "new_table L E t i p e E'"
  shows "tree_ok (L(p \<mapsto> n)) E' t4"
proof -
  let ?L = "L(p \<mapsto> n)"
  have e: "below h e = Some p" for h using N by (simp add: new_table_def below_def)
  have pt: "p \<noteq> t" using p lt by auto
  have N2: "\<forall>t' i'. t' \<in> dom L \<or> t' = p \<longrightarrow> i' < 512 \<longrightarrow> E' t' i' = (if t' = t \<and> i' = i then e else if t' = p then 0 else E t' i')"
    using N unfolding new_table_def by (elim conjE)
  have E': "E' t' i' = (if t' = t \<and> i' = i then e else if t' = p then 0 else E t' i')" if "?L t' = Some m" "i' < 512" for t' i' m
  proof -
    have "t' \<in> dom L \<or> t' = p" using that(1) by (cases "t' = p") auto
    then show ?thesis using N2 that(2) by blast
  qed
  have old: "L u \<noteq> None" if "L t' = Some (Suc m)" "0 < m" "i' < 512" "below (m < 3) (E t' i') = Some u" for t' m i' u
    using tree_below [OF T that] by simp
  have c: "(x = t \<and> j = i \<and> u = p) \<or> (L x = Some (Suc m) \<and> below (m < 3) (E x j) = Some u \<and> u \<noteq> p)"
    if x: "?L x = Some (Suc m)" "0 < m" "j < 512" "below (m < 3) (E' x j) = Some u" for x m j u
  proof (cases "x = t \<and> j = i")
    case True
    then show ?thesis using x(4) E' [OF x(1,3)] e by simp
  next
    case False
    have E: "E' x j = (if x = p then 0 else E x j)" using E' [OF x(1,3)] unfolding if_not_P [OF False] .
    have xp: "x \<noteq> p"
    proof
      assume "x = p"
      then show False using x(4) E by simp
    qed
    then have b: "below (m < 3) (E x j) = Some u" "L x = Some (Suc m)" using x(1,4) E by simp_all
    then show ?thesis using old [OF b(2) x(2,3) b(1)] p(1) by auto
  qed
  show ?thesis
    unfolding tree_ok_def
  proof (intro conjI allI impI ballI)
    show "?L t4 = Some 4" using tree_root [OF T] p(1) by auto
  next
    fix t' assume "t' \<in> dom ?L"
    then show "is_table t'" "t' \<noteq> 0" using tree_table [OF T, of t'] p(2,3) by (auto split: if_splits)
  next
    fix t' m i' u
    assume a: "?L t' = Some (Suc m) \<and> 0 < m \<and> i' < 512 \<and> below (m < 3) (E' t' i') = Some u"
    show "?L u = Some m"
    proof -
      have x: "?L t' = Some (Suc m)" "0 < m" "i' < 512" "below (m < 3) (E' t' i') = Some u" using a by simp_all
      from c [OF x] show ?thesis
      proof (elim disjE conjE)
        assume "t' = t" "i' = i" "u = p"
        then show ?thesis using x(1) lt pt by simp
      next
        assume "L t' = Some (Suc m)" "below (m < 3) (E t' i') = Some u" "u \<noteq> p"
        then show ?thesis using tree_below [OF T _ x(2,3)] by simp
      qed
    qed
  next
    fix t1 n1 i1 t2 n2 i2 u
    assume a: "?L t1 = Some (Suc n1) \<and> 0 < n1 \<and> i1 < 512 \<and> below (n1 < 3) (E' t1 i1) = Some u
          \<and> ?L t2 = Some (Suc n2) \<and> 0 < n2 \<and> i2 < 512 \<and> below (n2 < 3) (E' t2 i2) = Some u"
    have x: "?L t1 = Some (Suc n1)" "0 < n1" "i1 < 512" "below (n1 < 3) (E' t1 i1) = Some u" using a by simp_all
    have y: "?L t2 = Some (Suc n2)" "0 < n2" "i2 < 512" "below (n2 < 3) (E' t2 i2) = Some u" using a by simp_all
    have 1: "(t1 = t \<and> i1 = i \<and> u = p) \<or> (L t1 = Some (Suc n1) \<and> below (n1 < 3) (E t1 i1) = Some u \<and> u \<noteq> p)" using c [OF x] .
    have 2: "(t2 = t \<and> i2 = i \<and> u = p) \<or> (L t2 = Some (Suc n2) \<and> below (n2 < 3) (E t2 i2) = Some u \<and> u \<noteq> p)" using c [OF y] .
    have "t1 = t2 \<and> i1 = i2"
    proof (cases "u = p")
      case True
      then show ?thesis using 1 2 by blast
    next
      case False
      then have "L t1 = Some (Suc n1)" "below (n1 < 3) (E t1 i1) = Some u" "L t2 = Some (Suc n2)" "below (n2 < 3) (E t2 i2) = Some u" using 1 2 by blast+
      then show ?thesis using tree_inj [OF T _ x(2,3) _ _ y(2,3)] by blast
    qed
    then show "t1 = t2" "i1 = i2" by blast+
  qed
qed

text \<open>No 1 GB or 2 MB page lies on the path to \<open>v\<close>.\<close>

definition no_huge :: "(u64 \<Rightarrow> u64 \<Rightarrow> u64) \<Rightarrow> u64 \<Rightarrow> u64 \<Rightarrow> bool" where
  "no_huge E t4 v \<longleftrightarrow>
     (let e4 = E t4 (idx4 v); e3 = E (target e4) (idx3 v); e2 = E (target e3) (idx2 v) in
      present e4 \<and> present e3 \<longrightarrow> \<not> huge e3 \<and> (present e2 \<longrightarrow> \<not> huge e2))"

lemma no_huge_cong:
  assumes T: "tree_ok L E t4" and nh: "no_huge E t4 v"
    and same: "\<And>t n i. L t = Some (Suc n) \<Longrightarrow> 0 < n \<Longrightarrow> i < 512 \<Longrightarrow> E' t i = E t i"
  shows "no_huge E' t4 v"
proof -
  have r: "L t4 = Some (Suc 3)" using tree_root [OF T] by simp
  have 4: "E' t4 (idx4 v) = E t4 (idx4 v)" by (rule same [OF r]) simp_all
  have 3: "E' (target (E t4 (idx4 v))) (idx3 v) = E (target (E t4 (idx4 v))) (idx3 v)" if "present (E t4 (idx4 v))"
    by (rule same [of _ 2]) (use tree_step(1) [OF T that] in simp_all)
  have 2: "E' (target (E (target (E t4 (idx4 v))) (idx3 v))) (idx2 v) = E (target (E (target (E t4 (idx4 v))) (idx3 v))) (idx2 v)"
    if "present (E t4 (idx4 v))" "present (E (target (E t4 (idx4 v))) (idx3 v))"
  proof -
    have "\<not> huge (E (target (E t4 (idx4 v))) (idx3 v))" using nh that by (simp add: no_huge_def Let_def)
    from tree_step(2) [OF T tree_step(1) [OF T that(1)] that(2) this] show ?thesis by (intro same [of _ 1]) simp_all
  qed
  show ?thesis using nh 4 3 2 by (auto simp: no_huge_def Let_def)
qed

lemma no_huge_new_table:
  assumes T: "tree_ok L E t4" and lt: "L t = Some (Suc n)" "0 < n" and ab: "\<not> present (E t i)" and p: "L p = None"
    and N: "new_table L E t i p e E'" and nh: "no_huge E t4 v"
  shows "no_huge E' t4 v"
proof -
  have e: "present e" "\<not> huge e" "target e = p" using N by (simp_all add: new_table_def)
  have pt: "p \<noteq> t" using p lt by auto
  have E': "E' t' i' = (if t' = t \<and> i' = i then e else E t' i')" if "L t' = Some m" "i' < 512" for t' i' m
    using N that p unfolding new_table_def by (auto simp: domIff)
  have z: "E' p j = 0" if "j < 512" for j using N that pt unfolding new_table_def by auto
  have r: "L t4 = Some 4" by (rule tree_root [OF T])
  let ?u3 = "target (E t4 (idx4 v))"
  let ?u2 = "target (E ?u3 (idx3 v))"
  show ?thesis
  proof (cases "t4 = t \<and> idx4 v = i")
    case True
    then have "E' t4 (idx4 v) = e" using E' [OF r idx_bound(1) [of v]] by simp
    then show ?thesis using e z [OF idx_bound(2) [of v]] by (simp add: no_huge_def Let_def)
  next
    case False
    have 4: "E' t4 (idx4 v) = E t4 (idx4 v)" using E' [OF r idx_bound(1) [of v]] unfolding if_not_P [OF False] .
    show ?thesis
    proof (cases "present (E t4 (idx4 v))")
      case p4: True
      have l3: "L ?u3 = Some 3" by (rule tree_step(1) [OF T p4])
      show ?thesis
      proof (cases "?u3 = t \<and> idx3 v = i")
        case True
        then have "E' ?u3 (idx3 v) = e" using E' [OF l3 idx_bound(2) [of v]] by simp
        then show ?thesis using e z [OF idx_bound(3) [of v]] by (simp add: no_huge_def Let_def 4)
      next
        case False
        have 3: "E' ?u3 (idx3 v) = E ?u3 (idx3 v)" using E' [OF l3 idx_bound(2) [of v]] unfolding if_not_P [OF False] .
        show ?thesis
        proof (cases "present (E ?u3 (idx3 v))")
          case p3: True
          then have h3: "\<not> huge (E ?u3 (idx3 v))" "present (E ?u2 (idx2 v)) \<Longrightarrow> \<not> huge (E ?u2 (idx2 v))"
            using nh p4 by (simp_all add: no_huge_def Let_def)
          have l2: "L ?u2 = Some 2" by (rule tree_step(2) [OF T l3 p3 h3(1)])
          have "present (E' ?u2 (idx2 v)) \<Longrightarrow> \<not> huge (E' ?u2 (idx2 v))"
            using E' [OF l2 idx_bound(3) [of v]] e h3(2) by (cases "?u2 = t \<and> idx2 v = i") auto
          then show ?thesis using h3(1) by (simp add: no_huge_def Let_def 4 3)
        qed (simp add: no_huge_def Let_def 4 3)
      qed
    qed (simp add: no_huge_def Let_def 4)
  qed
qed

subsection \<open>Storing a page table entry\<close>

lemma belowD: "below h e = Some u \<Longrightarrow> present e \<and> \<not> (h \<and> huge e) \<and> target e = u"
  by (auto simp: below_def split: if_splits)

lemma belowI: "present e \<Longrightarrow> \<not> (h \<and> huge e) \<Longrightarrow> below h e = Some (target e)"
  by (simp add: below_def)

lemma leaf_store_tree:
  assumes T: "tree_ok L E t4" and u: "L u1 = Some 1"
    and E': "\<And>t i. L t \<noteq> None \<Longrightarrow> i < 512 \<Longrightarrow> t \<noteq> u1 \<Longrightarrow> E' t i = E t i"
  shows "tree_ok L E' t4"
proof -
  have same: "E' t i = E t i" if "L t = Some (Suc n)" "0 < n" "i < 512" for t n i
  proof (rule E')
    show "t \<noteq> u1" using that u by auto
  qed (use that in simp_all)
  show ?thesis
    unfolding tree_ok_def
  proof (intro conjI allI impI ballI)
    show "L t4 = Some 4" by (rule tree_root [OF T])
  next
    fix t assume "t \<in> dom L"
    then show "is_table t" "t \<noteq> 0" using tree_table [OF T, of t] by auto
  next
    fix t n i w
    assume "L t = Some (Suc n) \<and> 0 < n \<and> i < 512 \<and> below (n < 3) (E' t i) = Some w"
    then have x: "L t = Some (Suc n)" "0 < n" "i < 512" "below (n < 3) (E' t i) = Some w" by simp_all
    show "L w = Some n" by (rule tree_below [OF T x(1-3)]) (use x(4) same [OF x(1-3)] in simp)
  next
    fix t n i t' n' i' w
    assume "L t = Some (Suc n) \<and> 0 < n \<and> i < 512 \<and> below (n < 3) (E' t i) = Some w
          \<and> L t' = Some (Suc n') \<and> 0 < n' \<and> i' < 512 \<and> below (n' < 3) (E' t' i') = Some w"
    then have x: "L t = Some (Suc n)" "0 < n" "i < 512" "below (n < 3) (E' t i) = Some w"
      and y: "L t' = Some (Suc n')" "0 < n'" "i' < 512" "below (n' < 3) (E' t' i') = Some w" by simp_all
    have "t = t' \<and> i = i'"
      by (rule tree_inj [OF T x(1-3) _ y(1-3)]) (use x(4) y(4) same [OF x(1-3)] same [OF y(1-3)] in simp_all)
    then show "t = t'" "i = i'" by blast+
  qed
qed

text \<open>The page tables that lead to the page of \<open>v\<close>.\<close>

definition table_path :: "(u64 \<Rightarrow> u64 \<Rightarrow> u64) \<Rightarrow> u64 \<Rightarrow> u64 \<Rightarrow> u64 \<Rightarrow> u64 \<Rightarrow> u64 \<Rightarrow> bool" where
  "table_path E t4 v u3 u2 u1 \<longleftrightarrow> below False (E t4 (idx4 v)) = Some u3 \<and> below True (E u3 (idx3 v)) = Some u2 \<and> below True (E u2 (idx2 v)) = Some u1"

lemma path_levels:
  assumes T: "tree_ok L E t4" and "table_path E t4 v u3 u2 u1"
  shows "L u3 = Some 3" "L u2 = Some 2" "L u1 = Some 1"
proof -
  have p: "below False (E t4 (idx4 v)) = Some u3" "below True (E u3 (idx3 v)) = Some u2" "below True (E u2 (idx2 v)) = Some u1"
    using assms(2) by (simp_all add: table_path_def)
  show 3: "L u3 = Some 3" using tree_step(1) [OF T, of v] belowD [OF p(1)] by simp
  show 2: "L u2 = Some 2" using tree_step(2) [OF T 3, of v] belowD [OF p(2)] by simp
  show "L u1 = Some 1" using tree_step(3) [OF T 2, of v] belowD [OF p(3)] by simp
qed

lemma leaf_store_translate:
  assumes T: "tree_ok L E t4" and P: "table_path E t4 v u3 u2 u1"
    and E': "\<And>t i. L t \<noteq> None \<Longrightarrow> i < 512 \<Longrightarrow> E' t i = (if t = u1 \<and> i = idx1 v then e else E t i)"
  shows "translate E' t4 w = (if same_page w v then (if present e then target e OR (w AND 0xFFF) else 0) else translate E t4 w)"
proof -
  let ?val = "if present e then target e OR (w AND 0xFFF) else 0"
  note l = path_levels [OF T P]
  have b: "below False (E t4 (idx4 v)) = Some u3" "below True (E u3 (idx3 v)) = Some u2" "below True (E u2 (idx2 v)) = Some u1"
    using P by (simp_all add: table_path_def)
  have up: "E' t i = E t i" if "L t = Some n" "n \<noteq> 1" "i < 512" for t n i using E' [of t i] that l(3) by auto
  have 1: "tr1 E' t w = (if t = u1 \<and> idx1 w = idx1 v then ?val else tr1 E t w)" if t: "L t = Some 1" for t
  proof -
    have "E' t (idx1 w) = (if t = u1 \<and> idx1 w = idx1 v then e else E t (idx1 w))" using E' [of t "idx1 w"] t by simp
    then show ?thesis by (auto simp: tr1_def Let_def)
  qed
  have 2: "tr2 E' t w = (if t = u2 \<and> idx2 w = idx2 v \<and> idx1 w = idx1 v then ?val else tr2 E t w)" if t: "L t = Some 2" for t
  proof -
    let ?e = "E t (idx2 w)"
    have e: "E' t (idx2 w) = ?e" by (rule up [OF t]) simp_all
    show ?thesis
    proof (cases "present ?e \<and> \<not> huge ?e")
      case True
      have l1: "L (target ?e) = Some 1" using tree_step(3) [OF T t] True by blast
      have "target ?e = u1 \<longleftrightarrow> t = u2 \<and> idx2 w = idx2 v"
      proof
        assume "target ?e = u1"
        then show "t = u2 \<and> idx2 w = idx2 v"
          using tree_inj [OF T, of t 1 "idx2 w" u1 u2 1 "idx2 v"] t l(2) b(3) True by (simp add: below_def)
      qed (use belowD [OF b(3)] in simp)
      then show ?thesis using True 1 [OF l1] e by (simp add: tr2_def Let_def)
    next
      case False
      then have "\<not> (t = u2 \<and> idx2 w = idx2 v)" using belowD [OF b(3)] by auto
      then show ?thesis using False e by (auto simp: tr2_def Let_def)
    qed
  qed
  have 3: "tr3 E' t w = (if t = u3 \<and> idx3 w = idx3 v \<and> idx2 w = idx2 v \<and> idx1 w = idx1 v then ?val else tr3 E t w)" if t: "L t = Some 3" for t
  proof -
    let ?e = "E t (idx3 w)"
    have e: "E' t (idx3 w) = ?e" by (rule up [OF t]) simp_all
    show ?thesis
    proof (cases "present ?e \<and> \<not> huge ?e")
      case True
      have l2: "L (target ?e) = Some 2" using tree_step(2) [OF T t] True by blast
      have "target ?e = u2 \<longleftrightarrow> t = u3 \<and> idx3 w = idx3 v"
      proof
        assume "target ?e = u2"
        then show "t = u3 \<and> idx3 w = idx3 v"
          using tree_inj [OF T, of t 2 "idx3 w" u2 u3 2 "idx3 v"] t l(1) b(2) True by (simp add: below_def)
      qed (use belowD [OF b(2)] in simp)
      then show ?thesis using True 2 [OF l2] e by (simp add: tr3_def Let_def)
    next
      case False
      then have "\<not> (t = u3 \<and> idx3 w = idx3 v)" using belowD [OF b(2)] by auto
      then show ?thesis using False e by (auto simp: tr3_def Let_def)
    qed
  qed
  let ?e = "E t4 (idx4 w)"
  have r: "L t4 = Some 4" by (rule tree_root [OF T])
  have e: "E' t4 (idx4 w) = ?e" by (rule up [OF r]) simp_all
  show ?thesis
  proof (cases "present ?e")
    case True
    have l3: "L (target ?e) = Some 3" using tree_step(1) [OF T] True by blast
    have "target ?e = u3 \<longleftrightarrow> idx4 w = idx4 v"
    proof
      assume "target ?e = u3"
      then show "idx4 w = idx4 v"
        using tree_inj [OF T, of t4 3 "idx4 w" u3 t4 3 "idx4 v"] r b(1) True by (simp add: below_def)
    qed (use belowD [OF b(1)] in simp)
    then show ?thesis using True 3 [OF l3] e by (simp add: translate_def Let_def same_page_def)
  next
    case False
    then have "idx4 w \<noteq> idx4 v" using belowD [OF b(1)] by auto
    then show ?thesis using False e by (simp add: translate_def Let_def same_page_def)
  qed
qed

subsection \<open>The state of the page tables\<close>

text \<open>
  The tables form a tree, the page allocator is in order, none of the pages it can hand out is a table, and all
  of them have addresses that fit into an entry.
\<close>

definition vm_ok :: "(u64 \<Rightarrow> nat option) \<Rightarrow> vmm \<Rightarrow> u64 \<Rightarrow> bool" where
  "vm_ok L s t4 \<longleftrightarrow> tree_ok L (ent s) t4 \<and> pmm_inv (vm_pmm s) \<and> dom L \<inter> pmm_avail (vm_pmm s) = {}
     \<and> (\<forall>p \<in> pmm_avail (vm_pmm s). is_table p)"

lemma vm_okD:
  assumes "vm_ok L s t4"
  shows "tree_ok L (ent s) t4" "pmm_inv (vm_pmm s)" "dom L \<inter> pmm_avail (vm_pmm s) = {}" "p \<in> pmm_avail (vm_pmm s) \<Longrightarrow> is_table p"
  using assms by (simp_all add: vm_ok_def)

text \<open>A step that adds at most tables: no translation changes, and no entry of a table but the one at \<open>t\<close>, \<open>i\<close>.\<close>

definition table_added :: "(u64 \<Rightarrow> nat option) \<Rightarrow> vmm \<Rightarrow> u64 \<Rightarrow> u64 \<Rightarrow> u64 \<Rightarrow> (u64 \<Rightarrow> nat option) \<Rightarrow> vmm \<Rightarrow> bool" where
  "table_added L s t4 t i L' s' \<longleftrightarrow> vm_ok L' s' t4 \<and> (\<forall>v. translate (ent s') t4 v = translate (ent s) t4 v) \<and> L \<subseteq>\<^sub>m L'
     \<and> kernel_pml4 s' = kernel_pml4 s \<and> vm_cr3 s' = vm_cr3 s \<and> (\<forall>v. no_huge (ent s) t4 v \<longrightarrow> no_huge (ent s') t4 v)
     \<and> (\<forall>t' i'. L t' \<noteq> None \<and> i' < 512 \<and> (t', i') \<noteq> (t, i) \<longrightarrow> ent s' t' i' = ent s t' i')"

lemma alloc_table_present:
  "present (ent s t i) \<Longrightarrow> alloc_table s (entry_addr t i) = Some (target (ent s t i), s)"
  by (simp add: alloc_table_def present_def ent_def target_def Let_def)

lemma table_added_refl: "vm_ok L s t4 \<Longrightarrow> table_added L s t4 t i L s"
  by (simp add: table_added_def)

lemma alloc_table_absent:
  assumes ok: "vm_ok L s t4" and lt: "L t = Some (Suc n)" "0 < n" and i: "i < 512" and ab: "\<not> present (ent s t i)"
  shows "(alloc_table s (entry_addr t i) = Some (0, s) \<and> pmm_alloc (vm_pmm s) ZONE_GREEN = Some (0, vm_pmm s))
    \<or> (\<exists>p s'. alloc_table s (entry_addr t i) = Some (p, s') \<and> p \<noteq> 0 \<and> L p = None \<and> table_added L s t4 t i (L(p \<mapsto> n)) s'
          \<and> below (n < 3) (ent s' t i) = Some p \<and> (\<forall>j < 512. ent s' p j = 0))"
  using vm_okD(2) [OF ok]
proof (cases rule: pmm_frames.falloc_cases [where z = ZONE_GREEN])
  case none
  have "alloc_table s (entry_addr t i) = Some (0, s)"
    using ab none by (simp add: alloc_table_def present_def ent_def Let_def)
  then show ?thesis using none by simp
next
  case (page p pm)
  note new = pmm_pages.falloc_new [OF vm_okD(2) [OF ok] vm_okD(3) [OF ok] page(1,3)]
  have pa: "p \<in> pmm_avail (vm_pmm s)" by (rule pmm_pages.falloc_avail [OF vm_okD(2) [OF ok] page(1,3), THEN conjunct1])
  have pt: "is_table p" by (rule vm_okD(4) [OF ok pa])
  have Lp: "L p = None" using new(1) by auto
  let ?e = "(p AND VMM_ADDR_MASK) OR VMM_PRESENT OR VMM_WRITE OR VMM_USER"
  let ?m = "st64 (mem_set (vm_mem s) p 0 4096) (entry_addr t i) ?e"
  let ?s = "s\<lparr>vm_pmm := pm, vm_mem := ?m\<rparr>"
  have al: "alloc_table s (entry_addr t i) = Some (p, ?s)"
    using ab page(1,3) by (simp add: alloc_table_def present_def ent_def Let_def)
  have T: "tree_ok L (ent s) t4" by (rule vm_okD(1) [OF ok])
  have t0: "t AND 0xFFF = 0" using tree_table [OF T lt(1)] by (simp add: is_table_def)
  have p0: "p AND 0xFFF = 0" using pt by (simp add: is_table_def)
  have E: "ent ?s t' i' = (if t' = t \<and> i' = i then ?e else if t' = p then 0 else ent s t' i')"
    if "t' \<in> dom L \<or> t' = p" "i' < 512" for t' i'
  proof -
    have t'0: "t' AND 0xFFF = 0" using that(1) tree_table [OF T, of t'] p0 by (auto simp: is_table_def)
    have "ent ?s t' i' = ld64 ?m (entry_addr t' i')" by (simp add: ent_def)
    then show ?thesis unfolding ld_entry_st [OF t0 i t'0 that(2)] ld_entry_set [OF p0 t'0 that(2)] ent_def .
  qed
  then have N: "new_table L (ent s) t i p ?e (ent ?s)"
    using word_bits_table [OF pt] unfolding new_table_def by blast
  have "vm_ok (L(p \<mapsto> n)) ?s t4" unfolding vm_ok_def
  proof (intro conjI ballI)
    show "tree_ok (L(p \<mapsto> n)) (ent ?s) t4" by (rule new_table_tree [OF T lt ab Lp pt page(3) i N])
    show "pmm_inv (vm_pmm ?s)" using page(2) by simp
    show "dom (L(p \<mapsto> n)) \<inter> pmm_avail (vm_pmm ?s) = {}" using new(2) by simp
    show "is_table q" if "q \<in> pmm_avail (vm_pmm ?s)" for q using that new(3) vm_okD(4) [OF ok, of q] by auto
  qed
  moreover have "ent ?s t' i' = ent s t' i'" if "L t' \<noteq> None \<and> i' < 512 \<and> (t', i') \<noteq> (t, i)" for t' i'
  proof -
    have "t' \<noteq> p" using that Lp by auto
    then show ?thesis using E [of t' i'] that by (auto simp: domIff)
  qed
  ultimately have "table_added L s t4 t i (L(p \<mapsto> n)) ?s"
    using new_table_translate [OF T lt ab Lp N] no_huge_new_table [OF T lt ab Lp N] Lp unfolding table_added_def by (auto simp: map_le_def)
  moreover have "below (n < 3) (ent ?s t i) = Some p"
  proof -
    have "ent ?s t i = ?e" using E [of t i] lt(1) i by (simp add: domI)
    then show ?thesis using word_bits_table [OF pt] by (simp only: below_def) simp
  qed
  moreover have "\<forall>j < 512. ent ?s p j = 0" using E [of p] lt Lp by auto
  ultimately show ?thesis using al page(3) Lp by blast
qed

text \<open>
  Either way, unless there is no page left: the next table on the path, in which an entry was there before or is empty.
\<close>

lemma alloc_table_step:
  assumes ok: "vm_ok L s t4" and lt: "L t = Some (Suc n)" "0 < n" and i: "i < 512"
    and nh: "present (ent s t i) \<Longrightarrow> n < 3 \<Longrightarrow> \<not> huge (ent s t i)"
  obtains u s' L' where "alloc_table s (entry_addr t i) = Some (u, s')" and "table_added L s t4 t i L' s'"
    and "u \<noteq> 0 \<Longrightarrow> L' u = Some n" and "u \<noteq> 0 \<Longrightarrow> below (n < 3) (ent s' t i) = Some u"
    and "u \<noteq> 0 \<Longrightarrow> (s' = s \<and> present (ent s t i) \<and> u = target (ent s t i)) \<or> (\<forall>j < 512. ent s' u j = 0)"
    and "u = 0 \<Longrightarrow> pmm_alloc (vm_pmm s') ZONE_GREEN = Some (0, vm_pmm s')"
proof (cases "present (ent s t i)")
  case True
  have b: "below (n < 3) (ent s t i) = Some (target (ent s t i))" using True nh by (simp add: below_def)
  show thesis
    by (rule that [OF alloc_table_present [OF True] table_added_refl [OF ok]])
      (use b True tree_below [OF vm_okD(1) [OF ok] lt i b] tree_table [OF vm_okD(1) [OF ok] tree_below [OF vm_okD(1) [OF ok] lt i b]] in simp_all)
next
  case False
  from alloc_table_absent [OF ok lt i False] show thesis
  proof (elim disjE exE conjE)
    assume a: "alloc_table s (entry_addr t i) = Some (0, s)" and f: "pmm_alloc (vm_pmm s) ZONE_GREEN = Some (0, vm_pmm s)"
    show thesis by (rule that [OF a table_added_refl [OF ok]]) (use f in simp_all)
  next
    fix p s'
    assume pz: "p \<noteq> 0" and a: "alloc_table s (entry_addr t i) = Some (p, s')" "table_added L s t4 t i (L(p \<mapsto> n)) s'"
      and b: "below (n < 3) (ent s' t i) = Some p" "\<forall>j < 512. ent s' p j = 0"
    show thesis by (rule that [OF a]) (simp, rule b(1), rule disjI2, rule b(2), use pz in simp)
  qed
qed

subsection \<open>Mapping a page\<close>

lemma table_addedD:
  assumes "table_added L s t4 t i L' s'"
  shows "vm_ok L' s' t4" "translate (ent s') t4 v = translate (ent s) t4 v" "L x = Some n \<Longrightarrow> L' x = Some n"
    "kernel_pml4 s' = kernel_pml4 s" "vm_cr3 s' = vm_cr3 s"
    "L t' = Some n \<Longrightarrow> i' < 512 \<Longrightarrow> (t', i') \<noteq> (t, i) \<Longrightarrow> ent s' t' i' = ent s t' i'"
    "no_huge (ent s) t4 v \<Longrightarrow> no_huge (ent s') t4 v"
  using assms unfolding table_added_def map_le_def by (blast, blast, metis domI, blast, blast, simp, blast)

text \<open>The three calls of \<^verbatim>\<open>alloc_table\<close> on the way to the last table.\<close>

definition walk :: "vmm \<Rightarrow> u64 \<Rightarrow> u64 \<Rightarrow> (u64 \<times> vmm) option" where
  "walk s t4 v =
     (case alloc_table s (entry_addr t4 (idx4 v)) of
          None \<Rightarrow> None
        | Some (pdpt, s) \<Rightarrow> if pdpt = 0 then Some (0, s)
      else case alloc_table s (entry_addr pdpt (idx3 v)) of
          None \<Rightarrow> None
        | Some (pd, s) \<Rightarrow> if pd = 0 then Some (0, s)
      else alloc_table s (entry_addr pd (idx2 v)))"

lemma vmm_map_into_walk:
  "t4 \<noteq> 0 \<Longrightarrow> vmm_map_into s t4 phys v fl =
     (case walk s t4 v of
        None \<Rightarrow> None
      | Some (pt, s) \<Rightarrow> if pt = 0 then Some (False, s)
        else Some (True, s\<lparr>vm_mem := st64 (vm_mem s) (entry_addr pt (idx1 v)) ((phys AND NOT 0xFFF) OR fl OR VMM_PRESENT)\<rparr>))"
  by (simp add: vmm_map_into_def walk_def split: option.split prod.split)

text \<open>\<^verbatim>\<open>vmm_map\<close> is \<^verbatim>\<open>vmm_map_into\<close> on the kernel's table.\<close>

lemma vmm_map_kernel: "kernel_pml4 s \<noteq> 0 \<Longrightarrow> vmm_map s phys v fl = vmm_map_into s (kernel_pml4 s) phys v fl"
  by (simp add: vmm_map_def vmm_map_into_def)

lemma walk_ok:
  assumes ok: "vm_ok L s t4" and nh: "no_huge (ent s) t4 v"
  obtains u s' L' where "walk s t4 v = Some (u, s')" "vm_ok L' s' t4" "\<And>w. translate (ent s') t4 w = translate (ent s) t4 w"
    "kernel_pml4 s' = kernel_pml4 s" "vm_cr3 s' = vm_cr3 s"
    "u \<noteq> 0 \<Longrightarrow> \<exists>u3 u2. table_path (ent s') t4 v u3 u2 u"
    "u = 0 \<Longrightarrow> pmm_alloc (vm_pmm s') ZONE_GREEN = Some (0, vm_pmm s')"
    "\<And>w. no_huge (ent s) t4 w \<Longrightarrow> no_huge (ent s') t4 w"
proof -
  have r: "L t4 = Some (Suc 3)" using tree_root [OF vm_okD(1) [OF ok]] by simp
  obtain u3 s3 L3 where 3: "alloc_table s (entry_addr t4 (idx4 v)) = Some (u3, s3)" "table_added L s t4 t4 (idx4 v) L3 s3"
    "u3 \<noteq> 0 \<Longrightarrow> L3 u3 = Some 3" "u3 \<noteq> 0 \<Longrightarrow> below (3 < (3::nat)) (ent s3 t4 (idx4 v)) = Some u3"
    "u3 \<noteq> 0 \<Longrightarrow> (s3 = s \<and> present (ent s t4 (idx4 v)) \<and> u3 = target (ent s t4 (idx4 v))) \<or> (\<forall>j < 512. ent s3 u3 j = 0)"
    "u3 = 0 \<Longrightarrow> pmm_alloc (vm_pmm s3) ZONE_GREEN = Some (0, vm_pmm s3)"
    by (rule alloc_table_step [OF ok r _ idx_bound(1) [of v]]) simp_all
  show thesis
  proof (cases "u3 = 0")
    case True
    then show thesis by (intro that [of 0 s3 L3] table_addedD(1,2,4,5,7) [OF 3(2)]) (use 3(6) in \<open>simp_all add: walk_def 3(1)\<close>)
  next
    case False
    note a3 = 3(3-5) [OF False]
    have l3: "L3 u3 = Some (Suc 2)" using a3(1) by simp
    have h3: "\<not> huge (ent s3 u3 (idx3 v))" if "present (ent s3 u3 (idx3 v))"
      using a3(3) that nh by (auto simp: no_huge_def Let_def)
    obtain u2 s2 L2 where 2: "alloc_table s3 (entry_addr u3 (idx3 v)) = Some (u2, s2)" "table_added L3 s3 t4 u3 (idx3 v) L2 s2"
      "u2 \<noteq> 0 \<Longrightarrow> L2 u2 = Some 2" "u2 \<noteq> 0 \<Longrightarrow> below (2 < (3::nat)) (ent s2 u3 (idx3 v)) = Some u2"
      "u2 \<noteq> 0 \<Longrightarrow> (s2 = s3 \<and> present (ent s3 u3 (idx3 v)) \<and> u2 = target (ent s3 u3 (idx3 v))) \<or> (\<forall>j < 512. ent s2 u2 j = 0)"
    "u2 = 0 \<Longrightarrow> pmm_alloc (vm_pmm s2) ZONE_GREEN = Some (0, vm_pmm s2)"
      by (rule alloc_table_step [OF table_addedD(1) [OF 3(2)] l3 _ idx_bound(2) [of v]]) (use h3 in simp_all)
    have n2: "no_huge (ent s2) t4 w" if "no_huge (ent s) t4 w" for w using table_addedD(7) [OF 2(2) table_addedD(7) [OF 3(2) that]] .
    have t2: "translate (ent s2) t4 w = translate (ent s) t4 w" for w using table_addedD(2) [OF 3(2)] table_addedD(2) [OF 2(2)] by simp
    show thesis
    proof (cases "u2 = 0")
      case True
      then show thesis
        by (intro that [of 0 s2 L2] table_addedD(1) [OF 2(2)] t2 n2)
          (use False 2(6) in \<open>simp_all add: walk_def 3(1) 2(1) table_addedD(4,5) [OF 3(2)] table_addedD(4,5) [OF 2(2)]\<close>)
    next
      case u2: False
      note a2 = 2(3-5) [OF u2]
      have l2: "L2 u2 = Some (Suc 1)" using a2(1) by simp
      have h2: "\<not> huge (ent s2 u2 (idx2 v))" if p: "present (ent s2 u2 (idx2 v))"
        using a2(3)
      proof (elim disjE conjE)
        assume x: "s2 = s3" "present (ent s3 u3 (idx3 v))" "u2 = target (ent s3 u3 (idx3 v))"
        from a3(3) show ?thesis
        proof (elim disjE conjE)
          assume "s3 = s" "present (ent s t4 (idx4 v))" "u3 = target (ent s t4 (idx4 v))"
          then show ?thesis using x p nh by (simp add: no_huge_def Let_def)
        next
          assume "\<forall>j < 512. ent s3 u3 j = 0"
          then show ?thesis using x(2) by simp
        qed
      next
        assume "\<forall>j < 512. ent s2 u2 j = 0"
        then show ?thesis using p by simp
      qed
      obtain u1 s1 L1 where 1: "alloc_table s2 (entry_addr u2 (idx2 v)) = Some (u1, s1)" "table_added L2 s2 t4 u2 (idx2 v) L1 s1"
        "u1 \<noteq> 0 \<Longrightarrow> L1 u1 = Some 1" "u1 \<noteq> 0 \<Longrightarrow> below (1 < (3::nat)) (ent s1 u2 (idx2 v)) = Some u1"
        "u1 = 0 \<Longrightarrow> pmm_alloc (vm_pmm s1) ZONE_GREEN = Some (0, vm_pmm s1)"
        by (rule alloc_table_step [OF table_addedD(1) [OF 2(2)] l2 _ idx_bound(3) [of v]]) (use h2 in simp_all)
      have L3t4: "L3 t4 = Some 4" and L2t4: "L2 t4 = Some 4" and L2u3: "L2 u3 = Some 3"
        using table_addedD(3) [OF 3(2) r] table_addedD(3) [OF 2(2)] a3(1) by simp_all
      have ne: "t4 \<noteq> u3" "t4 \<noteq> u2" "u3 \<noteq> u2" using L3t4 a3(1) L2t4 L2u3 a2(1) by auto
      have e4: "ent s1 t4 (idx4 v) = ent s3 t4 (idx4 v)"
        using table_addedD(6) [OF 2(2) L3t4 idx_bound(1)] table_addedD(6) [OF 1(2) L2t4 idx_bound(1)] ne by simp
      have e3: "ent s1 u3 (idx3 v) = ent s2 u3 (idx3 v)" using table_addedD(6) [OF 1(2) L2u3 idx_bound(2)] ne by simp
      have "table_path (ent s1) t4 v u3 u2 u1" if "u1 \<noteq> 0"
        using a3(2) a2(2) 1(4) [OF that] by (simp add: table_path_def e4 e3)
      then show thesis
        by (intro that [of u1 s1 L1] table_addedD(1) [OF 1(2)] table_addedD(7) [OF 1(2)] n2)
          (use False u2 t2 1(5) in \<open>auto simp: walk_def 3(1) 2(1) 1(1) table_addedD(2,4,5) [OF 3(2)] table_addedD(2,4,5) [OF 2(2)] table_addedD(2,4,5) [OF 1(2)]\<close>)
    qed
  qed
qed

lemma vm_mem_set: "vm_mem (s\<lparr>vm_mem := m\<rparr>) = m"
  by simp

lemma store_entry:
  assumes T: "tree_ok L (ent s) t4" and u: "L u = Some n" and i: "i < 512" and t: "L t \<noteq> None" and j: "j < 512"
  shows "ent (s\<lparr>vm_mem := st64 (vm_mem s) (entry_addr u i) e\<rparr>) t j = (if t = u \<and> j = i then e else ent s t j)"
proof -
  have "u AND 0xFFF = 0" "t AND 0xFFF = 0" using tree_table [OF T u] tree_table [OF T, of t] t by (auto simp: is_table_def)
  then have "ld64 (st64 (vm_mem s) (entry_addr u i) e) (entry_addr t j) = (if t = u \<and> j = i then e else ld64 (vm_mem s) (entry_addr t j))"
    using i j by (intro ld_entry_st)
  then show ?thesis by (simp only: ent_def vmm.simps vmm.update_convs vmm.select_convs vm_mem_set)
qed

lemma leaf_store_ok:
  fixes e :: u64
  assumes ok: "vm_ok L s t4" and P: "table_path (ent s) t4 v u3 u2 u1"
  defines "s' \<equiv> s\<lparr>vm_mem := st64 (vm_mem s) (entry_addr u1 (idx1 v)) e\<rparr>"
  shows "vm_ok L s' t4" and "no_huge (ent s) t4 v' \<Longrightarrow> no_huge (ent s') t4 v'"
    and "translate (ent s') t4 w = (if same_page w v then (if present e then target e OR (w AND 0xFFF) else 0) else translate (ent s) t4 w)"
proof -
  have T: "tree_ok L (ent s) t4" by (rule vm_okD(1) [OF ok])
  note E = store_entry [OF T path_levels(3) [OF T P] idx_bound(4) [of v], folded s'_def]
  have "tree_ok L (ent s') t4"
    by (rule leaf_store_tree [OF T path_levels(3) [OF T P]]) (simp add: s'_def E [unfolded s'_def])
  then show "vm_ok L s' t4" using vm_okD(2-4) [OF ok] by (simp add: vm_ok_def s'_def)
  show "no_huge (ent s') t4 v'" if "no_huge (ent s) t4 v'"
  proof (rule no_huge_cong [OF T that])
    fix t n i
    assume "L t = Some (Suc n)" "0 < n" "i < (512 :: u64)"
    then show "ent s' t i = ent s t i" using E [of t i] path_levels(3) [OF T P] by (auto simp: s'_def)
  qed
  show "translate (ent s') t4 w = (if same_page w v then (if present e then target e OR (w AND 0xFFF) else 0) else translate (ent s) t4 w)"
    unfolding s'_def by (rule leaf_store_translate [OF T P]) (rule E [unfolded s'_def])
qed

lemma leaf_bits:
  fixes phys :: u64
  assumes "fl AND VMM_ADDR_MASK = 0"
  defines "e \<equiv> (phys AND NOT 0xFFF) OR fl OR VMM_PRESENT"
  shows "present e" "target e = phys AND VMM_ADDR_MASK"
proof -
  have "bit e 0" unfolding e_def by (simp add: VMM_PRESENT_def bit_or_iff)
  then show "present e" unfolding present_def VMM_PRESENT_def by (metis and_exp_eq_0_iff_not_bit push_bit_of_1)
  have "NOT 0xFFF AND VMM_ADDR_MASK = VMM_ADDR_MASK" by (simp add: VMM_ADDR_MASK_def)
  moreover have "VMM_PRESENT AND VMM_ADDR_MASK = 0" by (simp add: VMM_ADDR_MASK_def VMM_PRESENT_def)
  ultimately show "target e = phys AND VMM_ADDR_MASK"
    using assms(1) unfolding target_def e_def by (simp add: bit.conj_disj_distrib2 and.assoc)
qed

lemma vmm_map_into_ok:
  assumes ok: "vm_ok L s t4" and nh: "no_huge (ent s) t4 v" and fl: "fl AND VMM_ADDR_MASK = 0"
  shows "\<exists>b s' L'. vmm_map_into s t4 phys v fl = Some (b, s') \<and> vm_ok L' s' t4
    \<and> (\<forall>w. vmm_get_phys_into s' t4 w = (if b \<and> same_page w v then (phys AND VMM_ADDR_MASK) OR (w AND 0xFFF) else vmm_get_phys_into s t4 w))
    \<and> (b \<or> pmm_alloc (vm_pmm s') ZONE_GREEN = Some (0, vm_pmm s')) \<and> (\<forall>w. no_huge (ent s) t4 w \<longrightarrow> no_huge (ent s') t4 w)"
proof -
  have t4: "t4 \<noteq> 0" using tree_table [OF vm_okD(1) [OF ok] tree_root [OF vm_okD(1) [OF ok]]] by simp
  obtain u s' L' where w: "walk s t4 v = Some (u, s')" "vm_ok L' s' t4" "\<And>w. translate (ent s') t4 w = translate (ent s) t4 w"
    "kernel_pml4 s' = kernel_pml4 s" "vm_cr3 s' = vm_cr3 s" "u \<noteq> 0 \<Longrightarrow> \<exists>u3 u2. table_path (ent s') t4 v u3 u2 u"
    "u = 0 \<Longrightarrow> pmm_alloc (vm_pmm s') ZONE_GREEN = Some (0, vm_pmm s')" "\<And>w. no_huge (ent s) t4 w \<Longrightarrow> no_huge (ent s') t4 w"
    using walk_ok [OF ok nh] by metis
  show ?thesis
  proof (cases "u = 0")
    case True
    show ?thesis
      by (intro exI [of _ False] exI [of _ s'] exI [of _ L'])
        (simp add: vmm_map_into_walk [OF t4] w(1,2) True w(7) [OF True] get_phys_translate [OF t4] w(3,8))
  next
    case False
    then obtain u3 u2 where P: "table_path (ent s') t4 v u3 u2 u" using w(6) by blast
    let ?e = "(phys AND NOT 0xFFF) OR fl OR VMM_PRESENT"
    let ?s = "s'\<lparr>vm_mem := st64 (vm_mem s') (entry_addr u (idx1 v)) ?e\<rparr>"
    have m: "vmm_map_into s t4 phys v fl = Some (True, ?s)" by (simp add: vmm_map_into_walk [OF t4] w(1) False)
    note l = leaf_store_ok [OF w(2) P, where e = ?e, unfolded leaf_bits(2) [OF fl]]
    have "vmm_get_phys_into ?s t4 x = (if True \<and> same_page x v then (phys AND VMM_ADDR_MASK) OR (x AND 0xFFF) else vmm_get_phys_into s t4 x)" for x
      unfolding get_phys_translate [OF t4] l(3) w(3) using leaf_bits(1) [OF fl] by simp
    then show ?thesis using m l(1,2) w(8) by blast
  qed
qed

lemma vmm_unmap_into_ok:
  assumes ok: "vm_ok L s t4" and nh: "no_huge (ent s) t4 v"
  shows "vm_ok L (vmm_unmap_into s t4 v) t4
    \<and> (\<forall>w. vmm_get_phys_into (vmm_unmap_into s t4 v) t4 w = (if same_page w v then 0 else vmm_get_phys_into s t4 w))
    \<and> (\<forall>w. no_huge (ent s) t4 w \<longrightarrow> no_huge (ent (vmm_unmap_into s t4 v)) t4 w)"
proof -
  have t4: "t4 \<noteq> 0" using tree_table [OF vm_okD(1) [OF ok] tree_root [OF vm_okD(1) [OF ok]]] by simp
  let ?e4 = "ent s t4 (idx4 v)"
  let ?e3 = "ent s (target ?e4) (idx3 v)"
  let ?e2 = "ent s (target ?e3) (idx2 v)"
  have eq: "vmm_unmap_into s t4 v = (if present ?e4 \<and> present ?e3 \<and> \<not> huge ?e3 \<and> present ?e2 \<and> \<not> huge ?e2
      then s\<lparr>vm_mem := st64 (vm_mem s) (entry_addr (target ?e2) (idx1 v)) 0\<rparr> else s)"
    using t4 by (simp add: vmm_unmap_into_def present_def huge_def ent_def target_def Let_def)
  show ?thesis
  proof (cases "present ?e4 \<and> present ?e3 \<and> present ?e2")
    case True
    then have c: "\<not> huge ?e3" "\<not> huge ?e2" using nh by (simp_all add: no_huge_def Let_def)
    have P: "table_path (ent s) t4 v (target ?e4) (target ?e3) (target ?e2)" using True c by (simp add: table_path_def below_def)
    note l = leaf_store_ok [OF ok P, where e = 0]
    have s': "vmm_unmap_into s t4 v = s\<lparr>vm_mem := st64 (vm_mem s) (entry_addr (target ?e2) (idx1 v)) 0\<rparr>" unfolding eq using True c by simp
    show ?thesis unfolding s' get_phys_translate [OF t4] l(3) using l(1,2) by simp
  next
    case False
    then have s': "vmm_unmap_into s t4 v = s" unfolding eq by auto
    have "translate (ent s) t4 w = 0" if sp: "same_page w v" for w
    proof -
      have i: "idx4 w = idx4 v" "idx3 w = idx3 v" "idx2 w = idx2 v" using sp by (simp_all add: same_page_def)
      have "\<not> huge ?e3" if "present ?e4" "present ?e3" using nh that by (simp add: no_huge_def Let_def)
      then show ?thesis using False by (auto simp: translate_def tr3_def tr2_def Let_def i)
    qed
    then show ?thesis using ok unfolding s' get_phys_translate [OF t4] by simp
  qed
qed

text \<open>C33: mapping and unmapping refine the abstract address space, which is a function from virtual to physical
  addresses.  On a tree of page tables with a sound page allocator, and where no large page covers \<open>v\<close>,
  \<^verbatim>\<open>vmm_map_into\<close> always returns; with success, the addresses of the page of \<open>v\<close> and no others now translate to the
  given frame; without, no page for a table was left and no translation has changed.  \<^verbatim>\<open>vmm_unmap_into\<close> makes exactly
  the addresses of that page untranslated.  Both keep the tables a tree.\<close>

theorem vmm_refines:
  assumes "vm_ok L s t4" and "no_huge (ent s) t4 v" and "fl AND VMM_ADDR_MASK = 0"
  shows "(\<exists>b s' L'. vmm_map_into s t4 phys v fl = Some (b, s') \<and> vm_ok L' s' t4
      \<and> vmm_get_phys_into s' t4 = (\<lambda>w. if b \<and> same_page w v then (phys AND VMM_ADDR_MASK) OR (w AND 0xFFF) else vmm_get_phys_into s t4 w)
      \<and> (b \<or> pmm_alloc (vm_pmm s') ZONE_GREEN = Some (0, vm_pmm s')))
    \<and> vm_ok L (vmm_unmap_into s t4 v) t4
    \<and> vmm_get_phys_into (vmm_unmap_into s t4 v) t4 = (\<lambda>w. if same_page w v then 0 else vmm_get_phys_into s t4 w)"
  unfolding fun_eq_iff using vmm_map_into_ok [OF assms, of phys] vmm_unmap_into_ok [OF assms(1,2)] by blast

lemma and_not_low:
  fixes p :: u64
  assumes "take_bit n p = 0"
  shows "p AND NOT (mask n) = p"
proof (rule bit_eqI)
  fix k
  have "\<not> (k < n \<and> bit p k)" using assms by (metis bit_take_bit_iff bit_0_eq bot_apply bot_bool_def)
  then show "bit (p AND NOT (mask n)) k = bit p k"
    by (auto simp: bit_and_iff bit_not_iff bit_mask_iff dest: bit_imp_le_length)
qed

lemma avail_tables:
  assumes inv: "pmm_inv s" and top: "unat (g_frame_base s) + unat (g_frame_count s) * 4096 \<le> 2 ^ 52" and p: "p \<in> pmm_avail s"
  shows "is_table p" "g_frame_base s \<le> p"
proof -
  obtain k where k: "p = idx_to_phys s (of_nat k)" "k < length (g_frames s)" using p by (auto simp: pmm_avail_def)
  have c: "length (g_frames s) = unat (g_frame_count s)" using inv by (simp add: pmm_inv_def)
  have n: "unat (of_nat k :: u64) = k" using k(2) c unat_u64 [of "g_frame_count s"] by (intro unat_of_nat64) simp
  then have "of_nat k < g_frame_count s" using k(2) c by (simp add: word_less_nat_alt)
  from idx_phys_idx(3) [OF inv this] have u: "unat p = unat (g_frame_base s) + k * 4096" unfolding n k(1) .
  then show "g_frame_base s \<le> p" by (simp add: word_le_nat_alt)
  have "4096 dvd unat (g_frame_base s)" using inv by (simp add: pmm_inv_def)
  then have "unat p mod 4096 = 0" unfolding u by (auto simp: mod_eq_0_iff_dvd)
  then have "unat (take_bit 12 p) = 0" by (simp add: take_bit_eq_mod unat_mod)
  then have t12: "take_bit 12 p = 0" by (simp add: unat_eq_0)
  have "(k + 1) * 4096 \<le> unat (g_frame_count s) * 4096" using k(2) c by (intro mult_right_mono) simp_all
  then have "unat p < 2 ^ 52" using top unfolding u by simp
  then have "unat (take_bit 52 p) = unat p" by (simp add: take_bit_eq_mod unat_mod)
  then have t52: "take_bit 52 p = p" by (rule word_unat_eq_iff [THEN iffD2])
  have m: "VMM_ADDR_MASK = mask 52 AND NOT (mask 12)" by (simp add: VMM_ADDR_MASK_def mask_eq_exp_minus_1)
  have "p AND VMM_ADDR_MASK = take_bit 52 p AND NOT (mask 12)" unfolding m by (simp add: take_bit_eq_mask and.assoc)
  also have "\<dots> = p" unfolding t52 by (rule and_not_low [OF t12])
  finally show "is_table p" using t12 by (simp add: is_table_def take_bit_eq_mask mask_eq_exp_minus_1)
qed

text \<open>An empty top-level table at 0x1000, with the page frames of a small machine.\<close>

definition demo_vm :: vmm where
  "demo_vm = \<lparr>vm_mem = (\<lambda>_. 0), vm_pmm = demo_pmm, kernel_pml4 = 0x1000, vm_cr3 = 0x1000\<rparr>"

lemma demo_vm_ent: "ent demo_vm t i = 0"
  by (simp add: ent_def demo_vm_def ld_def upt_rec)

lemma demo_vm_ok: "vm_ok [0x1000 \<mapsto> 4] demo_vm 0x1000"
  unfolding vm_ok_def
proof (intro conjI ballI)
  have b: "unat (g_frame_base demo_pmm) + unat (g_frame_count demo_pmm) * 4096 \<le> 2 ^ 52" "0x1000 < g_frame_base demo_pmm"
    by (simp_all add: demo_pmm_def pmm_init_def PAGE_SIZE_def sizeof_page_frame_def Let_def)
  show "tree_ok [0x1000 \<mapsto> 4] (ent demo_vm) 0x1000" by (simp add: tree_ok_def demo_vm_ent is_table_def VMM_ADDR_MASK_def)
  show "pmm_inv (vm_pmm demo_vm)" using demo_pmm_inv by (simp add: demo_vm_def)
  show "dom [0x1000 \<mapsto> 4] \<inter> pmm_avail (vm_pmm demo_vm) = {}" using avail_tables(2) [OF demo_pmm_inv b(1), of "0x1000"] b(2) by (auto simp: demo_vm_def)
  show "is_table p" if "p \<in> pmm_avail (vm_pmm demo_vm)" for p using avail_tables(1) [OF demo_pmm_inv b(1), of p] that by (simp add: demo_vm_def)
qed

theorem vmm_refines_witness:
  "(\<exists>b s'. vmm_map_into demo_vm 0x1000 0x5000 0x401000 (VMM_WRITE OR VMM_NX) = Some (b, s')
      \<and> vmm_get_phys_into s' 0x1000 0x401234 = (if b then 0x5234 else 0)
      \<and> vmm_get_phys_into s' 0x1000 0x402000 = 0)
   \<and> vmm_get_phys_into (vmm_unmap_into demo_vm 0x1000 0x401000) 0x1000 0x401234 = 0"
proof -
  have nh: "no_huge (ent demo_vm) 0x1000 0x401000" by (simp add: no_huge_def demo_vm_ent)
  have fl: "(VMM_WRITE OR VMM_NX) AND VMM_ADDR_MASK = 0" by (simp add: VMM_WRITE_def VMM_NX_def VMM_ADDR_MASK_def)
  have sp: "same_page 0x401234 0x401000" "\<not> same_page 0x402000 0x401000" by (simp_all add: same_page_def idx4_def idx3_def idx2_def idx1_def)
  have z: "vmm_get_phys_into demo_vm 0x1000 w = 0" for w by (simp add: get_phys_translate translate_def demo_vm_ent)
  note r = vmm_refines [OF demo_vm_ok nh fl, of "0x5000", unfolded fun_eq_iff z]
  obtain b s' where m: "vmm_map_into demo_vm 0x1000 0x5000 0x401000 (VMM_WRITE OR VMM_NX) = Some (b, s')"
    and t: "\<forall>w. vmm_get_phys_into s' 0x1000 w = (if b \<and> same_page w 0x401000 then (0x5000 AND VMM_ADDR_MASK) OR (w AND 0xFFF) else 0)"
    using r by blast
  have "vmm_get_phys_into s' 0x1000 0x401234 = (if b then 0x5234 else 0)" using t sp(1) by (simp add: VMM_ADDR_MASK_def)
  moreover have "vmm_get_phys_into s' 0x1000 0x402000 = 0" using t sp(2) by simp
  moreover have "vmm_get_phys_into (vmm_unmap_into demo_vm 0x1000 0x401000) 0x1000 0x401234 = 0" using r sp(1) by simp
  ultimately show ?thesis using m by blast
qed

end
