(* ===== verification/Scheduler.thy ===== *)
theory Scheduler
  imports Capability
begin

text \<open>
  The process table and the scheduler (\<^verbatim>\<open>kernel/proc/process.h\<close>, \<^verbatim>\<open>kernel/proc/scheduler.c\<close>): one
  queue per intent, linked through the table by \<^verbatim>\<open>sched_next\<close>, served in a fixed order.  A pointer
  to a process is its index in the table.  The abstract queues are lists of indices.
\<close>

definition MAX_PROCESSES :: nat where "MAX_PROCESSES = 256"
definition MAX_CAPS_PER_PROC :: nat where "MAX_CAPS_PER_PROC = 64"
definition KERNEL_STACK_SIZE :: u64 where "KERNEL_STACK_SIZE = 16 * 1024"

datatype proc_state = PROC_UNUSED | PROC_RUNNING | PROC_READY | PROC_BLOCKED | PROC_ZOMBIE

definition INTENT_COMPUTE :: nat where "INTENT_COMPUTE = 0"
definition INTENT_IO :: nat where "INTENT_IO = 1"
definition INTENT_NETWORK :: nat where "INTENT_NETWORK = 2"
definition INTENT_INTERACTIVE :: nat where "INTENT_INTERACTIVE = 3"
definition INTENT_AUDIT :: nat where "INTENT_AUDIT = 4"
definition INTENT_COUNT :: nat where "INTENT_COUNT = 5"

record cpu_context =
  cx_r15 :: u64
  cx_r14 :: u64
  cx_r13 :: u64
  cx_r12 :: u64
  cx_rbx :: u64
  cx_rbp :: u64
  cx_rsp :: u64
  cx_rip :: u64

record cap_entry =
  ce_token :: cap_token
  ce_owner_pid :: u32
  ce_expire_tick :: u64
  ce_revoked :: bool
  ce_delegatable :: bool

text \<open>The two saved interrupt frames are lists of register values.\<close>

record process =
  pr_pid :: u32
  pr_parent_pid :: u32
  pr_state :: proc_state
  pr_intent :: nat
  pr_context :: cpu_context
  pr_cr3 :: u64
  pr_kernel_stack :: u64
  pr_kernel_stack_top :: u64
  pr_caps :: "cap_entry list"
  pr_cap_count :: nat
  pr_ticks_used :: u64
  pr_exit_code :: int
  pr_mmap_top :: u64
  pr_blocked_on_pid :: u32
  pr_wake_tick :: u64
  pr_user_entry :: u64
  pr_user_stack_top :: u64
  pr_sched_next :: "nat option"
  pr_ipc :: u64
  pr_fs_base :: u64
  pr_fpu_state :: u64
  pr_sig_handlers :: "u64 list"
  pr_sig_in_progress :: bool
  pr_sig_saved_frame :: "u64 list"
  pr_pending_signals :: u32
  pr_fork_frame :: "u64 list"
  pr_uid :: u32
  pr_gid :: u32

text \<open>
  The scheduler's variables, the process table, and the CPU state it sets: the stack pointers
  that follow the current process, the FS base, the FPU registers and the FXSAVE areas, and the
  interrupt flag.  \<open>sc_halts\<close> counts the executions of \<^verbatim>\<open>hlt\<close>.
\<close>

record sched =
  g_proc_table :: "process list"
  g_next_pid :: u32
  g_current_proc :: "nat option"
  g_kernel_stack_top :: u64
  g_syscall_kernel_rsp :: u64
  tss_rsp0 :: u64
  g_queues :: "nat option list"
  g_ticks_remaining :: u32
  g_uptime_ticks :: u64
  cpu_fs_base :: u64
  cpu_fpu :: "u8 list"
  fpu_areas :: "u64 \<Rightarrow> u8 list"
  cpu_if :: bool
  sc_halts :: nat

definition SLICES :: "u32 list" where "SLICES = [20, 5, 8, 4, 10]"

definition QUEUE_ORDER :: "nat list" where
  "QUEUE_ORDER = [INTENT_AUDIT, INTENT_INTERACTIVE, INTENT_IO, INTENT_NETWORK, INTENT_COMPUTE]"

definition pget :: "sched \<Rightarrow> nat \<Rightarrow> process" where "pget s i = g_proc_table s ! i"

definition pset :: "nat \<Rightarrow> (process \<Rightarrow> process) \<Rightarrow> sched \<Rightarrow> sched" where
  "pset i f s = s\<lparr>g_proc_table := (g_proc_table s)[i := f (g_proc_table s ! i)]\<rparr>"

definition qset :: "nat \<Rightarrow> nat option \<Rightarrow> sched \<Rightarrow> sched" where
  "qset q h s = s\<lparr>g_queues := (g_queues s)[q := h]\<rparr>"

text \<open>\<^verbatim>\<open>proc_get\<close> searches the table for a live entry with the pid.\<close>

definition proc_get :: "sched \<Rightarrow> u32 \<Rightarrow> nat option" where
  "proc_get s pid = first_idx (\<lambda>p. pr_pid p = pid \<and> pr_state p \<noteq> PROC_UNUSED) (g_proc_table s)"

definition proc_get_table :: "sched \<Rightarrow> process list \<times> nat" where
  "proc_get_table s = (g_proc_table s, MAX_PROCESSES)"

definition sched_init :: "sched \<Rightarrow> sched" where
  "sched_init s = s\<lparr>g_queues := replicate INTENT_COUNT None, g_ticks_remaining := 0\<rparr>"

datatype scan_result = Scan_Found | Scan_Cycle | Scan_End

text \<open>
  The two guarded walks of \<^verbatim>\<open>sched_enqueue\<close>; the number is how often \<^verbatim>\<open>guard\<close> may still be increased.
\<close>

fun dedup_scan :: "sched \<Rightarrow> nat \<Rightarrow> nat \<Rightarrow> nat option \<Rightarrow> scan_result" where
  "dedup_scan s p n None = Scan_End"
| "dedup_scan s p 0 (Some c) = (if c = p then Scan_Found else Scan_Cycle)"
| "dedup_scan s p (Suc n) (Some c) =
     (if c = p then Scan_Found else dedup_scan s p n (pr_sched_next (pget s c)))"

fun append_scan :: "sched \<Rightarrow> nat \<Rightarrow> nat \<Rightarrow> nat option" where
  "append_scan s n c =
     (case pr_sched_next (pget s c) of
        None \<Rightarrow> Some c
      | Some c' \<Rightarrow> (case n of 0 \<Rightarrow> None | Suc n' \<Rightarrow> append_scan s n' c'))"

definition sched_enqueue :: "nat option \<Rightarrow> sched \<Rightarrow> sched" where
  "sched_enqueue po s =
     (case po of
        None \<Rightarrow> s
      | Some p \<Rightarrow>
          (let q = pr_intent (pget s p) in
           if INTENT_COUNT \<le> q then s
           else case dedup_scan s p MAX_PROCESSES (g_queues s ! q) of
               Scan_Found \<Rightarrow> s
             | Scan_Cycle \<Rightarrow> s
             | Scan_End \<Rightarrow>
                 (let s = pset p (\<lambda>r. r\<lparr>pr_sched_next := None\<rparr>) s in
                  case g_queues s ! q of
                    None \<Rightarrow> qset q (Some p) s
                  | Some h \<Rightarrow>
                      (case append_scan s MAX_PROCESSES h of
                         None \<Rightarrow> s
                       | Some c \<Rightarrow> pset c (\<lambda>r. r\<lparr>pr_sched_next := Some p\<rparr>) s))))"

text \<open>The walk of \<^verbatim>\<open>sched_dequeue\<close> has no guard.\<close>

partial_function (option) dequeue_scan ::
    "sched \<Rightarrow> nat \<Rightarrow> nat \<Rightarrow> nat option \<Rightarrow> nat option \<Rightarrow> sched option" where
  "dequeue_scan s p q prev cur =
     (case cur of
        None \<Rightarrow> Some s
      | Some c \<Rightarrow>
          if c = p then
            (let nx = pr_sched_next (pget s c);
                 s = (case prev of
                        Some pv \<Rightarrow> pset pv (\<lambda>r. r\<lparr>pr_sched_next := nx\<rparr>) s
                      | None \<Rightarrow> qset q nx s)
             in Some (pset c (\<lambda>r. r\<lparr>pr_sched_next := None\<rparr>) s))
          else dequeue_scan s p q (Some c) (pr_sched_next (pget s c)))"

definition sched_dequeue :: "nat option \<Rightarrow> sched \<Rightarrow> sched option" where
  "sched_dequeue po s =
     (case po of
        None \<Rightarrow> Some s
      | Some p \<Rightarrow>
          (let q = pr_intent (pget s p) in
           if INTENT_COUNT \<le> q then Some s else dequeue_scan s p q None (g_queues s ! q)))"

definition sched_next :: "sched \<Rightarrow> nat option" where
  "sched_next s =
     (case filter (\<lambda>q. g_queues s ! q \<noteq> None) QUEUE_ORDER of [] \<Rightarrow> None | q # _ \<Rightarrow> g_queues s ! q)"

definition make_current :: "nat \<Rightarrow> sched \<Rightarrow> sched" where
  "make_current p s =
     (let top = pr_kernel_stack_top (pget s p) in
      s\<lparr>g_current_proc := Some p, g_kernel_stack_top := top, g_syscall_kernel_rsp := top, tss_rsp0 := top\<rparr>)"

definition unblock_waiter :: "nat \<Rightarrow> sched \<Rightarrow> sched" where
  "unblock_waiter i s =
     (let p = pget s i in
      if pr_state p \<noteq> PROC_BLOCKED \<or> pr_blocked_on_pid p = 0 then s
      else
        (let child = proc_get s (pr_blocked_on_pid p) in
         if (case child of None \<Rightarrow> True | Some c \<Rightarrow> pr_state (pget s c) = PROC_ZOMBIE)
         then sched_enqueue (Some i) (pset i (\<lambda>r. r\<lparr>pr_blocked_on_pid := 0, pr_state := PROC_READY\<rparr>) s)
         else s))"

definition unblock_waiters :: "sched \<Rightarrow> sched" where
  "unblock_waiters s = fold unblock_waiter [0..<MAX_PROCESSES] s"

definition unblock_sleeper :: "nat \<Rightarrow> sched \<Rightarrow> sched" where
  "unblock_sleeper i s =
     (let p = pget s i in
      if pr_state p \<noteq> PROC_BLOCKED \<or> pr_wake_tick p = 0 then s
      else if pr_wake_tick p \<le> g_uptime_ticks s
      then sched_enqueue (Some i) (pset i (\<lambda>r. r\<lparr>pr_wake_tick := 0, pr_state := PROC_READY\<rparr>) s)
      else s)"

definition unblock_sleepers :: "sched \<Rightarrow> sched" where
  "unblock_sleepers s = fold unblock_sleeper [0..<MAX_PROCESSES] s"

text \<open>The timer tick; \<open>net_poll\<close> stands for the network stack's share of it.\<close>

definition sched_tick :: "(sched \<Rightarrow> sched) \<Rightarrow> sched \<Rightarrow> sched" where
  "sched_tick net_poll s =
     (let s = s\<lparr>g_uptime_ticks := g_uptime_ticks s + 1\<rparr>;
          s = (case g_current_proc s of
                 Some c \<Rightarrow> pset c (\<lambda>r. r\<lparr>pr_ticks_used := pr_ticks_used r + 1\<rparr>) s
               | None \<Rightarrow> s);
          s = unblock_sleepers s;
          s = unblock_waiters s
      in net_poll s)"

text \<open>
  \<^verbatim>\<open>sti; hlt; cli\<close>: \<open>irq k\<close> is what the interrupt handlers do while the CPU sleeps for the \<open>k\<close>-th time.
\<close>

definition sti_hlt_cli :: "(nat \<Rightarrow> sched \<Rightarrow> sched) \<Rightarrow> sched \<Rightarrow> sched" where
  "sti_hlt_cli irq s =
     (let s = irq (sc_halts s) s in s\<lparr>sc_halts := sc_halts s + 1, cpu_if := False\<rparr>)"

partial_function (option) idle_loop :: "(nat \<Rightarrow> sched \<Rightarrow> sched) \<Rightarrow> sched \<Rightarrow> (nat \<times> sched) option" where
  "idle_loop irq s =
     (let s = sti_hlt_cli irq s;
          s = unblock_sleepers s;
          s = unblock_waiters s
      in case sched_next s of Some n \<Rightarrow> Some (n, s) | None \<Rightarrow> idle_loop irq s)"

text \<open>
  The tail of \<^verbatim>\<open>sched_yield\<close> once the next process is chosen.  The result says which process
  \<^verbatim>\<open>context_switch\<close> leaves and which it enters, if it is called at all.
\<close>

definition switch_to :: "nat \<Rightarrow> nat \<Rightarrow> sched \<Rightarrow> ((nat \<times> nat) option \<times> sched) option" where
  "switch_to prev nx s =
     (case sched_dequeue (Some nx) s of
        None \<Rightarrow> None
      | Some s \<Rightarrow>
          (let s = make_current nx s;
               s = s\<lparr>g_ticks_remaining := SLICES ! pr_intent (pget s nx)\<rparr>;
               s = pset nx (\<lambda>r. r\<lparr>pr_state := PROC_RUNNING\<rparr>) s
           in if nx = prev then Some (None, s)
              else
                (let pf = pr_fpu_state (pget s prev);
                     nf = pr_fpu_state (pget s nx);
                     s = (if pf \<noteq> 0 then s\<lparr>fpu_areas := (fpu_areas s)(pf := cpu_fpu s)\<rparr> else s);
                     s = (if nf \<noteq> 0 then s\<lparr>cpu_fpu := fpu_areas s nf\<rparr> else s);
                     s = s\<lparr>cpu_fs_base := pr_fs_base (pget s nx)\<rparr>
                 in Some (Some (prev, nx), s))))"

definition sched_yield :: "(nat \<Rightarrow> sched \<Rightarrow> sched) \<Rightarrow> sched \<Rightarrow> ((nat \<times> nat) option \<times> sched) option" where
  "sched_yield irq s =
     (case g_current_proc s of
        None \<Rightarrow> Some (None, s)
      | Some prev \<Rightarrow>
          (let s = s\<lparr>cpu_if := False\<rparr>;
               requeue_prev = (pr_state (pget s prev) = PROC_RUNNING);
               s = (if requeue_prev
                    then sched_enqueue (Some prev) (pset prev (\<lambda>r. r\<lparr>pr_state := PROC_READY\<rparr>) s) else s);
               s = s\<lparr>g_current_proc := None\<rparr>;
               s = unblock_waiters s
           in case sched_next s of
                Some nx \<Rightarrow> switch_to prev nx s
              | None \<Rightarrow>
                  if requeue_prev then
                    (let s = sti_hlt_cli irq s;
                         s = make_current prev s;
                         s = pset prev (\<lambda>r. r\<lparr>pr_state := PROC_RUNNING\<rparr>) s
                     in Some (None, s\<lparr>cpu_if := True\<rparr>))
                  else (case idle_loop irq s of None \<Rightarrow> None | Some (nx, s) \<Rightarrow> switch_to prev nx s)))"

subsection \<open>Queues as lists\<close>

fun linked :: "sched \<Rightarrow> nat option \<Rightarrow> nat list \<Rightarrow> bool" where
  "linked s h [] \<longleftrightarrow> h = None"
| "linked s h (x # xs) \<longleftrightarrow> h = Some x \<and> linked s (pr_sched_next (pget s x)) xs"

definition queue_ok :: "sched \<Rightarrow> nat \<Rightarrow> nat list \<Rightarrow> bool" where
  "queue_ok s q xs \<longleftrightarrow> linked s (g_queues s ! q) xs \<and> distinct xs
     \<and> (\<forall>x \<in> set xs. x < MAX_PROCESSES \<and> pr_intent (pget s x) = q)"

definition sched_wf :: "sched \<Rightarrow> nat list list \<Rightarrow> bool" where
  "sched_wf s qs \<longleftrightarrow> length (g_proc_table s) = MAX_PROCESSES \<and> length (g_queues s) = INTENT_COUNT
     \<and> length qs = INTENT_COUNT \<and> (\<forall>q < INTENT_COUNT. queue_ok s q (qs ! q))"

text \<open>A process without its queue link, and what the operations leave of the rest.\<close>

definition unlink :: "process \<Rightarrow> process" where
  "unlink r = r\<lparr>pr_sched_next := None\<rparr>"

definition same_procs :: "sched \<Rightarrow> sched \<Rightarrow> bool" where
  "same_procs s s' \<longleftrightarrow> length (g_proc_table s') = length (g_proc_table s) \<and> (\<forall>i. unlink (pget s' i) = unlink (pget s i))
     \<and> s'\<lparr>g_proc_table := [], g_queues := []\<rparr> = s\<lparr>g_proc_table := [], g_queues := []\<rparr>"

definition enq :: "nat \<Rightarrow> nat list \<Rightarrow> nat list" where
  "enq p xs = (if p \<in> set xs then xs else xs @ [p])"

subsection \<open>Field updates\<close>

lemma pget_pset:
  "i < length (g_proc_table s) \<Longrightarrow> pget (pset i f s) j = (if j = i then f (pget s i) else pget s j)"
  by (simp add: pget_def pset_def)

lemma pget_pset_other [simp]: "j \<noteq> i \<Longrightarrow> pget (pset i f s) j = pget s j"
  by (simp add: pget_def pset_def)

lemma pset_sel [simp]:
  "length (g_proc_table (pset i f s)) = length (g_proc_table s)" "g_queues (pset i f s) = g_queues s"
  "g_current_proc (pset i f s) = g_current_proc s"
  by (simp_all add: pset_def)

lemma qset_sel [simp]:
  "g_proc_table (qset q h s) = g_proc_table s" "pget (qset q h s) i = pget s i"
  "g_queues (qset q h s) = (g_queues s)[q := h]" "g_current_proc (qset q h s) = g_current_proc s"
  by (simp_all add: qset_def pget_def)

lemma same_procs_refl [simp]: "same_procs s s"
  by (simp add: same_procs_def)

lemma same_procs_trans: "same_procs s s' \<Longrightarrow> same_procs s' s'' \<Longrightarrow> same_procs s s''"
  by (simp add: same_procs_def)

lemma same_procs_pset [simp]: "same_procs s (pset i (\<lambda>r. r\<lparr>pr_sched_next := n\<rparr>) s)"
proof (cases "i < length (g_proc_table s)")
  case True
  then show ?thesis by (auto simp: same_procs_def pget_pset unlink_def) (simp add: pset_def)
next
  case False
  then have "pset i (\<lambda>r. r\<lparr>pr_sched_next := n\<rparr>) s = s"
    by (simp add: pset_def not_less list_update_beyond)
  then show ?thesis by simp
qed

lemma same_procs_qset [simp]: "same_procs s (qset q h s)"
  by (simp add: same_procs_def qset_def pget_def)

lemma unlink_fields:
  assumes "unlink r' = unlink r"
  shows "pr_pid r' = pr_pid r" "pr_state r' = pr_state r" "pr_intent r' = pr_intent r"
    "pr_blocked_on_pid r' = pr_blocked_on_pid r" "pr_wake_tick r' = pr_wake_tick r"
    "pr_kernel_stack_top r' = pr_kernel_stack_top r"
proof -
  have u: "pr_pid (unlink r) = pr_pid r" "pr_state (unlink r) = pr_state r" "pr_intent (unlink r) = pr_intent r"
    "pr_blocked_on_pid (unlink r) = pr_blocked_on_pid r" "pr_wake_tick (unlink r) = pr_wake_tick r"
    "pr_kernel_stack_top (unlink r) = pr_kernel_stack_top r" for r
    by (simp_all add: unlink_def)
  show "pr_pid r' = pr_pid r" "pr_state r' = pr_state r" "pr_intent r' = pr_intent r"
    "pr_blocked_on_pid r' = pr_blocked_on_pid r" "pr_wake_tick r' = pr_wake_tick r"
    "pr_kernel_stack_top r' = pr_kernel_stack_top r"
    using u [of r] u [of r'] assms by auto
qed

lemma same_procs_fields:
  assumes "same_procs s s'"
  shows "pr_pid (pget s' i) = pr_pid (pget s i)" "pr_state (pget s' i) = pr_state (pget s i)"
    "pr_intent (pget s' i) = pr_intent (pget s i)" "pr_blocked_on_pid (pget s' i) = pr_blocked_on_pid (pget s i)"
    "pr_wake_tick (pget s' i) = pr_wake_tick (pget s i)" "pr_kernel_stack_top (pget s' i) = pr_kernel_stack_top (pget s i)"
  using unlink_fields [of "pget s' i" "pget s i"] assms by (simp_all add: same_procs_def)

lemma same_procs_rest:
  assumes "same_procs s s'"
  shows "g_current_proc s' = g_current_proc s" "g_uptime_ticks s' = g_uptime_ticks s"
    "length (g_proc_table s') = length (g_proc_table s)" "cpu_if s' = cpu_if s" "sc_halts s' = sc_halts s"
proof -
  have e: "s'\<lparr>g_proc_table := [], g_queues := []\<rparr> = s\<lparr>g_proc_table := [], g_queues := []\<rparr>"
    using assms by (simp add: same_procs_def)
  show "length (g_proc_table s') = length (g_proc_table s)" using assms by (simp add: same_procs_def)
  show "g_current_proc s' = g_current_proc s" "g_uptime_ticks s' = g_uptime_ticks s" "cpu_if s' = cpu_if s" "sc_halts s' = sc_halts s"
    using arg_cong [OF e, of g_current_proc] arg_cong [OF e, of g_uptime_ticks] arg_cong [OF e, of cpu_if]
      arg_cong [OF e, of sc_halts] by simp_all
qed

subsection \<open>Linked lists\<close>

lemma linked_cong:
  "(\<And>x. x \<in> set xs \<Longrightarrow> pr_sched_next (pget s' x) = pr_sched_next (pget s x)) \<Longrightarrow> linked s' h xs = linked s h xs"
  by (induction xs arbitrary: h) auto

lemma dedup_scan_linked:
  "linked s h xs \<Longrightarrow> length xs \<le> n \<Longrightarrow> dedup_scan s p n h = (if p \<in> set xs then Scan_Found else Scan_End)"
proof (induction xs arbitrary: h n)
  case (Cons x xs)
  then show ?case by (cases n) auto
qed simp

lemma append_scan_linked:
  "linked s (Some h) (h # xs) \<Longrightarrow> length xs \<le> n \<Longrightarrow> append_scan s n h = Some (last (h # xs))"
proof (induction xs arbitrary: h n)
  case (Cons x xs)
  then show ?case by (cases n) auto
qed simp

lemma linked_append:
  "linked s h xs \<Longrightarrow> xs \<noteq> [] \<Longrightarrow> distinct xs \<Longrightarrow> p \<notin> set xs \<Longrightarrow> last xs < length (g_proc_table s) \<Longrightarrow>
   pr_sched_next (pget s p) = None \<Longrightarrow> linked (pset (last xs) (\<lambda>r. r\<lparr>pr_sched_next := Some p\<rparr>) s) h (xs @ [p])"
proof (induction xs arbitrary: h)
  case (Cons x xs)
  let ?s = "pset (last (x # xs)) (\<lambda>r. r\<lparr>pr_sched_next := Some p\<rparr>) s"
  show ?case
  proof (cases "xs = []")
    case True
    with Cons.prems show ?thesis by (auto simp: pget_pset)
  next
    case False
    then have "last xs \<noteq> x" using Cons.prems(3) last_in_set by fastforce
    moreover have "linked ?s (pr_sched_next (pget s x)) (xs @ [p])"
      using Cons.IH [of "pr_sched_next (pget s x)"] Cons.prems False by simp
    ultimately show ?thesis using Cons.prems(1) False by simp
  qed
qed simp

lemma distinct_bound: "distinct xs \<Longrightarrow> (\<forall>x \<in> set xs. x < n) \<Longrightarrow> length xs \<le> (n :: nat)"
  using card_mono [of "{..<n}" "set xs"] by (auto simp: distinct_card subset_iff)

lemma queue_ok_cong:
  assumes "g_queues s' ! q = g_queues s ! q" and "\<And>x. pr_intent (pget s' x) = pr_intent (pget s x)"
    and "\<And>x. x \<in> set xs \<Longrightarrow> pr_sched_next (pget s' x) = pr_sched_next (pget s x)"
  shows "queue_ok s' q xs = queue_ok s q xs"
  using linked_cong [of xs s' s] assms by (auto simp: queue_ok_def)

lemma sched_wfD:
  assumes "sched_wf s qs" and "q < INTENT_COUNT"
  shows "linked s (g_queues s ! q) (qs ! q)" "distinct (qs ! q)"
    "\<And>x. x \<in> set (qs ! q) \<Longrightarrow> x < MAX_PROCESSES \<and> pr_intent (pget s x) = q" "length (qs ! q) \<le> MAX_PROCESSES"
proof -
  have k: "queue_ok s q (qs ! q)" using assms by (simp add: sched_wf_def)
  then show "linked s (g_queues s ! q) (qs ! q)" "distinct (qs ! q)"
    "\<And>x. x \<in> set (qs ! q) \<Longrightarrow> x < MAX_PROCESSES \<and> pr_intent (pget s x) = q" by (auto simp: queue_ok_def)
  then show "length (qs ! q) \<le> MAX_PROCESSES" by (intro distinct_bound) auto
qed

text \<open>Changing the links of processes of one queue leaves the other queues alone.\<close>

lemma sched_wf_one_queue:
  assumes wf: "sched_wf s qs" and q: "q < INTENT_COUNT" and same: "same_procs s s'"
    and links: "\<And>x. pr_intent (pget s x) \<noteq> q \<Longrightarrow> pr_sched_next (pget s' x) = pr_sched_next (pget s x)"
    and heads: "length (g_queues s') = length (g_queues s)" "\<And>r. r \<noteq> q \<Longrightarrow> g_queues s' ! r = g_queues s ! r"
    and new: "queue_ok s' q xs"
  shows "sched_wf s' (qs[q := xs])"
proof -
  have "queue_ok s' r (qs[q := xs] ! r)" if "r < INTENT_COUNT" for r
  proof (cases "r = q")
    case True
    then show ?thesis using new q wf by (simp add: sched_wf_def)
  next
    case False
    have "queue_ok s r (qs ! r)" using wf that by (simp add: sched_wf_def)
    moreover have "queue_ok s' r (qs ! r) = queue_ok s r (qs ! r)"
    proof (rule queue_ok_cong)
      show "g_queues s' ! r = g_queues s ! r" by (rule heads(2) [OF False])
      show "pr_intent (pget s' x) = pr_intent (pget s x)" for x by (rule same_procs_fields(3) [OF same])
      show "pr_sched_next (pget s' x) = pr_sched_next (pget s x)" if "x \<in> set (qs ! r)" for x
        using sched_wfD(3) [OF wf \<open>r < INTENT_COUNT\<close> that] False by (intro links) simp
    qed
    ultimately show ?thesis using False by simp
  qed
  moreover have "length (g_proc_table s') = length (g_proc_table s)" by (rule same_procs_rest(3) [OF same])
  ultimately show ?thesis using wf heads(1) by (simp add: sched_wf_def)
qed

lemma sched_enqueue_ok:
  assumes wf: "sched_wf s qs" and p: "p < MAX_PROCESSES" and q: "pr_intent (pget s p) = q" "q < INTENT_COUNT"
  shows "sched_wf (sched_enqueue (Some p) s) (qs[q := enq p (qs ! q)])" "same_procs s (sched_enqueue (Some p) s)"
proof -
  note d = sched_wfD [OF wf q(2)]
  have len: "length (g_proc_table s) = MAX_PROCESSES" "length (g_queues s) = INTENT_COUNT" using wf by (auto simp: sched_wf_def)
  have scan: "dedup_scan s p MAX_PROCESSES (g_queues s ! q) = (if p \<in> set (qs ! q) then Scan_Found else Scan_End)"
    by (rule dedup_scan_linked [OF d(1,4)])
  have "sched_wf (sched_enqueue (Some p) s) (qs[q := enq p (qs ! q)]) \<and> same_procs s (sched_enqueue (Some p) s)"
  proof (cases "p \<in> set (qs ! q)")
    case True
    then show ?thesis using scan q wf by (simp add: sched_enqueue_def enq_def)
  next
    case False
    let ?s1 = "pset p (\<lambda>r. r\<lparr>pr_sched_next := None\<rparr>) s"
    have n1: "pr_sched_next (pget ?s1 p) = None" using p len by (simp add: pget_pset)
    have o1: "pget ?s1 x = pget s x" if "x \<noteq> p" for x using that by simp
    have l1: "linked ?s1 (g_queues s ! q) (qs ! q)"
      using d(1) linked_cong [of "qs ! q" ?s1 s] False o1 by metis
    show ?thesis
    proof (cases "qs ! q")
      case Nil
      then have h: "g_queues s ! q = None" using d(1) by simp
      let ?s2 = "qset q (Some p) ?s1"
      have e: "sched_enqueue (Some p) s = ?s2"
        using scan q False h by (simp add: sched_enqueue_def Let_def)
      have sp: "same_procs s ?s2" using same_procs_trans [OF same_procs_pset same_procs_qset] .
      have "queue_ok ?s2 q [p]"
        using n1 p q len same_procs_fields(3) [OF sp, of p] by (simp add: queue_ok_def)
      then have "sched_wf ?s2 (qs[q := [p]])"
        using q o1 by (intro sched_wf_one_queue [OF wf q(2) sp]) (auto, metis o1)
      then show ?thesis using e sp Nil by (simp add: enq_def)
    next
      case (Cons h xs)
      then have h: "g_queues s ! q = Some h" using d(1) by simp
      have sc: "append_scan ?s1 MAX_PROCESSES h = Some (last (h # xs))"
        using l1 d(4) unfolding Cons h by (intro append_scan_linked) simp_all
      let ?s2 = "pset (last (h # xs)) (\<lambda>r. r\<lparr>pr_sched_next := Some p\<rparr>) ?s1"
      have e: "sched_enqueue (Some p) s = ?s2"
        using scan q False h sc by (simp add: sched_enqueue_def Let_def)
      have sp: "same_procs s ?s2" using same_procs_trans [OF same_procs_pset same_procs_pset] .
      have lastin: "last (h # xs) \<in> set (qs ! q)" using last_in_set [of "h # xs"] Cons by simp
      have lk: "linked ?s2 (g_queues s ! q) ((h # xs) @ [p])"
        using l1 d(2,3) False lastin len n1 unfolding Cons by (intro linked_append) auto
      have "queue_ok ?s2 q ((h # xs) @ [p])"
        using lk d(2,3) False p q same_procs_fields(3) [OF sp] unfolding Cons queue_ok_def by auto
      moreover have "pr_sched_next (pget ?s2 x) = pr_sched_next (pget s x)" if "pr_intent (pget s x) \<noteq> q" for x
      proof -
        have "x \<noteq> p" "x \<noteq> last (h # xs)" using that q d(3) [OF lastin] by auto
        then show ?thesis by simp
      qed
      ultimately have "sched_wf ?s2 (qs[q := (h # xs) @ [p]])"
        by (intro sched_wf_one_queue [OF wf q(2) sp]) auto
      then show ?thesis using e sp False Cons by (simp add: enq_def)
    qed
  qed
  then show "sched_wf (sched_enqueue (Some p) s) (qs[q := enq p (qs ! q)])" "same_procs s (sched_enqueue (Some p) s)"
    by auto
qed

text \<open>Taking the head of a queue, which is all \<^verbatim>\<open>sched_yield\<close> does.\<close>

lemma sched_dequeue_head:
  assumes wf: "sched_wf s qs" and q: "q < INTENT_COUNT" and hd: "qs ! q = p # xs"
  shows "\<exists>s'. sched_dequeue (Some p) s = Some s' \<and> sched_wf s' (qs[q := xs]) \<and> same_procs s s'"
proof -
  note d = sched_wfD [OF wf q]
  have p: "p < MAX_PROCESSES" "pr_intent (pget s p) = q" using d(3) [of p] hd by auto
  have len: "length (g_proc_table s) = MAX_PROCESSES" "length (g_queues s) = INTENT_COUNT" using wf by (auto simp: sched_wf_def)
  have h: "g_queues s ! q = Some p" "linked s (pr_sched_next (pget s p)) xs" using d(1) hd by auto
  let ?s1 = "qset q (pr_sched_next (pget s p)) s"
  let ?s2 = "pset p (\<lambda>r. r\<lparr>pr_sched_next := None\<rparr>) ?s1"
  have e: "sched_dequeue (Some p) s = Some ?s2"
    using p q h by (simp add: sched_dequeue_def dequeue_scan.simps)
  have sp: "same_procs s ?s2" using same_procs_trans [OF same_procs_qset same_procs_pset] .
  have pn: "p \<notin> set xs" "distinct xs" using d(2) hd by auto
  have "linked ?s2 (pr_sched_next (pget s p)) xs"
    using h(2) linked_cong [of xs ?s2 s] pn(1) by (metis pget_pset_other qset_sel(2))
  then have "queue_ok ?s2 q xs"
    using pn d(3) hd q len same_procs_fields(3) [OF sp] by (auto simp: queue_ok_def)
  then have "sched_wf ?s2 (qs[q := xs])"
    using p by (intro sched_wf_one_queue [OF wf q sp]) (auto, metis pget_pset_other qset_sel(2))
  with e sp show ?thesis by blast
qed

text \<open>The whole of \<^verbatim>\<open>sched_dequeue\<close>: it ends, and removes the process wherever it is in its queue.\<close>

lemma linked_drop:
  "linked s h (xs @ ys) \<Longrightarrow> xs \<noteq> [] \<Longrightarrow> linked s (pr_sched_next (pget s (last xs))) ys"
proof (induction xs arbitrary: h)
  case (Cons x xs)
  then show ?case by (cases "xs = []") auto
qed simp

lemma linked_cut:
  "linked s h (xs @ c # ys) \<Longrightarrow> xs \<noteq> [] \<Longrightarrow> distinct (xs @ c # ys) \<Longrightarrow> last xs < length (g_proc_table s) \<Longrightarrow>
   linked (pset (last xs) (\<lambda>r. r\<lparr>pr_sched_next := pr_sched_next (pget s c)\<rparr>) s) h (xs @ ys)"
proof (induction xs arbitrary: h)
  case (Cons x xs)
  let ?s = "pset (last (x # xs)) (\<lambda>r. r\<lparr>pr_sched_next := pr_sched_next (pget s c)\<rparr>) s"
  show ?case
  proof (cases "xs = []")
    case True
    then have "linked s (pr_sched_next (pget s c)) ys" "x \<notin> set ys" using Cons.prems by auto
    then have "linked ?s (pr_sched_next (pget s c)) ys"
      using linked_cong [of ys ?s s] True by (metis last_ConsL pget_pset_other)
    with True Cons.prems show ?thesis by (auto simp: pget_pset)
  next
    case False
    then have ne: "last xs \<noteq> x" using Cons.prems(3) last_in_set by fastforce
    moreover have "linked ?s (pr_sched_next (pget s x)) (xs @ ys)"
      using Cons.IH [of "pr_sched_next (pget s x)"] Cons.prems False by simp
    ultimately show ?thesis using Cons.prems(1) False by simp
  qed
qed simp

lemma dequeue_scan_walk:
  assumes "linked s h (xs @ ys)" and "p \<notin> set xs"
  shows "dequeue_scan s p q pv h = dequeue_scan s p q (if xs = [] then pv else Some (last xs))
      (if xs = [] then h else pr_sched_next (pget s (last xs)))"
  using assms
proof (induction xs arbitrary: h pv)
  case (Cons x xs)
  then have h: "h = Some x" "x \<noteq> p" "linked s (pr_sched_next (pget s x)) (xs @ ys)" by auto
  have "dequeue_scan s p q pv h = dequeue_scan s p q (Some x) (pr_sched_next (pget s x))"
    using h by (subst dequeue_scan.simps) simp
  also have "\<dots> = dequeue_scan s p q (if xs = [] then Some x else Some (last xs))
      (if xs = [] then pr_sched_next (pget s x) else pr_sched_next (pget s (last xs)))"
    using Cons.IH [OF h(3)] Cons.prems(2) by simp
  finally show ?case by simp
qed simp

lemma sched_dequeue_ok:
  assumes wf: "sched_wf s qs" and p: "p < MAX_PROCESSES" and q: "pr_intent (pget s p) = q" "q < INTENT_COUNT"
  shows "\<exists>s'. sched_dequeue (Some p) s = Some s' \<and> sched_wf s' (qs[q := remove1 p (qs ! q)]) \<and> same_procs s s'"
proof (cases "p \<in> set (qs ! q)")
  case False
  note d = sched_wfD [OF wf q(2)]
  have "dequeue_scan s p q None (g_queues s ! q) = Some s"
  proof (cases "qs ! q = []")
    case True
    then show ?thesis using d(1) by (simp add: dequeue_scan.simps)
  next
    case ne: False
    have "pr_sched_next (pget s (last (qs ! q))) = None" using linked_drop [of s _ "qs ! q" "[]"] d(1) ne by simp
    then show ?thesis using dequeue_scan_walk [of s _ "qs ! q" "[]" p q None] d(1) False ne
      by (simp add: dequeue_scan.simps)
  qed
  with q wf False show ?thesis by (simp add: sched_dequeue_def remove1_idem)
next
  case True
  note d = sched_wfD [OF wf q(2)]
  have len: "length (g_proc_table s) = MAX_PROCESSES" using wf by (auto simp: sched_wf_def)
  obtain xs ys where sp: "qs ! q = xs @ p # ys" "p \<notin> set xs" using True by (meson split_list_first)
  then have rm: "remove1 p (qs ! q) = xs @ ys" by (simp add: remove1_append)
  show ?thesis
  proof (cases "xs = []")
    case True
    then show ?thesis using sched_dequeue_head [OF wf q(2), of p ys] sp rm by simp
  next
    case ne: False
    let ?pv = "last xs" and ?nx = "pr_sched_next (pget s p)"
    have lk: "linked s (g_queues s ! q) (xs @ p # ys)" using d(1) sp by simp
    have dist: "distinct (xs @ p # ys)" using d(2) sp by simp
    have nxt: "pr_sched_next (pget s ?pv) = Some p" using linked_drop [OF lk ne] by simp
    have pv: "?pv \<in> set (qs ! q)" "?pv \<noteq> p" using sp ne by auto
    have pvl: "?pv < length (g_proc_table s)" using d(3) [OF pv(1)] len by simp
    let ?s1 = "pset ?pv (\<lambda>r. r\<lparr>pr_sched_next := ?nx\<rparr>) s"
    let ?s2 = "pset p (\<lambda>r. r\<lparr>pr_sched_next := None\<rparr>) ?s1"
    have "dequeue_scan s p q None (g_queues s ! q) = dequeue_scan s p q (Some ?pv) (Some p)"
      using dequeue_scan_walk [OF lk sp(2), of q None] ne nxt by simp
    also have "\<dots> = Some ?s2" by (subst dequeue_scan.simps) simp
    finally have e: "sched_dequeue (Some p) s = Some ?s2" using q by (simp add: sched_dequeue_def)
    have same: "same_procs s ?s2" using same_procs_trans [OF same_procs_pset same_procs_pset] .
    have "linked ?s1 (g_queues s ! q) (xs @ ys)" by (rule linked_cut [OF lk ne dist pvl])
    moreover have "pr_sched_next (pget ?s2 x) = pr_sched_next (pget ?s1 x)" if "x \<in> set (xs @ ys)" for x
    proof -
      have "x \<noteq> p" using that dist by auto
      then show ?thesis by simp
    qed
    ultimately have "linked ?s2 (g_queues s ! q) (xs @ ys)" using linked_cong [of "xs @ ys" ?s2 ?s1] by blast
    moreover have "distinct (xs @ ys)" using dist by simp
    moreover have "x < MAX_PROCESSES \<and> pr_intent (pget ?s2 x) = q" if "x \<in> set (xs @ ys)" for x
      using that d(3) [of x] sp same_procs_fields(3) [OF same, of x] by auto
    ultimately have "queue_ok ?s2 q (xs @ ys)" by (simp add: queue_ok_def)
    moreover have "pr_sched_next (pget ?s2 x) = pr_sched_next (pget s x)" if "pr_intent (pget s x) \<noteq> q" for x
    proof -
      have "x \<noteq> p" "x \<noteq> ?pv" using that q d(3) [OF pv(1)] by auto
      then show ?thesis by simp
    qed
    ultimately have "sched_wf ?s2 (qs[q := xs @ ys])"
      by (intro sched_wf_one_queue [OF wf q(2) same]) auto
    with e same rm show ?thesis by auto
  qed
qed

subsection \<open>The scheduler's invariant\<close>

text \<open>
  A process is queued exactly when it is ready, it is queued under its own intent, and a process
  marked running is the current one.
\<close>

definition queued :: "nat list list \<Rightarrow> nat \<Rightarrow> bool" where
  "queued qs p \<longleftrightarrow> (\<exists>q < INTENT_COUNT. p \<in> set (qs ! q))"

definition sched_inv :: "sched \<Rightarrow> nat list list \<Rightarrow> bool" where
  "sched_inv s qs \<longleftrightarrow> sched_wf s qs \<and> (\<forall>p < MAX_PROCESSES. pr_intent (pget s p) < INTENT_COUNT
     \<and> (pr_state (pget s p) = PROC_READY \<longleftrightarrow> queued qs p)
     \<and> (pr_state (pget s p) = PROC_RUNNING \<longrightarrow> g_current_proc s = Some p))"

definition grows :: "nat list list \<Rightarrow> nat list list \<Rightarrow> bool" where
  "grows qs qs' \<longleftrightarrow> (\<forall>q < INTENT_COUNT. \<exists>zs. qs' ! q = qs ! q @ zs)"

text \<open>What waking processes up leaves alone.\<close>

definition quiet :: "sched \<Rightarrow> sched \<Rightarrow> bool" where
  "quiet s s' \<longleftrightarrow> g_current_proc s' = g_current_proc s \<and> sc_halts s' = sc_halts s \<and> cpu_if s' = cpu_if s
     \<and> g_uptime_ticks s' = g_uptime_ticks s
     \<and> (\<forall>p. pr_kernel_stack_top (pget s' p) = pr_kernel_stack_top (pget s p)
          \<and> pr_intent (pget s' p) = pr_intent (pget s p))"

lemma grows_refl [simp]: "grows qs qs"
  by (simp add: grows_def)

lemma grows_trans: "grows qs qs' \<Longrightarrow> grows qs' qs'' \<Longrightarrow> grows qs qs''"
  unfolding grows_def by (metis append_assoc)

lemma quiet_refl [simp]: "quiet s s"
  by (simp add: quiet_def)

lemma quiet_trans: "quiet s s' \<Longrightarrow> quiet s' s'' \<Longrightarrow> quiet s s''"
  by (simp add: quiet_def)

lemma pset_rest [simp]:
  "sc_halts (pset i f s) = sc_halts s" "cpu_if (pset i f s) = cpu_if s" "g_uptime_ticks (pset i f s) = g_uptime_ticks s"
  by (simp_all add: pset_def)

lemma quiet_same_procs: "same_procs s s' \<Longrightarrow> quiet s s'"
  unfolding quiet_def using same_procs_fields(3,6) [of s s'] same_procs_rest [of s s'] by simp

lemma sched_wf_cong:
  assumes "length (g_proc_table s') = length (g_proc_table s)" and "g_queues s' = g_queues s"
    and "\<And>x. pr_intent (pget s' x) = pr_intent (pget s x)"
    and "\<And>x. pr_sched_next (pget s' x) = pr_sched_next (pget s x)"
  shows "sched_wf s' qs = sched_wf s qs"
proof -
  have "queue_ok s' q xs = queue_ok s q xs" for q xs using assms by (intro queue_ok_cong) simp_all
  then show ?thesis using assms by (simp add: sched_wf_def)
qed

lemma queued_enq:
  assumes "q < INTENT_COUNT" and "length qs = INTENT_COUNT"
  shows "queued (qs[q := enq p (qs ! q)]) x \<longleftrightarrow> x = p \<or> queued qs x"
proof
  assume "queued (qs[q := enq p (qs ! q)]) x"
  then obtain r where "r < INTENT_COUNT" "x \<in> set (qs[q := enq p (qs ! q)] ! r)" by (auto simp: queued_def)
  then show "x = p \<or> queued qs x"
    using assms by (cases "r = q") (auto simp: enq_def queued_def split: if_splits)
next
  assume "x = p \<or> queued qs x"
  then show "queued (qs[q := enq p (qs ! q)]) x"
  proof
    assume "x = p"
    then have "x \<in> set (qs[q := enq p (qs ! q)] ! q)" using assms by (simp add: enq_def)
    then show ?thesis using assms(1) by (auto simp: queued_def)
  next
    assume "queued qs x"
    then obtain r where r: "r < INTENT_COUNT" "x \<in> set (qs ! r)" by (auto simp: queued_def)
    then have "x \<in> set (qs[q := enq p (qs ! q)] ! r)" using assms by (cases "r = q") (auto simp: enq_def)
    then show ?thesis using r(1) by (auto simp: queued_def)
  qed
qed

text \<open>Marking a process ready and enqueueing it keeps the invariant.\<close>

lemma make_ready_inv:
  assumes inv: "sched_inv s qs" and i: "i < MAX_PROCESSES"
    and f: "pr_sched_next (f (pget s i)) = pr_sched_next (pget s i)" "pr_intent (f (pget s i)) = pr_intent (pget s i)"
      "pr_state (f (pget s i)) = PROC_READY" "pr_kernel_stack_top (f (pget s i)) = pr_kernel_stack_top (pget s i)"
  defines "s' \<equiv> sched_enqueue (Some i) (pset i f s)"
  shows "sched_inv s' (qs[pr_intent (pget s i) := enq i (qs ! pr_intent (pget s i))])" "quiet s s'"
proof -
  let ?s = "pset i f s" and ?q = "pr_intent (pget s i)"
  have wf: "sched_wf s qs" using inv by (simp add: sched_inv_def)
  then have len: "length (g_proc_table s) = MAX_PROCESSES" "length qs = INTENT_COUNT" by (simp_all add: sched_wf_def)
  have g: "pget ?s j = (if j = i then f (pget s i) else pget s j)" for j using i len by (simp add: pget_pset)
  have q: "?q < INTENT_COUNT" using inv i by (simp add: sched_inv_def)
  have wf1: "sched_wf ?s qs" using wf f g by (subst sched_wf_cong) auto
  have e: "sched_wf s' (qs[?q := enq i (qs ! ?q)])" "same_procs ?s s'"
    using sched_enqueue_ok [OF wf1 i _ q] f g unfolding s'_def by auto
  have "quiet s ?s" using g f by (simp add: quiet_def)
  then show "quiet s s'" using quiet_same_procs [OF e(2)] by (rule quiet_trans)
  have "pr_intent (pget s' p) < INTENT_COUNT \<and> (pr_state (pget s' p) = PROC_READY \<longleftrightarrow> queued (qs[?q := enq i (qs ! ?q)]) p)
     \<and> (pr_state (pget s' p) = PROC_RUNNING \<longrightarrow> g_current_proc s' = Some p)" if "p < MAX_PROCESSES" for p
    using inv that f g [of p] same_procs_fields(2,3) [OF e(2), of p] same_procs_rest(1) [OF e(2)]
      queued_enq [OF q len(2), of i p] by (auto simp: sched_inv_def)
  then show "sched_inv s' (qs[?q := enq i (qs ! ?q)])" using e(1) by (simp add: sched_inv_def)
qed

lemma grows_enq:
  "grows qs (qs[q := enq p (qs ! q)])"
  unfolding grows_def
proof (intro allI impI)
  fix r :: nat
  show "\<exists>zs. qs[q := enq p (qs ! q)] ! r = qs ! r @ zs"
    by (cases "q < length qs"; cases "r = q") (auto simp: enq_def not_less list_update_beyond)
qed

lemma make_ready_step:
  assumes inv: "sched_inv s qs" and i: "i < MAX_PROCESSES"
    and f: "pr_sched_next (f (pget s i)) = pr_sched_next (pget s i)" "pr_intent (f (pget s i)) = pr_intent (pget s i)"
      "pr_state (f (pget s i)) = PROC_READY" "pr_kernel_stack_top (f (pget s i)) = pr_kernel_stack_top (pget s i)"
  shows "\<exists>qs'. sched_inv (sched_enqueue (Some i) (pset i f s)) qs' \<and> grows qs qs' \<and> quiet s (sched_enqueue (Some i) (pset i f s))"
  using make_ready_inv [of s qs i f, OF assms] grows_enq by blast

lemma unblock_waiter_ok:
  assumes "sched_inv s qs" and "i < MAX_PROCESSES"
  shows "\<exists>qs'. sched_inv (unblock_waiter i s) qs' \<and> grows qs qs' \<and> quiet s (unblock_waiter i s)"
proof -
  let ?f = "\<lambda>r. r\<lparr>pr_blocked_on_pid := 0, pr_state := PROC_READY\<rparr>"
  have "unblock_waiter i s = s \<or> unblock_waiter i s = sched_enqueue (Some i) (pset i ?f s)"
    by (simp add: unblock_waiter_def Let_def)
  moreover have "\<exists>qs'. sched_inv (sched_enqueue (Some i) (pset i ?f s)) qs' \<and> grows qs qs'
      \<and> quiet s (sched_enqueue (Some i) (pset i ?f s))"
    by (rule make_ready_step [OF assms]) simp_all
  moreover have "\<exists>qs'. sched_inv s qs' \<and> grows qs qs' \<and> quiet s s"
    using assms(1) grows_refl quiet_refl by blast
  ultimately show ?thesis by (elim disjE) simp_all
qed

lemma unblock_sleeper_ok:
  assumes "sched_inv s qs" and "i < MAX_PROCESSES"
  shows "\<exists>qs'. sched_inv (unblock_sleeper i s) qs' \<and> grows qs qs' \<and> quiet s (unblock_sleeper i s)"
proof -
  let ?f = "\<lambda>r. r\<lparr>pr_wake_tick := 0, pr_state := PROC_READY\<rparr>"
  have "unblock_sleeper i s = s \<or> unblock_sleeper i s = sched_enqueue (Some i) (pset i ?f s)"
    by (simp add: unblock_sleeper_def Let_def)
  moreover have "\<exists>qs'. sched_inv (sched_enqueue (Some i) (pset i ?f s)) qs' \<and> grows qs qs'
      \<and> quiet s (sched_enqueue (Some i) (pset i ?f s))"
    by (rule make_ready_step [OF assms]) simp_all
  moreover have "\<exists>qs'. sched_inv s qs' \<and> grows qs qs' \<and> quiet s s"
    using assms(1) grows_refl quiet_refl by blast
  ultimately show ?thesis by (elim disjE) simp_all
qed

lemma unblock_fold:
  assumes "\<And>s qs i. sched_inv s qs \<Longrightarrow> i < MAX_PROCESSES \<Longrightarrow> \<exists>qs'. sched_inv (f i s) qs' \<and> grows qs qs' \<and> quiet s (f i s)"
    and "sched_inv s qs" and "\<forall>i \<in> set js. i < MAX_PROCESSES"
  shows "\<exists>qs'. sched_inv (fold f js s) qs' \<and> grows qs qs' \<and> quiet s (fold f js s)"
  using assms(2,3)
proof (induction js arbitrary: s qs)
  case Nil
  then show ?case using grows_refl quiet_refl by auto
next
  case (Cons i js)
  obtain qs1 where 1: "sched_inv (f i s) qs1" "grows qs qs1" "quiet s (f i s)" using assms(1) Cons.prems by fastforce
  obtain qs2 where 2: "sched_inv (fold f js (f i s)) qs2" "grows qs1 qs2" "quiet (f i s) (fold f js (f i s))"
    using Cons.IH [OF 1(1)] Cons.prems by auto
  show ?case using 2(1) grows_trans [OF 1(2) 2(2)] quiet_trans [OF 1(3) 2(3)] by auto
qed

lemma unblock_waiters_ok:
  "sched_inv s qs \<Longrightarrow> \<exists>qs'. sched_inv (unblock_waiters s) qs' \<and> grows qs qs' \<and> quiet s (unblock_waiters s)"
  unfolding unblock_waiters_def using unblock_fold [where f = unblock_waiter and s = s and qs = qs and js = "[0..<MAX_PROCESSES]", OF unblock_waiter_ok] by simp

lemma unblock_sleepers_ok:
  "sched_inv s qs \<Longrightarrow> \<exists>qs'. sched_inv (unblock_sleepers s) qs' \<and> grows qs qs' \<and> quiet s (unblock_sleepers s)"
  unfolding unblock_sleepers_def using unblock_fold [where f = unblock_sleeper and s = s and qs = qs and js = "[0..<MAX_PROCESSES]", OF unblock_sleeper_ok] by simp

subsection \<open>Choosing the next process\<close>

fun first_queue :: "nat list \<Rightarrow> nat list list \<Rightarrow> nat option" where
  "first_queue [] qs = None"
| "first_queue (q # order) qs = (if qs ! q \<noteq> [] then Some q else first_queue order qs)"

lemma linked_head: "linked s h xs \<Longrightarrow> h = (case xs of [] \<Rightarrow> None | x # _ \<Rightarrow> Some x)"
  by (cases xs) auto

lemma sched_next_refines:
  assumes "sched_wf s qs"
  shows "sched_next s = map_option (\<lambda>q. hd (qs ! q)) (first_queue QUEUE_ORDER qs)"
proof -
  have h: "g_queues s ! q = (case qs ! q of [] \<Rightarrow> None | x # _ \<Rightarrow> Some x)" if "q < INTENT_COUNT" for q
    using linked_head sched_wfD(1) [OF assms that] by blast
  have "(case filter (\<lambda>q. g_queues s ! q \<noteq> None) os of [] \<Rightarrow> None | q # _ \<Rightarrow> g_queues s ! q)
      = map_option (\<lambda>q. hd (qs ! q)) (first_queue os qs)" if "\<forall>q \<in> set os. q < INTENT_COUNT" for os
    using that by (induction os) (auto simp: h split: list.splits)
  moreover have "\<forall>q \<in> set QUEUE_ORDER. q < INTENT_COUNT" by (simp add: QUEUE_ORDER_def INTENT_AUDIT_def
    INTENT_INTERACTIVE_def INTENT_IO_def INTENT_NETWORK_def INTENT_COMPUTE_def INTENT_COUNT_def)
  ultimately show ?thesis unfolding sched_next_def by blast
qed

lemma first_queue_Some: "first_queue os qs = Some q \<Longrightarrow> q \<in> set os \<and> qs ! q \<noteq> []"
  by (induction os) (auto split: if_splits)

lemma first_queue_None: "first_queue os qs = None \<longleftrightarrow> (\<forall>q \<in> set os. qs ! q = [])"
  by (induction os) auto

subsection \<open>Giving up the CPU\<close>

lemma queued_tl:
  assumes "sched_wf s qs" and "q < INTENT_COUNT" and "qs ! q = nx # xs"
  shows "queued (qs[q := xs]) p \<longleftrightarrow> p \<noteq> nx \<and> queued qs p"
proof -
  have len: "length qs = INTENT_COUNT" using assms(1) by (simp add: sched_wf_def)
  have d: "nx \<notin> set xs" using sched_wfD(2) [OF assms(1,2)] assms(3) by simp
  have q: "pr_intent (pget s nx) = q" using sched_wfD(3) [OF assms(1,2), of nx] assms(3) by simp
  have other: "nx \<notin> set (qs ! r)" if "r < INTENT_COUNT" "r \<noteq> q" for r
    using sched_wfD(3) [OF assms(1) that(1), of nx] q that(2) by auto
  have "p \<in> set (qs[q := xs] ! r) \<longleftrightarrow> p \<noteq> nx \<and> p \<in> set (qs ! r)" if "r < INTENT_COUNT" for r
    using other [OF that] d assms(2,3) len by (cases "r = q") auto
  then show ?thesis unfolding queued_def by blast
qed

text \<open>What a context switch establishes.\<close>

definition switched :: "sched \<Rightarrow> nat list list \<Rightarrow> nat \<Rightarrow> nat \<Rightarrow> (nat \<times> nat) option \<Rightarrow> sched \<Rightarrow> bool" where
  "switched s qs prev nx sw s' \<longleftrightarrow> (\<exists>q < INTENT_COUNT. \<exists>xs. first_queue QUEUE_ORDER qs = Some q \<and> qs ! q = nx # xs
     \<and> pr_intent (pget s nx) = q
     \<and> sched_inv s' (qs[q := xs]) \<and> g_ticks_remaining s' = SLICES ! q)
     \<and> sw = (if nx = prev then None else Some (prev, nx))
     \<and> g_current_proc s' = Some nx \<and> pr_state (pget s' nx) = PROC_RUNNING
     \<and> g_kernel_stack_top s' = pr_kernel_stack_top (pget s nx) \<and> tss_rsp0 s' = pr_kernel_stack_top (pget s nx)
     \<and> g_syscall_kernel_rsp s' = pr_kernel_stack_top (pget s nx)
     \<and> sc_halts s' = sc_halts s \<and> cpu_if s' = cpu_if s"

lemma QUEUE_ORDER_set: "set QUEUE_ORDER = {q. q < INTENT_COUNT}"
  unfolding QUEUE_ORDER_def INTENT_AUDIT_def INTENT_INTERACTIVE_def INTENT_IO_def INTENT_NETWORK_def
    INTENT_COMPUTE_def INTENT_COUNT_def by auto

lemma pget_rest [simp]:
  "pget (s\<lparr>g_current_proc := c\<rparr>) p = pget s p" "pget (s\<lparr>g_ticks_remaining := t\<rparr>) p = pget s p"
  "pget (s\<lparr>cpu_if := b\<rparr>) p = pget s p" "pget (make_current n s) p = pget s p"
  by (simp_all add: pget_def make_current_def Let_def)

lemma sched_inv_run:
  assumes inv: "sched_inv s qs" and idle: "g_current_proc s = None" and q: "q < INTENT_COUNT" "qs ! q = nx # xs"
    and wf: "sched_wf s1 (qs[q := xs])" and sp: "same_procs s s1"
    and s2: "g_proc_table s2 = g_proc_table (pset nx (\<lambda>r. r\<lparr>pr_state := PROC_RUNNING\<rparr>) s1)" "g_queues s2 = g_queues s1"
      "g_current_proc s2 = Some nx"
  shows "sched_inv s2 (qs[q := xs])"
proof -
  have wf0: "sched_wf s qs" using inv by (simp add: sched_inv_def)
  have nx: "nx < length (g_proc_table s1)" using sched_wfD(3) [OF wf0 q(1), of nx] q(2) wf by (simp add: sched_wf_def)
  have g: "pget s2 p = (if p = nx then (pget s1 nx)\<lparr>pr_state := PROC_RUNNING\<rparr> else pget s1 p)" for p
    using pget_pset [OF nx, of "\<lambda>r. r\<lparr>pr_state := PROC_RUNNING\<rparr>" p] s2(1) by (simp add: pget_def)
  have "sched_wf s2 (qs[q := xs])" using wf s2 g by (subst sched_wf_cong) auto
  moreover have "pr_intent (pget s2 p) < INTENT_COUNT \<and> (pr_state (pget s2 p) = PROC_READY \<longleftrightarrow> queued (qs[q := xs]) p)
     \<and> (pr_state (pget s2 p) = PROC_RUNNING \<longrightarrow> g_current_proc s2 = Some p)" if p: "p < MAX_PROCESSES" for p
    using inv p idle g [of p] s2(3) same_procs_fields(2,3) [OF sp, of p] queued_tl [OF wf0 q, of p]
    by (auto simp: sched_inv_def)
  ultimately show ?thesis by (simp add: sched_inv_def)
qed

lemma switch_to_ok:
  assumes inv: "sched_inv s qs" and idle: "g_current_proc s = None"
    and q: "first_queue QUEUE_ORDER qs = Some q" "qs ! q = nx # xs"
  shows "\<exists>sw s'. switch_to prev nx s = Some (sw, s') \<and> switched s qs prev nx sw s'"
proof -
  have wf: "sched_wf s qs" using inv by (simp add: sched_inv_def)
  have ql: "q < INTENT_COUNT" using first_queue_Some [OF q(1)] QUEUE_ORDER_set by auto
  obtain s1 where s1: "sched_dequeue (Some nx) s = Some s1" "sched_wf s1 (qs[q := xs])" "same_procs s s1"
    using sched_dequeue_head [OF wf ql q(2)] by blast
  define s2 where "s2 = pset nx (\<lambda>r. r\<lparr>pr_state := PROC_RUNNING\<rparr>)
    ((make_current nx s1)\<lparr>g_ticks_remaining := SLICES ! pr_intent (pget s1 nx)\<rparr>)"
  have iq0: "pr_intent (pget s nx) = q" using sched_wfD(3) [OF wf ql, of nx] q(2) by simp
  then have iq: "pr_intent (pget s1 nx) = q" using same_procs_fields(3) [OF s1(3)] by simp
  have nx: "nx < length (g_proc_table s1)" using sched_wfD(3) [OF wf ql, of nx] q(2) s1(2) by (simp add: sched_wf_def)
  have f: "g_queues s2 = g_queues s1" "g_current_proc s2 = Some nx" "g_ticks_remaining s2 = SLICES ! q"
    "g_kernel_stack_top s2 = pr_kernel_stack_top (pget s nx)" "tss_rsp0 s2 = pr_kernel_stack_top (pget s nx)"
    "g_syscall_kernel_rsp s2 = pr_kernel_stack_top (pget s nx)" "sc_halts s2 = sc_halts s" "cpu_if s2 = cpu_if s"
    "g_proc_table s2 = g_proc_table (pset nx (\<lambda>r. r\<lparr>pr_state := PROC_RUNNING\<rparr>) s1)"
    using same_procs_rest [OF s1(3)] same_procs_fields(6) [OF s1(3), of nx] iq
    by (simp_all add: s2_def pset_def make_current_def Let_def)
  have run: "pr_state (pget s' nx) = PROC_RUNNING" if "g_proc_table s' = g_proc_table s2" for s'
    using that f(9) nx by (simp add: pget_def pset_def)
  have inv2: "sched_inv s' (qs[q := xs])"
    if "g_proc_table s' = g_proc_table s2" "g_queues s' = g_queues s2" "g_current_proc s' = Some nx" for s'
    using sched_inv_run [OF inv idle ql q(2) s1(2,3), of s'] that f by simp
  let ?save = "\<lambda>s. if pr_fpu_state (pget s2 prev) \<noteq> 0 then s\<lparr>fpu_areas := (fpu_areas s)(pr_fpu_state (pget s2 prev) := cpu_fpu s)\<rparr> else s"
  let ?load = "\<lambda>s. if pr_fpu_state (pget s2 nx) \<noteq> 0 then s\<lparr>cpu_fpu := fpu_areas s (pr_fpu_state (pget s2 nx))\<rparr> else s"
  let ?fs = "\<lambda>s. s\<lparr>cpu_fs_base := pr_fs_base (pget s nx)\<rparr>"
  define s' where "s' = (if nx = prev then s2 else ?fs (?load (?save s2)))"
  define sw where "sw = (if nx = prev then None else Some (prev, nx))"
  have "switch_to prev nx s = Some (sw, s')"
    unfolding switch_to_def s1(1) s'_def sw_def by (auto simp: Let_def s2_def)
  moreover have r: "g_proc_table s' = g_proc_table s2" "g_queues s' = g_queues s2" "g_current_proc s' = g_current_proc s2"
    "g_ticks_remaining s' = g_ticks_remaining s2" "g_kernel_stack_top s' = g_kernel_stack_top s2" "tss_rsp0 s' = tss_rsp0 s2"
    "g_syscall_kernel_rsp s' = g_syscall_kernel_rsp s2" "sc_halts s' = sc_halts s2" "cpu_if s' = cpu_if s2"
    unfolding s'_def by simp_all
  ultimately show ?thesis using f run [OF r(1)] inv2 [OF r(1,2)] ql q iq0 unfolding switched_def by (auto simp: sw_def)
qed

text \<open>
  \<^verbatim>\<open>sched_yield\<close> with something to run: the queues first get the caller, if it was running, and the
  processes whose wait is over; then the head of the first non-empty queue runs.
\<close>

lemma sched_yield_ok:
  assumes inv: "sched_inv s qs" and cur: "g_current_proc s = Some prev" "prev < MAX_PROCESSES"
    and work: "pr_state (pget s prev) = PROC_RUNNING \<or> first_queue QUEUE_ORDER qs \<noteq> None"
  defines "qs0 \<equiv> if pr_state (pget s prev) = PROC_RUNNING
      then qs[pr_intent (pget s prev) := qs ! pr_intent (pget s prev) @ [prev]] else qs"
  shows "\<exists>sw s' qs1 nx t. sched_yield irq s = Some (sw, s') \<and> grows qs0 qs1 \<and> quiet (s\<lparr>g_current_proc := None, cpu_if := False\<rparr>) t
     \<and> switched t qs1 prev nx sw s'"
proof -
  let ?q = "pr_intent (pget s prev)" and ?run = "pr_state (pget s prev) = PROC_RUNNING"
  let ?s0 = "s\<lparr>cpu_if := False\<rparr>"
  let ?rdy = "sched_enqueue (Some prev) (pset prev (\<lambda>r. r\<lparr>pr_state := PROC_READY\<rparr>) ?s0)"
  define s1 where "s1 = (if ?run then ?rdy else ?s0)"
  have inv0: "sched_inv ?s0 qs" using inv sched_wf_cong [of ?s0 s qs] by (simp add: sched_inv_def)
  have q: "?q < INTENT_COUNT" and nq: "?run \<Longrightarrow> prev \<notin> set (qs ! ?q)" and len: "length qs = INTENT_COUNT"
    using inv cur(2) by (auto simp: sched_inv_def queued_def sched_wf_def)
  have "sched_inv s1 qs0 \<and> quiet ?s0 s1"
    using make_ready_inv [OF inv0 cur(2), of "\<lambda>r. r\<lparr>pr_state := PROC_READY\<rparr>"] inv0 nq
    by (cases ?run) (simp_all add: s1_def qs0_def enq_def)
  then have s1: "sched_inv s1 qs0" "quiet ?s0 s1" by auto
  have norun: "pr_state (pget s1 p) \<noteq> PROC_RUNNING" if "p < MAX_PROCESSES" for p
  proof
    assume r: "pr_state (pget s1 p) = PROC_RUNNING"
    then have "g_current_proc s1 = Some p" using s1(1) that by (simp add: sched_inv_def)
    then have "p = prev" using s1(2) cur by (simp add: quiet_def)
    moreover have "queued qs0 prev" if ?run
      using that q len by (auto simp: qs0_def queued_def intro!: exI [of _ ?q])
    ultimately show False using r s1(1) cur(2) unfolding sched_inv_def
      by (metis inv0 pget_rest(3) proc_state.distinct(9) s1_def)
  qed
  let ?s2 = "s1\<lparr>g_current_proc := None\<rparr>"
  have inv2: "sched_inv ?s2 qs0"
    using s1(1) norun sched_wf_cong [of ?s2 s1 qs0] by (simp add: sched_inv_def)
  define t where "t = unblock_waiters ?s2"
  obtain qs1 where t: "sched_inv t qs1" "grows qs0 qs1" "quiet ?s2 t"
    using unblock_waiters_ok [OF inv2] unfolding t_def by blast
  have "\<exists>r < INTENT_COUNT. qs0 ! r \<noteq> []"
  proof (cases ?run)
    case True
    then show ?thesis using q len by (intro exI [of _ ?q]) (simp add: qs0_def)
  next
    case False
    then show ?thesis using work first_queue_None [of QUEUE_ORDER qs] QUEUE_ORDER_set by (auto simp: qs0_def)
  qed
  then obtain r where "r < INTENT_COUNT" "qs1 ! r \<noteq> []" using t(2) unfolding grows_def by (metis append_is_Nil_conv)
  then obtain p where p: "first_queue QUEUE_ORDER qs1 = Some p"
    using first_queue_None [of QUEUE_ORDER qs1] QUEUE_ORDER_set by blast
  then obtain nx xs where nx: "qs1 ! p = nx # xs" using first_queue_Some list.exhaust by metis
  have "sched_next t = Some nx" using sched_next_refines [of t qs1] t(1) p nx by (simp add: sched_inv_def)
  then have y: "sched_yield irq s = switch_to prev nx t"
    unfolding sched_yield_def Let_def using cur(1) by (simp add: t_def s1_def)
  have ct: "g_current_proc t = None" using t(3) by (simp add: quiet_def)
  obtain sw s' where "switch_to prev nx t = Some (sw, s')" "switched t qs1 prev nx sw s'"
    using switch_to_ok [OF t(1) ct p nx] by blast
  moreover have "quiet (s\<lparr>g_current_proc := None, cpu_if := False\<rparr>) t"
    using s1(2) t(3) by (simp add: quiet_def)
  ultimately show ?thesis using y t(2) by metis
qed

subsection \<open>A concrete process table\<close>

definition blank_context :: cpu_context where
  "blank_context = \<lparr>cx_r15 = 0, cx_r14 = 0, cx_r13 = 0, cx_r12 = 0, cx_rbx = 0, cx_rbp = 0, cx_rsp = 0, cx_rip = 0\<rparr>"

definition blank_process :: process where
  "blank_process = \<lparr>pr_pid = 0, pr_parent_pid = 0, pr_state = PROC_UNUSED, pr_intent = 0, pr_context = blank_context,
     pr_cr3 = 0, pr_kernel_stack = 0, pr_kernel_stack_top = 0, pr_caps = [], pr_cap_count = 0, pr_ticks_used = 0,
     pr_exit_code = 0, pr_mmap_top = 0, pr_blocked_on_pid = 0, pr_wake_tick = 0, pr_user_entry = 0, pr_user_stack_top = 0,
     pr_sched_next = None, pr_ipc = 0, pr_fs_base = 0, pr_fpu_state = 0, pr_sig_handlers = replicate 16 0,
     pr_sig_in_progress = False, pr_sig_saved_frame = [], pr_pending_signals = 0, pr_fork_frame = [], pr_uid = 0, pr_gid = 0\<rparr>"

text \<open>
  A running compute process, a ready one of the same intent, and two ready audit processes.
\<close>

definition demo_table :: "process list" where
  "demo_table =
     [blank_process\<lparr>pr_pid := 1, pr_state := PROC_RUNNING, pr_kernel_stack_top := 0x1000\<rparr>,
      blank_process\<lparr>pr_pid := 2, pr_state := PROC_READY, pr_kernel_stack_top := 0x2000\<rparr>,
      blank_process\<lparr>pr_pid := 3, pr_state := PROC_READY, pr_intent := INTENT_AUDIT, pr_sched_next := Some 3,
        pr_kernel_stack_top := 0x3000\<rparr>,
      blank_process\<lparr>pr_pid := 4, pr_state := PROC_READY, pr_intent := INTENT_AUDIT, pr_kernel_stack_top := 0x4000\<rparr>,
      blank_process\<lparr>pr_pid := 5, pr_state := PROC_BLOCKED, pr_wake_tick := 100, pr_kernel_stack_top := 0x5000\<rparr>]
     @ replicate 251 blank_process"

definition demo_sched :: sched where
  "demo_sched = \<lparr>g_proc_table = demo_table, g_next_pid = 6, g_current_proc = Some 0, g_kernel_stack_top = 0x1000,
     g_syscall_kernel_rsp = 0x1000, tss_rsp0 = 0x1000, g_queues = [Some 1, None, None, None, Some 2],
     g_ticks_remaining = 0, g_uptime_ticks = 99, cpu_fs_base = 0, cpu_fpu = [], fpu_areas = (\<lambda>_. []), cpu_if = True, sc_halts = 0\<rparr>"

definition demo_queues :: "nat list list" where "demo_queues = [[1], [], [], [], [2, 3]]"

lemma demo_pget:
  "pget demo_sched 0 = demo_table ! 0" "pget demo_sched 1 = demo_table ! 1" "pget demo_sched 2 = demo_table ! 2"
  "pget demo_sched 3 = demo_table ! 3"  "pget demo_sched 4 = demo_table ! 4"
  by (simp_all add: pget_def demo_sched_def)

lemma demo_pget_rest: "5 \<le> p \<Longrightarrow> p < 256 \<Longrightarrow> pget demo_sched p = blank_process"
  by (simp add: pget_def demo_sched_def demo_table_def nth_append nth_Cons')

lemma demo_sched_inv: "sched_inv demo_sched demo_queues"
proof -
  note c = INTENT_COUNT_def INTENT_AUDIT_def MAX_PROCESSES_def blank_process_def
  have queues: "queue_ok demo_sched q (demo_queues ! q)" if "q < INTENT_COUNT" for q
  proof -
    have "q = 0 \<or> q = 1 \<or> q = 2 \<or> q = 3 \<or> q = 4" using that by (auto simp: INTENT_COUNT_def)
    then show ?thesis
      by (elim disjE) (simp_all add: queue_ok_def demo_queues_def demo_pget [simplified] demo_table_def demo_sched_def [THEN arg_cong, of g_queues] c)
  qed
  have "pr_intent (pget demo_sched p) < INTENT_COUNT \<and> (pr_state (pget demo_sched p) = PROC_READY \<longleftrightarrow> queued demo_queues p)
     \<and> (pr_state (pget demo_sched p) = PROC_RUNNING \<longrightarrow> g_current_proc demo_sched = Some p)" if "p < MAX_PROCESSES" for p
  proof -
    have qd: "queued demo_queues p \<longleftrightarrow> p \<in> {1, 2, 3}"
      by (auto simp: queued_def demo_queues_def INTENT_COUNT_def less_Suc_eq numeral_eq_Suc nth_Cons')
    have "p = 0 \<or> p = 1 \<or> p = 2 \<or> p = 3 \<or> p = 4 \<or> 5 \<le> p" by arith
    then show ?thesis
      unfolding qd using that demo_pget_rest [of p]
      by (elim disjE) (simp_all add: demo_pget [simplified] demo_table_def demo_sched_def [THEN arg_cong, of g_current_proc] c)
  qed
  then show ?thesis using queues by (simp add: sched_inv_def sched_wf_def demo_sched_def demo_table_def demo_queues_def c)
qed

subsection \<open>The timer\<close>

lemma enqueue_same_procs:
  assumes "sched_inv s qs" and "i < MAX_PROCESSES" and "pr_sched_next (g (pget s i)) = pr_sched_next (pget s i) \<and> pr_intent (g (pget s i)) = pr_intent (pget s i)"
  shows "same_procs (pset i g s) (sched_enqueue (Some i) (pset i g s))"
proof (rule sched_enqueue_ok(2))
  have wf: "sched_wf s qs" and len: "i < length (g_proc_table s)" and q: "pr_intent (pget s i) < INTENT_COUNT"
    using assms(1,2) by (auto simp: sched_inv_def sched_wf_def)
  have g: "pget (pset i g s) j = (if j = i then g (pget s i) else pget s j)" for j using len by (simp add: pget_pset)
  show "sched_wf (pset i g s) qs" using wf g assms(3) by (subst sched_wf_cong) auto
  show "i < MAX_PROCESSES" by fact
  show "pr_intent (pget (pset i g s) i) = pr_intent (pget s i)" using g assms(3) by auto
  show "pr_intent (pget s i) < INTENT_COUNT" by (rule q)
qed

text \<open>One step of the two wake-up loops changes only the state of the process it is about.\<close>

lemma unblock_sleeper_other:
  assumes "sched_inv s qs" and "i < MAX_PROCESSES" and "j \<noteq> i"
  shows "unlink (pget (unblock_sleeper i s) j) = unlink (pget s j)"
  using enqueue_same_procs [OF assms(1,2)] assms(3)
  by (auto simp: unblock_sleeper_def Let_def same_procs_def)

lemma unblock_waiter_other:
  assumes "sched_inv s qs" and "i < MAX_PROCESSES" and "j \<noteq> i"
  shows "unlink (pget (unblock_waiter i s) j) = unlink (pget s j)"
  using enqueue_same_procs [OF assms(1,2)] assms(3)
  by (auto simp: unblock_waiter_def Let_def same_procs_def)

lemma unblock_fold_state:
  assumes step: "\<And>s qs i. sched_inv s qs \<Longrightarrow> i < MAX_PROCESSES \<Longrightarrow> \<exists>qs'. sched_inv (f i s) qs' \<and> grows qs qs' \<and> quiet s (f i s)"
    and other: "\<And>s qs i. sched_inv s qs \<Longrightarrow> i < MAX_PROCESSES \<Longrightarrow> i \<noteq> j \<Longrightarrow> unlink (pget (f i s) j) = unlink (pget s j)"
    and "sched_inv s qs" and "\<forall>i \<in> set js. i < MAX_PROCESSES \<and> i \<noteq> j"
  shows "unlink (pget (fold f js s) j) = unlink (pget s j)"
  using assms(3,4)
proof (induction js arbitrary: s qs)
  case (Cons i js)
  have i: "i < MAX_PROCESSES" "i \<noteq> j" using Cons.prems(2) by auto
  obtain qs1 where 1: "sched_inv (f i s) qs1" using step [OF Cons.prems(1) i(1)] by blast
  show ?case using Cons.IH [OF 1] Cons.prems(2) other [OF Cons.prems(1) i] by simp
qed simp

lemma upt_split: "j < n \<Longrightarrow> [0..<n] = [0..<j] @ j # [Suc j..<n]"
  using upt_add_eq_append [of 0 j "n - j"] upt_conv_Cons [of j n] by simp

lemma unblock_sleepers_wake:
  assumes inv: "sched_inv s qs" and j: "j < MAX_PROCESSES" and b: "pr_state (pget s j) = PROC_BLOCKED"
    and w: "pr_wake_tick (pget s j) \<noteq> 0" "pr_wake_tick (pget s j) \<le> g_uptime_ticks s"
  shows "pr_state (pget (unblock_sleepers s) j) = PROC_READY"
proof -
  let ?f = unblock_sleeper
  define s1 where "s1 = fold ?f [0..<j] s"
  define s2 where "s2 = ?f j s1"
  have e: "unblock_sleepers s = fold ?f [Suc j..<MAX_PROCESSES] s2"
    using upt_split [OF j] by (simp add: unblock_sleepers_def s1_def s2_def)
  note st = unblock_fold_state [where f = ?f and j = j, OF unblock_sleeper_ok unblock_sleeper_other]
  have u1: "unlink (pget s1 j) = unlink (pget s j)"
    unfolding s1_def using j by (intro st [OF _ _ _ _ _ inv]) auto
  obtain qs1 where 1: "sched_inv s1 qs1" "quiet s s1"
    using unblock_fold [where f = ?f and js = "[0..<j]", OF unblock_sleeper_ok inv] j by (auto simp: s1_def)
  obtain qs2 where 2: "sched_inv s2 qs2" using unblock_sleeper_ok [OF 1(1) j] by (auto simp: s2_def)
  have "s2 = sched_enqueue (Some j) (pset j (\<lambda>r. r\<lparr>pr_wake_tick := 0, pr_state := PROC_READY\<rparr>) s1)"
    using unlink_fields [OF u1] b w 1(2) by (simp add: s2_def unblock_sleeper_def quiet_def)
  moreover have "j < length (g_proc_table s1)" using 1(1) j by (simp add: sched_inv_def sched_wf_def)
  ultimately have "pr_state (pget s2 j) = PROC_READY"
    using same_procs_fields(2) [OF enqueue_same_procs [OF 1(1) j], of _ j] by (simp add: pget_pset)
  moreover have "unlink (pget (unblock_sleepers s) j) = unlink (pget s2 j)"
    unfolding e by (intro st [OF _ _ _ _ _ 2]) auto
  ultimately show ?thesis using unlink_fields(2) by metis
qed

lemma unblock_waiter_ready:
  assumes "sched_inv s qs" and "i < MAX_PROCESSES" and "pr_state (pget s j) = PROC_READY"
  shows "pr_state (pget (unblock_waiter i s) j) = PROC_READY"
proof (cases "j = i")
  case True
  then show ?thesis using assms(3) by (simp add: unblock_waiter_def)
next
  case False
  then show ?thesis using unlink_fields(2) [OF unblock_waiter_other [OF assms(1,2) False]] assms(3) by simp
qed

lemma unblock_waiters_ready:
  assumes "sched_inv s qs" and "pr_state (pget s j) = PROC_READY"
  shows "pr_state (pget (unblock_waiters s) j) = PROC_READY"
proof -
  have "pr_state (pget (fold unblock_waiter js s) j) = PROC_READY" if "\<forall>i \<in> set js. i < MAX_PROCESSES" for js
    using assms that
  proof (induction js arbitrary: s qs)
    case (Cons i js)
    have i: "i < MAX_PROCESSES" using Cons.prems(3) by simp
    obtain qs1 where 1: "sched_inv (unblock_waiter i s) qs1" using unblock_waiter_ok [OF Cons.prems(1) i] by blast
    show ?case using Cons.IH [OF 1 unblock_waiter_ready [OF Cons.prems(1) i Cons.prems(2)]] Cons.prems(3) by simp
  qed simp
  then show ?thesis by (simp add: unblock_waiters_def)
qed

lemma tick_start_inv:
  assumes "sched_inv s qs"
  defines "t \<equiv> (case g_current_proc s of
        Some c \<Rightarrow> pset c (\<lambda>r. r\<lparr>pr_ticks_used := pr_ticks_used r + 1\<rparr>) (s\<lparr>g_uptime_ticks := g_uptime_ticks s + 1\<rparr>)
      | None \<Rightarrow> s\<lparr>g_uptime_ticks := g_uptime_ticks s + 1\<rparr>)"
  shows "sched_inv t qs"
    and "\<And>j. pr_state (pget t j) = pr_state (pget s j) \<and> pr_wake_tick (pget t j) = pr_wake_tick (pget s j)"
    and "g_uptime_ticks t = g_uptime_ticks s + 1"
proof -
  have g: "pr_state (pget t j) = pr_state (pget s j) \<and> pr_wake_tick (pget t j) = pr_wake_tick (pget s j)
      \<and> pr_intent (pget t j) = pr_intent (pget s j) \<and> pr_sched_next (pget t j) = pr_sched_next (pget s j)" for j
  proof (cases "g_current_proc s")
    case (Some c)
    then show ?thesis
      by (cases "c < length (g_proc_table s)"; cases "j = c") (simp_all add: t_def pget_def pset_def not_less list_update_beyond)
  qed (simp add: t_def pget_def)
  have f: "g_queues t = g_queues s" "length (g_proc_table t) = length (g_proc_table s)" "g_current_proc t = g_current_proc s"
    by (simp_all add: t_def split: option.splits)
  have "sched_wf t qs = sched_wf s qs" using g by (intro sched_wf_cong f(1,2)) auto
  then show "sched_inv t qs" using assms g unfolding sched_inv_def f(3) by simp
  show "pr_state (pget t j) = pr_state (pget s j) \<and> pr_wake_tick (pget t j) = pr_wake_tick (pget s j)" for j using g by simp
  show "g_uptime_ticks t = g_uptime_ticks s + 1" by (simp add: t_def split: option.splits)
qed

text \<open>Processes that only ever yield: \<open>n\<close> calls of \<^verbatim>\<open>sched_yield\<close> in a row.\<close>

fun yields :: "(nat \<Rightarrow> sched \<Rightarrow> sched) \<Rightarrow> nat \<Rightarrow> sched \<Rightarrow> sched option" where
  "yields irq 0 s = Some s"
| "yields irq (Suc n) s = (case sched_yield irq s of None \<Rightarrow> None | Some (_, s') \<Rightarrow> yields irq n s')"

lemma sched_yield_audit:
  assumes inv: "sched_inv s qs" and cur: "g_current_proc s = Some prev" "prev < MAX_PROCESSES"
    and a: "qs ! INTENT_AUDIT = x # xs"
  shows "\<exists>sw s' qs' zs. sched_yield irq s = Some (sw, s') \<and> sched_inv s' qs' \<and> g_current_proc s' = Some x \<and> x < MAX_PROCESSES
     \<and> qs' ! INTENT_AUDIT = xs @ zs"
proof -
  have len: "length qs = INTENT_COUNT" and wf: "sched_wf s qs" using inv by (auto simp: sched_inv_def sched_wf_def)
  have A: "INTENT_AUDIT < INTENT_COUNT" by (simp add: INTENT_AUDIT_def INTENT_COUNT_def)
  have first: "first_queue QUEUE_ORDER r = Some INTENT_AUDIT" if "r ! INTENT_AUDIT \<noteq> []" for r
    using that by (simp add: QUEUE_ORDER_def)
  let ?qs0 = "if pr_state (pget s prev) = PROC_RUNNING
      then qs[pr_intent (pget s prev) := qs ! pr_intent (pget s prev) @ [prev]] else qs"
  have "first_queue QUEUE_ORDER qs \<noteq> None" using first a by simp
  then obtain sw s' qs1 nx t where y: "sched_yield irq s = Some (sw, s')" "grows ?qs0 qs1" "switched t qs1 prev nx sw s'"
    using sched_yield_ok [OF inv cur, of irq] by blast
  have "\<exists>zs. ?qs0 ! INTENT_AUDIT = x # xs @ zs"
    using a A len by (cases "pr_intent (pget s prev) = INTENT_AUDIT") auto
  then obtain zs where z: "qs1 ! INTENT_AUDIT = x # xs @ zs"
    using y(2) A unfolding grows_def by (metis append_Cons append_assoc)
  then have "nx = x" "sched_inv s' (qs1[INTENT_AUDIT := xs @ zs])" "g_current_proc s' = Some x"
    using y(3) first [of qs1] unfolding switched_def by auto
  moreover have "x < MAX_PROCESSES" using sched_wfD(3) [OF wf A, of x] a by simp
  moreover have "qs1[INTENT_AUDIT := xs @ zs] ! INTENT_AUDIT = xs @ zs"
    using calculation(2) A by (simp add: sched_inv_def sched_wf_def)
  ultimately show ?thesis using y(1) by blast
qed

lemma audit_served_aux:
  "sched_inv s qs \<Longrightarrow> g_current_proc s = Some prev \<Longrightarrow> prev < MAX_PROCESSES \<Longrightarrow> k < length (qs ! INTENT_AUDIT)
   \<Longrightarrow> \<exists>s'. yields irq (Suc k) s = Some s' \<and> g_current_proc s' = Some (qs ! INTENT_AUDIT ! k)"
proof (induction k arbitrary: s qs prev)
  case 0
  then obtain x xs where "qs ! INTENT_AUDIT = x # xs" by (cases "qs ! INTENT_AUDIT") auto
  then show ?case using sched_yield_audit [OF 0(1-3), of x xs irq] by auto
next
  case (Suc k)
  then obtain x xs where a: "qs ! INTENT_AUDIT = x # xs" by (cases "qs ! INTENT_AUDIT") auto
  obtain sw s' qs' zs where y: "sched_yield irq s = Some (sw, s')" "sched_inv s' qs'" "g_current_proc s' = Some x"
    "x < MAX_PROCESSES" "qs' ! INTENT_AUDIT = xs @ zs" using sched_yield_audit [OF Suc.prems(1-3) a, of irq] by blast
  have "k < length (qs' ! INTENT_AUDIT)" using y(5) Suc.prems(4) a by simp
  moreover have "qs' ! INTENT_AUDIT ! k = qs ! INTENT_AUDIT ! Suc k" using y(5) Suc.prems(4) a by (simp add: nth_append)
  ultimately show ?case using Suc.IH [OF y(2-4)] y(1) by simp
qed

lemma first_queue_before:
  "first_queue os qs = Some q \<Longrightarrow> r \<in> set (takeWhile (\<lambda>x. x \<noteq> q) os) \<Longrightarrow> qs ! r = []"
  by (induction os) (auto split: if_splits)

lemma grows_Nil: "grows qs qs' \<Longrightarrow> q < INTENT_COUNT \<Longrightarrow> qs' ! q = [] \<Longrightarrow> qs ! q = []"
  unfolding grows_def by (metis append_is_Nil_conv)

lemma grows_hd: "grows qs qs' \<Longrightarrow> q < INTENT_COUNT \<Longrightarrow> qs ! q \<noteq> [] \<Longrightarrow> hd (qs' ! q) = hd (qs ! q)"
  unfolding grows_def by (metis hd_append2)

lemma grows_append: "grows qs (qs[q := qs ! q @ zs])"
  unfolding grows_def
proof (intro allI impI)
  fix r :: nat
  show "\<exists>ys. qs[q := qs ! q @ zs] ! r = qs ! r @ ys"
    by (cases "q < length qs"; cases "r = q") (auto simp: not_less list_update_beyond)
qed

lemma QUEUE_ORDER_before: "r \<in> set (takeWhile P QUEUE_ORDER) \<Longrightarrow> r < INTENT_COUNT"
  using set_takeWhileD QUEUE_ORDER_set by fastforce

subsection \<open>Properties\<close>

text \<open>
  C14.  The run queues are lists.  While the links of the process table describe the queues \<open>qs\<close>,
  \<^verbatim>\<open>sched_enqueue\<close> appends a process to the queue of its intent unless it is there already,
  \<^verbatim>\<open>sched_dequeue\<close> (whose walk has no guard) ends and removes the process from it, \<^verbatim>\<open>sched_next\<close> is the
  head of the first non-empty queue, and neither changes anything else of any process.
\<close>

theorem sched_queues_refine:
  assumes "sched_wf s qs" and "p < MAX_PROCESSES" and "pr_intent (pget s p) = q" and "q < INTENT_COUNT"
  shows "sched_wf (sched_enqueue (Some p) s) (qs[q := enq p (qs ! q)]) \<and> same_procs s (sched_enqueue (Some p) s)
     \<and> (\<exists>s'. sched_dequeue (Some p) s = Some s' \<and> sched_wf s' (qs[q := remove1 p (qs ! q)]) \<and> same_procs s s')
     \<and> sched_next s = map_option (\<lambda>q. hd (qs ! q)) (first_queue QUEUE_ORDER qs)"
  using sched_enqueue_ok [OF assms] sched_dequeue_ok [OF assms] sched_next_refines [OF assms(1)] by blast

theorem sched_queues_refine_witness:
  "sched_next demo_sched = Some 2
   \<and> sched_wf (sched_enqueue (Some 1) demo_sched) demo_queues
   \<and> (\<exists>s'. sched_dequeue (Some 3) demo_sched = Some s' \<and> sched_wf s' [[1], [], [], [], [2]])"
proof -
  have wf: "sched_wf demo_sched demo_queues" using demo_sched_inv by (simp add: sched_inv_def)
  have i: "pr_intent (pget demo_sched 1) = 0" "pr_intent (pget demo_sched 3) = INTENT_AUDIT"
    by (simp_all add: pget_def demo_sched_def demo_table_def blank_process_def)
  have c: "1 < MAX_PROCESSES" "3 < MAX_PROCESSES" "0 < INTENT_COUNT" "INTENT_AUDIT < INTENT_COUNT"
    by (simp_all add: MAX_PROCESSES_def INTENT_COUNT_def INTENT_AUDIT_def)
  have l: "demo_queues[0 := enq 1 (demo_queues ! 0)] = demo_queues"
    "demo_queues[INTENT_AUDIT := remove1 3 (demo_queues ! INTENT_AUDIT)] = [[1], [], [], [], [2]]"
    "map_option (\<lambda>q. hd (demo_queues ! q)) (first_queue QUEUE_ORDER demo_queues) = Some 2"
    by (simp_all add: demo_queues_def enq_def INTENT_AUDIT_def QUEUE_ORDER_def)
  show ?thesis
    using sched_queues_refine [OF wf c(1) i(1) c(3)] sched_queues_refine [OF wf c(2) i(2) c(4)] unfolding l by blast
qed

text \<open>
  C15.  Strict priority.  When the caller was running or some queue is not empty, \<^verbatim>\<open>sched_yield\<close> returns
  without idling, whatever the interrupt handlers do.  The process it makes current is the only
  running one, every queue before its intent in the order audit, interactive, I/O, network,
  compute is empty, and where its queue was not empty it is the head of that queue; the three
  kernel stack pointers of the CPU are its stack.
\<close>

theorem sched_yield_priority:
  assumes "sched_inv s qs" and "g_current_proc s = Some prev" and "prev < MAX_PROCESSES"
    and "pr_state (pget s prev) = PROC_RUNNING \<or> (\<exists>q < INTENT_COUNT. qs ! q \<noteq> [])"
  shows "\<exists>s' qs' nx. sched_yield irq s = Some (if nx = prev then None else Some (prev, nx), s') \<and> sched_inv s' qs'
     \<and> g_current_proc s' = Some nx \<and> pr_state (pget s' nx) = PROC_RUNNING
     \<and> (let q = pr_intent (pget s nx) in
         (\<forall>r \<in> set (takeWhile (\<lambda>x. x \<noteq> q) QUEUE_ORDER). qs ! r = [] \<and> qs' ! r = [])
         \<and> (qs ! q \<noteq> [] \<longrightarrow> nx = hd (qs ! q)) \<and> g_ticks_remaining s' = SLICES ! q)
     \<and> g_kernel_stack_top s' = pr_kernel_stack_top (pget s nx) \<and> g_syscall_kernel_rsp s' = pr_kernel_stack_top (pget s nx)
     \<and> tss_rsp0 s' = pr_kernel_stack_top (pget s nx) \<and> sc_halts s' = sc_halts s"
proof -
  let ?qs0 = "if pr_state (pget s prev) = PROC_RUNNING
      then qs[pr_intent (pget s prev) := qs ! pr_intent (pget s prev) @ [prev]] else qs"
  have "pr_state (pget s prev) = PROC_RUNNING \<or> first_queue QUEUE_ORDER qs \<noteq> None"
    using assms(4) first_queue_None [of QUEUE_ORDER qs] QUEUE_ORDER_set by auto
  then obtain sw s' qs1 nx t where y: "sched_yield irq s = Some (sw, s')" "grows ?qs0 qs1"
    "quiet (s\<lparr>g_current_proc := None, cpu_if := False\<rparr>) t" "switched t qs1 prev nx sw s'"
    using sched_yield_ok [OF assms(1-3), of irq] by blast
  have "grows qs ?qs0" by (simp add: grows_append)
  with y(2) have gr: "grows qs qs1" using grows_trans by blast
  obtain q xs where q: "q < INTENT_COUNT" "first_queue QUEUE_ORDER qs1 = Some q" "qs1 ! q = nx # xs" "pr_intent (pget t nx) = q"
    "sched_inv s' (qs1[q := xs])" "g_ticks_remaining s' = SLICES ! q" using y(4) unfolding switched_def by blast
  have k: "pr_intent (pget t nx) = pr_intent (pget s nx)" "pr_kernel_stack_top (pget t nx) = pr_kernel_stack_top (pget s nx)"
    "sc_halts t = sc_halts s"
    using y(3) by (simp_all add: quiet_def pget_def)
  have "qs ! r = [] \<and> qs1[q := xs] ! r = []" if r: "r \<in> set (takeWhile (\<lambda>x. x \<noteq> q) QUEUE_ORDER)" for r
    using first_queue_before [OF q(2) r] grows_Nil [OF gr QUEUE_ORDER_before [OF r]] set_takeWhileD [OF r] by simp
  moreover have "qs ! q \<noteq> [] \<longrightarrow> hd (qs ! q) = nx" using grows_hd [OF gr q(1)] q(3) by auto
  ultimately show ?thesis using y(1,4) q k unfolding switched_def Let_def
    by (intro exI [of _ s'] exI [of _ "qs1[q := xs]"] exI [of _ nx]) simp
qed

theorem sched_yield_priority_witness:
  "\<exists>s' qs'. sched_yield (\<lambda>_ s. s) demo_sched = Some (Some (0, 2), s') \<and> sched_inv s' qs' \<and> g_current_proc s' = Some 2
     \<and> tss_rsp0 s' = 0x3000"
proof -
  have s: "g_current_proc demo_sched = Some 0" "0 < MAX_PROCESSES" "demo_queues ! INTENT_AUDIT \<noteq> []" "INTENT_AUDIT < INTENT_COUNT"
    by (simp_all add: demo_sched_def MAX_PROCESSES_def demo_queues_def INTENT_AUDIT_def INTENT_COUNT_def)
  have work: "pr_state (pget demo_sched 0) = PROC_RUNNING \<or> (\<exists>q < INTENT_COUNT. demo_queues ! q \<noteq> [])" using s by blast
  obtain s' qs' nx where y: "sched_yield (\<lambda>_ s. s) demo_sched = Some (if nx = 0 then None else Some (0, nx), s')"
    "sched_inv s' qs'" "g_current_proc s' = Some nx" "tss_rsp0 s' = pr_kernel_stack_top (pget demo_sched nx)"
    "\<forall>r \<in> set (takeWhile (\<lambda>x. x \<noteq> pr_intent (pget demo_sched nx)) QUEUE_ORDER). demo_queues ! r = []"
    "demo_queues ! pr_intent (pget demo_sched nx) \<noteq> [] \<longrightarrow> nx = hd (demo_queues ! pr_intent (pget demo_sched nx))"
    using sched_yield_priority [OF demo_sched_inv s(1,2) work, of "\<lambda>_ s. s"] unfolding Let_def by blast
  have "pr_intent (pget demo_sched nx) = INTENT_AUDIT" using y(5) s(3) by (auto simp: QUEUE_ORDER_def split: if_splits)
  then have "nx = 2" using y(6) by (simp add: demo_queues_def INTENT_AUDIT_def)
  then show ?thesis using y by (auto simp: pget_def demo_sched_def demo_table_def)
qed

text \<open>
  C16.  Audit processes are served.  If every process that gets the CPU only yields, the process at
  position \<open>k\<close> of the audit queue is running after \<open>k + 1\<close> calls of \<^verbatim>\<open>sched_yield\<close>, whatever the
  other queues hold.
\<close>

theorem audit_served:
  assumes "sched_inv s qs" and "g_current_proc s = Some prev" and "prev < MAX_PROCESSES"
    and "k < length (qs ! INTENT_AUDIT)"
  shows "\<exists>s'. yields irq (Suc k) s = Some s' \<and> g_current_proc s' = Some (qs ! INTENT_AUDIT ! k)"
  using audit_served_aux [OF assms] .

theorem audit_served_witness:
  "\<exists>s'. yields (\<lambda>_ s. s) 2 demo_sched = Some s' \<and> g_current_proc s' = Some 3"
  using audit_served [OF demo_sched_inv, of 0 1 "\<lambda>_ s. s"]
  by (simp add: demo_sched_def MAX_PROCESSES_def demo_queues_def INTENT_AUDIT_def numeral_2_eq_2)

text \<open>
  C17.  The timer loses no wake-up.  A tick advances the clock by one and keeps the scheduler's
  invariant, and every process that sleeps until a time not after the new clock is ready, and
  therefore queued under its intent, when the network is polled.
\<close>

theorem sched_tick_wakes:
  assumes "sched_inv s qs"
  shows "\<exists>t qs'. sched_tick net_poll s = net_poll t \<and> sched_inv t qs' \<and> g_uptime_ticks t = g_uptime_ticks s + 1
     \<and> (\<forall>j < MAX_PROCESSES. pr_state (pget s j) = PROC_BLOCKED \<longrightarrow> pr_wake_tick (pget s j) \<noteq> 0
          \<longrightarrow> pr_wake_tick (pget s j) \<le> g_uptime_ticks s + 1 \<longrightarrow> pr_state (pget t j) = PROC_READY \<and> queued qs' j)"
proof -
  define s0 where "s0 = (case g_current_proc s of
        Some c \<Rightarrow> pset c (\<lambda>r. r\<lparr>pr_ticks_used := pr_ticks_used r + 1\<rparr>) (s\<lparr>g_uptime_ticks := g_uptime_ticks s + 1\<rparr>)
      | None \<Rightarrow> s\<lparr>g_uptime_ticks := g_uptime_ticks s + 1\<rparr>)"
  note s0 = tick_start_inv [OF assms, folded s0_def]
  obtain qs1 where 1: "sched_inv (unblock_sleepers s0) qs1" "quiet s0 (unblock_sleepers s0)"
    using unblock_sleepers_ok [OF s0(1)] by blast
  define t where "t = unblock_waiters (unblock_sleepers s0)"
  obtain qs2 where 2: "sched_inv t qs2" "quiet (unblock_sleepers s0) t"
    using unblock_waiters_ok [OF 1(1)] unfolding t_def by blast
  have tick: "sched_tick net_poll s = net_poll t" by (simp add: sched_tick_def t_def s0_def Let_def)
  have up: "g_uptime_ticks t = g_uptime_ticks s + 1" using 1(2) 2(2) s0(3) by (simp add: quiet_def)
  have "pr_state (pget t j) = PROC_READY \<and> queued qs2 j"
    if j: "j < MAX_PROCESSES" "pr_state (pget s j) = PROC_BLOCKED" "pr_wake_tick (pget s j) \<noteq> 0"
      "pr_wake_tick (pget s j) \<le> g_uptime_ticks s + 1" for j
  proof -
    have "pr_state (pget (unblock_sleepers s0) j) = PROC_READY"
      using unblock_sleepers_wake [OF s0(1) j(1)] s0(2) [of j] s0(3) j by simp
    then have "pr_state (pget t j) = PROC_READY" unfolding t_def by (rule unblock_waiters_ready [OF 1(1)])
    then show ?thesis using 2(1) j(1) by (simp add: sched_inv_def)
  qed
  with tick 2(1) up show ?thesis by blast
qed

theorem sched_tick_wakes_witness:
  "\<exists>t qs'. sched_tick (\<lambda>s. s) demo_sched = t \<and> sched_inv t qs' \<and> g_uptime_ticks t = 100 \<and> queued qs' 4"
proof -
  obtain t qs' where t: "sched_tick (\<lambda>s. s) demo_sched = t" "sched_inv t qs'" "g_uptime_ticks t = g_uptime_ticks demo_sched + 1"
    "\<forall>j < MAX_PROCESSES. pr_state (pget demo_sched j) = PROC_BLOCKED \<longrightarrow> pr_wake_tick (pget demo_sched j) \<noteq> 0
          \<longrightarrow> pr_wake_tick (pget demo_sched j) \<le> g_uptime_ticks demo_sched + 1 \<longrightarrow> pr_state (pget t j) = PROC_READY \<and> queued qs' j"
    using sched_tick_wakes [OF demo_sched_inv, of "\<lambda>s. s"] by blast
  have "queued qs' 4" using t(4) [rule_format, of 4]
    by (simp add: MAX_PROCESSES_def demo_sched_def pget_def demo_table_def blank_process_def)
  with t show ?thesis by (auto simp: demo_sched_def)
qed

text \<open>
  C18.  The branch of \<^verbatim>\<open>sched_yield\<close> for the only ready process is never taken: a running process has
  queued itself before \<^verbatim>\<open>sched_next\<close> is asked, so it is chosen again at once, without the \<^verbatim>\<open>hlt\<close> of that
  branch and with interrupts still disabled.
\<close>

theorem sched_yield_alone:
  assumes "sched_inv s qs" and "g_current_proc s = Some prev" and "prev < MAX_PROCESSES"
    and "pr_state (pget s prev) = PROC_RUNNING" and "\<forall>p < MAX_PROCESSES. pr_state (pget s p) \<notin> {PROC_READY, PROC_BLOCKED}"
  shows "\<exists>s'. sched_yield irq s = Some (None, s') \<and> g_current_proc s' = Some prev \<and> sc_halts s' = sc_halts s \<and> \<not> cpu_if s'"
proof -
  let ?f = "\<lambda>r. r\<lparr>pr_state := PROC_READY\<rparr>" and ?q = "pr_intent (pget s prev)"
  define s0 where "s0 = s\<lparr>cpu_if := False\<rparr>"
  define s1 where "s1 = sched_enqueue (Some prev) (pset prev ?f s0)"
  let ?s2 = "s1\<lparr>g_current_proc := None\<rparr>"
  have inv0: "sched_inv s0 qs" using assms(1) sched_wf_cong [of s0 s qs] by (simp add: sched_inv_def s0_def)
  have g0: "pget s0 p = pget s p" for p by (simp add: s0_def)
  have len: "length qs = INTENT_COUNT" "prev < length (g_proc_table s0)" "?q < INTENT_COUNT"
    using assms(1,3) by (auto simp: sched_inv_def sched_wf_def s0_def)
  have empty: "qs ! r = []" if "r < INTENT_COUNT" for r
  proof -
    have "p < MAX_PROCESSES \<Longrightarrow> \<not> queued qs p" for p using assms(1,5) by (auto simp: sched_inv_def)
    moreover have "x < MAX_PROCESSES" if "x \<in> set (qs ! r)" for x
      using sched_wfD(3) [OF _ \<open>r < INTENT_COUNT\<close> that] assms(1) by (auto simp: sched_inv_def)
    ultimately show ?thesis using that unfolding queued_def by (metis last_in_set)
  qed
  have s1: "sched_inv s1 (qs[?q := [prev]])" "quiet s0 s1"
    using make_ready_inv [OF inv0 assms(3), of ?f] empty [OF len(3)] by (simp_all add: s1_def enq_def g0)
  have st: "pr_state (pget s1 p) = (if p = prev then PROC_READY else pr_state (pget s p))" for p
    using same_procs_fields(2) [OF enqueue_same_procs [OF inv0 assms(3), of ?f], of p] len(2)
    by (simp add: s1_def pget_pset g0)
  have inv2: "sched_inv ?s2 (qs[?q := [prev]])"
    using s1(1) sched_wf_cong [of ?s2 s1] st assms(1,2) by (auto simp: sched_inv_def)
  have "fold unblock_waiter js ?s2 = ?s2" if "\<forall>i \<in> set js. i < MAX_PROCESSES" for js
    using that assms(5) st by (induction js) (auto simp: unblock_waiter_def)
  then have "unblock_waiters ?s2 = ?s2" by (simp add: unblock_waiters_def)
  moreover have first: "first_queue QUEUE_ORDER (qs[?q := [prev]]) = Some ?q"
  proof -
    have "first_queue os (qs[?q := [prev]]) = Some ?q" if "?q \<in> set os" "\<forall>r \<in> set os. r < INTENT_COUNT" for os
      using that empty len by (induction os) (auto simp: nth_list_update)
    then show ?thesis using QUEUE_ORDER_set len(3) by auto
  qed
  moreover have "sched_next ?s2 = Some prev"
    using sched_next_refines [of ?s2 "qs[?q := [prev]]"] inv2 first len by (simp add: sched_inv_def)
  ultimately have y: "sched_yield irq s = switch_to prev prev ?s2"
    unfolding sched_yield_def Let_def using assms(2,4) by (simp add: s1_def s0_def)
  obtain sw s' where "switch_to prev prev ?s2 = Some (sw, s')" "switched ?s2 (qs[?q := [prev]]) prev prev sw s'"
    using switch_to_ok [OF inv2 _ first, of prev "[]" prev] len by auto
  then show ?thesis using y s1(2) by (auto simp: switched_def quiet_def s0_def)
qed

text \<open>The process table with the first process only.\<close>

definition lone_sched :: sched where
  "lone_sched = demo_sched\<lparr>g_proc_table := hd demo_table # replicate 255 blank_process, g_queues := replicate 5 None\<rparr>"

lemma lone_pget: "p < 256 \<Longrightarrow> pget lone_sched p = (if p = 0 then hd demo_table else blank_process)"
  by (simp add: pget_def lone_sched_def nth_Cons')

lemma lone_sched_inv: "sched_inv lone_sched (replicate 5 [])"
proof -
  have "pr_intent (pget lone_sched p) < INTENT_COUNT
      \<and> (pr_state (pget lone_sched p) = PROC_READY \<longleftrightarrow> queued (replicate 5 []) p)
      \<and> (pr_state (pget lone_sched p) = PROC_RUNNING \<longrightarrow> g_current_proc lone_sched = Some p)" if "p < MAX_PROCESSES" for p
    using that lone_pget [of p]
    by (auto simp: MAX_PROCESSES_def INTENT_COUNT_def queued_def demo_table_def blank_process_def lone_sched_def demo_sched_def)
  then show ?thesis
    by (simp add: sched_inv_def sched_wf_def queue_ok_def INTENT_COUNT_def MAX_PROCESSES_def lone_sched_def)
qed

theorem sched_yield_alone_witness:
  "\<exists>s'. sched_yield (\<lambda>_ s. s) lone_sched = Some (None, s') \<and> g_current_proc s' = Some 0 \<and> sc_halts s' = 0"
proof -
  have 1: "g_current_proc lone_sched = Some 0" "0 < MAX_PROCESSES" "sc_halts lone_sched = 0"
    by (simp_all add: lone_sched_def demo_sched_def MAX_PROCESSES_def)
  have 2: "pr_state (pget lone_sched 0) = PROC_RUNNING" by (simp add: lone_pget demo_table_def)
  have 3: "\<forall>p < MAX_PROCESSES. pr_state (pget lone_sched p) \<notin> {PROC_READY, PROC_BLOCKED}"
    by (auto simp: lone_pget MAX_PROCESSES_def demo_table_def blank_process_def split: if_splits)
  show ?thesis using sched_yield_alone [OF lone_sched_inv 1(1,2) 2 3, of "\<lambda>_ s. s"] 1(3) by auto
qed

end
