(* ===== verification/Byte_Blocks.thy ===== *)
theory Byte_Blocks
  imports Kernel_Prelude
begin

text \<open>
  What the hash functions, the cipher and the authenticator share: byte strings cut into blocks of a
  fixed size, and big-endian words.
\<close>

function chunks :: "nat \<Rightarrow> 'a list \<Rightarrow> 'a list list" where
  "chunks n xs = (if n = 0 \<or> length xs < n then [] else take n xs # chunks n (drop n xs))"
  by pat_completeness auto
termination
  by (relation "measure (\<lambda>(n, xs). length xs)") auto

declare chunks.simps [simp del]

definition chunk_rest :: "nat \<Rightarrow> 'a list \<Rightarrow> 'a list" where
  "chunk_rest n xs = drop (n * (length xs div n)) xs"

text \<open>Big-endian words.\<close>

fun be_val :: "u8 list \<Rightarrow> 'a::len word" where
  "be_val [] = 0"
| "be_val (b # bs) = push_bit (8 * length bs) (ucast b) OR be_val bs"

definition be_bytes :: "nat \<Rightarrow> 'a::len word \<Rightarrow> u8 list" where
  "be_bytes n w = rev (le_bytes n w)"

lemma length_be_bytes [simp]: "length (be_bytes n w) = n"
  by (simp add: be_bytes_def)

lemma le_bytes_numeral:
  "le_bytes (numeral k) w = ucast w # le_bytes (pred_numeral k) (drop_bit 8 w)"
  by (simp add: numeral_eq_Suc)

lemma be_bytes_4: "be_bytes 4 w = [ucast (drop_bit 24 w), ucast (drop_bit 16 w), ucast (drop_bit 8 w), ucast w]"
  by (simp add: be_bytes_def le_bytes_numeral drop_bit_drop_bit)

lemma be_bytes_8: "be_bytes 8 w = [ucast (drop_bit 56 w), ucast (drop_bit 48 w), ucast (drop_bit 40 w),
    ucast (drop_bit 32 w), ucast (drop_bit 24 w), ucast (drop_bit 16 w), ucast (drop_bit 8 w), ucast w]"
  by (simp add: be_bytes_def le_bytes_numeral drop_bit_drop_bit)

lemma chunks_short [simp]: "length xs < n \<Longrightarrow> chunks n xs = []"
  by (simp add: chunks.simps)

lemma chunks_one: "length xs = n \<Longrightarrow> 0 < n \<Longrightarrow> chunks n xs = [xs]"
  by (subst chunks.simps) simp

lemma chunks_Cons: "length xs = n \<Longrightarrow> 0 < n \<Longrightarrow> chunks n (xs @ ys) = xs # chunks n ys"
  by (subst chunks.simps) simp

lemma chunk_rest_short [simp]: "length xs < n \<Longrightarrow> chunk_rest n xs = xs"
  by (simp add: chunk_rest_def)

lemma chunk_rest_step: "0 < n \<Longrightarrow> n \<le> length xs \<Longrightarrow> chunk_rest n xs = chunk_rest n (drop n xs)"
  by (simp add: chunk_rest_def le_div_geq add.commute)

lemma length_chunk_rest: "length (chunk_rest n xs) = length xs mod n"
  by (simp add: chunk_rest_def minus_mult_div_eq_mod)

lemma chunks_append:
  "0 < n \<Longrightarrow> chunks n (xs @ ys) = chunks n xs @ chunks n (chunk_rest n xs @ ys)"
proof (induction n xs rule: chunks.induct)
  case (1 n xs)
  show ?case
  proof (cases "length xs < n")
    case False
    then have "chunks n (xs @ ys) = take n xs # chunks n (drop n xs @ ys)"
      using 1(2) by (subst chunks.simps) simp
    also have "\<dots> = take n xs # chunks n (drop n xs) @ chunks n (chunk_rest n xs @ ys)"
      using 1 False chunk_rest_step [of n xs] by simp
    also have "\<dots> = chunks n xs @ chunks n (chunk_rest n xs @ ys)"
      using 1(2) False by (subst (3) chunks.simps) simp
    finally show ?thesis .
  qed simp
qed

lemma chunk_rest_append:
  "0 < n \<Longrightarrow> chunk_rest n (xs @ ys) = chunk_rest n (chunk_rest n xs @ ys)"
proof (induction n xs rule: chunks.induct)
  case (1 n xs)
  show ?case
  proof (cases "length xs < n")
    case False
    then show ?thesis using 1 chunk_rest_step [of n xs] chunk_rest_step [of n "xs @ ys"] by simp
  qed simp
qed

lemma chunk_rest_full [simp]: "length xs = n \<Longrightarrow> 0 < n \<Longrightarrow> chunk_rest n xs = []"
  by (simp add: chunk_rest_def)

text \<open>One byte more.\<close>

lemma chunks_snoc:
  assumes "0 < n"
  shows "chunks n (xs @ [x]) =
      (if Suc (length (chunk_rest n xs)) = n then chunks n xs @ [chunk_rest n xs @ [x]] else chunks n xs)"
    and "chunk_rest n (xs @ [x]) = (if Suc (length (chunk_rest n xs)) = n then [] else chunk_rest n xs @ [x])"
proof -
  have l: "length (chunk_rest n xs) < n" using assms by (simp add: length_chunk_rest)
  show "chunks n (xs @ [x]) =
      (if Suc (length (chunk_rest n xs)) = n then chunks n xs @ [chunk_rest n xs @ [x]] else chunks n xs)"
    using l chunks_append [OF assms, of xs "[x]"] by (auto simp: chunks_one assms)
  show "chunk_rest n (xs @ [x]) = (if Suc (length (chunk_rest n xs)) = n then [] else chunk_rest n xs @ [x])"
    using l chunk_rest_append [OF assms, of xs "[x]"] assms by auto
qed

lemma length_chunks: "0 < n \<Longrightarrow> length (chunks n xs) = length xs div n"
proof (induction n xs rule: chunks.induct)
  case (1 n xs)
  then show ?case by (subst chunks.simps) (auto simp: le_div_geq)
qed

lemma chunks_lengths: "b \<in> set (chunks n xs) \<Longrightarrow> length b = n"
proof (induction n xs rule: chunks.induct)
  case (1 n xs)
  then show ?case by (subst (asm) (2) chunks.simps) (auto split: if_splits)
qed

subsection \<open>The constants of the hash functions\<close>

text \<open>
  FIPS 180-4 takes its constants from the first eighty primes: they are the leading bits of the fractional parts of their square and cube
  roots.  \<open>root_frac e w p v\<close> says that \<open>v\<close> are the first \<open>w\<close> bits after the point of the \<open>e\<close>-th root of \<open>p\<close>, whose
  whole part, at most 7 for these primes, is \<open>root_whole e p\<close>.
\<close>

definition fips_primes :: "nat list" where
  "fips_primes =
    [2, 3, 5, 7, 11, 13, 17, 19, 23, 29, 31, 37, 41, 43, 47, 53, 59, 61, 67, 71,
     73, 79, 83, 89, 97, 101, 103, 107, 109, 113, 127, 131, 137, 139, 149, 151, 157, 163, 167, 173,
     179, 181, 191, 193, 197, 199, 211, 223, 227, 229, 233, 239, 241, 251, 257, 263, 269, 271, 277, 281,
     283, 293, 307, 311, 313, 317, 331, 337, 347, 349, 353, 359, 367, 373, 379, 383, 389, 397, 401, 409]"

definition root_whole :: "nat \<Rightarrow> nat \<Rightarrow> nat" where
  "root_whole e p = length (filter (\<lambda>q. q ^ e \<le> p) [1, 2, 3, 4, 5, 6, 7])"

definition root_frac :: "nat \<Rightarrow> nat \<Rightarrow> nat \<Rightarrow> nat \<Rightarrow> bool" where
  "root_frac e w p v \<longleftrightarrow> v < 2 ^ w
     \<and> (root_whole e p * 2 ^ w + v) ^ e \<le> p * 2 ^ (e * w) \<and> p * 2 ^ (e * w) < (root_whole e p * 2 ^ w + v + 1) ^ e"

end
