(* ===== verification/Sha256.thy ===== *)
theory Sha256
  imports Byte_Blocks
begin

text \<open>
  SHA-256 (\<^verbatim>\<open>kernel/crypto/sha256.c\<close>): the incremental interface with its 64-byte buffer, and the
  standard it implements, stated over the padded message.
\<close>

definition ROTRIGHT :: "u32 \<Rightarrow> nat \<Rightarrow> u32" where
  "ROTRIGHT a b = drop_bit b a OR push_bit (32 - b) a"

definition CH :: "u32 \<Rightarrow> u32 \<Rightarrow> u32 \<Rightarrow> u32" where
  "CH x y z = (x AND y) XOR (NOT x AND z)"

definition MAJ :: "u32 \<Rightarrow> u32 \<Rightarrow> u32 \<Rightarrow> u32" where
  "MAJ x y z = (x AND y) XOR (x AND z) XOR (y AND z)"

definition EP0 :: "u32 \<Rightarrow> u32" where
  "EP0 x = ROTRIGHT x 2 XOR ROTRIGHT x 13 XOR ROTRIGHT x 22"

definition EP1 :: "u32 \<Rightarrow> u32" where
  "EP1 x = ROTRIGHT x 6 XOR ROTRIGHT x 11 XOR ROTRIGHT x 25"

definition SIG0 :: "u32 \<Rightarrow> u32" where
  "SIG0 x = ROTRIGHT x 7 XOR ROTRIGHT x 18 XOR drop_bit 3 x"

definition SIG1 :: "u32 \<Rightarrow> u32" where
  "SIG1 x = ROTRIGHT x 17 XOR ROTRIGHT x 19 XOR drop_bit 10 x"

text \<open>The rows of the initialiser.\<close>

definition sha256_k_rows :: "u32 list list" where
  "sha256_k_rows =
    [[0x428a2f98, 0x71374491, 0xb5c0fbcf, 0xe9b5dba5, 0x3956c25b, 0x59f111f1, 0x923f82a4, 0xab1c5ed5],
     [0xd807aa98, 0x12835b01, 0x243185be, 0x550c7dc3, 0x72be5d74, 0x80deb1fe, 0x9bdc06a7, 0xc19bf174],
     [0xe49b69c1, 0xefbe4786, 0x0fc19dc6, 0x240ca1cc, 0x2de92c6f, 0x4a7484aa, 0x5cb0a9dc, 0x76f988da],
     [0x983e5152, 0xa831c66d, 0xb00327c8, 0xbf597fc7, 0xc6e00bf3, 0xd5a79147, 0x06ca6351, 0x14292967],
     [0x27b70a85, 0x2e1b2138, 0x4d2c6dfc, 0x53380d13, 0x650a7354, 0x766a0abb, 0x81c2c92e, 0x92722c85],
     [0xa2bfe8a1, 0xa81a664b, 0xc24b8b70, 0xc76c51a3, 0xd192e819, 0xd6990624, 0xf40e3585, 0x106aa070],
     [0x19a4c116, 0x1e376c08, 0x2748774c, 0x34b0bcb5, 0x391c0cb3, 0x4ed8aa4a, 0x5b9cca4f, 0x682e6ff3],
     [0x748f82ee, 0x78a5636f, 0x84c87814, 0x8cc70208, 0x90befffa, 0xa4506ceb, 0xbef9a3f7, 0xc67178f2]]"

definition sha256_k :: "u32 list" where
  "sha256_k = concat sha256_k_rows"

record sha256_ctx =
  sh_data :: "u8 list"
  sh_datalen :: u32
  sh_bitlen :: u64
  sh_state :: "u32 list"

subsection \<open>The compression function\<close>

text \<open>The message schedule: the array \<^verbatim>\<open>m\<close>, filled from the front.\<close>

definition sched_word :: "u8 list \<Rightarrow> nat \<Rightarrow> u32" where
  "sched_word data i =
     push_bit 24 (ucast (data ! (4 * i))) OR push_bit 16 (ucast (data ! (4 * i + 1))) OR
     push_bit 8 (ucast (data ! (4 * i + 2))) OR ucast (data ! (4 * i + 3))"

fun sched_extend :: "nat \<Rightarrow> u32 list \<Rightarrow> u32 list" where
  "sched_extend 0 m = m"
| "sched_extend (Suc n) m =
     (let i = length m
      in sched_extend n (m @ [SIG1 (m ! (i - 2)) + m ! (i - 7) + SIG0 (m ! (i - 15)) + m ! (i - 16)]))"

type_synonym working = "u32 \<times> u32 \<times> u32 \<times> u32 \<times> u32 \<times> u32 \<times> u32 \<times> u32"

definition sha256_round :: "u32 list \<Rightarrow> nat \<Rightarrow> working \<Rightarrow> working" where
  "sha256_round m i = (\<lambda>(a, b, c, d, e, f, g, h).
     let t1 = h + EP1 e + CH e f g + sha256_k ! i + m ! i;
         t2 = EP0 a + MAJ a b c
     in (t1 + t2, a, b, c, d + t1, e, f, g))"

definition sha256_transform :: "sha256_ctx \<Rightarrow> u8 list \<Rightarrow> sha256_ctx" where
  "sha256_transform ctx data =
     (let m = sched_extend 48 (map (sched_word data) [0..<16]);
          s = sh_state ctx;
          (a, b, c, d, e, f, g, h) = fold (sha256_round m) [0..<64]
            (s ! 0, s ! 1, s ! 2, s ! 3, s ! 4, s ! 5, s ! 6, s ! 7)
      in ctx\<lparr>sh_state := [s ! 0 + a, s ! 1 + b, s ! 2 + c, s ! 3 + d, s ! 4 + e, s ! 5 + f, s ! 6 + g, s ! 7 + h]\<rparr>)"

subsection \<open>The streaming interface\<close>

text \<open>\<^verbatim>\<open>sha256_init\<close> leaves the buffer as it was on the stack: its bytes are an argument.\<close>

definition sha256_init :: "u8 list \<Rightarrow> sha256_ctx" where
  "sha256_init stack = \<lparr>sh_data = stack, sh_datalen = 0, sh_bitlen = 0,
     sh_state = [0x6a09e667, 0xbb67ae85, 0x3c6ef372, 0xa54ff53a, 0x510e527f, 0x9b05688c, 0x1f83d9ab, 0x5be0cd19]\<rparr>"

definition sha256_byte :: "u8 \<Rightarrow> sha256_ctx \<Rightarrow> sha256_ctx" where
  "sha256_byte b ctx =
     (let ctx = ctx\<lparr>sh_data := (sh_data ctx)[unat (sh_datalen ctx) := b]\<rparr>;
          ctx = ctx\<lparr>sh_datalen := sh_datalen ctx + 1\<rparr>
      in if sh_datalen ctx = 64 then
           (let ctx = sha256_transform ctx (sh_data ctx)
            in ctx\<lparr>sh_bitlen := sh_bitlen ctx + 512, sh_datalen := 0\<rparr>)
         else ctx)"

definition sha256_update :: "sha256_ctx \<Rightarrow> u8 list \<Rightarrow> sha256_ctx" where
  "sha256_update ctx data = fold sha256_byte data ctx"

text \<open>\<open>fill i n bs\<close> is the loop \<^verbatim>\<open>while (i < n) ctx->data[i++] = 0x00;\<close>\<close>

definition fill :: "nat \<Rightarrow> nat \<Rightarrow> u8 list \<Rightarrow> u8 list" where
  "fill i n bs = fold (\<lambda>j bs. bs[j := 0]) [i..<n] bs"

definition sha256_final :: "sha256_ctx \<Rightarrow> u8 list" where
  "sha256_final ctx =
     (let i = unat (sh_datalen ctx);
          ctx = (if sh_datalen ctx < 56
                 then ctx\<lparr>sh_data := fill (i + 1) 56 ((sh_data ctx)[i := 0x80])\<rparr>
                 else (let ctx = ctx\<lparr>sh_data := fill (i + 1) 64 ((sh_data ctx)[i := 0x80])\<rparr>;
                           ctx = sha256_transform ctx (sh_data ctx)
                       in ctx\<lparr>sh_data := fill 0 56 (sh_data ctx)\<rparr>));
          ctx = ctx\<lparr>sh_bitlen := sh_bitlen ctx + ucast (sh_datalen ctx) * 8\<rparr>;
          n = sh_bitlen ctx;
          ctx = ctx\<lparr>sh_data := (sh_data ctx)[63 := ucast n, 62 := ucast (drop_bit 8 n), 61 := ucast (drop_bit 16 n),
            60 := ucast (drop_bit 24 n), 59 := ucast (drop_bit 32 n), 58 := ucast (drop_bit 40 n),
            57 := ucast (drop_bit 48 n), 56 := ucast (drop_bit 56 n)]\<rparr>;
          ctx = sha256_transform ctx (sh_data ctx)
      in map (\<lambda>i. ucast (drop_bit (24 - (i mod 4) * 8) (sh_state ctx ! (i div 4)) AND 0xff)) [0..<32])"

definition sha256 :: "u8 list \<Rightarrow> u8 list \<Rightarrow> u8 list" where
  "sha256 stack data = sha256_final (sha256_update (sha256_init stack) data)"

subsection \<open>The standard\<close>

text \<open>FIPS 180-4: the padded message (5.1.1), the schedule and the compression of a block (6.2.2).\<close>

definition fips_pad :: "u8 list \<Rightarrow> u8 list" where
  "fips_pad msg = msg @ [0x80] @ replicate ((119 - length msg mod 64) mod 64) 0
     @ be_bytes 8 (of_nat (8 * length msg) :: u64)"

fun fips_W :: "u8 list \<Rightarrow> nat \<Rightarrow> u32" where
  "fips_W blk t =
     (if t < 16 then be_val (take 4 (drop (4 * t) blk))
      else SIG1 (fips_W blk (t - 2)) + fips_W blk (t - 7) + SIG0 (fips_W blk (t - 15)) + fips_W blk (t - 16))"

declare fips_W.simps [simp del]

fun fips_step :: "(nat \<Rightarrow> u32) \<Rightarrow> nat \<Rightarrow> working \<Rightarrow> working" where
  "fips_step w t (a, b, c, d, e, f, g, h) =
     (let T1 = h + EP1 e + CH e f g + sha256_k ! t + w t; T2 = EP0 a + MAJ a b c
      in (T1 + T2, a, b, c, d + T1, e, f, g))"

fun to_words :: "working \<Rightarrow> u32 list" where
  "to_words (a, b, c, d, e, f, g, h) = [a, b, c, d, e, f, g, h]"

fun of_words :: "u32 list \<Rightarrow> working" where
  "of_words s = (s ! 0, s ! 1, s ! 2, s ! 3, s ! 4, s ! 5, s ! 6, s ! 7)"

definition fips_compress :: "u32 list \<Rightarrow> u8 list \<Rightarrow> u32 list" where
  "fips_compress H blk = map2 (+) H (to_words (fold (fips_step (fips_W blk)) [0..<64] (of_words H)))"

definition H0 :: "u32 list" where
  "H0 = [0x6a09e667, 0xbb67ae85, 0x3c6ef372, 0xa54ff53a, 0x510e527f, 0x9b05688c, 0x1f83d9ab, 0x5be0cd19]"

definition fips_sha256 :: "u8 list \<Rightarrow> u8 list" where
  "fips_sha256 msg = concat (map (be_bytes 4) (foldl fips_compress H0 (chunks 64 (fips_pad msg))))"

subsection \<open>The compression function implements the standard\<close>

lemma sched_word_be: "4 * i + 3 < length data \<Longrightarrow> sched_word data i = be_val (take 4 (drop (4 * i) data))"
proof -
  assume l: "4 * i + 3 < length data"
  have "take 4 (drop (4 * i) data) = [data ! (4 * i), data ! (4 * i + 1), data ! (4 * i + 2), data ! (4 * i + 3)]"
    using l by (intro nth_equalityI) (auto simp: less_Suc_eq numeral_eq_Suc)
  then show ?thesis by (simp add: sched_word_def or.assoc)
qed

lemma length_sched_extend [simp]: "length (sched_extend n m) = length m + n"
  by (induction n arbitrary: m) (simp_all add: Let_def)

lemma sched_extend_W:
  "16 \<le> length m \<Longrightarrow> (\<And>t. t < length m \<Longrightarrow> m ! t = fips_W blk t) \<Longrightarrow> t < length m + n
   \<Longrightarrow> sched_extend n m ! t = fips_W blk t"
proof (induction n arbitrary: m)
  case (Suc n)
  let ?i = "length m"
  let ?x = "SIG1 (m ! (?i - 2)) + m ! (?i - 7) + SIG0 (m ! (?i - 15)) + m ! (?i - 16)"
  have "?x = fips_W blk ?i" using Suc.prems(1,2) by (subst fips_W.simps) simp
  then have "(m @ [?x]) ! t = fips_W blk t" if "t < length (m @ [?x])" for t
    using that Suc.prems(2) by (auto simp: nth_append less_Suc_eq)
  then show ?case using Suc.IH [of "m @ [?x]"] Suc.prems by (simp add: Let_def)
qed simp

lemma sched_is_W:
  assumes "length blk = 64" and "t < 64"
  shows "sched_extend 48 (map (sched_word blk) [0..<16]) ! t = fips_W blk t"
proof (rule sched_extend_W)
  show "map (sched_word blk) [0..<16] ! t = fips_W blk t" if "t < length (map (sched_word blk) [0..<16])" for t
    using that assms(1) sched_word_be [of t blk] by (subst fips_W.simps) simp
qed (use assms in simp_all)

lemma working_cases:
  fixes x :: working
  obtains a b c d e f g h where "x = (a, b, c, d, e, f, g, h)"
  by (cases x) auto

lemma sha256_round_step:
  "m ! i = w i \<Longrightarrow> sha256_round m i x = fips_step w i x"
  by (cases x rule: working_cases) (simp add: sha256_round_def)

lemma list_8: "length s = 8 \<Longrightarrow> s = [s ! 0, s ! 1, s ! 2, s ! 3, s ! 4, s ! 5, s ! 6, s ! 7]"
  by (intro nth_equalityI) (auto simp: less_Suc_eq numeral_eq_Suc)

lemma sha256_transform_compress:
  assumes "length blk = 64" and "length (sh_state ctx) = 8"
  shows "sha256_transform ctx blk = ctx\<lparr>sh_state := fips_compress (sh_state ctx) blk\<rparr>"
proof -
  let ?m = "sched_extend 48 (map (sched_word blk) [0..<16])" and ?s = "sh_state ctx"
  have "fold (sha256_round ?m) [0..<64] x = fold (fips_step (fips_W blk)) [0..<64] x" for x
    using sched_is_W [OF assms(1)] by (intro fold_cong) (auto simp: sha256_round_step)
  moreover have "map2 (+) ?s [a, b, c, d, e, f, g, h] =
      [?s ! 0 + a, ?s ! 1 + b, ?s ! 2 + c, ?s ! 3 + d, ?s ! 4 + e, ?s ! 5 + f, ?s ! 6 + g, ?s ! 7 + h]" for a b c d e f g h
    by (subst list_8 [OF assms(2)]) simp
  ultimately show ?thesis
    unfolding sha256_transform_def fips_compress_def Let_def
    by (cases "fold (fips_step (fips_W blk)) [0..<64] (of_words ?s)" rule: working_cases) simp
qed

lemma length_fips_compress: "length H = 8 \<Longrightarrow> length (fips_compress H blk) = 8"
proof -
  have "length (to_words x) = 8" for x by (cases x rule: working_cases) simp
  then show "length H = 8 \<Longrightarrow> ?thesis" by (simp add: fips_compress_def)
qed

lemma length_foldl_compress: "length H = 8 \<Longrightarrow> length (foldl fips_compress H bs) = 8"
  by (induction bs arbitrary: H) (simp_all add: length_fips_compress)

subsection \<open>The buffer\<close>

definition sha256_inv :: "u8 list \<Rightarrow> sha256_ctx \<Rightarrow> bool" where
  "sha256_inv msg ctx \<longleftrightarrow> length (sh_data ctx) = 64 \<and> sh_datalen ctx = of_nat (length msg mod 64)
     \<and> take (length msg mod 64) (sh_data ctx) = chunk_rest 64 msg
     \<and> sh_bitlen ctx = of_nat (512 * (length msg div 64)) \<and> sh_state ctx = foldl fips_compress H0 (chunks 64 msg)"

lemma unat_mod64: "unat (of_nat (n mod 64) :: u32) = n mod 64"
proof -
  have "n mod 64 < 2 ^ 32" by (rule less_trans [of _ 64]) simp_all
  then show ?thesis by (simp add: unat_of_nat)
qed

lemma sha256_inv_init: "length stack = 64 \<Longrightarrow> sha256_inv [] (sha256_init stack)"
  by (simp add: sha256_inv_def sha256_init_def H0_def)

lemma sha256_inv_byte:
  assumes "sha256_inv msg ctx"
  shows "sha256_inv (msg @ [b]) (sha256_byte b ctx)"
proof -
  let ?r = "length msg mod 64"
  let ?d = "(sh_data ctx)[?r := b]"
  have len: "length (sh_data ctx) = 64" and dl: "sh_datalen ctx = of_nat ?r" "unat (sh_datalen ctx) = ?r"
    and st: "sh_state ctx = foldl fips_compress H0 (chunks 64 msg)"
    using assms unat_mod64 by (auto simp: sha256_inv_def)
  have r: "?r < 64" by simp
  have tk: "take (Suc ?r) ?d = chunk_rest 64 msg @ [b]"
    using assms len r by (simp add: sha256_inv_def take_Suc_conv_app_nth)
  have dl1: "sh_datalen ctx + 1 = of_nat (Suc ?r)" using dl by (simp add: add.commute)
  have full: "sh_datalen ctx + 1 = 64 \<longleftrightarrow> Suc ?r = 64"
  proof -
    have "Suc ?r \<le> 64" using r by (rule Suc_leI)
    then have "Suc ?r < 2 ^ 32" by (rule le_less_trans) simp
    then have "unat (of_nat (Suc ?r) :: u32) = Suc ?r" by (simp only: unat_of_nat) (simp del: of_nat_Suc)
    moreover have "unat (64 :: u32) = 64" by simp
    ultimately show ?thesis unfolding dl1 using word_unat_eq_iff by metis
  qed
  have lr: "length (chunk_rest 64 msg) = ?r" by (simp add: length_chunk_rest)
  show ?thesis
  proof (cases "Suc ?r = 64")
    case True
    have m0: "length (msg @ [b]) mod 64 = 0" "length (msg @ [b]) div 64 = Suc (length msg div 64)"
      using True by (simp_all add: mod_Suc div_Suc)
    have d: "?d = chunk_rest 64 msg @ [b]" using tk True len by simp
    have "chunks 64 (msg @ [b]) = chunks 64 msg @ [?d]" "chunk_rest 64 (msg @ [b]) = []"
      using chunks_snoc [of 64 msg b] lr True d by simp_all
    moreover have "sha256_byte b ctx = ctx\<lparr>sh_data := ?d, sh_state := fips_compress (sh_state ctx) ?d,
        sh_bitlen := sh_bitlen ctx + 512, sh_datalen := 0\<rparr>"
      using full True dl len st
      by (simp add: sha256_byte_def Let_def sha256_transform_compress length_foldl_compress H0_def)
    ultimately show ?thesis
      using assms len st m0 by (simp add: sha256_inv_def)
  next
    case False
    have m0: "length (msg @ [b]) mod 64 = Suc ?r" "length (msg @ [b]) div 64 = length msg div 64"
      using False by (simp_all add: mod_Suc div_Suc)
    have "chunks 64 (msg @ [b]) = chunks 64 msg" "chunk_rest 64 (msg @ [b]) = chunk_rest 64 msg @ [b]"
      using chunks_snoc [of 64 msg b] lr False by simp_all
    moreover have "sha256_byte b ctx = ctx\<lparr>sh_data := ?d, sh_datalen := sh_datalen ctx + 1\<rparr>"
      using full False dl by (simp add: sha256_byte_def Let_def)
    ultimately show ?thesis
      using assms tk m0 dl1 by (simp add: sha256_inv_def)
  qed
qed

lemma sha256_inv_update:
  "sha256_inv msg ctx \<Longrightarrow> sha256_inv (msg @ data) (sha256_update ctx data)"
proof (induction data arbitrary: msg ctx)
  case (Cons b data)
  from Cons.IH [OF sha256_inv_byte [OF Cons.prems], of b] show ?case by (simp add: sha256_update_def)
qed (simp add: sha256_update_def)

subsection \<open>Padding\<close>

lemma fill_eq: "i \<le> n \<Longrightarrow> n \<le> length bs \<Longrightarrow> fill i n bs = take i bs @ replicate (n - i) 0 @ drop n bs"
proof (induction n)
  case (Suc n)
  show ?case
  proof (cases "i = Suc n")
    case False
    then have i: "i \<le> n" using Suc.prems by simp
    have "fill i (Suc n) bs = (fill i n bs)[n := 0]" using i by (simp add: fill_def)
    also have "\<dots> = (take i bs @ replicate (n - i) 0 @ drop n bs)[n := 0]" using Suc i by simp
    also have "drop n bs = bs ! n # drop (Suc n) bs" using Suc.prems by (simp add: Cons_nth_drop_Suc)
    also have "(take i bs @ replicate (n - i) 0 @ bs ! n # drop (Suc n) bs)[n := 0] =
        take i bs @ (replicate (n - i) 0 @ [0]) @ drop (Suc n) bs"
      using i Suc.prems by (simp add: list_update_append)
    also have "replicate (n - i) 0 @ [0] = replicate (Suc n - i) 0" using i by (simp add: Suc_diff_le replicate_append_same)
    finally show ?thesis .
  qed (simp add: fill_def)
qed (simp add: fill_def)

lemma tail_update:
  assumes "length d = 64"
  shows "d[63 := a7, 62 := a6, 61 := a5, 60 := a4, 59 := a3, 58 := a2, 57 := a1, 56 := a0] = take 56 d @ [a0, a1, a2, a3, a4, a5, a6, a7]"
proof (rule nth_equalityI)
  fix i assume "i < length (d[63 := a7, 62 := a6, 61 := a5, 60 := a4, 59 := a3, 58 := a2, 57 := a1, 56 := a0])"
  then have "i < 64" using assms by simp
  then have "i < 56 \<or> i = 56 \<or> i = 57 \<or> i = 58 \<or> i = 59 \<or> i = 60 \<or> i = 61 \<or> i = 62 \<or> i = 63" by arith
  then show "d[63 := a7, 62 := a6, 61 := a5, 60 := a4, 59 := a3, 58 := a2, 57 := a1, 56 := a0] ! i
      = (take 56 d @ [a0, a1, a2, a3, a4, a5, a6, a7]) ! i"
    using assms by (elim disjE) (simp_all add: nth_append)
qed (simp add: assms)

lemma ucast_and_ff: "ucast (w AND 0xff) = (ucast w :: u8)" for w :: u32
proof -
  have "ucast (w AND mask 8) = (ucast w :: u8)" by (auto intro!: bit_word_eqI simp: bit_simps)
  then show ?thesis by (simp add: mask_eq_exp_minus_1)
qed

lemma digest_bytes:
  assumes "length s = 8"
  shows "map (\<lambda>i. ucast (drop_bit (24 - (i mod 4) * 8) (s ! (i div 4)) AND 0xff)) [0..<32] = concat (map (be_bytes 4) (s :: u32 list))"
proof -
  have u: "[0..<32] = [0,1,2,3,4,5,6,7,8,9,10,11,12,13,14,15,16,17,18,19,20,21,22,23,24,25,26,27,28,29,30,31]" by (simp add: upt_rec)
  show ?thesis
    by (subst (2) list_8 [OF assms]) (simp add: u ucast_and_ff be_bytes_4)
qed

lemma mod64_small: "n mod 64 < (2 :: nat) ^ 64"
  by (rule less_trans [of _ 64]) simp_all

lemma unat_mod64_64: "unat (of_nat (n mod 64) :: u64) = n mod 64"
  using mod64_small [of n] by (simp add: unat_of_nat)

lemma bitlen_total:
  "of_nat (512 * (n div 64)) + ucast (of_nat (n mod 64) :: u32) * 8 = (of_nat (8 * n) :: u64)"
proof -
  have "ucast (of_nat (n mod 64) :: u32) = (of_nat (n mod 64) :: u64)"
    by (rule word_unat_eq_iff [THEN iffD2]) (simp add: unsigned_ucast_eq unat_mod64 unat_mod64_64 take_bit_nat_eq_self [OF mod64_small])
  moreover have "of_nat (512 * a) + of_nat b * 8 = (of_nat (8 * (64 * a + b)) :: u64)" for a b by (simp add: algebra_simps)
  ultimately show ?thesis by (simp only: mult_div_mod_eq)
qed

lemma pad_small: "r < 56 \<Longrightarrow> (119 - r) mod 64 = 55 - (r :: nat)"
proof -
  assume r: "r < 56"
  then have "119 - r = 64 + (55 - r)" by simp
  also have "\<dots> mod 64 = 55 - r" using r by (simp only: mod_add_self1) simp
  finally show ?thesis .
qed

lemma sha256_final_fips:
  assumes inv: "sha256_inv msg ctx"
  shows "sha256_final ctx = fips_sha256 msg"
proof -
  let ?r = "length msg mod 64" and ?R = "chunk_rest 64 msg" and ?H = "foldl fips_compress H0 (chunks 64 msg)"
  let ?be = "be_bytes 8 (of_nat (8 * length msg) :: u64)"
  have len: "length (sh_data ctx) = 64" and dl: "sh_datalen ctx = of_nat ?r" "unat (sh_datalen ctx) = ?r"
    and tk: "take ?r (sh_data ctx) = ?R" and st: "sh_state ctx = ?H" and bl: "sh_bitlen ctx = of_nat (512 * (length msg div 64))"
    using inv unat_mod64 by (auto simp: sha256_inv_def)
  have r: "?r < 64" and lR: "length ?R = ?r" and lH: "length ?H = 8"
    by (simp_all add: length_chunk_rest length_foldl_compress H0_def)
  have lt: "sh_datalen ctx < 56 \<longleftrightarrow> ?r < 56" using dl by (simp add: word_less_nat_alt)
  have total: "sh_bitlen ctx + ucast (sh_datalen ctx) * 8 = of_nat (8 * length msg)"
    unfolding bl dl(1) by (rule bitlen_total)
  have tk1: "take (Suc ?r) ((sh_data ctx)[?r := 0x80]) = ?R @ [0x80]"
    using tk len r by (simp add: take_Suc_conv_app_nth)
  have out: "sha256_final ctx = concat (map (be_bytes 4) (fips_compress s (take 56 d @ ?be)))"
    if "(if sh_datalen ctx < 56 then ctx\<lparr>sh_data := fill (?r + 1) 56 ((sh_data ctx)[?r := 0x80])\<rparr>
         else (let ctx = ctx\<lparr>sh_data := fill (?r + 1) 64 ((sh_data ctx)[?r := 0x80])\<rparr>;
                   ctx = sha256_transform ctx (sh_data ctx)
               in ctx\<lparr>sh_data := fill 0 56 (sh_data ctx)\<rparr>)) = ctx\<lparr>sh_data := d, sh_state := s\<rparr>"
      and "length d = 64" "length s = 8" for d s
    unfolding sha256_final_def Let_def dl(2) that(1) [unfolded Let_def]
    using total that(2,3)
    by (simp add: tail_update sha256_transform_compress be_bytes_8 digest_bytes length_fips_compress)
  show ?thesis
  proof (cases "?r < 56")
    case True
    let ?d = "fill (?r + 1) 56 ((sh_data ctx)[?r := 0x80])"
    have d: "take 56 ?d = ?R @ [0x80] @ replicate (55 - ?r) 0" "length ?d = 64"
      using True len r tk1 lR by (simp_all add: fill_eq take_Cons')
    have "(119 - ?r) mod 64 = 55 - ?r" by (rule pad_small [OF True])
    then have "chunks 64 (fips_pad msg) = chunks 64 msg @ [?R @ [0x80] @ replicate (55 - ?r) 0 @ ?be]"
      using True lR by (simp add: fips_pad_def chunks_append chunks_one)
    then have "fips_sha256 msg = concat (map (be_bytes 4) (fips_compress ?H (take 56 ?d @ ?be)))"
      unfolding d(1) by (simp add: fips_sha256_def)
    moreover have "sha256_final ctx = concat (map (be_bytes 4) (fips_compress ?H (take 56 ?d @ ?be)))"
      using lt True st [symmetric] by (intro out d(2) lH) simp
    ultimately show ?thesis by simp
  next
    case False
    let ?b1 = "?R @ [0x80] @ replicate (63 - ?r) 0"
    have d: "fill (?r + 1) 64 ((sh_data ctx)[?r := 0x80]) = ?b1" using len r tk1 by (simp add: fill_eq)
    have l1: "length ?b1 = 64" using lR r by simp
    have z: "take 56 (fill 0 56 ?b1) = replicate 56 0" "length (fill 0 56 ?b1) = 64" using l1 by (simp_all add: fill_eq)
    have "(119 - ?r) mod 64 = 119 - ?r" using False r by simp
    moreover have "replicate (119 - ?r) 0 = replicate (63 - ?r) (0 :: u8) @ replicate 56 0"
      using r by (simp flip: replicate_add)
    ultimately have "fips_pad msg = msg @ [0x80] @ replicate (63 - ?r) 0 @ replicate 56 0 @ ?be" by (simp add: fips_pad_def)
    then have "chunks 64 (fips_pad msg) = chunks 64 msg @ chunks 64 (?b1 @ replicate 56 0 @ ?be)"
      using chunks_append [of 64 msg "[0x80] @ replicate (63 - ?r) 0 @ replicate 56 0 @ ?be"] by simp
    also have "chunks 64 (?b1 @ replicate 56 0 @ ?be) = [?b1, replicate 56 0 @ ?be]"
      using chunks_Cons [OF l1, of "replicate 56 0 @ ?be"] by (simp add: chunks_one)
    finally have "fips_sha256 msg = concat (map (be_bytes 4) (fips_compress (fips_compress ?H ?b1) (replicate 56 0 @ ?be)))"
      by (simp add: fips_sha256_def)
    moreover have "sha256_final ctx = concat (map (be_bytes 4) (fips_compress (fips_compress ?H ?b1) (take 56 (fill 0 56 ?b1) @ ?be)))"
      using z(2) lH st l1 lt False d by (intro out) (simp_all add: Let_def sha256_transform_compress length_fips_compress)
    ultimately show ?thesis using z by simp
  qed
qed

subsection \<open>Constants and functions of the standard\<close>

text \<open>The round constants come from cube roots and the initial state from square roots of the first primes.\<close>

lemma sha256_k_cube_roots: "list_all2 (\<lambda>p k. root_frac 3 32 p (unat k)) (take 64 fips_primes) sha256_k"
  by (simp add: fips_primes_def sha256_k_def sha256_k_rows_def root_frac_def root_whole_def)

lemma sha256_init_square_roots: "list_all2 (\<lambda>p k. root_frac 2 32 p (unat k)) (take 8 fips_primes) (sh_state (sha256_init stack))"
  by (simp add: fips_primes_def sha256_init_def root_frac_def root_whole_def)

text \<open>The macros: a rotation, a choice and a majority of bits.\<close>

lemma ROTRIGHT_bit:
  assumes "i < 32" and "n < 32"
  shows "bit (ROTRIGHT x n) i = bit x ((i + n) mod 32)"
proof -
  have e: "bit (ROTRIGHT x n) i \<longleftrightarrow> bit x (n + i) \<or> 32 - n \<le> i \<and> bit x (i - (32 - n))"
    using assms(1) by (simp add: ROTRIGHT_def bit_or_iff bit_drop_bit_eq bit_push_bit_iff)
  show ?thesis
  proof (cases "32 \<le> i + n")
    case True
    then have "\<not> bit x (n + i)" by (auto dest: bit_imp_le_length)
    moreover have "(i + n) mod 32 = i - (32 - n)" using True assms by (simp add: mod_if)
    moreover have "32 - n \<le> i" using True by simp
    ultimately show ?thesis unfolding e by simp
  next
    case False
    then have "\<not> 32 - n \<le> i" "(i + n) mod 32 = i + n" by auto
    then show ?thesis unfolding e by (simp add: add.commute)
  qed
qed

lemma CH_bit: "i < 32 \<Longrightarrow> bit (CH x y z) i = (if bit x i then bit y i else bit z i)"
  by (simp add: CH_def bit_xor_iff bit_and_iff bit_not_iff)

lemma MAJ_bit: "bit (MAJ x y z) i \<longleftrightarrow> bit x i \<and> bit y i \<or> bit x i \<and> bit z i \<or> bit y i \<and> bit z i"
  by (auto simp: MAJ_def bit_xor_iff bit_and_iff)

subsection \<open>Properties\<close>

text \<open>
  C19.  \<^verbatim>\<open>sha256\<close> computes the SHA-256 of FIPS 180-4: fed in any number of pieces, whatever bytes the
  context's buffer held on the stack, the digest is that of the whole message, padded and cut into
  blocks as the standard says.  (The length field is the number of bits modulo \<open>2\<^sup>6\<^sup>4\<close> on both sides.)
\<close>

theorem sha256_fips:
  assumes "length stack = 64"
  shows "sha256_final (fold (\<lambda>piece ctx. sha256_update ctx piece) pieces (sha256_init stack)) = fips_sha256 (concat pieces)
     \<and> sha256 stack msg = fips_sha256 msg"
proof -
  have "sha256_inv (m @ concat pieces) (fold (\<lambda>piece ctx. sha256_update ctx piece) pieces ctx)" if "sha256_inv m ctx" for m ctx
    using that
  proof (induction pieces arbitrary: m ctx)
    case (Cons p pieces)
    from Cons.IH [OF sha256_inv_update [OF Cons.prems, of p]] show ?case by simp
  qed simp
  from this [OF sha256_inv_init [OF assms]] sha256_inv_update [OF sha256_inv_init [OF assms], of msg]
  show ?thesis by (simp add: sha256_final_fips sha256_def)
qed

theorem sha256_fips_witness:
  "sha256 (replicate 64 7) [97, 98, 99] = fips_sha256 [97, 98, 99]"
  using sha256_fips [of "replicate 64 7" "[]" "[97, 98, 99]"] by simp

end
