(* ===== verification/Sha512.thy ===== *)
theory Sha512
  imports Byte_Blocks
begin

text \<open>
  SHA-512 (\<^verbatim>\<open>kernel/crypto/sha512.c\<close>): the compact routine with its sixteen-word schedule updated in
  place, and the standard it implements.
\<close>

definition dl64 :: "u8 list \<Rightarrow> u64" where
  "dl64 x = fold (\<lambda>i u. push_bit 8 u OR ucast (x ! i)) [0..<8] 0"

text \<open>\<open>ts64 x p u\<close> is \<^verbatim>\<open>ts64(x + p, u)\<close>.\<close>

definition ts64 :: "u8 list \<Rightarrow> nat \<Rightarrow> u64 \<Rightarrow> u8 list" where
  "ts64 x p u = fst (fold (\<lambda>i (x, u). (x[p + i := ucast u], drop_bit 8 u)) (rev [0..<8]) (x, u))"

definition sha512_R :: "u64 \<Rightarrow> nat \<Rightarrow> u64" where "sha512_R x c = drop_bit c x OR push_bit (64 - c) x"
definition Ch :: "u64 \<Rightarrow> u64 \<Rightarrow> u64 \<Rightarrow> u64" where "Ch x y z = (x AND y) XOR (NOT x AND z)"
definition Maj :: "u64 \<Rightarrow> u64 \<Rightarrow> u64 \<Rightarrow> u64" where "Maj x y z = (x AND y) XOR (x AND z) XOR (y AND z)"
definition Sigma0 :: "u64 \<Rightarrow> u64" where "Sigma0 x = sha512_R x 28 XOR sha512_R x 34 XOR sha512_R x 39"
definition Sigma1 :: "u64 \<Rightarrow> u64" where "Sigma1 x = sha512_R x 14 XOR sha512_R x 18 XOR sha512_R x 41"
definition sigma0 :: "u64 \<Rightarrow> u64" where "sigma0 x = sha512_R x 1 XOR sha512_R x 8 XOR drop_bit 7 x"
definition sigma1 :: "u64 \<Rightarrow> u64" where "sigma1 x = sha512_R x 19 XOR sha512_R x 61 XOR drop_bit 6 x"

text \<open>The rows of the initialiser.\<close>

definition sha512_K_rows :: "u64 list list" where
  "sha512_K_rows =
    [[0x428a2f98d728ae22, 0x7137449123ef65cd, 0xb5c0fbcfec4d3b2f, 0xe9b5dba58189dbbc],
     [0x3956c25bf348b538, 0x59f111f1b605d019, 0x923f82a4af194f9b, 0xab1c5ed5da6d8118],
     [0xd807aa98a3030242, 0x12835b0145706fbe, 0x243185be4ee4b28c, 0x550c7dc3d5ffb4e2],
     [0x72be5d74f27b896f, 0x80deb1fe3b1696b1, 0x9bdc06a725c71235, 0xc19bf174cf692694],
     [0xe49b69c19ef14ad2, 0xefbe4786384f25e3, 0x0fc19dc68b8cd5b5, 0x240ca1cc77ac9c65],
     [0x2de92c6f592b0275, 0x4a7484aa6ea6e483, 0x5cb0a9dcbd41fbd4, 0x76f988da831153b5],
     [0x983e5152ee66dfab, 0xa831c66d2db43210, 0xb00327c898fb213f, 0xbf597fc7beef0ee4],
     [0xc6e00bf33da88fc2, 0xd5a79147930aa725, 0x06ca6351e003826f, 0x142929670a0e6e70],
     [0x27b70a8546d22ffc, 0x2e1b21385c26c926, 0x4d2c6dfc5ac42aed, 0x53380d139d95b3df],
     [0x650a73548baf63de, 0x766a0abb3c77b2a8, 0x81c2c92e47edaee6, 0x92722c851482353b],
     [0xa2bfe8a14cf10364, 0xa81a664bbc423001, 0xc24b8b70d0f89791, 0xc76c51a30654be30],
     [0xd192e819d6ef5218, 0xd69906245565a910, 0xf40e35855771202a, 0x106aa07032bbd1b8],
     [0x19a4c116b8d2d0c8, 0x1e376c085141ab53, 0x2748774cdf8eeb99, 0x34b0bcb5e19b48a8],
     [0x391c0cb3c5c95a63, 0x4ed8aa4ae3418acb, 0x5b9cca4f7763e373, 0x682e6ff3d6b2b8a3],
     [0x748f82ee5defb2fc, 0x78a5636f43172f60, 0x84c87814a1f0ab72, 0x8cc702081a6439ec],
     [0x90befffa23631e28, 0xa4506cebde82bde9, 0xbef9a3f7b2c67915, 0xc67178f2e372532b],
     [0xca273eceea26619c, 0xd186b8c721c0c207, 0xeada7dd6cde0eb1e, 0xf57d4f7fee6ed178],
     [0x06f067aa72176fba, 0x0a637dc5a2c898a6, 0x113f9804bef90dae, 0x1b710b35131c471b],
     [0x28db77f523047d84, 0x32caab7b40c72493, 0x3c9ebe0a15c9bebc, 0x431d67c49c100d4c],
     [0x4cc5d4becb3e42b6, 0x597f299cfc657e2a, 0x5fcb6fab3ad6faec, 0x6c44198c4a475817]]"

definition sha512_K :: "u64 list" where
  "sha512_K = concat sha512_K_rows"

text \<open>One round: the working variables \<^verbatim>\<open>a\<close> and the schedule \<^verbatim>\<open>w\<close>.\<close>

definition sha512_extend :: "u64 list \<Rightarrow> u64 list" where
  "sha512_extend w =
     fold (\<lambda>j w. w[j := w ! j + (w ! ((j + 9) mod 16) + sigma0 (w ! ((j + 1) mod 16)) + sigma1 (w ! ((j + 14) mod 16)))])
       [0..<16] w"

definition sha512_round :: "nat \<Rightarrow> u64 list \<times> u64 list \<Rightarrow> u64 list \<times> u64 list" where
  "sha512_round i = (\<lambda>(a, w).
     let b = a;
         t = a ! 7 + Sigma1 (a ! 4) + Ch (a ! 4) (a ! 5) (a ! 6) + sha512_K ! i + w ! (i mod 16);
         b = b[7 := t + Sigma0 (a ! 0) + Maj (a ! 0) (a ! 1) (a ! 2)];
         b = b[3 := b ! 3 + t];
         a = fold (\<lambda>j a. a[(j + 1) mod 8 := b ! j]) [0..<8] a;
         w = (if i mod 16 = 15 then sha512_extend w else w)
     in (a, w))"

definition sha512_block :: "u64 list \<Rightarrow> u8 list \<Rightarrow> u64 list" where
  "sha512_block z m =
     (let w = map (\<lambda>i. dl64 (drop (8 * i) m)) [0..<16];
          a = fst (fold sha512_round [0..<80] (z, w))
      in map (\<lambda>i. a ! i + z ! i) [0..<8])"

function sha512_loop :: "u64 list \<Rightarrow> u8 list \<Rightarrow> u64 \<Rightarrow> u64 list \<times> u64" where
  "sha512_loop z m n = (if 128 \<le> n then sha512_loop (sha512_block z m) (drop 128 m) (n - 128) else (z, n))"
  by pat_completeness auto
termination
  by (relation "measure (\<lambda>(z, m, n). unat n)") (auto simp: word_le_nat_alt unat_sub)

declare sha512_loop.simps [simp del]

definition sha512_blocks :: "u8 list \<Rightarrow> u8 list \<Rightarrow> u64 \<Rightarrow> u8 list \<times> u64" where
  "sha512_blocks x m n =
     (let z = map (\<lambda>i. dl64 (drop (8 * i) x)) [0..<8];
          (z, n) = sha512_loop z m n
      in (fold (\<lambda>i x. ts64 x (8 * i) (z ! i)) [0..<8] x, n))"

definition sha512_iv :: "u8 list" where
  "sha512_iv =
    [0x6a, 0x09, 0xe6, 0x67, 0xf3, 0xbc, 0xc9, 0x08, 0xbb, 0x67, 0xae, 0x85, 0x84, 0xca, 0xa7, 0x3b,
     0x3c, 0x6e, 0xf3, 0x72, 0xfe, 0x94, 0xf8, 0x2b, 0xa5, 0x4f, 0xf5, 0x3a, 0x5f, 0x1d, 0x36, 0xf1,
     0x51, 0x0e, 0x52, 0x7f, 0xad, 0xe6, 0x82, 0xd1, 0x9b, 0x05, 0x68, 0x8c, 0x2b, 0x3e, 0x6c, 0x1f,
     0x1f, 0x83, 0xd9, 0xab, 0xfb, 0x41, 0xbd, 0x6b, 0x5b, 0xe0, 0xcd, 0x19, 0x13, 0x7e, 0x21, 0x79]"

definition sha512 :: "u8 list \<Rightarrow> u64 \<Rightarrow> u8 list" where
  "sha512 m n =
     (let b = n;
          h = fst (sha512_blocks sha512_iv m n);
          r = unat (n AND 127);
          m = drop (unat n - r) m;
          x = replicate 256 0;
          x = fold (\<lambda>i x. x[i := m ! i]) [0..<r] x;
          x = x[r := 128];
          n = (256 - 128 * (if r < 112 then 1 else 0) :: nat);
          x = x[n - 9 := ucast (drop_bit 61 b)];
          x = ts64 x (n - 8) (push_bit 3 b)
      in fst (sha512_blocks h x (of_nat n)))"

subsection \<open>The standard\<close>

definition fips512_pad :: "u8 list \<Rightarrow> u8 list" where
  "fips512_pad msg = msg @ [0x80] @ replicate ((239 - length msg mod 128) mod 128) 0
     @ be_bytes 16 (of_nat (8 * length msg) :: 128 word)"

fun fips512_W :: "u8 list \<Rightarrow> nat \<Rightarrow> u64" where
  "fips512_W blk t =
     (if t < 16 then be_val (take 8 (drop (8 * t) blk))
      else sigma1 (fips512_W blk (t - 2)) + fips512_W blk (t - 7) + sigma0 (fips512_W blk (t - 15)) + fips512_W blk (t - 16))"

declare fips512_W.simps [simp del]

text \<open>The step of the standard on the eight working variables, as a list.\<close>

definition fips512_step :: "(nat \<Rightarrow> u64) \<Rightarrow> nat \<Rightarrow> u64 list \<Rightarrow> u64 list" where
  "fips512_step w t v =
     (let T1 = v ! 7 + Sigma1 (v ! 4) + Ch (v ! 4) (v ! 5) (v ! 6) + sha512_K ! t + w t;
          T2 = Sigma0 (v ! 0) + Maj (v ! 0) (v ! 1) (v ! 2)
      in [T1 + T2, v ! 0, v ! 1, v ! 2, v ! 3 + T1, v ! 4, v ! 5, v ! 6])"

definition fips512_compress :: "u64 list \<Rightarrow> u8 list \<Rightarrow> u64 list" where
  "fips512_compress H blk = map2 (+) (fold (fips512_step (fips512_W blk)) [0..<80] H) H"

definition H512 :: "u64 list" where
  "H512 = [0x6a09e667f3bcc908, 0xbb67ae8584caa73b, 0x3c6ef372fe94f82b, 0xa54ff53a5f1d36f1,
           0x510e527fade682d1, 0x9b05688c2b3e6c1f, 0x1f83d9abfb41bd6b, 0x5be0cd19137e2179]"

definition fips_sha512 :: "u8 list \<Rightarrow> u8 list" where
  "fips_sha512 msg = concat (map (be_bytes 8) (foldl fips512_compress H512 (chunks 128 (fips512_pad msg))))"

subsection \<open>Words and bytes\<close>

lemma dl64_be: "8 \<le> length x \<Longrightarrow> dl64 x = be_val (take 8 x)"
proof -
  assume l: "8 \<le> length x"
  have "take 8 x = [x ! 0, x ! 1, x ! 2, x ! 3, x ! 4, x ! 5, x ! 6, x ! 7]"
    using l by (intro nth_equalityI) (auto simp: less_Suc_eq numeral_eq_Suc)
  moreover have "[0..<8] = [0, 1, 2, 3, 4, 5, 6, 7 :: nat]" by (simp add: upt_rec)
  ultimately show ?thesis by (simp add: dl64_def push_bit_or or.assoc)
qed

lemma list_8_64: "length s = 8 \<Longrightarrow> s = [s ! 0, s ! 1, s ! 2, s ! 3, s ! 4, s ! 5, s ! 6, s ! 7]"
  by (intro nth_equalityI) (auto simp: less_Suc_eq numeral_eq_Suc)

lemma ts64_eq:
  assumes "p + 8 \<le> length x"
  shows "ts64 x p u = take p x @ be_bytes 8 u @ drop (p + 8) x"
proof -
  have e: "rev [0..<8] = [7, 6, 5, 4, 3, 2, 1, 0 :: nat]" by (simp add: upt_rec)
  have "ts64 x p u = x[p + 7 := ucast u, p + 6 := ucast (drop_bit 8 u), p + 5 := ucast (drop_bit 16 u), p + 4 := ucast (drop_bit 24 u),
      p + 3 := ucast (drop_bit 32 u), p + 2 := ucast (drop_bit 40 u), p + 1 := ucast (drop_bit 48 u), p := ucast (drop_bit 56 u)]"
    unfolding ts64_def e by (simp add: drop_bit_drop_bit)
  also have "\<dots> = take p x @ be_bytes 8 u @ drop (p + 8) x"
  proof (rule nth_equalityI)
    fix i assume "i < length (x[p + 7 := ucast u, p + 6 := ucast (drop_bit 8 u), p + 5 := ucast (drop_bit 16 u),
      p + 4 := ucast (drop_bit 24 u), p + 3 := ucast (drop_bit 32 u), p + 2 := ucast (drop_bit 40 u),
      p + 1 := ucast (drop_bit 48 u), p := ucast (drop_bit 56 u)])"
    then have i: "i < length x" by simp
    have "i < p \<or> i = p \<or> i = p + 1 \<or> i = p + 2 \<or> i = p + 3 \<or> i = p + 4 \<or> i = p + 5 \<or> i = p + 6 \<or> i = p + 7 \<or> p + 8 \<le> i"
      by arith
    then show "x[p + 7 := ucast u, p + 6 := ucast (drop_bit 8 u), p + 5 := ucast (drop_bit 16 u), p + 4 := ucast (drop_bit 24 u),
      p + 3 := ucast (drop_bit 32 u), p + 2 := ucast (drop_bit 40 u), p + 1 := ucast (drop_bit 48 u), p := ucast (drop_bit 56 u)] ! i
      = (take p x @ be_bytes 8 u @ drop (p + 8) x) ! i"
      using assms i by (elim disjE) (simp_all add: nth_append be_bytes_8 nth_list_update)
  qed (use assms in simp)
  finally show ?thesis .
qed

lemma fold_upt_Suc: "fold f [0..<Suc n] x = f n (fold f [0..<n] x)"
  by simp

subsection \<open>The schedule\<close>

lemma sha512_extend_W:
  assumes "length w = 16" and "\<And>k. k < 16 \<Longrightarrow> w ! k = fips512_W blk (16 * q + k)" and "k < 16"
  shows "sha512_extend w ! k = fips512_W blk (16 * Suc q + k)"
proof -
  let ?f = "\<lambda>j w. w[j := w ! j + (w ! ((j + 9) mod 16) + sigma0 (w ! ((j + 1) mod 16)) + sigma1 (w ! ((j + 14) mod 16)))]"
  have "length (fold ?f [0..<n] w) = 16 \<and>
      (\<forall>k < 16. fold ?f [0..<n] w ! k = fips512_W blk (16 * q + k + (if k < n then 16 else 0)))" if "n \<le> 16" for n
    using that
  proof (induction n)
    case 0
    then show ?case using assms by simp
  next
    case (Suc n)
    define v where "v = fold ?f [0..<n] w"
    have l: "length v = 16" and h: "\<And>k. k < 16 \<Longrightarrow> v ! k = fips512_W blk (16 * q + k + (if k < n then 16 else 0))"
      using Suc by (simp_all add: v_def)
    have look: "v ! ((n + d) mod 16) = fips512_W blk (16 * q + n + d)" if "d < 16" for d
    proof (cases "n + d < 16")
      case True
      then show ?thesis using h [of "n + d"] by (simp add: add.assoc)
    next
      case False
      then have "(n + d) mod 16 = n + d - 16" "n + d - 16 < n" "n + d - 16 < 16"
        using Suc.prems that by (simp_all add: mod_if)
      then show ?thesis using h [of "n + d - 16"] False by (simp add: add.assoc)
    qed
    have "fips512_W blk (16 * q + n + 16) = sigma1 (fips512_W blk (16 * q + n + 14)) + fips512_W blk (16 * q + n + 9)
        + sigma0 (fips512_W blk (16 * q + n + 1)) + fips512_W blk (16 * q + n)"
      by (subst fips512_W.simps) (simp add: add.commute)
    then have "v ! n + (v ! ((n + 9) mod 16) + sigma0 (v ! ((n + 1) mod 16)) + sigma1 (v ! ((n + 14) mod 16)))
        = fips512_W blk (16 * q + n + 16)"
      using look [of 9] look [of 1] look [of 14] h [of n] Suc.prems by (simp add: add_ac)
    then have "fold ?f [0..<Suc n] w = v[n := fips512_W blk (16 * q + n + 16)]"
      unfolding fold_upt_Suc v_def by (rule arg_cong)
    then show ?case using l h Suc.prems by (auto simp: nth_list_update less_Suc_eq)
  qed
  from this [of 16] assms(3) show ?thesis by (simp add: sha512_extend_def add_ac)
qed

lemma length_sha512_extend [simp]: "length (sha512_extend w) = length w"
proof -
  have "length (fold (\<lambda>j w. w[j := g j w]) js w) = length w" for g js by (induction js arbitrary: w) auto
  then show ?thesis by (simp add: sha512_extend_def)
qed

lemma sha512_round_step:
  assumes "length a = 8" and "w ! (i mod 16) = W i"
  shows "sha512_round i (a, w) = (fips512_step W i a, if i mod 16 = 15 then sha512_extend w else w)"
proof -
  obtain x0 x1 x2 x3 x4 x5 x6 x7 where a: "a = [x0, x1, x2, x3, x4, x5, x6, x7]" using list_8_64 [OF assms(1)] by blast
  have "[0..<8] = [0, 1, 2, 3, 4, 5, 6, 7 :: nat]" by (simp add: upt_rec)
  then show ?thesis using assms(2) by (simp add: sha512_round_def fips512_step_def Let_def a add_ac)
qed

lemma length_fips512_step [simp]: "length (fips512_step W i a) = 8"
  by (simp add: fips512_step_def Let_def)

lemma sha512_rounds:
  assumes "length z = 8" and "length blk = 128" and "n \<le> 80"
  shows "\<exists>w. fold sha512_round [0..<n] (z, map (\<lambda>i. dl64 (drop (8 * i) blk)) [0..<16])
      = (fold (fips512_step (fips512_W blk)) [0..<n] z, w) \<and> length w = 16
      \<and> (\<forall>k < 16. w ! k = fips512_W blk (16 * (n div 16) + k)) \<and> length (fold (fips512_step (fips512_W blk)) [0..<n] z) = 8"
  using assms(3)
proof (induction n)
  case 0
  have "dl64 (drop (8 * k) blk) = fips512_W blk k" if "k < 16" for k
    using that assms(2) by (subst fips512_W.simps) (simp add: dl64_be)
  then show ?case using assms(1) by simp
next
  case (Suc n)
  then obtain w where w: "fold sha512_round [0..<n] (z, map (\<lambda>i. dl64 (drop (8 * i) blk)) [0..<16])
      = (fold (fips512_step (fips512_W blk)) [0..<n] z, w)" "length w = 16"
    "\<forall>k < 16. w ! k = fips512_W blk (16 * (n div 16) + k)" "length (fold (fips512_step (fips512_W blk)) [0..<n] z) = 8"
    by auto
  let ?w = "if n mod 16 = 15 then sha512_extend w else w"
  have "w ! (n mod 16) = fips512_W blk n" using w(3) by simp
  then have "fold sha512_round [0..<Suc n] (z, map (\<lambda>i. dl64 (drop (8 * i) blk)) [0..<16])
      = (fold (fips512_step (fips512_W blk)) [0..<Suc n] z, ?w)"
    unfolding fold_upt_Suc w(1) by (rule sha512_round_step [OF w(4)])
  moreover have "?w ! k = fips512_W blk (16 * (Suc n div 16) + k)" if "k < 16" for k
    using w(3) sha512_extend_W [OF w(2) _ that, of blk "n div 16"] that by (simp add: div_Suc mod_Suc)
  ultimately show ?case using w(2) by (intro exI [of _ ?w]) (simp only: fold_upt_Suc length_fips512_step, simp)
qed

lemma sha512_block_compress:
  assumes "length z = 8" and "128 \<le> length m"
  shows "sha512_block z m = fips512_compress z (take 128 m)"
proof -
  have e: "map (\<lambda>i. dl64 (drop (8 * i) m)) [0..<16] = map (\<lambda>i. dl64 (drop (8 * i) (take 128 m))) [0..<16]"
    using assms(2) by (intro map_cong) (auto simp: dl64_be drop_take)
  obtain w where "fold sha512_round [0..<80] (z, map (\<lambda>i. dl64 (drop (8 * i) (take 128 m))) [0..<16])
      = (fold (fips512_step (fips512_W (take 128 m))) [0..<80] z, w)"
    and l: "length (fold (fips512_step (fips512_W (take 128 m))) [0..<80] z) = 8"
    using sha512_rounds [of z "take 128 m" 80] assms by auto
  moreover have "map (\<lambda>i. a ! i + z ! i) [0..<8] = map2 (+) a z" if "length a = 8" for a
    using that assms(1) by (intro nth_equalityI) auto
  ultimately show ?thesis unfolding sha512_block_def e by (simp add: fips512_compress_def)
qed

lemma length_fips512_compress: "length H = 8 \<Longrightarrow> length (fips512_compress H blk) = 8"
proof -
  have "length (fold (fips512_step W) js H) = 8" if "length H = 8" for W js H
    using that by (induction js arbitrary: H) simp_all
  then show "length H = 8 \<Longrightarrow> ?thesis" by (simp add: fips512_compress_def)
qed

lemma be_val_snoc: "be_val (bs @ [b]) = (push_bit 8 (be_val bs) OR ucast b :: 'a::len word)"
  by (induction bs) (simp_all add: push_bit_or or.assoc add.commute)

lemma be_val_rev: "be_val (rev bs) = le_val bs"
  by (induction bs) (simp_all add: be_val_snoc or.commute)

lemma be_val_be_bytes [simp]: "be_val (be_bytes 8 w) = (w :: u64)"
  by (simp add: be_bytes_def be_val_rev)

text \<open>The chaining value as words and as the 64 bytes \<^verbatim>\<open>sha512_blocks\<close> keeps it in.\<close>

abbreviation words_bytes :: "u64 list \<Rightarrow> u8 list" where
  "words_bytes z \<equiv> concat (map (be_bytes 8) z)"

lemma length_words_bytes [simp]: "length (words_bytes z) = 8 * length z"
  by (induction z) auto

lemma drop_words_bytes: "i \<le> length z \<Longrightarrow> drop (8 * i) (words_bytes z) = words_bytes (drop i z)"
proof (induction i arbitrary: z)
  case (Suc i)
  then show ?case by (cases z) simp_all
qed simp

lemma dl64_words_bytes: "i < length z \<Longrightarrow> dl64 (drop (8 * i) (words_bytes z)) = z ! i"
proof -
  assume i: "i < length z"
  then have "drop (8 * i) (words_bytes z) = be_bytes 8 (z ! i) @ words_bytes (drop (Suc i) z)"
    using drop_words_bytes [of i z] by (simp add: Cons_nth_drop_Suc [symmetric])
  then show ?thesis by (simp add: dl64_be)
qed

lemma words_of_bytes: "length z = 8 \<Longrightarrow> map (\<lambda>i. dl64 (drop (8 * i) (words_bytes z))) [0..<8] = z"
  by (intro nth_equalityI) (simp_all add: dl64_words_bytes)

lemma bytes_of_words:
  assumes "length z = 8" and "length x = 64"
  shows "fold (\<lambda>i x. ts64 x (8 * i) (z ! i)) [0..<8] x = words_bytes z"
proof -
  have "fold (\<lambda>i x. ts64 x (8 * i) (z ! i)) [0..<n] x = words_bytes (take n z) @ drop (8 * n) x" if "n \<le> 8" for n
    using that
  proof (induction n)
    case (Suc n)
    then show ?case using assms by (simp add: ts64_eq take_Suc_conv_app_nth)
  qed simp
  from this [of 8] assms show ?thesis by simp
qed

lemma sha512_loop_chunks:
  "length z = 8 \<Longrightarrow> N \<le> length m \<Longrightarrow> N < 2 ^ 64 \<Longrightarrow>
   fst (sha512_loop z m (of_nat N)) = foldl fips512_compress z (chunks 128 (take N m))"
proof (induction N arbitrary: z m rule: less_induct)
  case (less N)
  have ge: "128 \<le> (of_nat N :: u64) \<longleftrightarrow> 128 \<le> N" using less.prems(3) by (simp add: word_le_nat_alt unat_of_nat64)
  show ?case
  proof (cases "128 \<le> N")
    case True
    then have sub: "(of_nat N :: u64) - 128 = of_nat (N - 128)" by (simp add: of_nat_diff)
    have "fst (sha512_loop z m (of_nat N)) = fst (sha512_loop (fips512_compress z (take 128 m)) (drop 128 m) (of_nat (N - 128)))"
      using True less.prems ge sub by (subst sha512_loop.simps) (simp add: sha512_block_compress)
    also have "\<dots> = foldl fips512_compress (fips512_compress z (take 128 m)) (chunks 128 (take (N - 128) (drop 128 m)))"
      using True less.prems by (intro less.IH) (auto simp: length_fips512_compress)
    also have "\<dots> = foldl fips512_compress z (chunks 128 (take N m))"
      using True less.prems(2) by (subst (2) chunks.simps) (simp add: take_drop min_def)
    finally show ?thesis .
  next
    case False
    then show ?thesis using ge less.prems by (subst sha512_loop.simps) simp
  qed
qed

lemma length_foldl_compress512: "length H = 8 \<Longrightarrow> length (foldl fips512_compress H bs) = 8"
  by (induction bs arbitrary: H) (simp_all add: length_fips512_compress)

lemma sha512_blocks_eq:
  assumes "length z = 8" and "N \<le> length m" and "N < 2 ^ 64"
  shows "fst (sha512_blocks (words_bytes z) m (of_nat N)) = words_bytes (foldl fips512_compress z (chunks 128 (take N m)))"
proof -
  obtain z' n' where l: "sha512_loop z m (of_nat N) = (z', n')" by (cases "sha512_loop z m (of_nat N)")
  then have z': "z' = foldl fips512_compress z (chunks 128 (take N m))" using sha512_loop_chunks [OF assms] by simp
  then have "length z' = 8" using length_foldl_compress512 [OF assms(1)] by simp
  then show ?thesis
    using assms(1) by (simp add: sha512_blocks_def words_of_bytes l bytes_of_words z')
qed

lemma sha512_iv_words: "sha512_iv = words_bytes H512"
  by (simp add: sha512_iv_def H512_def be_bytes_8)

subsection \<open>Padding\<close>

lemma and_127: "unat (of_nat N AND 127 :: u64) = N mod 128" if "N < 2 ^ 64"
proof -
  have "(of_nat N AND mask 7 :: u64) = of_nat (N mod 128)"
    using that by (simp flip: take_bit_eq_mask add: word_unat_eq_iff unsigned_take_bit_eq unat_of_nat take_bit_nat_eq_self
        take_bit_nat_def less_trans [OF mod_less_divisor])
  moreover have "N mod 128 < 2 ^ 64" by (rule less_trans [of _ 128]) simp_all
  ultimately show ?thesis by (simp add: mask_eq_exp_minus_1 unat_of_nat64)
qed

lemma fold_copy:
  "r \<le> length x \<Longrightarrow> r \<le> length m \<Longrightarrow> fold (\<lambda>i x. x[i := m ! i]) [0..<r] x = take r m @ drop r x"
proof (induction r)
  case (Suc r)
  then have "fold (\<lambda>i x. x[i := m ! i]) [0..<Suc r] x = (take r m @ drop r x)[r := m ! r]" by simp
  also have "drop r x = x ! r # drop (Suc r) x" using Suc.prems by (simp add: Cons_nth_drop_Suc)
  also have "(take r m @ x ! r # drop (Suc r) x)[r := m ! r] = take (Suc r) m @ drop (Suc r) x"
    using Suc.prems by (simp add: list_update_append take_Suc_conv_app_nth)
  finally show ?case .
qed simp

lemma len128_low: "k + 8 \<le> 64 \<Longrightarrow> ucast (drop_bit k (push_bit 3 (ucast n :: 128 word))) = (ucast (drop_bit k (push_bit 3 n)) :: u8)" for n :: u64
  by (rule bit_word_eqI) (auto simp: bit_simps)

lemma len128_mid: "ucast (drop_bit 64 (push_bit 3 (ucast n :: 128 word))) = (ucast (drop_bit 61 n) :: u8)" for n :: u64
  by (rule bit_word_eqI) (auto simp: bit_simps dest: bit_imp_le_length)

lemma len128_high: "67 \<le> k \<Longrightarrow> ucast (drop_bit k (push_bit 3 (ucast n :: 128 word))) = (0 :: u8)" for n :: u64
  by (rule bit_word_eqI) (auto simp: bit_simps dest: bit_imp_le_length)

lemma be_bytes_16_length:
  assumes "N < 2 ^ 64"
  shows "be_bytes 16 (of_nat (8 * N) :: 128 word) =
     replicate 7 0 @ [ucast (drop_bit 61 (of_nat N :: u64))] @ be_bytes 8 (push_bit 3 (of_nat N :: u64))"
proof -
  have "N < 2 ^ 128" by (rule less_trans [OF assms]) simp
  then have "unat (of_nat N :: 128 word) = N" by (simp add: unat_of_nat)
  moreover have "unat (ucast (of_nat N :: u64) :: 128 word) = N"
    using \<open>N < 2 ^ 128\<close> unat_of_nat64 [OF assms] by (simp add: unsigned_ucast_eq take_bit_nat_eq_self)
  ultimately have "ucast (of_nat N :: u64) = (of_nat N :: 128 word)" by (simp add: word_unat_eq_iff)
  then have w: "(of_nat (8 * N) :: 128 word) = push_bit 3 (ucast (of_nat N :: u64))"
    by (simp add: push_bit_eq_mult mult.commute)
  have low0: "ucast (push_bit 3 (ucast n :: 128 word)) = (ucast (push_bit 3 n) :: u8)" for n :: u64
    using len128_low [of 0 n] by simp
  have r: "replicate 7 (0::u8) = [0, 0, 0, 0, 0, 0, 0]" by (simp add: numeral_eq_Suc)
  show ?thesis
    unfolding w r be_bytes_def
    by (simp add: le_bytes_numeral drop_bit_drop_bit low0 len128_low len128_mid len128_high)
qed

lemma pad_small128: "r < 112 \<Longrightarrow> (239 - r) mod 128 = 111 - (r :: nat)"
proof -
  assume r: "r < 112"
  then have "239 - r = 128 + (111 - r)" by simp
  also have "\<dots> mod 128 = 111 - r" using r by (simp only: mod_add_self1) simp
  finally show ?thesis .
qed

lemma pad_write:
  assumes "length x = 256" and "k + 16 \<le> 256" and "take k x = p" and "take 7 (drop k x) = replicate 7 0"
  shows "take (k + 16) (ts64 (x[k + 7 := b]) (k + 8) u) = p @ replicate 7 0 @ [b] @ be_bytes 8 u"
proof -
  have "k + 8 = Suc (k + 7)" by simp
  then have "take (k + 8) (x[k + 7 := b]) = take (k + 7) x @ [b]"
    using assms(1,2) by (simp only: take_Suc_conv_app_nth length_list_update) simp
  also have "take (k + 7) x = p @ replicate 7 0" using assms(3,4) by (simp only: take_add)
  finally have "take (k + 8) (x[k + 7 := b]) = p @ replicate 7 0 @ [b]" by simp
  moreover have "ts64 (x[k + 7 := b]) (k + 8) u = take (k + 8) (x[k + 7 := b]) @ be_bytes 8 u @ drop (k + 16) (x[k + 7 := b])"
    using assms(1,2) by (subst ts64_eq) (simp_all add: add.assoc)
  ultimately have "ts64 (x[k + 7 := b]) (k + 8) u = (p @ replicate 7 0 @ [b] @ be_bytes 8 u) @ drop (k + 16) (x[k + 7 := b])"
    by simp
  moreover have "length p = k" using assms by auto
  ultimately show ?thesis by simp
qed

lemma sha512_final_block:
  assumes "length R = r" and "r < 128"
  defines "n \<equiv> 256 - 128 * (if r < 112 then 1 else 0) :: nat"
  shows "take n (ts64 ((R @ [128] @ replicate (255 - r) 0)[n - 9 := b]) (n - 8) u)
     = R @ [0x80] @ replicate ((239 - r) mod 128) 0 @ replicate 7 0 @ [b] @ be_bytes 8 u"
proof -
  define z where "z = (239 - r) mod 128"
  define k where "k = r + 1 + z"
  have k: "k + 16 = n" using assms(2) pad_small128 [of r] by (auto simp: n_def k_def z_def)
  have n: "n \<le> 256" by (simp add: n_def)
  have i: "n - 9 = k + 7" "n - 8 = k + 8" using k by simp_all
  have zr: "255 - r = z + 7 + (248 - r - z)" using k n by (simp add: k_def)
  have "take k (R @ [128] @ replicate (255 - r) 0) = R @ [0x80] @ replicate z 0"
    using assms(1) unfolding k_def zr by simp
  moreover have "take 7 (drop k (R @ [128] @ replicate (255 - r) 0)) = replicate 7 0"
    using assms(1) unfolding k_def zr by simp
  moreover have "length (R @ [128] @ replicate (255 - r) (0 :: u8)) = 256" using assms(1,2) by simp
  ultimately show ?thesis
    using pad_write [of "R @ [128] @ replicate (255 - r) 0" k] k n unfolding i z_def [symmetric] by simp
qed

subsection \<open>Constants and functions of the standard\<close>

text \<open>As for SHA-256, with all eighty primes and 64 bits.\<close>

lemma sha512_K_cube_roots: "list_all2 (\<lambda>p k. root_frac 3 64 p (unat k)) fips_primes sha512_K"
  by (simp add: fips_primes_def sha512_K_def sha512_K_rows_def root_frac_def root_whole_def)

lemma sha512_iv_square_roots:
  "list_all2 (\<lambda>p k. root_frac 2 64 p (unat k)) (take 8 fips_primes) (map (\<lambda>i. dl64 (drop (8 * i) sha512_iv)) [0..<8])"
proof -
  have "map (\<lambda>i. dl64 (drop (8 * i) sha512_iv)) [0..<8] =
    [0x6a09e667f3bcc908, 0xbb67ae8584caa73b, 0x3c6ef372fe94f82b, 0xa54ff53a5f1d36f1,
     0x510e527fade682d1, 0x9b05688c2b3e6c1f, 0x1f83d9abfb41bd6b, 0x5be0cd19137e2179]" by code_simp
  then show ?thesis by (simp add: fips_primes_def root_frac_def root_whole_def)
qed

lemma sha512_R_bit:
  assumes "i < 64" and "n < 64"
  shows "bit (sha512_R x n) i = bit x ((i + n) mod 64)"
proof -
  have e: "bit (sha512_R x n) i \<longleftrightarrow> bit x (n + i) \<or> 64 - n \<le> i \<and> bit x (i - (64 - n))"
    using assms(1) by (simp add: sha512_R_def bit_or_iff bit_drop_bit_eq bit_push_bit_iff)
  show ?thesis
  proof (cases "64 \<le> i + n")
    case True
    then have "\<not> bit x (n + i)" by (auto dest: bit_imp_le_length)
    moreover have "(i + n) mod 64 = i - (64 - n)" using True assms by (simp add: mod_if)
    moreover have "64 - n \<le> i" using True by simp
    ultimately show ?thesis unfolding e by simp
  next
    case False
    then have "\<not> 64 - n \<le> i" "(i + n) mod 64 = i + n" by auto
    then show ?thesis unfolding e by (simp add: add.commute)
  qed
qed

lemma Ch_bit: "i < 64 \<Longrightarrow> bit (Ch x y z) i = (if bit x i then bit y i else bit z i)"
  by (simp add: Ch_def bit_xor_iff bit_and_iff bit_not_iff)

lemma Maj_bit: "bit (Maj x y z) i \<longleftrightarrow> bit x i \<and> bit y i \<or> bit x i \<and> bit z i \<or> bit y i \<and> bit z i"
  by (auto simp: Maj_def bit_xor_iff bit_and_iff)

subsection \<open>Properties\<close>

text \<open>
  C20.  \<^verbatim>\<open>sha512\<close> computes the SHA-512 of FIPS 180-4: the schedule of sixteen words that is updated in
  place every sixteen rounds holds the words of the standard's schedule, and the last one or two
  blocks, built in the 256-byte buffer, are the padding with the 128-bit length.
\<close>

theorem sha512_fips:
  assumes "length msg < 2 ^ 64"
  shows "sha512 msg (of_nat (length msg)) = fips_sha512 msg"
proof -
  let ?N = "length msg" and ?r = "length msg mod 128" and ?R = "chunk_rest 128 msg" and ?H = "foldl fips512_compress H512 (chunks 128 msg)"
  let ?n = "256 - 128 * (if ?r < 112 then 1 else 0) :: nat"
  have un: "unat (of_nat ?N :: u64) = ?N" using assms by (rule unat_of_nat64)
  have and127: "unat (of_nat ?N AND 127 :: u64) = ?r" by (rule and_127 [OF assms])
  have R: "drop (?N - ?r) msg = ?R" by (simp add: chunk_rest_def minus_mod_eq_mult_div)
  have lR: "length ?R = ?r" by (simp add: length_chunk_rest)
  have h: "fst (sha512_blocks sha512_iv msg (of_nat ?N)) = words_bytes ?H"
    using sha512_blocks_eq [of H512 ?N msg] assms by (simp add: sha512_iv_words H512_def)
  let ?x = "ts64 ((?R @ [128] @ replicate (255 - ?r) 0)[?n - 9 := ucast (drop_bit 61 (of_nat ?N :: u64))]) (?n - 8) (push_bit 3 (of_nat ?N))"
  have x0: "(fold (\<lambda>i x. x[i := ?R ! i]) [0..<?r] (replicate 256 0))[?r := 128] = ?R @ [128] @ replicate (255 - ?r) 0"
  proof -
    have r: "?r < 128" by simp
    have "fold (\<lambda>i x. x[i := ?R ! i]) [0..<?r] (replicate 256 0) = ?R @ replicate (256 - ?r) 0"
      using r lR by (subst fold_copy) simp_all
    moreover have "256 - ?r = Suc (255 - ?r)" using r by simp
    ultimately show ?thesis using lR by (simp add: list_update_append)
  qed
  have "sha512 msg (of_nat ?N) = fst (sha512_blocks (words_bytes ?H) ?x (of_nat ?n))"
    unfolding sha512_def Let_def h un and127 R x0 by simp
  also have "\<dots> = words_bytes (foldl fips512_compress ?H (chunks 128 (take ?n ?x)))"
    using lR by (intro sha512_blocks_eq length_foldl_compress512) (auto simp: H512_def ts64_eq)
  also have "take ?n ?x = ?R @ [0x80] @ replicate ((239 - ?r) mod 128) 0 @ be_bytes 16 (of_nat (8 * ?N) :: 128 word)"
    unfolding be_bytes_16_length [OF assms] using sha512_final_block [OF lR] by simp
  finally show ?thesis
    unfolding fips_sha512_def fips512_pad_def
    using chunks_append [of 128 msg "[0x80] @ replicate ((239 - ?r) mod 128) 0 @ be_bytes 16 (of_nat (8 * ?N) :: 128 word)"] by simp
qed

theorem sha512_fips_witness: "sha512 [97, 98, 99] 3 = fips_sha512 [97, 98, 99]"
  using sha512_fips [of "[97, 98, 99]"] by simp

end
