(* ===== verification/Chacha20.thy ===== *)
theory Chacha20
  imports Byte_Blocks
begin

text \<open>
  ChaCha20 (\<^verbatim>\<open>kernel/crypto/chacha20.c\<close>).  The block function works on sixteen words; \<^verbatim>\<open>chacha20_xor\<close>
  reads and writes the byte memory through pointers that may be equal.
\<close>

definition ROTL32 :: "u32 \<Rightarrow> nat \<Rightarrow> u32" where
  "ROTL32 v n = push_bit n v OR drop_bit (32 - n) v"

definition U8TO32_LITTLE :: "u8 list \<Rightarrow> nat \<Rightarrow> u32" where
  "U8TO32_LITTLE p i = ucast (p ! i) OR push_bit 8 (ucast (p ! (i + 1))) OR push_bit 16 (ucast (p ! (i + 2)))
     OR push_bit 24 (ucast (p ! (i + 3)))"

definition U32TO8_LITTLE :: "u32 \<Rightarrow> u8 list" where
  "U32TO8_LITTLE v = [ucast v, ucast (drop_bit 8 v), ucast (drop_bit 16 v), ucast (drop_bit 24 v)]"

definition QUARTERROUND :: "nat \<Rightarrow> nat \<Rightarrow> nat \<Rightarrow> nat \<Rightarrow> u32 list \<Rightarrow> u32 list" where
  "QUARTERROUND a b c d x =
     (let x = x[a := x ! a + x ! b]; x = x[d := x ! d XOR x ! a]; x = x[d := ROTL32 (x ! d) 16];
          x = x[c := x ! c + x ! d]; x = x[b := x ! b XOR x ! c]; x = x[b := ROTL32 (x ! b) 12];
          x = x[a := x ! a + x ! b]; x = x[d := x ! d XOR x ! a]; x = x[d := ROTL32 (x ! d) 8];
          x = x[c := x ! c + x ! d]; x = x[b := x ! b XOR x ! c]; x = x[b := ROTL32 (x ! b) 7]
      in x)"

definition chacha_sigma :: "u8 list" where
  "chacha_sigma = [0x65, 0x78, 0x70, 0x61, 0x6e, 0x64, 0x20, 0x33, 0x32, 0x2d, 0x62, 0x79, 0x74, 0x65, 0x20, 0x6b]"

definition double_round :: "u32 list \<Rightarrow> u32 list" where
  "double_round x =
     (let x = QUARTERROUND 0 4 8 12 x; x = QUARTERROUND 1 5 9 13 x;
          x = QUARTERROUND 2 6 10 14 x; x = QUARTERROUND 3 7 11 15 x;
          x = QUARTERROUND 0 5 10 15 x; x = QUARTERROUND 1 6 11 12 x;
          x = QUARTERROUND 2 7 8 13 x; x = QUARTERROUND 3 4 9 14 x
      in x)"

definition chacha20_block :: "u8 list \<Rightarrow> u32 \<Rightarrow> u8 list \<Rightarrow> u8 list" where
  "chacha20_block key counter nonce =
     (let s = [U8TO32_LITTLE chacha_sigma 0, U8TO32_LITTLE chacha_sigma 4, U8TO32_LITTLE chacha_sigma 8,
               U8TO32_LITTLE chacha_sigma 12,
               U8TO32_LITTLE key 0, U8TO32_LITTLE key 4, U8TO32_LITTLE key 8, U8TO32_LITTLE key 12,
               U8TO32_LITTLE key 16, U8TO32_LITTLE key 20, U8TO32_LITTLE key 24, U8TO32_LITTLE key 28,
               counter, U8TO32_LITTLE nonce 0, U8TO32_LITTLE nonce 4, U8TO32_LITTLE nonce 8];
          x = (double_round ^^ 10) s;
          x = map (\<lambda>i. x ! i + s ! i) [0..<16]
      in concat (map (\<lambda>i. U32TO8_LITTLE (x ! i)) [0..<16]))"

text \<open>The inner loop of \<^verbatim>\<open>chacha20_xor\<close>, one byte at a time, and the loop over blocks.\<close>

definition xor_run :: "mem \<Rightarrow> u64 \<Rightarrow> u64 \<Rightarrow> u8 list \<Rightarrow> nat \<Rightarrow> mem" where
  "xor_run m out inp block n = fold (\<lambda>i m. m(out + of_nat i := m (inp + of_nat i) XOR block ! i)) [0..<n] m"

function xor_blocks :: "mem \<Rightarrow> u64 \<Rightarrow> u64 \<Rightarrow> u64 \<Rightarrow> u64 \<Rightarrow> u8 list \<Rightarrow> u32 \<Rightarrow> u8 list \<Rightarrow> mem" where
  "xor_blocks m out inp off len key counter nonce =
     (if 0 < len then
        (let n = (if len < 64 then len else 64);
             block = chacha20_block key counter nonce;
             m = xor_run m (out + off) (inp + off) block (unat n)
         in xor_blocks m out inp (off + n) (len - n) key (counter + 1) nonce)
      else m)"
  by pat_completeness auto
termination
  by (relation "measure (\<lambda>(m, out, inp, off, len, key, counter, nonce). unat len)")
    (auto simp: word_less_nat_alt unat_sub word_le_nat_alt)

declare xor_blocks.simps [simp del]

definition chacha20_xor :: "mem \<Rightarrow> u64 \<Rightarrow> u64 \<Rightarrow> u64 \<Rightarrow> u8 list \<Rightarrow> u32 \<Rightarrow> u8 list \<Rightarrow> mem" where
  "chacha20_xor m out inp len key counter nonce = xor_blocks m out inp 0 len key counter nonce"

subsection \<open>The key stream\<close>

definition key_stream :: "u8 list \<Rightarrow> u32 \<Rightarrow> u8 list \<Rightarrow> nat \<Rightarrow> u8" where
  "key_stream key c nonce k = chacha20_block key (c + of_nat (k div 64)) nonce ! (k mod 64)"

text \<open>No byte is written before it is read: the buffers are equal or do not meet, for instance.\<close>

definition not_ahead :: "u64 \<Rightarrow> u64 \<Rightarrow> nat \<Rightarrow> bool" where
  "not_ahead out inp n \<longleftrightarrow> (\<forall>i j. i < j \<longrightarrow> j < n \<longrightarrow> out + of_nat i \<noteq> inp + of_nat j)"

lemma not_ahead_same: "n \<le> 2 ^ 64 \<Longrightarrow> not_ahead p p n"
  by (auto simp: not_ahead_def of_nat_eq_iff64 [unfolded power_numeral] dest: of_nat_eq_iff64 [THEN iffD1, rotated 2])

lemma not_ahead_apart:
  assumes "apart n out n inp"
  shows "not_ahead out inp n"
  unfolding not_ahead_def
proof (intro allI impI notI)
  fix i j assume ij: "i < j" "j < n" and e: "out + of_nat i = inp + of_nat j"
  have "n \<le> unat (inp + of_nat j - out)" using apart_offset [OF assms] ij by simp
  moreover have "inp + of_nat j - out = of_nat i" using e by (simp add: algebra_simps)
  moreover have "unat (of_nat i :: u64) \<le> i" by (simp add: unat_of_nat)
  ultimately show False using ij by simp
qed

lemma length_chacha20_block [simp]: "length (chacha20_block key c nonce) = 64"
proof -
  have "length (concat (map (\<lambda>i. U32TO8_LITTLE (f i)) is)) = 4 * length is" for f :: "nat \<Rightarrow> u32" and "is"
    by (induction "is") (simp_all add: U32TO8_LITTLE_def)
  then show ?thesis by (simp add: chacha20_block_def Let_def)
qed

lemma offset_of_nat: "i < 2 ^ 64 \<Longrightarrow> (x :: u64) = a + of_nat i \<longleftrightarrow> unat (x - a) = i"
proof
  assume "i < 2 ^ 64" "x = a + of_nat i"
  then show "unat (x - a) = i" by (simp add: unat_of_nat64)
next
  assume "unat (x - a) = i"
  then have "of_nat i = x - a" by auto
  then show "x = a + of_nat i" by simp
qed

lemma xor_run_eq:
  assumes "n < 2 ^ 64" and "not_ahead out inp n"
  shows "xor_run m out inp block n =
     (\<lambda>x. if unat (x - out) < n then m (inp + (x - out)) XOR block ! unat (x - out) else m x)"
  using assms
proof (induction n)
  case 0
  then show ?case by (simp add: xor_run_def)
next
  case (Suc n)
  have na: "not_ahead out inp n" using Suc.prems(2) by (simp add: not_ahead_def)
  let ?m = "\<lambda>x. if unat (x - out) < n then m (inp + (x - out)) XOR block ! unat (x - out) else m x"
  have ih: "xor_run m out inp block n = ?m" using Suc na by simp
  have rd: "?m (inp + of_nat n) = m (inp + of_nat n)"
  proof -
    have "\<not> unat (inp + of_nat n - out) < n"
    proof
      assume l: "unat (inp + of_nat n - out) < n"
      let ?i = "unat (inp + of_nat n - out)"
      have "out + of_nat ?i = inp + of_nat n" by simp
      then show False using Suc.prems(2) l unfolding not_ahead_def by blast
    qed
    then show ?thesis by simp
  qed
  have "xor_run m out inp block (Suc n) = ?m(out + of_nat n := m (inp + of_nat n) XOR block ! n)"
    using ih rd by (simp add: xor_run_def)
  also have "\<dots> = (\<lambda>x. if unat (x - out) < Suc n then m (inp + (x - out)) XOR block ! unat (x - out) else m x)"
  proof (rule ext)
    fix x
    have "x = out + of_nat n \<longleftrightarrow> unat (x - out) = n" using Suc.prems(1) by (intro offset_of_nat) simp
    moreover have "of_nat n = x - out" if "unat (x - out) = n" using that by auto
    ultimately show "(?m(out + of_nat n := m (inp + of_nat n) XOR block ! n)) x
        = (if unat (x - out) < Suc n then m (inp + (x - out)) XOR block ! unat (x - out) else m x)"
      by (auto simp: less_Suc_eq)
  qed
  finally show ?case .
qed

lemma not_ahead_shift:
  assumes "not_ahead out inp N" and "k + n \<le> N"
  shows "not_ahead (out + of_nat k) (inp + of_nat k) n"
  unfolding not_ahead_def
proof (intro allI impI)
  fix i j assume "i < j" "j < n"
  then have "out + of_nat (k + i) \<noteq> inp + of_nat (k + j)" using assms unfolding not_ahead_def by auto
  then show "out + of_nat k + of_nat i \<noteq> inp + of_nat k + of_nat j" by (simp add: add.assoc)
qed

text \<open>One block: \<open>n\<close> bytes from the offset \<open>B\<close>, a multiple of the block size.\<close>

lemma xor_run_stream:
  assumes B: "B = unat off" "B mod 64 = 0" and n: "n \<le> 64" "B + n < 2 ^ 64" and na: "not_ahead (out + off) (inp + off) n"
  shows "xor_run m (out + off) (inp + off) (chacha20_block key (c + of_nat (B div 64)) nonce) n x =
     (if B \<le> unat (x - out) \<and> unat (x - out) < B + n
      then m (inp + (x - out)) XOR key_stream key c nonce (unat (x - out)) else m x)" (is "?m1 = _")
proof -
  let ?b = "chacha20_block key (c + of_nat (B div 64)) nonce" and ?d = "unat (x - (out + off))"
  have e: "?m1 = (if ?d < n then m (inp + off + (x - (out + off))) XOR ?b ! ?d else m x)"
    using n(1) by (subst xor_run_eq [OF _ na]) auto
  have a: "inp + off + (x - (out + off)) = inp + (x - out)" by simp
  show ?thesis
  proof (cases "B \<le> unat (x - out)")
    case True
    have "?d = unat ((x - out) - off)" by (simp only: diff_diff_eq)
    moreover have "unat ((x - out) - off) = unat (x - out) - unat off" using True unfolding B(1) by (simp only: unat_sub word_le_nat_alt)
    ultimately have u: "unat (x - out) = B + ?d" using True unfolding B(1) by linarith
    obtain q where q: "B = 64 * q" using B(2) by auto
    have "key_stream key c nonce (unat (x - out)) = ?b ! ?d" if "?d < n"
      using that n(1) unfolding key_stream_def u q by simp
    then show ?thesis unfolding e a using u by auto
  next
    case lo: False
    have "unat (x - out) = B + ?d" if "?d < n"
      using unat_add_word [of off "x - (out + off)"] that n(2) unfolding B(1) by simp
    then show ?thesis unfolding e using lo by auto
  qed
qed

text \<open>The bytes that come later are still to be read when a run of bytes has been written.\<close>

lemma not_ahead_later:
  assumes "not_ahead out inp N" and "E \<le> unat (x - out)" and "unat (x - out) < N"
  shows "\<not> (unat (inp + (x - out) - out) < E)"
proof
  assume "unat (inp + (x - out) - out) < E"
  then have "unat (inp + (x - out) - out) < unat (x - out)" using assms(2) by simp
  moreover have "out + of_nat (unat (inp + (x - out) - out)) = inp + of_nat (unat (x - out))" by simp
  ultimately show False using assms(1,3) unfolding not_ahead_def by blast
qed

lemma xor_blocks_eq:
  assumes "unat off + unat len < 2 ^ 64" and "not_ahead out inp (unat off + unat len)" and "len = 0 \<or> unat off mod 64 = 0"
  shows "xor_blocks m out inp off len key (c + of_nat (unat off div 64)) nonce =
     (\<lambda>x. if unat off \<le> unat (x - out) \<and> unat (x - out) < unat off + unat len
          then m (inp + (x - out)) XOR key_stream key c nonce (unat (x - out)) else m x)"
  using assms
proof (induction "unat len" arbitrary: m off len rule: less_induct)
  case less
  show ?case
  proof (cases "len = 0")
    case True
    then show ?thesis by (subst xor_blocks.simps) (auto intro!: ext)
  next
    case False
    define n where "n = (if len < 64 then len else 64)"
    define B0 where "B0 = unat off"
    define N where "N = B0 + unat len"
    have n: "0 < unat n" "unat n \<le> 64" "unat n \<le> unat len" "unat n < 64 \<longrightarrow> n = len"
      using False by (auto simp: n_def word_less_nat_alt unat_gt_0)
    have B1: "unat (off + n) = B0 + unat n" using n less.prems(1) by (simp add: B0_def unat_add_word)
    have l1: "unat (len - n) = unat len - unat n" using n(3) by (simp add: unat_sub word_le_nat_alt)
    have N1: "unat (off + n) + unat (len - n) = N" using B1 l1 n by (simp add: N_def)
    let ?m1 = "xor_run m (out + off) (inp + off) (chacha20_block key (c + of_nat (B0 div 64)) nonce) (unat n)"
    have na: "not_ahead (out + off) (inp + off) (unat n)"
      using not_ahead_shift [OF less.prems(2) add_left_mono [OF n(3)]] by simp
    have m1: "?m1 x = (if B0 \<le> unat (x - out) \<and> unat (x - out) < B0 + unat n
        then m (inp + (x - out)) XOR key_stream key c nonce (unat (x - out)) else m x)" for x
      using less.prems(1,3) False n(3) by (intro xor_run_stream [OF _ _ n(2) _ na]) (simp_all add: B0_def)
    have "xor_blocks m out inp off len key (c + of_nat (B0 div 64)) nonce
        = xor_blocks ?m1 out inp (off + n) (len - n) key (c + of_nat (B0 div 64) + 1) nonce"
      using False by (subst xor_blocks.simps) (simp add: n_def Let_def word_gt_0)
    also have "\<dots> = xor_blocks ?m1 out inp (off + n) (len - n) key (c + of_nat (unat (off + n) div 64)) nonce"
    proof (cases "len - n = 0")
      case True
      then show ?thesis by (subst (1 2) xor_blocks.simps) simp
    next
      case ne: False
      then have "unat n = 64" using n by auto
      then have "unat (off + n) div 64 = Suc (B0 div 64)" unfolding B1 by simp
      then show ?thesis by (simp add: add_ac)
    qed
    also have "\<dots> = (\<lambda>x. if unat (off + n) \<le> unat (x - out) \<and> unat (x - out) < unat (off + n) + unat (len - n)
          then ?m1 (inp + (x - out)) XOR key_stream key c nonce (unat (x - out)) else ?m1 x)"
      using less.prems n B1 l1 N1 False by (intro less.hyps) (auto simp: N_def B0_def)
    also have "\<dots> = (\<lambda>x. if B0 \<le> unat (x - out) \<and> unat (x - out) < N
          then m (inp + (x - out)) XOR key_stream key c nonce (unat (x - out)) else m x)"
    proof (rule ext)
      fix x
      have "?m1 (inp + (x - out)) = m (inp + (x - out))" if h: "B0 + unat n \<le> unat (x - out)" "unat (x - out) < N"
        using not_ahead_later [OF less.prems(2) h(1)] h(2) unfolding m1 by (simp add: N_def B0_def)
      then show "(if unat (off + n) \<le> unat (x - out) \<and> unat (x - out) < unat (off + n) + unat (len - n)
          then ?m1 (inp + (x - out)) XOR key_stream key c nonce (unat (x - out)) else ?m1 x)
        = (if B0 \<le> unat (x - out) \<and> unat (x - out) < N
          then m (inp + (x - out)) XOR key_stream key c nonce (unat (x - out)) else m x)"
        unfolding N1 unfolding B1 using m1 [of x] n(3) by (auto simp: N_def)
    qed
    finally show ?thesis unfolding B0_def N_def .
  qed
qed

text \<open>\<^verbatim>\<open>chacha20_xor\<close> adds the key stream to its input and writes nothing else.\<close>

lemma chacha20_xor_eq:
  assumes "not_ahead out inp (unat len)"
  shows "chacha20_xor m out inp len key c nonce =
     (\<lambda>x. if unat (x - out) < unat len then m (inp + (x - out)) XOR key_stream key c nonce (unat (x - out)) else m x)"
  using xor_blocks_eq [of 0 len out inp m key c nonce] assms unsigned_less [of len] by (simp add: chacha20_xor_def)

end
