(* ===== verification/Poly1305.thy ===== *)
theory Poly1305
  imports Byte_Blocks
begin

text \<open>
  The Poly1305 authenticator (\<^verbatim>\<open>kernel/crypto/poly1305.c\<close>): arithmetic modulo \<open>2\<^sup>1\<^sup>3\<^sup>0 - 5\<close> on five
  26-bit limbs in 32-bit words, with 64-bit products, and the formula of RFC 8439 it computes.
\<close>

definition U8TO32_LE :: "u8 list \<Rightarrow> nat \<Rightarrow> u32" where
  "U8TO32_LE p i = ucast (p ! i) OR push_bit 8 (ucast (p ! (i + 1))) OR push_bit 16 (ucast (p ! (i + 2)))
     OR push_bit 24 (ucast (p ! (i + 3)))"

definition U32TO8_LE :: "u64 \<Rightarrow> u8 list" where
  "U32TO8_LE v = [ucast v, ucast (drop_bit 8 v), ucast (drop_bit 16 v), ucast (drop_bit 24 v)]"

definition mul32x32_64 :: "u32 \<Rightarrow> u32 \<Rightarrow> u64" where
  "mul32x32_64 a b = ucast a * ucast b"

type_synonym limbs = "u32 \<times> u32 \<times> u32 \<times> u32 \<times> u32"

text \<open>The clamped multiplier.\<close>

definition poly_clamp :: "u8 list \<Rightarrow> limbs" where
  "poly_clamp key =
     (let t0 = U8TO32_LE key 0; t1 = U8TO32_LE key 4; t2 = U8TO32_LE key 8; t3 = U8TO32_LE key 12;
          r0 = t0 AND 0x3ffffff; t0 = drop_bit 26 t0; t0 = t0 OR push_bit 6 t1;
          r1 = t0 AND 0x3ffff03; t1 = drop_bit 20 t1; t1 = t1 OR push_bit 12 t2;
          r2 = t1 AND 0x3ffc0ff; t2 = drop_bit 14 t2; t2 = t2 OR push_bit 18 t3;
          r3 = t2 AND 0x3f03fff; t3 = drop_bit 8 t3;
          r4 = t3 AND 0x00fffff
      in (r0, r1, r2, r3, r4))"

text \<open>Adding a block of sixteen bytes; \<open>hibit\<close> is \<^verbatim>\<open>1 << 24\<close> for a full block.\<close>

definition poly_add :: "u8 list \<Rightarrow> u32 \<Rightarrow> limbs \<Rightarrow> limbs" where
  "poly_add m hibit = (\<lambda>(h0, h1, h2, h3, h4).
     let t0 = U8TO32_LE m 0; t1 = U8TO32_LE m 4; t2 = U8TO32_LE m 8; t3 = U8TO32_LE m 12;
         h0 = h0 + (t0 AND 0x3ffffff);
         h1 = ucast (ucast h1 + (drop_bit 26 (push_bit 32 (ucast t1) OR ucast t0) AND 0x3ffffff :: u64));
         h2 = ucast (ucast h2 + (drop_bit 20 (push_bit 32 (ucast t2) OR ucast t1) AND 0x3ffffff :: u64));
         h3 = ucast (ucast h3 + (drop_bit 14 (push_bit 32 (ucast t3) OR ucast t2) AND 0x3ffffff :: u64));
         h4 = h4 + (drop_bit 8 t3 OR hibit)
     in (h0, h1, h2, h3, h4))"

text \<open>\<^verbatim>\<open>poly1305_donna_mul\<close>: the product by the multiplier and one pass of carries.\<close>

definition poly_mul :: "limbs \<Rightarrow> limbs \<Rightarrow> limbs" where
  "poly_mul = (\<lambda>(r0, r1, r2, r3, r4) (h0, h1, h2, h3, h4).
     let s1 = r1 * 5; s2 = r2 * 5; s3 = r3 * 5; s4 = r4 * 5;
         t0 = mul32x32_64 h0 r0 + mul32x32_64 h1 s4 + mul32x32_64 h2 s3 + mul32x32_64 h3 s2 + mul32x32_64 h4 s1;
         t1 = mul32x32_64 h0 r1 + mul32x32_64 h1 r0 + mul32x32_64 h2 s4 + mul32x32_64 h3 s3 + mul32x32_64 h4 s2;
         t2 = mul32x32_64 h0 r2 + mul32x32_64 h1 r1 + mul32x32_64 h2 r0 + mul32x32_64 h3 s4 + mul32x32_64 h4 s3;
         t3 = mul32x32_64 h0 r3 + mul32x32_64 h1 r2 + mul32x32_64 h2 r1 + mul32x32_64 h3 r0 + mul32x32_64 h4 s4;
         t4 = mul32x32_64 h0 r4 + mul32x32_64 h1 r3 + mul32x32_64 h2 r2 + mul32x32_64 h3 r1 + mul32x32_64 h4 r0;
         h0 = ucast t0 AND 0x3ffffff; c = drop_bit 26 t0;
         t1 = t1 + c; h1 = ucast t1 AND 0x3ffffff; b = (ucast (drop_bit 26 t1) :: u32);
         t2 = t2 + ucast b; h2 = ucast t2 AND 0x3ffffff; b = (ucast (drop_bit 26 t2) :: u32);
         t3 = t3 + ucast b; h3 = ucast t3 AND 0x3ffffff; b = (ucast (drop_bit 26 t3) :: u32);
         t4 = t4 + ucast b; h4 = ucast t4 AND 0x3ffffff; b = (ucast (drop_bit 26 t4) :: u32);
         h0 = h0 + b * 5
     in (h0, h1, h2, h3, h4))"

text \<open>The loop over full blocks, and the last block of at most fifteen bytes.\<close>

fun poly_blocks :: "limbs \<Rightarrow> u8 list \<Rightarrow> limbs \<Rightarrow> limbs" where
  "poly_blocks r m h =
     (if 16 \<le> length m then poly_blocks r (drop 16 m) (poly_mul r (poly_add (take 16 m) (push_bit 24 1) h))
      else if m = [] then h
      else poly_mul r (poly_add (m @ [1] @ replicate (15 - length m) 0) 0 h))"

declare poly_blocks.simps [simp del]

text \<open>\<^verbatim>\<open>poly1305_donna_finish\<close>: full carry, subtraction of the modulus, and the key's second half.\<close>

definition poly_carry :: "limbs \<Rightarrow> limbs" where
  "poly_carry = (\<lambda>(h0, h1, h2, h3, h4).
     let b = drop_bit 26 h0; h0 = h0 AND 0x3ffffff;
         h1 = h1 + b; b = drop_bit 26 h1; h1 = h1 AND 0x3ffffff;
         h2 = h2 + b; b = drop_bit 26 h2; h2 = h2 AND 0x3ffffff;
         h3 = h3 + b; b = drop_bit 26 h3; h3 = h3 AND 0x3ffffff;
         h4 = h4 + b; b = drop_bit 26 h4; h4 = h4 AND 0x3ffffff;
         h0 = h0 + b * 5; b = drop_bit 26 h0; h0 = h0 AND 0x3ffffff;
         h1 = h1 + b
     in (h0, h1, h2, h3, h4))"

definition poly_freeze :: "limbs \<Rightarrow> limbs" where
  "poly_freeze = (\<lambda>(h0, h1, h2, h3, h4).
     let g0 = h0 + 5; b = drop_bit 26 g0; g0 = g0 AND 0x3ffffff;
         g1 = h1 + b; b = drop_bit 26 g1; g1 = g1 AND 0x3ffffff;
         g2 = h2 + b; b = drop_bit 26 g2; g2 = g2 AND 0x3ffffff;
         g3 = h3 + b; b = drop_bit 26 g3; g3 = g3 AND 0x3ffffff;
         g4 = h4 + b - push_bit 26 1;
         b = drop_bit 31 g4 - 1;
         nb = NOT b
     in ((h0 AND nb) OR (g0 AND b), (h1 AND nb) OR (g1 AND b), (h2 AND nb) OR (g2 AND b),
         (h3 AND nb) OR (g3 AND b), (h4 AND nb) OR (g4 AND b)))"

definition poly_tag :: "u8 list \<Rightarrow> limbs \<Rightarrow> u8 list" where
  "poly_tag key = (\<lambda>(h0, h1, h2, h3, h4).
     let f0 = ucast (h0 OR push_bit 26 h1) + ucast (U8TO32_LE key 16) :: u64;
         f1 = ucast (drop_bit 6 h1 OR push_bit 20 h2) + ucast (U8TO32_LE key 20) :: u64;
         f2 = ucast (drop_bit 12 h2 OR push_bit 14 h3) + ucast (U8TO32_LE key 24) :: u64;
         f3 = ucast (drop_bit 18 h3 OR push_bit 8 h4) + ucast (U8TO32_LE key 28) :: u64;
         f1 = f1 + drop_bit 32 f0;
         f2 = f2 + drop_bit 32 f1;
         f3 = f3 + drop_bit 32 f2
     in U32TO8_LE f0 @ U32TO8_LE f1 @ U32TO8_LE f2 @ U32TO8_LE f3)"

definition poly1305_auth :: "u8 list \<Rightarrow> u8 list \<Rightarrow> u8 list" where
  "poly1305_auth m key =
     poly_tag key (poly_freeze (poly_carry (poly_blocks (poly_clamp key) m (0, 0, 0, 0, 0))))"

subsection \<open>RFC 8439, section 2.5\<close>

fun le_num :: "u8 list \<Rightarrow> nat" where
  "le_num [] = 0"
| "le_num (b # bs) = unat b + 256 * le_num bs"

definition poly_p :: nat where "poly_p = 2 ^ 130 - 5"

definition rfc_clamp :: nat where "rfc_clamp = 0x0ffffffc0ffffffc0ffffffc0fffffff"

fun rfc_acc :: "nat \<Rightarrow> u8 list \<Rightarrow> nat \<Rightarrow> nat" where
  "rfc_acc r m acc =
     (if m = [] then acc
      else rfc_acc r (drop 16 m) ((acc + le_num (take 16 m @ [1])) * r mod poly_p))"

declare rfc_acc.simps [simp del]

definition rfc_poly1305 :: "u8 list \<Rightarrow> u8 list \<Rightarrow> nat" where
  "rfc_poly1305 m key =
     (rfc_acc (le_num (take 16 key) AND rfc_clamp) m 0 + le_num (take 16 (drop 16 key))) mod 2 ^ 128"

subsection \<open>Words as numbers\<close>

lemma nat_or_push: "x < 2 ^ k \<Longrightarrow> x OR push_bit k y = x + 2 ^ k * y" for x y :: nat
proof -
  assume x: "x < 2 ^ k"
  have "x OR push_bit k y = push_bit k (drop_bit k (x OR push_bit k y)) + take_bit k (x OR push_bit k y)"
    by (simp only: bits_ident)
  moreover have "drop_bit k x = 0" using x by (simp add: drop_bit_eq_div)
  ultimately have "x OR push_bit k y = push_bit k y + x" using x by (simp add: take_bit_nat_eq_self drop_bit_push_bit take_bit_push_bit)
  then show ?thesis by (simp add: push_bit_eq_mult)
qed

lemma unat_or_push:
  fixes x y :: "'a::len word"
  assumes "unat x < 2 ^ k" and "2 ^ k * unat y < 2 ^ LENGTH('a)"
  shows "unat (x OR push_bit k y) = unat x + 2 ^ k * unat y"
proof -
  have "unat (push_bit k y) = take_bit LENGTH('a) (push_bit k (unat y))" by (rule unsigned_push_bit_eq)
  also have "\<dots> = push_bit k (unat y)"
    using assms(2) by (intro take_bit_nat_eq_self) (simp add: push_bit_eq_mult mult.commute)
  finally have "unat (x OR push_bit k y) = unat x OR push_bit k (unat y)" by (simp only: unsigned_or_eq)
  then show ?thesis by (simp only: nat_or_push [OF assms(1)])
qed

lemma unat_ucast_up: "unat (ucast t :: u64) = unat t" for t :: u32
proof -
  have "unat t < 2 ^ 32" using unsigned_less [of t] by simp
  then have "unat t < 2 ^ 64" by (rule less_trans) simp
  then show ?thesis by (simp only: unsigned_ucast_eq) (simp add: take_bit_nat_eq_self)
qed

lemma le_num_less: "le_num bs < 256 ^ length bs"
proof (induction bs)
  case (Cons b bs)
  have "unat b < 256" using unsigned_less [of b] by simp
  then show ?case using Cons by simp
qed simp

lemma le_num_append: "le_num (xs @ ys) = le_num xs + 256 ^ length xs * le_num ys"
  by (induction xs) (simp_all add: algebra_simps)

lemma unat_le_val: "8 * length bs \<le> LENGTH('a) \<Longrightarrow> unat (le_val bs :: 'a::len word) = le_num bs"
proof (induction bs)
  case (Cons b bs)
  have b: "unat b < 256" using unsigned_less [of b] by simp
  have "(2::nat) ^ 8 \<le> 2 ^ LENGTH('a)" using Cons.prems by (intro power_increasing) auto
  then have u: "unat (ucast b :: 'a word) = unat b"
    using b by (simp add: unsigned_ucast_eq take_bit_nat_eq_self)
  have "le_num bs < 256 ^ length bs" by (rule le_num_less)
  then have "256 * le_num bs < 256 ^ Suc (length bs)" by simp
  also have "(256 :: nat) ^ Suc (length bs) = 2 ^ (8 * length (b # bs))" by (simp add: power_mult power_add)
  also have "\<dots> \<le> 2 ^ LENGTH('a)" using Cons.prems by (intro power_increasing) auto
  finally have "2 ^ 8 * unat (le_val bs :: 'a word) < 2 ^ LENGTH('a)" using Cons by simp
  then show ?case using unat_or_push [of "ucast b :: 'a word" 8 "le_val bs"] Cons b u by simp
qed simp

lemma unat_U8TO32: "unat (U8TO32_LE p i) = le_num [p ! i, p ! (i + 1), p ! (i + 2), p ! (i + 3)]"
proof -
  have "U8TO32_LE p i = le_val [p ! i, p ! (i + 1), p ! (i + 2), p ! (i + 3)]"
    by (simp add: U8TO32_LE_def push_bit_or)
  then show ?thesis using unat_le_val [of "[p ! i, p ! (i + 1), p ! (i + 2), p ! (i + 3)]", where 'a = 32] by simp
qed

lemma list_16: "length p = 16 \<Longrightarrow> p = [p ! 0, p ! 1, p ! 2, p ! 3] @ [p ! 4, p ! 5, p ! 6, p ! 7]
    @ [p ! 8, p ! 9, p ! 10, p ! 11] @ [p ! 12, p ! 13, p ! 14, p ! 15]"
  by (intro nth_equalityI) (auto simp: less_Suc_eq numeral_eq_Suc)

lemma le_num_16:
  assumes "length p = 16"
  shows "le_num p = unat (U8TO32_LE p 0) + 2 ^ 32 * unat (U8TO32_LE p 4) + 2 ^ 64 * unat (U8TO32_LE p 8)
     + 2 ^ 96 * unat (U8TO32_LE p 12)"
  by (subst list_16 [OF assms]) (simp add: unat_U8TO32 le_num_append flip: numeral_2_eq_2)

text \<open>The 128-bit number of a block, and its limbs.\<close>

definition limb :: "nat \<Rightarrow> nat \<Rightarrow> nat" where
  "limb i x = x div 2 ^ (26 * i) mod 2 ^ 26"

lemma limbs_sum: "x < 2 ^ 130 \<Longrightarrow> x = limb 0 x + 2 ^ 26 * limb 1 x + 2 ^ 52 * limb 2 x + 2 ^ 78 * limb 3 x + 2 ^ 104 * limb 4 x"
proof -
  assume x: "x < 2 ^ 130"
  let ?B = "2 ^ 26 :: nat"
  have e: "x = x mod ?B + ?B * (x div ?B)" for x :: nat by simp
  have d: "x div 2 ^ 26 div ?B = x div 2 ^ 52" "x div 2 ^ 52 div ?B = x div 2 ^ 78" "x div 2 ^ 78 div ?B = x div 2 ^ 104"
    by (simp_all flip: div_mult2_eq)
  have "x div 2 ^ 104 < 2 ^ 26" using x by (intro less_mult_imp_div_less) simp
  then have l4: "limb 4 x = x div 2 ^ 104" by (simp add: limb_def)
  have l: "limb 1 x = x div 2 ^ 26 mod ?B" "limb 2 x = x div 2 ^ 52 mod ?B" "limb 3 x = x div 2 ^ 78 mod ?B" by (simp_all add: limb_def)
  have "x = x mod ?B + ?B * (x div 2 ^ 26)" by simp
  also have "x div 2 ^ 26 = limb 1 x + ?B * (x div 2 ^ 52)" using e [of "x div 2 ^ 26"] unfolding d l .
  also have "x div 2 ^ 52 = limb 2 x + ?B * (x div 2 ^ 78)" using e [of "x div 2 ^ 52"] unfolding d l .
  also have "x div 2 ^ 78 = limb 3 x + ?B * (x div 2 ^ 104)" using e [of "x div 2 ^ 78"] unfolding d l .
  finally show ?thesis using l4 by (simp add: limb_def algebra_simps)
qed

lemma mask26: "(0x3ffffff :: 'a::len word) = mask 26"
  by (simp add: mask_eq_exp_minus_1)

lemma unat_and_mask26: "unat (w AND 0x3ffffff) = unat (w :: 'a::len word) mod 2 ^ 26"
  by (simp only: mask26 take_bit_eq_mask [symmetric] unsigned_take_bit_eq take_bit_eq_mod [where 'a = nat])

lemma unat_join: "unat (push_bit 32 (ucast t1) OR ucast t0 :: u64) = unat t0 + 2 ^ 32 * unat (t1 :: u32)" for t0 :: u32
proof -
  have "unat t1 < 2 ^ 32" "unat t0 < 2 ^ 32" using unsigned_less [of t1] unsigned_less [of t0] by simp_all
  then show ?thesis using unat_or_push [of "ucast t0 :: u64" 32 "ucast t1"] by (simp add: or.commute unat_ucast_up)
qed

lemma unat_limb_join: "k \<le> 32 \<Longrightarrow> unat (drop_bit k (push_bit 32 (ucast t1) OR ucast t0) AND 0x3ffffff :: u64)
    = (unat t0 + 2 ^ 32 * unat (t1 :: u32)) div 2 ^ k mod 2 ^ 26" for t0 :: u32
  by (simp only: unat_and_mask26 unat_drop_bit_eq unat_join drop_bit_eq_div [where 'a = nat])

subsection \<open>Adding a block\<close>

fun limbs_val :: "limbs \<Rightarrow> nat" where
  "limbs_val (h0, h1, h2, h3, h4) = unat h0 + 2 ^ 26 * unat h1 + 2 ^ 52 * unat h2 + 2 ^ 78 * unat h3 + 2 ^ 104 * unat h4"

text \<open>
  The bounds on the limbs between blocks.  The lowest limb takes the carry out of the highest one,
  five times; with a clamped multiplier it stays below 2800000000.
\<close>

fun limbs_ok :: "limbs \<Rightarrow> bool" where
  "limbs_ok (h0, h1, h2, h3, h4) \<longleftrightarrow> unat h0 \<le> 2800000000 \<and> unat h1 < 2 ^ 26 \<and> unat h2 < 2 ^ 26 \<and> unat h3 < 2 ^ 26
     \<and> unat h4 < 2 ^ 26"

text \<open>The bounds before the multiplication.\<close>

fun limbs_added :: "limbs \<Rightarrow> bool" where
  "limbs_added (h0, h1, h2, h3, h4) \<longleftrightarrow> unat h0 \<le> 2867108863 \<and> unat h1 \<le> 134217726 \<and> unat h2 \<le> 134217726
     \<and> unat h3 \<le> 134217726 \<and> unat h4 \<le> 100663294"

lemma unat32: "unat (w :: u32) < 2 ^ 32"
  using unsigned_less [of w] by simp

lemma div_shift: "a < 2 ^ 32 \<Longrightarrow> (a + 2 ^ 32 * x) div 2 ^ 32 = (x :: nat)"
  by simp

lemma limb_low: "k \<le> 38 \<Longrightarrow> (a + 2 ^ 64 * x) div 2 ^ k mod 2 ^ 26 = a div 2 ^ k mod (2 ^ 26 :: nat)"
proof -
  assume k: "k \<le> 38"
  have "(2 :: nat) ^ 64 = 2 ^ k * (2 ^ 26 * 2 ^ (38 - k))" using k by (simp flip: power_add)
  then have "(a + 2 ^ 64 * x) div 2 ^ k = (a + 2 ^ k * (2 ^ 26 * 2 ^ (38 - k) * x)) div 2 ^ k"
    by (simp only: mult.assoc)
  also have "\<dots> = a div 2 ^ k + 2 ^ 26 * (2 ^ (38 - k) * x)" by (simp only: div_mult_self2 mult.assoc) simp
  finally show ?thesis by (simp only: mod_mult_self2)
qed

lemma limbs_of_words:
  fixes t0 t1 t2 t3 :: u32
  defines "T \<equiv> unat t0 + 2 ^ 32 * unat t1 + 2 ^ 64 * unat t2 + 2 ^ 96 * unat t3"
  shows "limb 0 T = unat t0 mod 2 ^ 26" "limb 1 T = (unat t0 + 2 ^ 32 * unat t1) div 2 ^ 26 mod 2 ^ 26"
    "limb 2 T = (unat t1 + 2 ^ 32 * unat t2) div 2 ^ 20 mod 2 ^ 26" "limb 3 T = (unat t2 + 2 ^ 32 * unat t3) div 2 ^ 14 mod 2 ^ 26"
    "limb 4 T = unat t3 div 2 ^ 8"
proof -
  let ?a = "unat t0" and ?b = "unat t1" and ?c = "unat t2" and ?d = "unat t3"
  have T1: "T = (?a + 2 ^ 32 * ?b) + 2 ^ 64 * (?c + 2 ^ 32 * ?d)" by (simp add: T_def)
  have q1: "T div 2 ^ 32 = (?b + 2 ^ 32 * ?c) + 2 ^ 64 * ?d"
    using div_shift [OF unat32, of t0 "(?b + 2 ^ 32 * ?c) + 2 ^ 64 * ?d"] by (simp add: T_def algebra_simps)
  have q2: "T div 2 ^ 64 = ?c + 2 ^ 32 * ?d"
    using div_shift [OF unat32, of t1 "?c + 2 ^ 32 * ?d"] q1 div_mult2_eq [of T "2 ^ 32" "2 ^ 32"] by (simp add: algebra_simps)
  have q3: "T div 2 ^ 96 = ?d"
    using div_shift [OF unat32, of t2 "?d"] q2 div_mult2_eq [of T "2 ^ 64" "2 ^ 32"] by simp
  have s: "T div 2 ^ 52 = T div 2 ^ 32 div 2 ^ 20" "T div 2 ^ 78 = T div 2 ^ 64 div 2 ^ 14" "T div 2 ^ 104 = T div 2 ^ 96 div 2 ^ 8"
    by (simp_all flip: div_mult2_eq)
  have i: "limb 0 T = T div 2 ^ 0 mod 2 ^ 26" "limb 1 T = T div 2 ^ 26 mod 2 ^ 26" "limb 2 T = T div 2 ^ 52 mod 2 ^ 26"
    "limb 3 T = T div 2 ^ 78 mod 2 ^ 26" "limb 4 T = T div 2 ^ 104 mod 2 ^ 26" by (simp_all add: limb_def)
  have "limb 0 T = (?a + 2 ^ 32 * ?b) div 2 ^ 0 mod 2 ^ 26" unfolding i unfolding T1 by (rule limb_low) simp
  also have "\<dots> = (?a + 2 ^ 26 * (2 ^ 6 * ?b)) mod 2 ^ 26" by simp
  finally show "limb 0 T = ?a mod 2 ^ 26" by (simp only: mod_mult_self2)
  show "limb 1 T = (?a + 2 ^ 32 * ?b) div 2 ^ 26 mod 2 ^ 26" unfolding i unfolding T1 by (rule limb_low) simp
  show "limb 2 T = (?b + 2 ^ 32 * ?c) div 2 ^ 20 mod 2 ^ 26" unfolding i unfolding s q1 by (rule limb_low) simp
  show "limb 3 T = (?c + 2 ^ 32 * ?d) div 2 ^ 14 mod 2 ^ 26" unfolding i unfolding s q2 by simp
  have "?d div 2 ^ 8 < 2 ^ 26" using unat32 [of t3] by (intro less_mult_imp_div_less) simp
  then show "limb 4 T = ?d div 2 ^ 8" unfolding i unfolding s q3 by simp
qed

lemma limb_less: "limb i x < 2 ^ 26"
  by (simp add: limb_def)

lemma unat_plus32: "unat a + unat b < 2 ^ 32 \<Longrightarrow> unat (a + b :: u32) = unat a + unat b"
  by (simp add: unat_word_ariths)

lemma unat_plus64: "unat a + unat b < 2 ^ 64 \<Longrightarrow> unat (a + b :: u64) = unat a + unat b"
  by (simp add: unat_word_ariths)

lemma unat_ucast_down: "unat x < 2 ^ 32 \<Longrightarrow> unat (ucast (x :: u64) :: u32) = unat x"
  by (simp only: unsigned_ucast_eq) (simp add: take_bit_nat_eq_self)

lemma unat_add_limb:
  assumes "unat (h :: u32) < 2 ^ 26" and "unat (x :: u64) < 2 ^ 26"
  shows "unat (ucast (ucast h + x) :: u32) = unat h + unat x"
proof -
  have "unat (ucast h + x) = unat h + unat x" using assms by (subst unat_plus64) (simp_all add: unat_ucast_up)
  then show ?thesis using assms by (subst unat_ucast_down) simp_all
qed

lemma add_limbs_sum:
  fixes T :: nat
  assumes "T = l0 + 2 ^ 26 * l1 + 2 ^ 52 * l2 + 2 ^ 78 * l3 + 2 ^ 104 * l4"
  shows "h0 + l0 + 2 ^ 26 * (h1 + l1) + 2 ^ 52 * (h2 + l2) + 2 ^ 78 * (h3 + l3) + 2 ^ 104 * (h4 + (l4 + 2 ^ 24 * b))
     = h0 + 2 ^ 26 * h1 + 2 ^ 52 * h2 + 2 ^ 78 * h3 + 2 ^ 104 * h4 + T + b * 2 ^ 128"
  unfolding assms by (simp add: algebra_simps)

lemma poly_add_ok:
  assumes m: "length m = 16" and h: "limbs_ok h" and hib: "hib < 2"
  shows "limbs_val (poly_add m (push_bit 24 (of_nat hib)) h) = limbs_val h + le_num m + hib * 2 ^ 128"
    and "limbs_added (poly_add m (push_bit 24 (of_nat hib)) h)"
proof -
  obtain h0 h1 h2 h3 h4 where hh: "h = (h0, h1, h2, h3, h4)" by (cases h)
  define t0 where "t0 = U8TO32_LE m 0"
  define t1 where "t1 = U8TO32_LE m 4"
  define t2 where "t2 = U8TO32_LE m 8"
  define t3 where "t3 = U8TO32_LE m 12"
  define T where "T = unat t0 + 2 ^ 32 * unat t1 + 2 ^ 64 * unat t2 + 2 ^ 96 * unat t3"
  have T: "le_num m = T" using le_num_16 [OF m] by (simp only: T_def t0_def t1_def t2_def t3_def)
  note L = limbs_of_words [of t0 t1 t2 t3, folded T_def]
  have b: "unat h0 \<le> 2800000000" "unat h1 < 2 ^ 26" "unat h2 < 2 ^ 26" "unat h3 < 2 ^ 26" "unat h4 < 2 ^ 26"
    using h unfolding hh by simp_all
  define a0 where "a0 = h0 + (t0 AND 0x3ffffff)"
  define a1 :: u32 where "a1 = ucast (ucast h1 + (drop_bit 26 (push_bit 32 (ucast t1) OR ucast t0) AND 0x3ffffff :: u64))"
  define a2 :: u32 where "a2 = ucast (ucast h2 + (drop_bit 20 (push_bit 32 (ucast t2) OR ucast t1) AND 0x3ffffff :: u64))"
  define a3 :: u32 where "a3 = ucast (ucast h3 + (drop_bit 14 (push_bit 32 (ucast t3) OR ucast t2) AND 0x3ffffff :: u64))"
  define a4 where "a4 = h4 + (drop_bit 8 t3 OR push_bit 24 (of_nat hib))"
  have e: "poly_add m (push_bit 24 (of_nat hib)) h = (a0, a1, a2, a3, a4)"
    by (simp add: poly_add_def hh a0_def a1_def a2_def a3_def a4_def t0_def t1_def t2_def t3_def Let_def)
  have u0: "unat a0 = unat h0 + limb 0 T"
    unfolding a0_def using b(1) limb_less [of 0 T] L(1) by (subst unat_plus32) (simp_all add: unat_and_mask26)
  have u1: "unat a1 = unat h1 + limb 1 T" unfolding a1_def L using b
    by (subst unat_add_limb) (simp_all only: unat_limb_join, simp_all)
  have u2: "unat a2 = unat h2 + limb 2 T" unfolding a2_def L using b
    by (subst unat_add_limb) (simp_all only: unat_limb_join, simp_all)
  have u3: "unat a3 = unat h3 + limb 3 T" unfolding a3_def L using b
    by (subst unat_add_limb) (simp_all only: unat_limb_join, simp_all)
  have d8: "unat (drop_bit 8 t3) = unat t3 div 2 ^ 8" by (simp only: unat_drop_bit_eq drop_bit_eq_div [where 'a = nat])
  have l4: "limb 4 T < 2 ^ 24" using unat32 [of t3] L(5) by (simp add: less_mult_imp_div_less)
  have uh: "unat (of_nat hib :: u32) = hib" using hib by (simp add: unat_of_nat)
  have "unat (drop_bit 8 t3 OR push_bit 24 (of_nat hib)) = limb 4 T + 2 ^ 24 * hib"
    using unat_or_push [of "drop_bit 8 t3" 24 "of_nat hib"] hib l4 unfolding uh d8 L(5) by simp
  then have u4: "unat a4 = unat h4 + (limb 4 T + 2 ^ 24 * hib)"
    unfolding a4_def using b(5) l4 hib by (subst unat_plus32) simp_all
  have "T < 2 ^ 130" using le_num_less [of m] T m by simp
  then have "T = limb 0 T + 2 ^ 26 * limb 1 T + 2 ^ 52 * limb 2 T + 2 ^ 78 * limb 3 T + 2 ^ 104 * limb 4 T" by (rule limbs_sum)
  then show "limbs_val (poly_add m (push_bit 24 (of_nat hib)) h) = limbs_val h + le_num m + hib * 2 ^ 128"
    unfolding e T unfolding hh limbs_val.simps u0 u1 u2 u3 u4 by (rule add_limbs_sum)
  show "limbs_added (poly_add m (push_bit 24 (of_nat hib)) h)"
    unfolding e limbs_added.simps u0 u1 u2 u3 u4
    using b hib l4 limb_less [of 0 T] limb_less [of 1 T] limb_less [of 2 T] limb_less [of 3 T] by simp
qed

subsection \<open>Multiplication\<close>

fun r_ok :: "limbs \<Rightarrow> bool" where
  "r_ok (r0, r1, r2, r3, r4) \<longleftrightarrow> unat r0 \<le> 67108863 \<and> unat r1 \<le> 67108611 \<and> unat r2 \<le> 67092735 \<and> unat r3 \<le> 66076671
     \<and> unat r4 \<le> 1048575"

lemma unat_mul: "unat (mul32x32_64 a b) = unat a * unat b"
proof -
  have "unat a * unat b < 2 ^ 32 * 2 ^ 32" using unat32 [of a] unat32 [of b] by (intro mult_strict_mono) simp_all
  then show ?thesis by (simp add: mul32x32_64_def unat_word_ariths unat_ucast_up)
qed

lemma sum5:
  assumes "unat a0 \<le> x0" "unat a1 \<le> x1" "unat a2 \<le> x2" "unat a3 \<le> x3" "unat a4 \<le> x4"
    and "unat b0 \<le> y0" "unat b1 \<le> y1" "unat b2 \<le> y2" "unat b3 \<le> y3" "unat b4 \<le> y4"
    and "x0 * y0 + x1 * y1 + x2 * y2 + x3 * y3 + x4 * y4 < 2 ^ 64"
  shows "unat (mul32x32_64 a0 b0 + mul32x32_64 a1 b1 + mul32x32_64 a2 b2 + mul32x32_64 a3 b3 + mul32x32_64 a4 b4)
     = unat a0 * unat b0 + unat a1 * unat b1 + unat a2 * unat b2 + unat a3 * unat b3 + unat a4 * unat b4" (is "?l = ?s")
    and "unat a0 * unat b0 + unat a1 * unat b1 + unat a2 * unat b2 + unat a3 * unat b3 + unat a4 * unat b4
     \<le> x0 * y0 + x1 * y1 + x2 * y2 + x3 * y3 + x4 * y4"
proof -
  note p = mult_le_mono [OF assms(1,6)] mult_le_mono [OF assms(2,7)] mult_le_mono [OF assms(3,8)]
    mult_le_mono [OF assms(4,9)] mult_le_mono [OF assms(5,10)]
  show b: "?s \<le> x0 * y0 + x1 * y1 + x2 * y2 + x3 * y3 + x4 * y4" using p by (intro add_mono)
  show "?l = ?s" using b assms(11) by (simp add: unat_plus64 unat_mul)
qed

lemma unat_low26: "unat (ucast (t :: u64) AND 0x3ffffff :: u32) = unat t mod 2 ^ 26"
proof -
  have "unat (ucast t :: u32) = unat t mod 2 ^ 32" by (simp add: unsigned_ucast_eq take_bit_eq_mod)
  then have "unat (ucast t AND 0x3ffffff :: u32) = unat t mod 2 ^ 32 mod 2 ^ 26" by (simp only: unat_and_mask26)
  also have "\<dots> = unat t mod 2 ^ 26" by (rule mod_mod_cancel) (simp add: dvd_def)
  finally show ?thesis .
qed

lemma unat_carry: "unat t div 2 ^ 26 < 2 ^ 32 \<Longrightarrow> unat (ucast (drop_bit 26 (t :: u64)) :: u32) = unat t div 2 ^ 26"
  by (subst unat_ucast_down) (simp_all only: unat_drop_bit_eq drop_bit_eq_div [where 'a = nat])

text \<open>One step of the carry pass.\<close>

lemma carry_step:
  assumes "unat t + unat b < 2 ^ 58"
  shows "unat (t + ucast (b :: u32) :: u64) = unat t + unat b"
    and "unat (ucast (drop_bit 26 (t + ucast b)) :: u32) = (unat t + unat b) div 2 ^ 26"
proof -
  show u: "unat (t + ucast b) = unat t + unat b" using assms by (subst unat_plus64) (simp_all add: unat_ucast_up)
  have "(unat t + unat b) div 2 ^ 26 < 2 ^ 32" using assms by (intro less_mult_imp_div_less) simp
  then show "unat (ucast (drop_bit 26 (t + ucast b)) :: u32) = (unat t + unat b) div 2 ^ 26"
    using unat_carry [of "t + ucast b"] unfolding u by simp
qed

text \<open>The carries as numbers.\<close>

lemma powers_26:
  "(2 :: nat) ^ 26 = 67108864" "(2 :: nat) ^ 52 = 4503599627370496" "(2 :: nat) ^ 78 = 302231454903657293676544"
  "(2 :: nat) ^ 104 = 20282409603651670423947251286016" "(2 :: nat) ^ 130 = 1361129467683753853853498429727072845824"
  by simp_all

lemma carry_value:
  fixes T0 T1 T2 T3 T4 :: nat
  defines "B \<equiv> 2 ^ 26 :: nat"
  defines "c0 \<equiv> T0 div B"
  defines "c1 \<equiv> (T1 + c0) div B"
  defines "c2 \<equiv> (T2 + c1) div B"
  defines "c3 \<equiv> (T3 + c2) div B"
  defines "c4 \<equiv> (T4 + c3) div B"
  shows "T0 mod B + B * ((T1 + c0) mod B) + 2 ^ 52 * ((T2 + c1) mod B) + 2 ^ 78 * ((T3 + c2) mod B) + 2 ^ 104 * ((T4 + c3) mod B)
     + 2 ^ 130 * c4 = T0 + B * T1 + 2 ^ 52 * T2 + 2 ^ 78 * T3 + 2 ^ 104 * T4"
proof -
  have e: "T0 = T0 mod B + B * c0" "T1 + c0 = (T1 + c0) mod B + B * c1" "T2 + c1 = (T2 + c1) mod B + B * c2"
    "T3 + c2 = (T3 + c2) mod B + B * c3" "T4 + c3 = (T4 + c3) mod B + B * c4"
    by (simp_all add: c0_def c1_def c2_def c3_def c4_def)
  have "m0 + B * m1 + 2 ^ 52 * m2 + 2 ^ 78 * m3 + 2 ^ 104 * m4 + 2 ^ 130 * c4 = T0 + B * T1 + 2 ^ 52 * T2 + 2 ^ 78 * T3 + 2 ^ 104 * T4"
    if "T0 = m0 + B * c0" "T1 + c0 = m1 + B * c1" "T2 + c1 = m2 + B * c2" "T3 + c2 = m3 + B * c3" "T4 + c3 = m4 + B * c4"
    for m0 m1 m2 m3 m4
    using that unfolding B_def powers_26 by linarith
  from this [OF e] show ?thesis .
qed

lemma carry_fold:
  assumes "m0 + 2 ^ 26 * m1 + 2 ^ 52 * m2 + 2 ^ 78 * m3 + 2 ^ 104 * m4 + 2 ^ 130 * c = (T :: nat)"
  shows "m0 + c * 5 + 2 ^ 26 * m1 + 2 ^ 52 * m2 + 2 ^ 78 * m3 + 2 ^ 104 * m4 + poly_p * c = T"
  using assms unfolding poly_p_def powers_26 by simp

lemma div_le_bound: "x < (k + 1) * 2 ^ 26 \<Longrightarrow> x div 2 ^ 26 \<le> (k :: nat)"
  using less_mult_imp_div_less [of x "k + 1" "2 ^ 26"] by simp

text \<open>The five sums are the product, up to multiples of the modulus.\<close>

lemma product_value:
  fixes h0 h1 h2 h3 h4 r0 r1 r2 r3 r4 :: nat
  defines "T0 \<equiv> h0 * r0 + h1 * (r4 * 5) + h2 * (r3 * 5) + h3 * (r2 * 5) + h4 * (r1 * 5)"
    and "T1 \<equiv> h0 * r1 + h1 * r0 + h2 * (r4 * 5) + h3 * (r3 * 5) + h4 * (r2 * 5)"
    and "T2 \<equiv> h0 * r2 + h1 * r1 + h2 * r0 + h3 * (r4 * 5) + h4 * (r3 * 5)"
    and "T3 \<equiv> h0 * r3 + h1 * r2 + h2 * r1 + h3 * r0 + h4 * (r4 * 5)"
    and "T4 \<equiv> h0 * r4 + h1 * r3 + h2 * r2 + h3 * r1 + h4 * r0"
  shows "(h0 + 2 ^ 26 * h1 + 2 ^ 52 * h2 + 2 ^ 78 * h3 + 2 ^ 104 * h4) * (r0 + 2 ^ 26 * r1 + 2 ^ 52 * r2 + 2 ^ 78 * r3 + 2 ^ 104 * r4)
     = T0 + 2 ^ 26 * T1 + 2 ^ 52 * T2 + 2 ^ 78 * T3 + 2 ^ 104 * T4
       + poly_p * ((h1 * r4 + h2 * r3 + h3 * r2 + h4 * r1) + 2 ^ 26 * (h2 * r4 + h3 * r3 + h4 * r2)
         + 2 ^ 52 * (h3 * r4 + h4 * r3) + 2 ^ 78 * (h4 * r4))"
  unfolding T0_def T1_def T2_def T3_def T4_def poly_p_def by (simp add: algebra_simps)


text \<open>\<^verbatim>\<open>poly1305_donna_mul\<close>: the product modulo \<open>2\<^sup>1\<^sup>3\<^sup>0 - 5\<close>, and the limbs again have their bounds.\<close>

lemma poly_mul_ok:
  assumes r: "r_ok r" and h: "limbs_added h"
  shows "limbs_ok (poly_mul r h)" and "limbs_val (poly_mul r h) mod poly_p = limbs_val h * limbs_val r mod poly_p"
proof -
  obtain h0 h1 h2 h3 h4 where hh: "h = (h0, h1, h2, h3, h4)" by (cases h)
  obtain r0 r1 r2 r3 r4 where rr: "r = (r0, r1, r2, r3, r4)" by (cases r)
  have H: "unat h0 \<le> 2867108863" "unat h1 \<le> 134217726" "unat h2 \<le> 134217726" "unat h3 \<le> 134217726" "unat h4 \<le> 100663294"
    using h unfolding hh by simp_all
  have R: "unat r0 \<le> 67108863" "unat r1 \<le> 67108611" "unat r2 \<le> 67092735" "unat r3 \<le> 66076671" "unat r4 \<le> 1048575"
    using r unfolding rr by simp_all
  have u5: "unat (x * 5 :: u32) = unat x * 5" if "unat x \<le> 67108863" for x using that by (simp add: unat_word_ariths)
  have s: "unat (r1 * 5) = unat r1 * 5" "unat (r2 * 5) = unat r2 * 5" "unat (r3 * 5) = unat r3 * 5" "unat (r4 * 5) = unat r4 * 5"
    using R by (simp_all add: u5)
  have S: "unat (r1 * 5) \<le> 335543055" "unat (r2 * 5) \<le> 335463675" "unat (r3 * 5) \<le> 330383355" "unat (r4 * 5) \<le> 5242875"
    unfolding s using R by simp_all
  define t0 where "t0 = mul32x32_64 h0 r0 + mul32x32_64 h1 (r4 * 5) + mul32x32_64 h2 (r3 * 5) + mul32x32_64 h3 (r2 * 5) + mul32x32_64 h4 (r1 * 5)"
  define t1 where "t1 = mul32x32_64 h0 r1 + mul32x32_64 h1 r0 + mul32x32_64 h2 (r4 * 5) + mul32x32_64 h3 (r3 * 5) + mul32x32_64 h4 (r2 * 5)"
  define t2 where "t2 = mul32x32_64 h0 r2 + mul32x32_64 h1 r1 + mul32x32_64 h2 r0 + mul32x32_64 h3 (r4 * 5) + mul32x32_64 h4 (r3 * 5)"
  define t3 where "t3 = mul32x32_64 h0 r3 + mul32x32_64 h1 r2 + mul32x32_64 h2 r1 + mul32x32_64 h3 r0 + mul32x32_64 h4 (r4 * 5)"
  define t4 where "t4 = mul32x32_64 h0 r4 + mul32x32_64 h1 r3 + mul32x32_64 h2 r2 + mul32x32_64 h3 r1 + mul32x32_64 h4 r0"
  note T0 = sum5 [OF H R(1) S(4) S(3) S(2) S(1), folded t0_def, simplified]
  note T1 = sum5 [OF H R(2) R(1) S(4) S(3) S(2), folded t1_def, simplified]
  note T2 = sum5 [OF H R(3) R(2) R(1) S(4) S(3), folded t2_def, simplified]
  note T3 = sum5 [OF H R(4) R(3) R(2) R(1) S(4), folded t3_def, simplified]
  note T4 = sum5 [OF H R(5) R(4) R(3) R(2) R(1), folded t4_def, simplified]
  have B: "unat t0 \<le> 316257446078931969" "unat t1 \<le> 280230760287423261" "unat t2 \<le> 244337702868428049"
    "unat t3 \<le> 216996172601730057" "unat t4 \<le> 36642637891724289"
    using T0(2) T1(2) T2(2) T3(2) T4(2) unfolding T0(1) T1(1) T2(1) T3(1) T4(1) .
  define c0 c1 c2 c3 c4 where "c0 = unat t0 div 2 ^ 26" and "c1 = (unat t1 + c0) div 2 ^ 26" and "c2 = (unat t2 + c1) div 2 ^ 26"
    and "c3 = (unat t3 + c2) div 2 ^ 26" and "c4 = (unat t4 + c3) div 2 ^ 26"
  have C: "c0 \<le> 4712604000" "c1 < 2 ^ 32" "c2 < 2 ^ 32" "c3 < 2 ^ 32" "c4 \<le> 546018000"
  proof -
    show "c0 \<le> 4712604000" unfolding c0_def using B(1) by (intro div_le_bound) simp
    then show "c1 < 2 ^ 32" unfolding c1_def using B(2) by (intro less_mult_imp_div_less) simp
    then show "c2 < 2 ^ 32" unfolding c2_def using B(3) by (intro less_mult_imp_div_less) simp
    then show "c3 < 2 ^ 32" unfolding c3_def using B(4) by (intro less_mult_imp_div_less) simp
    then show "c4 \<le> 546018000" unfolding c4_def using B(5) by (intro div_le_bound) simp
  qed
  define v1 where "v1 = t1 + drop_bit 26 t0"
  define b1 :: u32 where "b1 = ucast (drop_bit 26 v1)"
  define b2 :: u32 where "b2 = ucast (drop_bit 26 (t2 + ucast b1))"
  define b3 :: u32 where "b3 = ucast (drop_bit 26 (t3 + ucast b2))"
  define b4 :: u32 where "b4 = ucast (drop_bit 26 (t4 + ucast b3))"
  have d0: "unat (drop_bit 26 t0) = c0" unfolding c0_def by (simp only: unat_drop_bit_eq drop_bit_eq_div [where 'a = nat])
  have w1: "unat v1 = unat t1 + c0" unfolding v1_def using B(2) C(1) by (subst unat_plus64) (simp_all add: d0)
  have x1: "unat b1 = c1" unfolding b1_def using C(2) unfolding c1_def w1 [symmetric] by (intro unat_carry)
  have w2: "unat (t2 + ucast b1) = unat t2 + c1" and x2: "unat b2 = c2"
    using carry_step [of t2 b1] B(3) C(2) unfolding b2_def x1 c2_def by simp_all
  have w3: "unat (t3 + ucast b2) = unat t3 + c2" and x3: "unat b3 = c3"
    using carry_step [of t3 b2] B(4) C(3) unfolding b3_def x2 c3_def by simp_all
  have w4: "unat (t4 + ucast b3) = unat t4 + c3" and x4: "unat b4 = c4"
    using carry_step [of t4 b3] B(5) C(4) unfolding b4_def x3 c4_def by simp_all
  have y: "unat (b4 * 5) = c4 * 5" using C(5) x4 by (simp add: unat_word_ariths)
  have m: "unat t0 mod 2 ^ 26 < 2 ^ 26" by simp
  have z: "unat ((ucast t0 AND 0x3ffffff) + b4 * 5) = unat t0 mod 2 ^ 26 + c4 * 5"
    using C(5) m by (subst unat_plus32) (simp_all only: unat_low26 y, simp)
  have e: "poly_mul r h = ((ucast t0 AND 0x3ffffff) + b4 * 5, ucast v1 AND 0x3ffffff, ucast (t2 + ucast b1) AND 0x3ffffff,
      ucast (t3 + ucast b2) AND 0x3ffffff, ucast (t4 + ucast b3) AND 0x3ffffff)"
    unfolding hh rr poly_mul_def b4_def b3_def b2_def b1_def v1_def t0_def t1_def t2_def t3_def t4_def by (simp add: Let_def)
  show "limbs_ok (poly_mul r h)"
    unfolding e limbs_ok.simps z unat_low26 using C(5) m by simp
  have "limbs_val (poly_mul r h) + poly_p * c4 = unat t0 + 2 ^ 26 * unat t1 + 2 ^ 52 * unat t2 + 2 ^ 78 * unat t3 + 2 ^ 104 * unat t4"
    unfolding e limbs_val.simps z unat_low26 w1 w2 w3 w4
    using carry_value [of "unat t0" "unat t1" "unat t2" "unat t3" "unat t4", folded c0_def, folded c1_def, folded c2_def, folded c3_def, folded c4_def]
    by (intro carry_fold)
  moreover have "limbs_val h * limbs_val r = unat t0 + 2 ^ 26 * unat t1 + 2 ^ 52 * unat t2 + 2 ^ 78 * unat t3 + 2 ^ 104 * unat t4
      + poly_p * ((unat h1 * unat r4 + unat h2 * unat r3 + unat h3 * unat r2 + unat h4 * unat r1)
        + 2 ^ 26 * (unat h2 * unat r4 + unat h3 * unat r3 + unat h4 * unat r2) + 2 ^ 52 * (unat h3 * unat r4 + unat h4 * unat r3)
        + 2 ^ 78 * (unat h4 * unat r4))"
    unfolding hh rr limbs_val.simps T0(1) T1(1) T2(1) T3(1) T4(1) s by (rule product_value)
  ultimately have "limbs_val h * limbs_val r = limbs_val (poly_mul r h) + poly_p * (c4 + ((unat h1 * unat r4 + unat h2 * unat r3 + unat h3 * unat r2 + unat h4 * unat r1)
        + 2 ^ 26 * (unat h2 * unat r4 + unat h3 * unat r3 + unat h4 * unat r2) + 2 ^ 52 * (unat h3 * unat r4 + unat h4 * unat r3)
        + 2 ^ 78 * (unat h4 * unat r4)))"
    by (simp only: distrib_left [of poly_p c4] add.assoc)
  then show "limbs_val (poly_mul r h) mod poly_p = limbs_val h * limbs_val r mod poly_p" by (simp only: mod_mult_self2)
qed

subsection \<open>The clamped key\<close>

lemma limb_take: "limb i x = take_bit 26 (drop_bit (26 * i) x)"
  by (simp only: limb_def take_bit_eq_mod drop_bit_eq_div)

lemma limb_and: "limb i (x AND y) = limb i x AND limb i y"
  by (simp only: limb_take drop_bit_and take_bit_and)

lemma and_low: "c < 2 ^ 26 \<Longrightarrow> x AND c = (x mod 2 ^ 26) AND (c :: nat)"
proof -
  assume "c < 2 ^ 26"
  then have c: "take_bit 26 c = c" by (rule take_bit_nat_eq_self)
  have "bit (x AND c) n = bit (take_bit 26 x AND c) n" for n
    by (subst (1 2) c [symmetric]) (auto simp: bit_and_iff bit_take_bit_iff)
  then have "x AND c = take_bit 26 x AND c" by (rule bit_eqI)
  then show ?thesis by (simp only: take_bit_eq_mod)
qed

lemma unat_shift_join:
  fixes a b :: u32
  assumes "k \<le> 26"
  shows "unat (drop_bit k a OR push_bit (32 - k) b) mod 2 ^ 26 = (unat a + 2 ^ 32 * unat b) div 2 ^ k mod 2 ^ 26"
proof -
  have d: "unat (drop_bit k a) = unat a div 2 ^ k" by (simp only: unat_drop_bit_eq drop_bit_eq_div [where 'a = nat])
  have p32: "(2 :: nat) ^ 32 = 2 ^ k * 2 ^ (32 - k)" using assms by (simp flip: power_add)
  have "unat a < 2 ^ (32 - k) * 2 ^ k" using unat32 [of a] p32 by (simp add: mult.commute)
  then have lt: "unat a div 2 ^ k < 2 ^ (32 - k)" by (rule less_mult_imp_div_less)
  have "take_bit 26 (unat (drop_bit k a OR push_bit (32 - k) b))
      = take_bit 26 (unat a div 2 ^ k) OR take_bit 26 (take_bit 32 (push_bit (32 - k) (unat b)))"
    by (simp only: unsigned_or_eq d unsigned_push_bit_eq take_bit_or) simp
  also have "take_bit 26 (take_bit 32 (push_bit (32 - k) (unat b))) = take_bit 26 (push_bit (32 - k) (unat b))" by simp
  also have "take_bit 26 (unat a div 2 ^ k) OR take_bit 26 (push_bit (32 - k) (unat b))
      = take_bit 26 (unat a div 2 ^ k OR push_bit (32 - k) (unat b))" by (simp only: take_bit_or)
  also have "unat a div 2 ^ k OR push_bit (32 - k) (unat b) = unat a div 2 ^ k + 2 ^ (32 - k) * unat b" by (rule nat_or_push [OF lt])
  also have "\<dots> = (unat a + 2 ^ 32 * unat b) div 2 ^ k"
    unfolding p32 mult.assoc by (subst div_mult_self2) simp_all
  finally show ?thesis by (simp only: take_bit_eq_mod)
qed

lemma rfc_clamp_limbs: "limb 0 rfc_clamp = 0x3ffffff" "limb 1 rfc_clamp = 0x3ffff03" "limb 2 rfc_clamp = 0x3ffc0ff"
  "limb 3 rfc_clamp = 0x3f03fff" "limb 4 rfc_clamp = 0x00fffff"
  by (simp_all add: limb_def rfc_clamp_def)

lemma and_le: "x AND c \<le> (c :: nat)"
  by (simp add: and_nat_def nat_le_iff AND_upper2)

lemma poly_clamp_ok:
  assumes key: "16 \<le> length key"
  shows "r_ok (poly_clamp key)" and "limbs_val (poly_clamp key) = le_num (take 16 key) AND rfc_clamp"
proof -
  define t0 t1 t2 t3 where "t0 = U8TO32_LE key 0" and "t1 = U8TO32_LE key 4" and "t2 = U8TO32_LE key 8" and "t3 = U8TO32_LE key 12"
  define T where "T = unat t0 + 2 ^ 32 * unat t1 + 2 ^ 64 * unat t2 + 2 ^ 96 * unat t3"
  have u: "U8TO32_LE (take 16 key) i = U8TO32_LE key i" if "i \<le> 12" for i using that key by (simp add: U8TO32_LE_def)
  have T: "le_num (take 16 key) = T"
    using le_num_16 [of "take 16 key"] key u unfolding T_def t0_def t1_def t2_def t3_def by simp
  note L = limbs_of_words [of t0 t1 t2 t3, folded T_def]
  define r0 r1 r2 r3 r4 where "r0 = t0 AND 0x3ffffff" and "r1 = (drop_bit 26 t0 OR push_bit 6 t1) AND 0x3ffff03"
    and "r2 = (drop_bit 20 t1 OR push_bit 12 t2) AND 0x3ffc0ff" and "r3 = (drop_bit 14 t2 OR push_bit 18 t3) AND 0x3f03fff"
    and "r4 = drop_bit 8 t3 AND 0x00fffff"
  have e: "poly_clamp key = (r0, r1, r2, r3, r4)"
    unfolding poly_clamp_def Let_def r0_def r1_def r2_def r3_def r4_def t0_def t1_def t2_def t3_def ..
  have j: "unat (drop_bit 26 t0 OR push_bit 6 t1) mod 2 ^ 26 = limb 1 T" "unat (drop_bit 20 t1 OR push_bit 12 t2) mod 2 ^ 26 = limb 2 T"
    "unat (drop_bit 14 t2 OR push_bit 18 t3) mod 2 ^ 26 = limb 3 T"
    using unat_shift_join [of 26 t0 t1] unat_shift_join [of 20 t1 t2] unat_shift_join [of 14 t2 t3] unfolding L by simp_all
  have d8: "unat (drop_bit 8 t3) = limb 4 T" unfolding L by (simp only: unat_drop_bit_eq drop_bit_eq_div [where 'a = nat])
  have a: "unat (x AND 0x3ffff03) = unat x AND 0x3ffff03" "unat (x AND 0x3ffc0ff) = unat x AND 0x3ffc0ff"
    "unat (x AND 0x3f03fff) = unat x AND 0x3f03fff" "unat (x AND 0x00fffff) = unat x AND 0x00fffff" for x :: u32
    by (simp_all add: unsigned_and_eq)
  have R: "unat r0 = limb 0 T" "unat r1 = limb 1 T AND 0x3ffff03" "unat r2 = limb 2 T AND 0x3ffc0ff"
    "unat r3 = limb 3 T AND 0x3f03fff" "unat r4 = limb 4 T AND 0x00fffff"
    unfolding r0_def r1_def r2_def r3_def r4_def a j [symmetric] d8 unat_and_mask26 L(1) by (rule refl and_low [of "0x3ffff03"] and_low [of "0x3ffc0ff"] and_low [of "0x3f03fff"]; simp)+
  have "limb 0 T = limb 0 T AND 0x3ffffff"
  proof -
    have "limb 0 T AND mask 26 = limb 0 T" unfolding limb_take by (simp flip: take_bit_eq_mask)
    then show ?thesis by (simp add: mask_eq_exp_minus_1)
  qed
  then have V: "limb 0 (T AND rfc_clamp) = unat r0" "limb 1 (T AND rfc_clamp) = unat r1" "limb 2 (T AND rfc_clamp) = unat r2"
    "limb 3 (T AND rfc_clamp) = unat r3" "limb 4 (T AND rfc_clamp) = unat r4"
    unfolding R limb_and rfc_clamp_limbs by simp_all
  show "r_ok (poly_clamp key)"
    unfolding e r_ok.simps R(2-5) using limb_less [of 0 T] R(1) and_le [of "limb 1 T" "0x3ffff03"] and_le [of "limb 2 T" "0x3ffc0ff"]
      and_le [of "limb 3 T" "0x3f03fff"] and_le [of "limb 4 T" "0x00fffff"] by simp
  have "T AND rfc_clamp \<le> rfc_clamp" by (rule and_le)
  also have "rfc_clamp < 2 ^ 130" by (simp add: rfc_clamp_def)
  finally show "limbs_val (poly_clamp key) = le_num (take 16 key) AND rfc_clamp"
    using limbs_sum [of "T AND rfc_clamp"] unfolding e limbs_val.simps T V by simp
qed

subsection \<open>The loop over the message\<close>

lemma le_num_zeros: "le_num (replicate n 0) = 0"
  by (induction n) simp_all

lemma poly_step:
  assumes r: "r_ok r" and h: "limbs_ok h" and "length m = 16" and "hib < 2" and "x = le_num m + hib * 2 ^ 128"
  shows "limbs_ok (poly_mul r (poly_add m (push_bit 24 (of_nat hib)) h))"
    and "limbs_val (poly_mul r (poly_add m (push_bit 24 (of_nat hib)) h)) mod poly_p = (limbs_val h mod poly_p + x) * limbs_val r mod poly_p"
proof -
  note a = poly_add_ok [OF assms(3) h assms(4)]
  show "limbs_ok (poly_mul r (poly_add m (push_bit 24 (of_nat hib)) h))" by (rule poly_mul_ok(1) [OF r a(2)])
  have "limbs_val (poly_mul r (poly_add m (push_bit 24 (of_nat hib)) h)) mod poly_p = (limbs_val h + x) * limbs_val r mod poly_p"
    using poly_mul_ok(2) [OF r a(2)] unfolding a(1) assms(5) by (simp only: add.assoc)
  then show "limbs_val (poly_mul r (poly_add m (push_bit 24 (of_nat hib)) h)) mod poly_p = (limbs_val h mod poly_p + x) * limbs_val r mod poly_p"
    by (metis mod_add_left_eq mod_mult_left_eq)
qed

lemma poly_blocks_ok:
  "r_ok r \<Longrightarrow> limbs_ok h \<Longrightarrow> limbs_ok (poly_blocks r m h)
   \<and> limbs_val (poly_blocks r m h) mod poly_p = rfc_acc (limbs_val r) m (limbs_val h mod poly_p)"
proof (induction r m h rule: poly_blocks.induct)
  case (1 r m h)
  show ?case
  proof (cases "16 \<le> length m")
    case True
    let ?h = "poly_mul r (poly_add (take 16 m) (push_bit 24 1) h)"
    have "le_num (take 16 m @ [1]) = le_num (take 16 m) + 1 * 2 ^ 128" using True by (simp add: le_num_append)
    from poly_step [OF 1(2,3) _ _ this] True
    have s: "limbs_ok ?h" "limbs_val ?h mod poly_p = (limbs_val h mod poly_p + le_num (take 16 m @ [1])) * limbs_val r mod poly_p"
      by simp_all
    have "poly_blocks r m h = poly_blocks r (drop 16 m) ?h" using True by (subst poly_blocks.simps) simp
    moreover have "m \<noteq> []" using True by auto
    ultimately show ?thesis using 1(1) [OF True 1(2) s(1)] s(2) by (subst rfc_acc.simps) simp
  next
    case short: False
    show ?thesis
    proof (cases "m = []")
      case True
      then show ?thesis using 1(3) by (simp add: poly_blocks.simps rfc_acc.simps)
    next
      case False
      let ?m = "m @ [1] @ replicate (15 - length m) 0"
      have "le_num (take 16 m @ [1]) = le_num ?m + 0 * 2 ^ 128"
        using short by (simp add: le_num_append le_num_zeros)
      from poly_step [OF 1(2,3) _ _ this] short
      have s: "limbs_ok (poly_mul r (poly_add ?m 0 h))"
        "limbs_val (poly_mul r (poly_add ?m 0 h)) mod poly_p = (limbs_val h mod poly_p + le_num (take 16 m @ [1])) * limbs_val r mod poly_p"
        by simp_all
      have d: "drop 16 m = []" using short by simp
      have "poly_blocks r m h = poly_mul r (poly_add ?m 0 h)" using short False by (subst poly_blocks.simps) simp
      moreover have "rfc_acc (limbs_val r) m acc = (acc + le_num (take 16 m @ [1])) * limbs_val r mod poly_p" for acc
        using False d by (subst rfc_acc.simps, subst rfc_acc.simps) simp
      ultimately show ?thesis using s by simp
    qed
  qed
qed

subsection \<open>The last carries\<close>

fun limbs_small :: "limbs \<Rightarrow> bool" where
  "limbs_small (h0, h1, h2, h3, h4) \<longleftrightarrow> unat h0 < 2 ^ 26 \<and> unat h1 < 2 ^ 26 \<and> unat h2 < 2 ^ 26 \<and> unat h3 < 2 ^ 26 \<and> unat h4 < 2 ^ 26"

lemma unat_div26: "unat (drop_bit 26 w) = unat (w :: u32) div 2 ^ 26"
  by (simp only: unat_drop_bit_eq drop_bit_eq_div [where 'a = nat])

text \<open>The carries as numbers: a carry out of the highest limb means that every limb was full.\<close>

lemma full_carry:
  fixes h0 h1 h2 h3 h4 :: nat
  assumes b: "h0 \<le> 2800000000" "h1 < 2 ^ 26" "h2 < 2 ^ 26" "h3 < 2 ^ 26" "h4 < 2 ^ 26"
  defines "B \<equiv> 2 ^ 26 :: nat"
  defines "c0 \<equiv> h0 div B"
  defines "c1 \<equiv> (h1 + c0) div B"
  defines "c2 \<equiv> (h2 + c1) div B"
  defines "c3 \<equiv> (h3 + c2) div B"
  defines "c4 \<equiv> (h4 + c3) div B"
  defines "c5 \<equiv> (h0 mod B + c4 * 5) div B"
  shows "c0 \<le> 41" "c1 \<le> 1" "c2 \<le> 1" "c3 \<le> 1" "c4 \<le> 1" "c5 \<le> 1" "(h1 + c0) mod B + c5 < B"
proof -
  have q: "x div B \<le> 1 \<and> (0 < x div B \<longrightarrow> B \<le> x \<and> x mod B = x - B)" if "x < 2 * B" for x
  proof (cases "x < B")
    case False
    then have "x div B = 1" using that by (intro div_nat_eqI) (simp_all add: B_def)
    then show ?thesis using False minus_div_mult_eq_mod [of x B] by simp
  qed simp
  show c0: "c0 \<le> 41" unfolding c0_def B_def using b(1) by (intro div_le_bound) simp
  have l: "h1 + c0 < 2 * B" using b(2) c0 by (simp add: B_def)
  show c1: "c1 \<le> 1" using q [OF l] by (simp add: c1_def)
  have l2: "h2 + c1 < 2 * B" using b(3) c1 by (simp add: B_def)
  show c2: "c2 \<le> 1" using q [OF l2] by (simp add: c2_def)
  have l3: "h3 + c2 < 2 * B" using b(4) c2 by (simp add: B_def)
  show c3: "c3 \<le> 1" using q [OF l3] by (simp add: c3_def)
  have l4: "h4 + c3 < 2 * B" using b(5) c3 by (simp add: B_def)
  show c4: "c4 \<le> 1" using q [OF l4] by (simp add: c4_def)
  have m0: "h0 mod B < B" by (simp add: B_def)
  then have l5: "h0 mod B + c4 * 5 < 2 * B" using c4 by (simp add: B_def)
  show c5: "c5 \<le> 1" using q [OF l5] by (simp add: c5_def)
  show "(h1 + c0) mod B + c5 < B"
  proof (cases "c4 = 0")
    case True
    then have "c5 = 0" using m0 by (simp add: c5_def)
    then show ?thesis by (simp add: B_def)
  next
    case False
    then have "B \<le> h4 + c3" using q [OF l4] by (simp add: c4_def)
    then have "0 < c3" using b(5) by (simp add: B_def)
    then have "B \<le> h3 + c2" using q [OF l3] by (simp add: c3_def)
    then have "0 < c2" using b(4) by (simp add: B_def)
    then have "B \<le> h2 + c1" using q [OF l2] by (simp add: c2_def)
    then have "0 < c1" using b(3) by (simp add: B_def)
    then have "(h1 + c0) mod B = h1 + c0 - B" using q [OF l] by (simp add: c1_def)
    then show ?thesis using b(2) c0 c5 by (simp add: B_def)
  qed
qed


lemma carry_twice:
  assumes "m0 + c4 * 5 + 2 ^ 26 * m1 + x2 + x3 + x4 + p = (T :: nat)" and "k + 2 ^ 26 * c5 = m0 + c4 * 5"
  shows "k + 2 ^ 26 * (m1 + c5) + x2 + x3 + x4 + p = T"
  using assms by (simp add: algebra_simps)

lemma poly_carry_ok:
  assumes "limbs_ok h"
  shows "limbs_small (poly_carry h)" and "limbs_val (poly_carry h) mod poly_p = limbs_val h mod poly_p"
proof -
  obtain h0 h1 h2 h3 h4 where hh: "h = (h0, h1, h2, h3, h4)" by (cases h)
  have b: "unat h0 \<le> 2800000000" "unat h1 < 2 ^ 26" "unat h2 < 2 ^ 26" "unat h3 < 2 ^ 26" "unat h4 < 2 ^ 26"
    using assms unfolding hh by simp_all
  define c0 where "c0 = unat h0 div 2 ^ 26"
  define c1 where "c1 = (unat h1 + c0) div 2 ^ 26"
  define c2 where "c2 = (unat h2 + c1) div 2 ^ 26"
  define c3 where "c3 = (unat h3 + c2) div 2 ^ 26"
  define c4 where "c4 = (unat h4 + c3) div 2 ^ 26"
  define c5 where "c5 = (unat h0 mod 2 ^ 26 + c4 * 5) div 2 ^ 26"
  note C = full_carry [OF b, folded c0_def, folded c1_def, folded c2_def, folded c3_def, folded c4_def, folded c5_def]
  define a1 where "a1 = h1 + drop_bit 26 h0"
  define a2 where "a2 = h2 + drop_bit 26 a1"
  define a3 where "a3 = h3 + drop_bit 26 a2"
  define a4 where "a4 = h4 + drop_bit 26 a3"
  define a0 where "a0 = (h0 AND 0x3ffffff) + drop_bit 26 a4 * 5"
  have e: "poly_carry h = (a0 AND 0x3ffffff, (a1 AND 0x3ffffff) + drop_bit 26 a0, a2 AND 0x3ffffff, a3 AND 0x3ffffff, a4 AND 0x3ffffff)"
    unfolding hh poly_carry_def a0_def a4_def a3_def a2_def a1_def by (simp add: Let_def)
  have u1: "unat a1 = unat h1 + c0" unfolding a1_def using b(2) C(1) by (subst unat_plus32) (simp_all add: unat_div26 c0_def)
  have u2: "unat a2 = unat h2 + c1" unfolding a2_def using b(3) C(2) by (subst unat_plus32) (simp_all add: unat_div26 u1 c1_def)
  have u3: "unat a3 = unat h3 + c2" unfolding a3_def using b(4) C(3) by (subst unat_plus32) (simp_all add: unat_div26 u2 c2_def)
  have u4: "unat a4 = unat h4 + c3" unfolding a4_def using b(5) C(4) by (subst unat_plus32) (simp_all add: unat_div26 u3 c3_def)
  have u5: "unat (drop_bit 26 a4 * 5) = c4 * 5" using C(5) by (simp add: unat_word_ariths unat_div26 u4 c4_def)
  have m0: "unat h0 mod 2 ^ 26 < 2 ^ 26" by simp
  have u0: "unat a0 = unat h0 mod 2 ^ 26 + c4 * 5"
    unfolding a0_def using m0 C(5) by (subst unat_plus32) (simp_all only: u5 unat_and_mask26, simp)
  have v1: "unat ((a1 AND 0x3ffffff) + drop_bit 26 a0) = (unat h1 + c0) mod 2 ^ 26 + c5"
    using C(7) by (subst unat_plus32) (simp_all only: unat_and_mask26 unat_div26 u0 u1 c5_def, simp)
  show "limbs_small (poly_carry h)"
    unfolding e limbs_small.simps v1 unat_and_mask26 using C(7) by simp
  have f: "(unat h0 mod 2 ^ 26 + c4 * 5) mod 2 ^ 26 + 2 ^ 26 * c5 = unat h0 mod 2 ^ 26 + c4 * 5" unfolding c5_def by simp
  have cv: "unat h0 mod 2 ^ 26 + 2 ^ 26 * ((unat h1 + c0) mod 2 ^ 26) + 2 ^ 52 * ((unat h2 + c1) mod 2 ^ 26) + 2 ^ 78 * ((unat h3 + c2) mod 2 ^ 26)
      + 2 ^ 104 * ((unat h4 + c3) mod 2 ^ 26) + 2 ^ 130 * c4
      = unat h0 + 2 ^ 26 * unat h1 + 2 ^ 52 * unat h2 + 2 ^ 78 * unat h3 + 2 ^ 104 * unat h4"
    using carry_value [of "unat h0" "unat h1" "unat h2" "unat h3" "unat h4", folded c0_def, folded c1_def, folded c2_def, folded c3_def, folded c4_def] .
  have "limbs_val (poly_carry h) + poly_p * c4 = limbs_val h"
    unfolding e limbs_val.simps v1 unat_and_mask26 u0 u2 u3 u4 unfolding hh limbs_val.simps
    using carry_fold [OF cv] f by (intro carry_twice)
  then show "limbs_val (poly_carry h) mod poly_p = limbs_val h mod poly_p" by (metis mod_mult_self2)
qed

subsection \<open>Reduction modulo the prime\<close>

lemma limbs_val_less: "limbs_small h \<Longrightarrow> limbs_val h < 2 ^ 130"
proof -
  obtain h0 h1 h2 h3 h4 where hh: "h = (h0, h1, h2, h3, h4)" by (cases h)
  assume "limbs_small h"
  then show ?thesis unfolding hh limbs_small.simps limbs_val.simps powers_26 by linarith
qed

lemma poly_p_pos: "poly_p = 1361129467683753853853498429727072845819"
  by (simp add: poly_p_def)

text \<open>The top limb of \<open>h + 5\<close>, less \<open>2\<^sup>2\<^sup>6\<close>: its sign bit says whether the number is below the prime.\<close>

lemma select_mask:
  assumes "unat (x :: u32) \<le> 2 ^ 26"
  shows "drop_bit 31 (x - push_bit 26 1) - 1 = (if unat x < 2 ^ 26 then 0 else NOT 0)"
    and "\<not> unat x < 2 ^ 26 \<Longrightarrow> unat (x - push_bit 26 1) = 0"
proof -
  have p: "push_bit 26 (1 :: u32) = 67108864" by simp
  show "drop_bit 31 (x - push_bit 26 1) - 1 = (if unat x < 2 ^ 26 then 0 else NOT 0)"
  proof (cases "unat x < 2 ^ 26")
    case True
    then have "x < 67108864" by (simp add: word_less_nat_alt)
    then have "unat (x - 67108864) = unat x + 4227858432" by (simp add: unat_sub_if' word_less_nat_alt)
    then have "unat (x - 67108864) div 2 ^ 31 = 1" using True by (intro div_nat_eqI) simp_all
    then have "unat (drop_bit 31 (x - 67108864)) = 1" by (simp only: unat_drop_bit_eq drop_bit_eq_div [where 'a = nat])
    then have "drop_bit 31 (x - 67108864) = 1" by (metis unat_1 word_unat_eq_iff)
    then show ?thesis using True by simp
  next
    case False
    then have "x = 67108864" using assms by (simp add: word_unat_eq_iff)
    then show ?thesis by simp
  qed
  show "unat (x - push_bit 26 1) = 0" if "\<not> unat x < 2 ^ 26"
  proof -
    have "unat x = unat (67108864 :: u32)" using that assms by simp
    then have "x = 67108864" by (simp only: word_unat_eq_iff)
    then show ?thesis by simp
  qed
qed

lemma freeze_value:
  fixes T0 T1 T2 T3 T4 :: nat
  defines "B \<equiv> 2 ^ 26 :: nat"
  defines "c0 \<equiv> T0 div B"
  defines "c1 \<equiv> (T1 + c0) div B"
  defines "c2 \<equiv> (T2 + c1) div B"
  defines "c3 \<equiv> (T3 + c2) div B"
  shows "T0 mod B + B * ((T1 + c0) mod B) + 2 ^ 52 * ((T2 + c1) mod B) + 2 ^ 78 * ((T3 + c2) mod B) + 2 ^ 104 * (T4 + c3)
     = T0 + B * T1 + 2 ^ 52 * T2 + 2 ^ 78 * T3 + 2 ^ 104 * T4"
proof -
  have e: "T0 = T0 mod B + B * c0" "T1 + c0 = (T1 + c0) mod B + B * c1" "T2 + c1 = (T2 + c1) mod B + B * c2"
    "T3 + c2 = (T3 + c2) mod B + B * c3"
    by (simp_all add: c0_def c1_def c2_def c3_def)
  have "m0 + B * m1 + 2 ^ 52 * m2 + 2 ^ 78 * m3 + 2 ^ 104 * (T4 + c3) = T0 + B * T1 + 2 ^ 52 * T2 + 2 ^ 78 * T3 + 2 ^ 104 * T4"
    if "T0 = m0 + B * c0" "T1 + c0 = m1 + B * c1" "T2 + c1 = m2 + B * c2" "T3 + c2 = m3 + B * c3" for m0 m1 m2 m3
    using that unfolding B_def powers_26 distrib_left by linarith
  from this [OF e] show ?thesis .
qed

lemma freeze_less:
  "m0 < 2 ^ 26 \<Longrightarrow> m1 < 2 ^ 26 \<Longrightarrow> m2 < 2 ^ 26 \<Longrightarrow> m3 < 2 ^ 26 \<Longrightarrow> m4 < 2 ^ 26
   \<Longrightarrow> m0 + 2 ^ 26 * m1 + 2 ^ 52 * m2 + 2 ^ 78 * m3 + 2 ^ 104 * m4 < (2 :: nat) ^ 130"
  unfolding powers_26 by linarith

lemma poly_freeze_ok:
  assumes "limbs_small h"
  shows "limbs_small (poly_freeze h)" and "limbs_val (poly_freeze h) = limbs_val h mod poly_p"
proof -
  obtain h0 h1 h2 h3 h4 where hh: "h = (h0, h1, h2, h3, h4)" by (cases h)
  have b: "unat h0 < 2 ^ 26" "unat h1 < 2 ^ 26" "unat h2 < 2 ^ 26" "unat h3 < 2 ^ 26" "unat h4 < 2 ^ 26"
    using assms unfolding hh by simp_all
  define c0 where "c0 = (unat h0 + 5) div 2 ^ 26"
  define c1 where "c1 = (unat h1 + c0) div 2 ^ 26"
  define c2 where "c2 = (unat h2 + c1) div 2 ^ 26"
  define c3 where "c3 = (unat h3 + c2) div 2 ^ 26"
  have C: "c0 \<le> 1" "c1 \<le> 1" "c2 \<le> 1" "c3 \<le> 1"
  proof -
    show c0: "c0 \<le> 1" unfolding c0_def using b(1) by (intro div_le_bound) simp
    show c1: "c1 \<le> 1" unfolding c1_def using b(2) c0 by (intro div_le_bound) simp
    show c2: "c2 \<le> 1" unfolding c2_def using b(3) c1 by (intro div_le_bound) simp
    show "c3 \<le> 1" unfolding c3_def using b(4) c2 by (intro div_le_bound) simp
  qed
  define g0 where "g0 = h0 + 5"
  define g1 where "g1 = h1 + drop_bit 26 g0"
  define g2 where "g2 = h2 + drop_bit 26 g1"
  define g3 where "g3 = h3 + drop_bit 26 g2"
  define x where "x = h4 + drop_bit 26 g3"
  define M where "M = drop_bit 31 (x - push_bit 26 1) - 1"
  have e: "poly_freeze h = ((h0 AND NOT M) OR ((g0 AND 0x3ffffff) AND M), (h1 AND NOT M) OR ((g1 AND 0x3ffffff) AND M),
      (h2 AND NOT M) OR ((g2 AND 0x3ffffff) AND M), (h3 AND NOT M) OR ((g3 AND 0x3ffffff) AND M),
      (h4 AND NOT M) OR ((x - push_bit 26 1) AND M))"
    unfolding hh poly_freeze_def M_def x_def g3_def g2_def g1_def g0_def by (simp only: Let_def split_def fst_conv snd_conv)
  have u0: "unat g0 = unat h0 + 5" unfolding g0_def using b(1) by (subst unat_plus32) simp_all
  have u1: "unat g1 = unat h1 + c0" unfolding g1_def using b(2) C(1) by (subst unat_plus32) (simp_all add: unat_div26 u0 c0_def)
  have u2: "unat g2 = unat h2 + c1" unfolding g2_def using b(3) C(2) by (subst unat_plus32) (simp_all add: unat_div26 u1 c1_def)
  have u3: "unat g3 = unat h3 + c2" unfolding g3_def using b(4) C(3) by (subst unat_plus32) (simp_all add: unat_div26 u2 c2_def)
  have ux: "unat x = unat h4 + c3" unfolding x_def using b(5) C(4) by (subst unat_plus32) (simp_all add: unat_div26 u3 c3_def)
  have xb: "unat x \<le> 2 ^ 26" unfolding ux using b(5) C(4) by simp
  have tot: "(unat h0 + 5) mod 2 ^ 26 + 2 ^ 26 * ((unat h1 + c0) mod 2 ^ 26) + 2 ^ 52 * ((unat h2 + c1) mod 2 ^ 26)
      + 2 ^ 78 * ((unat h3 + c2) mod 2 ^ 26) + 2 ^ 104 * (unat h4 + c3) = limbs_val h + 5"
    using freeze_value [of "unat h0 + 5" "unat h1" "unat h2" "unat h3" "unat h4", folded c0_def, folded c1_def, folded c2_def, folded c3_def]
    unfolding hh limbs_val.simps by simp
  have small: "limbs_val h < 2 * poly_p" using limbs_val_less [OF assms] by (simp add: poly_p_pos)
  have "limbs_small (poly_freeze h) \<and> limbs_val (poly_freeze h) = limbs_val h mod poly_p"
  proof (cases "unat x < 2 ^ 26")
    case True
    then have "M = 0" unfolding M_def select_mask(1) [OF xb] by simp
    then have "poly_freeze h = h" unfolding e unfolding hh by simp
    moreover have "limbs_val h < poly_p"
    proof -
      have "limbs_val h + 5 < 2 ^ 130"
        using True unfolding tot [symmetric] ux by (intro freeze_less) simp_all
      then show ?thesis by (simp add: poly_p_pos)
    qed
    ultimately show ?thesis using assms by simp
  next
    case False
    then have "M = NOT 0" unfolding M_def select_mask(1) [OF xb] by simp
    then have f: "poly_freeze h = (g0 AND 0x3ffffff, g1 AND 0x3ffffff, g2 AND 0x3ffffff, g3 AND 0x3ffffff, x - push_bit 26 1)"
      unfolding e by simp
    have z: "unat (x - push_bit 26 1) = 0" by (rule select_mask(2) [OF xb False])
    have "unat h4 + c3 = 2 ^ 26" using False xb unfolding ux by simp
    then have "limbs_val (poly_freeze h) + 2 ^ 130 = limbs_val h + 5"
      using tot unfolding f limbs_val.simps unat_and_mask26 u0 u1 u2 u3 z by simp
    then have "limbs_val h = limbs_val (poly_freeze h) + poly_p" by (simp add: poly_p_pos)
    moreover have "limbs_small (poly_freeze h)" unfolding f limbs_small.simps unat_and_mask26 z by simp
    ultimately show ?thesis using small by simp
  qed
  then show "limbs_small (poly_freeze h)" "limbs_val (poly_freeze h) = limbs_val h mod poly_p" by auto
qed

subsection \<open>The tag\<close>

definition word32 :: "nat \<Rightarrow> nat \<Rightarrow> nat" where
  "word32 i x = x div 2 ^ (32 * i) mod 2 ^ 32"

lemma powers_32:
  "(2 :: nat) ^ 32 = 4294967296" "(2 :: nat) ^ 64 = 18446744073709551616" "(2 :: nat) ^ 96 = 79228162514264337593543950336"
  "(2 :: nat) ^ 128 = 340282366920938463463374607431768211456"
  by simp_all

lemma words_chain:
  "(x :: nat) = w0 + 2 ^ 32 * y1 \<Longrightarrow> y1 = w1 + 2 ^ 32 * y2 \<Longrightarrow> y2 = w2 + 2 ^ 32 * y3 \<Longrightarrow> y3 = w3 + 2 ^ 32 * y4
   \<Longrightarrow> x = w0 + 2 ^ 32 * w1 + 2 ^ 64 * w2 + 2 ^ 96 * w3 + 2 ^ 128 * y4"
  unfolding powers_32 by linarith

lemma words_less:
  "w0 < 2 ^ 32 \<Longrightarrow> w1 < 2 ^ 32 \<Longrightarrow> w2 < 2 ^ 32 \<Longrightarrow> w3 < 2 ^ 32
   \<Longrightarrow> w0 + 2 ^ 32 * w1 + 2 ^ 64 * w2 + 2 ^ 96 * w3 < (2 :: nat) ^ 128"
  unfolding powers_32 by linarith

lemma words_chain2:
  "F0 + S0 = m0 + 2 ^ 32 * (y0 :: nat) \<Longrightarrow> F1 + S1 + y0 = m1 + 2 ^ 32 * y1 \<Longrightarrow> F2 + S2 + y1 = m2 + 2 ^ 32 * y2
   \<Longrightarrow> F3 + S3 + y2 = m3 + 2 ^ 32 * y3
   \<Longrightarrow> F0 + 2 ^ 32 * F1 + 2 ^ 64 * F2 + 2 ^ 96 * F3 + (S0 + 2 ^ 32 * S1 + 2 ^ 64 * S2 + 2 ^ 96 * S3)
     = m0 + 2 ^ 32 * m1 + 2 ^ 64 * m2 + 2 ^ 96 * m3 + 2 ^ 128 * y3"
  unfolding powers_32 by linarith

lemma div_shift26: "a < 2 ^ 26 \<Longrightarrow> (a + 2 ^ 26 * x) div 2 ^ 26 = (x :: nat)"
  by simp

lemma words_sum: "x mod 2 ^ 128 = word32 0 x + 2 ^ 32 * word32 1 x + 2 ^ 64 * word32 2 x + 2 ^ 96 * word32 3 x"
proof -
  let ?B = "2 ^ 32 :: nat"
  have e: "y = y mod ?B + ?B * (y div ?B)" for y :: nat by simp
  have d: "x div 2 ^ 32 div ?B = x div 2 ^ 64" "x div 2 ^ 64 div ?B = x div 2 ^ 96" "x div 2 ^ 96 div ?B = x div 2 ^ 128"
    by (simp_all flip: div_mult2_eq)
  have w: "word32 0 x = x mod ?B" "word32 1 x = x div 2 ^ 32 mod ?B" "word32 2 x = x div 2 ^ 64 mod ?B" "word32 3 x = x div 2 ^ 96 mod ?B"
    by (simp_all add: word32_def)
  have s: "x = word32 0 x + ?B * (x div 2 ^ 32)" unfolding w by (rule e)
  have s1: "x div 2 ^ 32 = word32 1 x + ?B * (x div 2 ^ 64)" using e [of "x div 2 ^ 32"] unfolding d w .
  have s2: "x div 2 ^ 64 = word32 2 x + ?B * (x div 2 ^ 96)" using e [of "x div 2 ^ 64"] unfolding d w .
  have s3: "x div 2 ^ 96 = word32 3 x + ?B * (x div 2 ^ 128)" using e [of "x div 2 ^ 96"] unfolding d w .
  let ?s = "word32 0 x + 2 ^ 32 * word32 1 x + 2 ^ 64 * word32 2 x + 2 ^ 96 * word32 3 x"
  have x: "x = ?s + 2 ^ 128 * (x div 2 ^ 128)" using s s1 s2 s3 by (rule words_chain)
  have "word32 i x < 2 ^ 32" for i by (simp add: word32_def)
  then have "?s < 2 ^ 128" by (intro words_less)
  moreover have "x mod 2 ^ 128 = ?s mod 2 ^ 128" by (subst x) (simp only: mod_mult_self2)
  ultimately show ?thesis by simp
qed

lemma unat_limb_word:
  fixes a b :: u32
  assumes "k \<le> 26" and "unat a < 2 ^ 26"
  shows "unat (drop_bit k a OR push_bit (26 - k) b) = (unat a + 2 ^ 26 * unat b) div 2 ^ k mod 2 ^ 32"
proof -
  have d: "unat (drop_bit k a) = unat a div 2 ^ k" by (simp only: unat_drop_bit_eq drop_bit_eq_div [where 'a = nat])
  have p26: "(2 :: nat) ^ 26 = 2 ^ k * 2 ^ (26 - k)" using assms(1) by (simp flip: power_add)
  have "unat a < 2 ^ (26 - k) * 2 ^ k" using assms(2) p26 by (simp add: mult.commute)
  then have lt: "unat a div 2 ^ k < 2 ^ (26 - k)" by (rule less_mult_imp_div_less)
  have "unat (drop_bit k a OR push_bit (26 - k) b) = take_bit 32 (unat (drop_bit k a OR push_bit (26 - k) b))"
    using unat32 by (simp only: take_bit_nat_eq_self)
  also have "\<dots> = take_bit 32 (unat a div 2 ^ k) OR take_bit 32 (take_bit 32 (push_bit (26 - k) (unat b)))"
    by (simp only: unsigned_or_eq d unsigned_push_bit_eq take_bit_or) simp
  also have "\<dots> = take_bit 32 (unat a div 2 ^ k OR push_bit (26 - k) (unat b))" by (simp only: take_bit_or) simp
  also have "unat a div 2 ^ k OR push_bit (26 - k) (unat b) = unat a div 2 ^ k + 2 ^ (26 - k) * unat b" by (rule nat_or_push [OF lt])
  also have "\<dots> = (unat a + 2 ^ 26 * unat b) div 2 ^ k"
    unfolding p26 mult.assoc by (subst div_mult_self2) simp_all
  finally show ?thesis by (simp only: take_bit_eq_mod)
qed

lemma word_low: "k \<le> 20 \<Longrightarrow> (a + 2 ^ 52 * x) div 2 ^ k mod 2 ^ 32 = a div 2 ^ k mod (2 ^ 32 :: nat)"
proof -
  assume k: "k \<le> 20"
  have "(2 :: nat) ^ 52 = 2 ^ k * (2 ^ 32 * 2 ^ (20 - k))" using k by (simp flip: power_add)
  then have "(a + 2 ^ 52 * x) div 2 ^ k = (a + 2 ^ k * (2 ^ 32 * 2 ^ (20 - k) * x)) div 2 ^ k"
    by (simp only: mult.assoc)
  also have "\<dots> = a div 2 ^ k + 2 ^ 32 * (2 ^ (20 - k) * x)" by (simp only: div_mult_self2 mult.assoc) simp
  finally show ?thesis by (simp only: mod_mult_self2)
qed

text \<open>Repacking the limbs in 32-bit words.\<close>

lemma limbs_words:
  assumes "limbs_small (h0, h1, h2, h3, h4)"
  defines "v \<equiv> limbs_val (h0, h1, h2, h3, h4)"
  shows "unat (h0 OR push_bit 26 h1) = word32 0 v" "unat (drop_bit 6 h1 OR push_bit 20 h2) = word32 1 v"
    "unat (drop_bit 12 h2 OR push_bit 14 h3) = word32 2 v" "unat (drop_bit 18 h3 OR push_bit 8 h4) = word32 3 v"
proof -
  have b: "unat h0 < 2 ^ 26" "unat h1 < 2 ^ 26" "unat h2 < 2 ^ 26" "unat h3 < 2 ^ 26" using assms(1) by simp_all
  let ?a = "unat h0" and ?b = "unat h1" and ?c = "unat h2" and ?d = "unat h3" and ?e = "unat h4"
  have v0: "v = (?a + 2 ^ 26 * ?b) + 2 ^ 52 * (?c + 2 ^ 26 * ?d + 2 ^ 52 * ?e)" by (simp add: v_def)
  have q1: "v div 2 ^ 26 = (?b + 2 ^ 26 * ?c) + 2 ^ 52 * (?d + 2 ^ 26 * ?e)"
    using b(1) div_shift26 [OF b(1), of "(?b + 2 ^ 26 * ?c) + 2 ^ 52 * (?d + 2 ^ 26 * ?e)"] by (simp add: v_def algebra_simps)
  have q2: "v div 2 ^ 52 = (?c + 2 ^ 26 * ?d) + 2 ^ 52 * ?e"
    using div_shift26 [OF b(2), of "(?c + 2 ^ 26 * ?d) + 2 ^ 52 * ?e"] q1 div_mult2_eq [of v "2 ^ 26" "2 ^ 26"] by (simp add: algebra_simps)
  have q3: "v div 2 ^ 78 = ?d + 2 ^ 26 * ?e"
    using div_shift26 [OF b(3), of "?d + 2 ^ 26 * ?e"] q2 div_mult2_eq [of v "2 ^ 52" "2 ^ 26"] by (simp add: algebra_simps)
  have s: "v div 2 ^ 32 = v div 2 ^ 26 div 2 ^ 6" "v div 2 ^ 64 = v div 2 ^ 52 div 2 ^ 12" "v div 2 ^ 96 = v div 2 ^ 78 div 2 ^ 18"
    by (simp_all flip: div_mult2_eq)
  have w: "word32 0 v = v div 2 ^ 0 mod 2 ^ 32" "word32 1 v = v div 2 ^ 32 mod 2 ^ 32" "word32 2 v = v div 2 ^ 64 mod 2 ^ 32"
    "word32 3 v = v div 2 ^ 96 mod 2 ^ 32" by (simp_all add: word32_def)
  have "word32 0 v = (?a + 2 ^ 26 * ?b) div 2 ^ 0 mod 2 ^ 32" unfolding w unfolding v0 by (rule word_low) simp
  then show "unat (h0 OR push_bit 26 h1) = word32 0 v" using unat_limb_word [of 0 h0 h1] b by simp
  have "word32 1 v = (?b + 2 ^ 26 * ?c) div 2 ^ 6 mod 2 ^ 32" unfolding w unfolding s q1 by (rule word_low) simp
  then show "unat (drop_bit 6 h1 OR push_bit 20 h2) = word32 1 v" using unat_limb_word [of 6 h1 h2] b by simp
  have "word32 2 v = (?c + 2 ^ 26 * ?d) div 2 ^ 12 mod 2 ^ 32" unfolding w unfolding s q2 by (rule word_low) simp
  then show "unat (drop_bit 12 h2 OR push_bit 14 h3) = word32 2 v" using unat_limb_word [of 12 h2 h3] b by simp
  have "word32 3 v = (?d + 2 ^ 26 * ?e) div 2 ^ 18 mod 2 ^ 32" unfolding w unfolding s q3 by simp
  then show "unat (drop_bit 18 h3 OR push_bit 8 h4) = word32 3 v" using unat_limb_word [of 18 h3 h4] b by simp
qed

lemma le_num_le_bytes: "le_num (le_bytes n w) = unat (w :: 'a::len word) mod 256 ^ n"
proof (induction n arbitrary: w)
  case (Suc n)
  have "unat (ucast w :: u8) = unat w mod 256" by (simp add: unsigned_ucast_eq take_bit_eq_mod)
  moreover have "unat (drop_bit 8 w) = unat w div 256" by (simp only: unat_drop_bit_eq drop_bit_eq_div [where 'a = nat]) simp
  ultimately show ?case using Suc by (simp add: mod_mult2_eq)
qed simp

lemma U32TO8_LE_num: "le_num (U32TO8_LE v) = unat v mod 2 ^ 32"
proof -
  have "U32TO8_LE v = le_bytes 4 v" by (simp add: U32TO8_LE_def le_bytes_numeral drop_bit_drop_bit)
  then show ?thesis by (simp add: le_num_le_bytes)
qed

text \<open>Adding the second half of the key, word by word.\<close>

lemma add_words:
  fixes F0 F1 F2 F3 S0 S1 S2 S3 :: nat
  defines "B \<equiv> 2 ^ 32 :: nat"
  defines "f0 \<equiv> F0 + S0"
  defines "f1 \<equiv> F1 + S1 + f0 div B"
  defines "f2 \<equiv> F2 + S2 + f1 div B"
  defines "f3 \<equiv> F3 + S3 + f2 div B"
  shows "f0 mod B + 2 ^ 32 * (f1 mod B) + 2 ^ 64 * (f2 mod B) + 2 ^ 96 * (f3 mod B)
     = (F0 + 2 ^ 32 * F1 + 2 ^ 64 * F2 + 2 ^ 96 * F3 + (S0 + 2 ^ 32 * S1 + 2 ^ 64 * S2 + 2 ^ 96 * S3)) mod 2 ^ 128" (is "?s = ?t mod _")
proof -
  have e: "f0 = f0 mod B + B * (f0 div B)" "f1 = f1 mod B + B * (f1 div B)" "f2 = f2 mod B + B * (f2 div B)" "f3 = f3 mod B + B * (f3 div B)"
    by simp_all
  have "?t = ?s + 2 ^ 128 * (f3 div B)"
    using e unfolding f1_def f2_def f3_def f0_def B_def by (rule words_chain2)
  moreover have "?s < 2 ^ 128" by (intro words_less) (simp_all add: B_def)
  ultimately show ?thesis by (simp only: mod_mult_self2) simp
qed

lemma poly_tag_ok:
  assumes small: "limbs_small h" and key: "length key = 32"
  shows "le_num (poly_tag key h) = (limbs_val h + le_num (take 16 (drop 16 key))) mod 2 ^ 128"
proof -
  obtain h0 h1 h2 h3 h4 where hh: "h = (h0, h1, h2, h3, h4)" by (cases h)
  define v where "v = limbs_val h"
  note W = limbs_words [OF small [unfolded hh], folded hh, folded v_def]
  define S0 S1 S2 S3 where "S0 = unat (U8TO32_LE key 16)" and "S1 = unat (U8TO32_LE key 20)" and "S2 = unat (U8TO32_LE key 24)"
    and "S3 = unat (U8TO32_LE key 28)"
  have S: "le_num (take 16 (drop 16 key)) = S0 + 2 ^ 32 * S1 + 2 ^ 64 * S2 + 2 ^ 96 * S3"
  proof -
    have "U8TO32_LE (take 16 (drop 16 key)) i = U8TO32_LE key (i + 16)" if "i \<le> 12" for i
      using that key by (simp add: U8TO32_LE_def add.commute add.left_commute)
    then show ?thesis using le_num_16 [of "take 16 (drop 16 key)"] key by (simp add: S0_def S1_def S2_def S3_def)
  qed
  have sb: "S0 < 2 ^ 32" "S1 < 2 ^ 32" "S2 < 2 ^ 32" "S3 < 2 ^ 32"
    unfolding S0_def S1_def S2_def S3_def by (rule unat32)+
  have wb: "word32 i v < 2 ^ 32" for i by (simp add: word32_def)
  define f0 :: u64 where "f0 = ucast (h0 OR push_bit 26 h1) + ucast (U8TO32_LE key 16)"
  define f1 :: u64 where "f1 = ucast (drop_bit 6 h1 OR push_bit 20 h2) + ucast (U8TO32_LE key 20) + drop_bit 32 f0"
  define f2 :: u64 where "f2 = ucast (drop_bit 12 h2 OR push_bit 14 h3) + ucast (U8TO32_LE key 24) + drop_bit 32 f1"
  define f3 :: u64 where "f3 = ucast (drop_bit 18 h3 OR push_bit 8 h4) + ucast (U8TO32_LE key 28) + drop_bit 32 f2"
  have e: "poly_tag key h = U32TO8_LE f0 @ U32TO8_LE f1 @ U32TO8_LE f2 @ U32TO8_LE f3"
    unfolding hh poly_tag_def f0_def f1_def f2_def f3_def by (simp add: Let_def)
  have two: "unat (ucast a + ucast b :: u64) = unat a + unat b" for a b :: u32
    using unat32 [of a] unat32 [of b] by (subst unat_plus64) (simp_all add: unat_ucast_up)
  have d: "unat (drop_bit 32 f) = unat f div 2 ^ 32" for f :: u64 by (simp only: unat_drop_bit_eq drop_bit_eq_div [where 'a = nat])
  have dl: "unat f div 2 ^ 32 < 2 ^ 32" for f :: u64 using unat_u64 [of f] by (intro less_mult_imp_div_less) simp
  have three: "unat (ucast a + ucast b + drop_bit 32 f :: u64) = unat a + unat b + unat f div 2 ^ 32" for a b :: u32 and f :: u64
    using unat32 [of a] unat32 [of b] dl [of f] by (subst unat_plus64) (simp_all add: two d)
  have u: "unat f0 = word32 0 v + S0" "unat f1 = word32 1 v + S1 + unat f0 div 2 ^ 32" "unat f2 = word32 2 v + S2 + unat f1 div 2 ^ 32"
    "unat f3 = word32 3 v + S3 + unat f2 div 2 ^ 32"
    by (simp only: f0_def S0_def two W, simp only: f1_def S1_def three W, simp only: f2_def S2_def three W, simp only: f3_def S3_def three W)
  have len: "length (U32TO8_LE f) = 4" for f by (simp add: U32TO8_LE_def)
  have "le_num (poly_tag key h) = unat f0 mod 2 ^ 32 + 2 ^ 32 * (unat f1 mod 2 ^ 32) + 2 ^ 64 * (unat f2 mod 2 ^ 32) + 2 ^ 96 * (unat f3 mod 2 ^ 32)"
    unfolding e by (simp add: le_num_append len U32TO8_LE_num)
  also have "\<dots> = (word32 0 v + 2 ^ 32 * word32 1 v + 2 ^ 64 * word32 2 v + 2 ^ 96 * word32 3 v
      + (S0 + 2 ^ 32 * S1 + 2 ^ 64 * S2 + 2 ^ 96 * S3)) mod 2 ^ 128"
    using add_words [of "word32 0 v" S0 "word32 1 v" S1 "word32 2 v" S2 "word32 3 v" S3, folded u(1), folded u(2), folded u(3), folded u(4)] .
  also have "\<dots> = (v + le_num (take 16 (drop 16 key))) mod 2 ^ 128"
    unfolding words_sum [symmetric] S by (simp only: mod_add_left_eq)
  finally show ?thesis unfolding v_def .
qed

lemma length_poly1305_auth: "length (poly1305_auth m key) = 16"
  by (simp add: poly1305_auth_def poly_tag_def U32TO8_LE_def Let_def split_def)

text \<open>The accumulator after the message and after the final reduction.\<close>

lemma poly1305_accumulator:
  fixes m :: "u8 list"
  assumes key: "length key = 32"
  defines "h \<equiv> poly_blocks (poly_clamp key) m (0, 0, 0, 0, 0)"
  shows "limbs_ok h" and "limbs_small (poly_freeze (poly_carry h))" and "limbs_val (poly_freeze (poly_carry h)) < poly_p"
    and "limbs_val (poly_freeze (poly_carry h)) = rfc_acc (le_num (take 16 key) AND rfc_clamp) m 0"
proof -
  let ?r = "poly_clamp key" and ?z = "(0, 0, 0, 0, 0) :: limbs"
  have r: "r_ok ?r" "limbs_val ?r = le_num (take 16 key) AND rfc_clamp" using poly_clamp_ok key by auto
  have h: "limbs_ok h" "limbs_val h mod poly_p = rfc_acc (limbs_val ?r) m 0"
    using poly_blocks_ok [OF r(1), of ?z m] by (simp_all add: h_def)
  then show "limbs_ok h" by simp
  show "limbs_small (poly_freeze (poly_carry h))" and v: "limbs_val (poly_freeze (poly_carry h)) = rfc_acc (le_num (take 16 key) AND rfc_clamp) m 0"
    using poly_carry_ok [OF h(1)] poly_freeze_ok [of "poly_carry h"] h(2) unfolding r(2) by simp_all
  have "0 < poly_p" by (simp add: poly_p_def)
  then show "limbs_val (poly_freeze (poly_carry h)) < poly_p" unfolding v h(2) [unfolded r(2), symmetric] by simp
qed

lemma poly1305_auth_rfc:
  assumes key: "length key = 32"
  shows "le_num (poly1305_auth m key) = rfc_poly1305 m key"
  unfolding poly1305_auth_def rfc_poly1305_def poly_tag_ok [OF poly1305_accumulator(2) [OF key] key] poly1305_accumulator(4) [OF key] ..

subsection \<open>Properties\<close>

text \<open>
  C21.  \<^verbatim>\<open>poly1305_auth\<close> computes the authenticator of RFC 8439: for every key of 32 bytes and every
  message, the sixteen bytes of the tag are the little-endian number
  \<open>((\<dots>((c\<^sub>1 r + c\<^sub>2) r + \<dots>) r mod 2\<^sup>1\<^sup>3\<^sup>0 - 5) + s) mod 2\<^sup>1\<^sup>2\<^sup>8\<close>.  After any number of blocks the lowest limb of the
  accumulator is at most 2800000000 and the others are below \<open>2\<^sup>2\<^sup>6\<close>; after the last reduction all limbs are below \<open>2\<^sup>2\<^sup>6\<close> and the
  number they stand for is below \<open>2\<^sup>1\<^sup>3\<^sup>0 - 5\<close>.
\<close>

theorem poly1305_correct:
  assumes "length key = 32"
  shows "le_num (poly1305_auth m key) = rfc_poly1305 m key \<and> length (poly1305_auth m key) = 16
    \<and> (let h = poly_blocks (poly_clamp key) m (0, 0, 0, 0, 0); g = poly_freeze (poly_carry h)
       in limbs_ok h \<and> limbs_small g \<and> limbs_val g < poly_p)"
  using poly1305_auth_rfc [OF assms] length_poly1305_auth poly1305_accumulator(1-3) [OF assms] unfolding Let_def by blast

theorem poly1305_correct_witness:
  "le_num (poly1305_auth [67, 114, 121] (replicate 32 0x85)) = rfc_poly1305 [67, 114, 121] (replicate 32 0x85)
    \<and> limbs_ok (poly_blocks (poly_clamp (replicate 32 0x85)) [67, 114, 121] (0, 0, 0, 0, 0))"
  using poly1305_correct [of "replicate 32 0x85" "[67, 114, 121]"] unfolding Let_def by simp

end
