(* ===== verification/Aead.thy ===== *)
theory Aead
  imports Chacha20 Poly1305
begin

text \<open>
  The authenticated cipher of RFC 8439 (\<^verbatim>\<open>kernel/crypto/chacha20poly1305.c\<close>).  Plaintext, ciphertext,
  associated data and tag are in the byte memory; \<^verbatim>\<open>g_mac_data\<close> is the file's static buffer.  The key
  and the nonce are the caller's constant arrays.
\<close>

definition MAC_DATA_MAX :: nat where "MAC_DATA_MAX = 40 * 1024"
definition CHACHA20POLY1305_TAGLEN :: nat where "CHACHA20POLY1305_TAGLEN = 16"

record aead =
  am_mem :: mem
  g_mac_data :: "u8 list"

text \<open>\<^verbatim>\<open>memcpy\<close> or \<^verbatim>\<open>memset\<close> into an array, and \<open>n\<close> bytes of memory as a list.\<close>

definition splice :: "'a list \<Rightarrow> nat \<Rightarrow> 'a list \<Rightarrow> 'a list" where
  "splice xs p ys = take p xs @ ys @ drop (p + length ys) xs"

definition mem_bytes :: "mem \<Rightarrow> u64 \<Rightarrow> nat \<Rightarrow> u8 list" where
  "mem_bytes m a n = map (\<lambda>i. m (a + of_nat i)) [0..<n]"

definition store_bytes :: "mem \<Rightarrow> u64 \<Rightarrow> u8 list \<Rightarrow> mem" where
  "store_bytes m a bs = (\<lambda>x. if unat (x - a) < length bs then bs ! unat (x - a) else m x)"

definition poly1305_key_gen :: "u8 list \<Rightarrow> u8 list \<Rightarrow> u8 list" where
  "poly1305_key_gen key nonce = take 32 (chacha20_block key 0 nonce)"

definition pad16_len :: "u64 \<Rightarrow> u64" where
  "pad16_len len = (let rem = len mod 16 in if rem = 0 then 0 else 16 - rem)"

definition build_mac_data :: "aead \<Rightarrow> u64 \<Rightarrow> u64 \<Rightarrow> u64 \<Rightarrow> u64 \<Rightarrow> u64 \<times> aead" where
  "build_mac_data s aad aad_len ct ct_len =
     (let aad_pad = pad16_len aad_len;
          ct_pad = pad16_len ct_len;
          total = aad_len + aad_pad + ct_len + ct_pad + 8 + 8;
          pos = 0
      in if of_nat MAC_DATA_MAX < total then (0, s)
         else
           (let g = g_mac_data s;
                g = (if aad_len \<noteq> 0 then splice g (unat pos) (mem_bytes (am_mem s) aad (unat aad_len)) else g);
                pos = pos + aad_len;
                g = splice g (unat pos) (replicate (unat aad_pad) 0);
                pos = pos + aad_pad;
                g = (if ct_len \<noteq> 0 then splice g (unat pos) (mem_bytes (am_mem s) ct (unat ct_len)) else g);
                pos = pos + ct_len;
                g = splice g (unat pos) (replicate (unat ct_pad) 0);
                pos = pos + ct_pad;
                g = splice g (unat pos) (le_bytes 8 aad_len);
                pos = pos + 8;
                g = splice g (unat pos) (le_bytes 8 ct_len);
                pos = pos + 8
            in (pos, s\<lparr>g_mac_data := g\<rparr>)))"

definition chacha20poly1305_encrypt ::
    "aead \<Rightarrow> u64 \<Rightarrow> u64 \<Rightarrow> u64 \<Rightarrow> u64 \<Rightarrow> u64 \<Rightarrow> u8 list \<Rightarrow> u8 list \<Rightarrow> u64 \<Rightarrow> aead" where
  "chacha20poly1305_encrypt s out plaintext plaintext_len aad aad_len key nonce tag =
     (let otk = poly1305_key_gen key nonce;
          s = s\<lparr>am_mem := chacha20_xor (am_mem s) out plaintext plaintext_len key 1 nonce\<rparr>;
          (mac_len, s) = build_mac_data s aad aad_len out plaintext_len
      in if mac_len = 0
         then s\<lparr>am_mem := store_bytes (am_mem s) tag (replicate CHACHA20POLY1305_TAGLEN 0)\<rparr>
         else s\<lparr>am_mem := store_bytes (am_mem s) tag (poly1305_auth (take (unat mac_len) (g_mac_data s)) otk)\<rparr>)"

definition tags_equal :: "u8 list \<Rightarrow> u8 list \<Rightarrow> bool" where
  "tags_equal a b = (fold (\<lambda>i diff. diff OR (a ! i XOR b ! i)) [0..<16] 0 = 0)"

text \<open>\<open>True\<close> is the return value 1.\<close>

definition chacha20poly1305_decrypt ::
    "aead \<Rightarrow> u64 \<Rightarrow> u64 \<Rightarrow> u64 \<Rightarrow> u64 \<Rightarrow> u64 \<Rightarrow> u8 list \<Rightarrow> u8 list \<Rightarrow> u64 \<Rightarrow> bool \<times> aead" where
  "chacha20poly1305_decrypt s out ciphertext ciphertext_len aad aad_len key nonce tag =
     (let otk = poly1305_key_gen key nonce;
          (mac_len, s) = build_mac_data s aad aad_len ciphertext ciphertext_len
      in if mac_len = 0 then (False, s)
         else
           (let computed = poly1305_auth (take (unat mac_len) (g_mac_data s)) otk
            in if \<not> tags_equal computed (mem_bytes (am_mem s) tag 16) then (False, s)
               else (True, s\<lparr>am_mem := chacha20_xor (am_mem s) out ciphertext ciphertext_len key 1 nonce\<rparr>)))"

subsection \<open>RFC 8439, section 2.8\<close>

definition rfc_pad16 :: "u8 list \<Rightarrow> u8 list" where
  "rfc_pad16 xs = replicate ((16 - length xs mod 16) mod 16) 0"

definition rfc_mac_data :: "u8 list \<Rightarrow> u8 list \<Rightarrow> u8 list" where
  "rfc_mac_data aad ct = aad @ rfc_pad16 aad @ ct @ rfc_pad16 ct
     @ le_bytes 8 (of_nat (length aad) :: u64) @ le_bytes 8 (of_nat (length ct) :: u64)"

lemma length_mem_bytes [simp]: "length (mem_bytes m a n) = n"
  by (simp add: mem_bytes_def)

lemma pad16_len_nat: "unat (pad16_len len) = (16 - unat len mod 16) mod 16"
proof -
  have m: "unat (len mod 16) = unat len mod 16" by (simp add: unat_mod_distrib)
  show ?thesis
  proof (cases "unat len mod 16 = 0")
    case True
    then have "len mod 16 = 0" using m by (metis unat_0 word_unat_eq_iff)
    then show ?thesis using True by (simp add: pad16_len_def)
  next
    case False
    have ne: "len mod 16 \<noteq> 0"
    proof
      assume "len mod 16 = 0"
      then have "unat (len mod 16) = 0" by (simp only: unat_0)
      then show False using m False by simp
    qed
    have l: "unat len mod 16 < 16" by simp
    have "unat (16 - len mod 16) = 16 - unat len mod 16"
      using m l by (subst unat_sub) (simp_all add: word_le_nat_alt)
    then show ?thesis using ne False l by (simp add: pad16_len_def)
  qed
qed

lemma length_rfc_mac_data:
  "length (rfc_mac_data a c) = length a + (16 - length a mod 16) mod 16 + length c + (16 - length c mod 16) mod 16 + 16"
  by (simp add: rfc_mac_data_def rfc_pad16_def)

text \<open>Writing at the end of what has been written.\<close>

lemma splice_prefix:
  "take p g = w \<Longrightarrow> p + length ys \<le> length g \<Longrightarrow>
   take (p + length ys) (splice g p ys) = w @ ys \<and> length (splice g p ys) = length g"
  by (auto simp: splice_def)

lemma splice_step:
  assumes "take p g = w" and "length g = L" and "q = p + length ys" and "q \<le> L"
  shows "take q (splice g p ys) = w @ ys" and "length (splice g p ys) = L"
  using splice_prefix [of p g w ys] assms by auto

lemma build_mac_data_ok:
  fixes aad aad_len ct ct_len :: u64
  assumes len: "length (g_mac_data s) = MAC_DATA_MAX" and small: "unat aad_len + unat ct_len < 2 ^ 63"
  defines "d \<equiv> rfc_mac_data (mem_bytes (am_mem s) aad (unat aad_len)) (mem_bytes (am_mem s) ct (unat ct_len))"
  shows "if length d \<le> MAC_DATA_MAX
     then \<exists>g. build_mac_data s aad aad_len ct ct_len = (of_nat (length d), s\<lparr>g_mac_data := g\<rparr>) \<and> length g = MAC_DATA_MAX
        \<and> take (length d) g = d
     else build_mac_data s aad aad_len ct ct_len = (0, s)"
proof -
  let ?A = "mem_bytes (am_mem s) aad (unat aad_len)" and ?C = "mem_bytes (am_mem s) ct (unat ct_len)"
  define p1 where "p1 = unat aad_len"
  define p2 where "p2 = p1 + unat (pad16_len aad_len)"
  define p3 where "p3 = p2 + unat ct_len"
  define p4 where "p4 = p3 + unat (pad16_len ct_len)"
  have pl: "unat (pad16_len x) < 16" for x by (simp add: pad16_len_nat)
  have ld: "length d = p4 + 16" unfolding d_def length_rfc_mac_data by (simp add: p4_def p3_def p2_def p1_def pad16_len_nat)
  have b: "p4 + 16 < 2 ^ 64" using small pl [of aad_len] pl [of ct_len] by (simp add: p4_def p3_def p2_def p1_def)
  have n1: "aad_len = of_nat p1" by (simp add: p1_def)
  have n2: "aad_len + pad16_len aad_len = of_nat p2" by (simp add: p2_def p1_def)
  have n3: "aad_len + pad16_len aad_len + ct_len = of_nat p3" by (simp add: p3_def p2_def p1_def)
  have n4: "aad_len + pad16_len aad_len + ct_len + pad16_len ct_len = of_nat p4" by (simp add: p4_def p3_def p2_def p1_def)
  have n5: "of_nat p4 + 8 = (of_nat (p4 + 8) :: u64)" "of_nat (p4 + 8) + 8 = (of_nat (p4 + 16) :: u64)" by simp_all
  have le: "p1 \<le> p4" "p2 \<le> p4" "p3 \<le> p4" by (simp_all add: p4_def p3_def p2_def)
  have u: "unat (of_nat p1 :: u64) = p1" "unat (of_nat p2 :: u64) = p2" "unat (of_nat p3 :: u64) = p3" "unat (of_nat p4 :: u64) = p4"
    "unat (of_nat (p4 + 8) :: u64) = p4 + 8" "unat (of_nat (p4 + 16) :: u64) = p4 + 16"
    using b le by (auto intro!: unat_of_nat64 simp del: of_nat_add)
  have big: "(of_nat MAC_DATA_MAX :: u64) < of_nat (p4 + 16) \<longleftrightarrow> MAC_DATA_MAX < p4 + 16"
    unfolding word_less_nat_alt u by (simp add: MAC_DATA_MAX_def)
  define g1 where "g1 = (if aad_len \<noteq> 0 then splice (g_mac_data s) 0 ?A else g_mac_data s)"
  define g2 where "g2 = splice g1 p1 (replicate (unat (pad16_len aad_len)) 0)"
  define g3 where "g3 = (if ct_len \<noteq> 0 then splice g2 p2 ?C else g2)"
  define g4 where "g4 = splice g3 p3 (replicate (unat (pad16_len ct_len)) 0)"
  define g5 where "g5 = splice g4 p4 (le_bytes 8 aad_len)"
  define g6 where "g6 = splice g5 (p4 + 8) (le_bytes 8 ct_len)"
  have e: "build_mac_data s aad aad_len ct ct_len =
      (if MAC_DATA_MAX < p4 + 16 then (0, s) else (of_nat (p4 + 16), s\<lparr>g_mac_data := g6\<rparr>))"
    unfolding build_mac_data_def Let_def n4 add_0 unfolding n3 unfolding n2 unfolding n5 big
    unfolding g6_def g5_def g4_def g3_def g2_def g1_def u p1_def [symmetric] by simp
  show ?thesis
  proof (cases "length d \<le> MAC_DATA_MAX")
    case True
    then have L: "p4 + 16 \<le> MAC_DATA_MAX" by (simp add: ld)
    then have L4: "p1 \<le> MAC_DATA_MAX" "p2 \<le> MAC_DATA_MAX" "p3 \<le> MAC_DATA_MAX" "p4 \<le> MAC_DATA_MAX" "p4 + 8 \<le> MAC_DATA_MAX"
      by (simp_all add: p4_def p3_def p2_def)
    have z1: "take p1 g1 = ?A \<and> length g1 = MAC_DATA_MAX"
      using splice_step [of 0 "g_mac_data s" "[]" MAC_DATA_MAX p1 ?A] len L4(1) by (auto simp: g1_def p1_def mem_bytes_def)
    have z2: "take p2 g2 = ?A @ rfc_pad16 ?A" "length g2 = MAC_DATA_MAX"
      using splice_step [of p1 g1 ?A MAC_DATA_MAX p2 "replicate (unat (pad16_len aad_len)) 0"] z1 L4
      by (simp_all add: g2_def p2_def rfc_pad16_def pad16_len_nat)
    have z3: "take p3 g3 = ?A @ rfc_pad16 ?A @ ?C \<and> length g3 = MAC_DATA_MAX"
      using splice_step [of p2 g2 "?A @ rfc_pad16 ?A" MAC_DATA_MAX p3 ?C] z2 L4 by (auto simp: g3_def p3_def mem_bytes_def)
    have z4: "take p4 g4 = ?A @ rfc_pad16 ?A @ ?C @ rfc_pad16 ?C" "length g4 = MAC_DATA_MAX"
      using splice_step [of p3 g3 "?A @ rfc_pad16 ?A @ ?C" MAC_DATA_MAX p4 "replicate (unat (pad16_len ct_len)) 0"] z3 L4
      by (simp_all add: g4_def p4_def rfc_pad16_def pad16_len_nat)
    have z5: "take (p4 + 8) g5 = ?A @ rfc_pad16 ?A @ ?C @ rfc_pad16 ?C @ le_bytes 8 aad_len" "length g5 = MAC_DATA_MAX"
      using splice_step [of p4 g4 "?A @ rfc_pad16 ?A @ ?C @ rfc_pad16 ?C" MAC_DATA_MAX "p4 + 8" "le_bytes 8 aad_len"] z4 L4
      by (simp_all add: g5_def)
    have z6: "take (p4 + 16) g6 = d" "length g6 = MAC_DATA_MAX"
      using splice_step [of "p4 + 8" g5 _ MAC_DATA_MAX "p4 + 16" "le_bytes 8 ct_len"] z5 L
      by (simp_all add: g6_def d_def rfc_mac_data_def)
    show ?thesis using True z6 unfolding e ld using L by (auto intro!: exI [of _ g6])
  next
    case False
    then show ?thesis unfolding e by (simp add: ld)
  qed
qed

lemma tags_equal_iff:
  assumes "length a = 16" and "length b = 16"
  shows "tags_equal a b \<longleftrightarrow> a = b"
proof -
  have x: "(x XOR y = 0) = (x = y)" for x y :: u8 by (metis xor.assoc xor.right_neutral xor_self_eq)
  have o: "(x OR y = 0) = (x = 0 \<and> y = 0)" for x y :: u8 by (metis or.left_neutral or_eq_0_iff)
  have "(fold (\<lambda>i diff. diff OR (a ! i XOR b ! i)) [0..<n] 0 = 0) = (\<forall>i < n. a ! i = b ! i)" for n
    by (induction n) (auto simp: o x less_Suc_eq)
  then show ?thesis unfolding tags_equal_def using assms by (auto intro: nth_equalityI)
qed

subsection \<open>Buffers in memory\<close>

lemma mem_bytes_cong: "(\<And>i. i < n \<Longrightarrow> m (a + of_nat i) = m' (a + of_nat i)) \<Longrightarrow> mem_bytes m a n = mem_bytes m' a n"
  by (simp add: mem_bytes_def)

lemma store_bytes_apart:
  "apart (length bs) a n b \<Longrightarrow> mem_bytes (store_bytes m a bs) b n = mem_bytes m b n"
  using apart_offset [of "length bs" a n b] by (intro mem_bytes_cong) (force simp: store_bytes_def)

lemma store_bytes_same: "length bs < 2 ^ 64 \<Longrightarrow> mem_bytes (store_bytes m a bs) a (length bs) = bs"
  by (intro nth_equalityI) (auto simp: mem_bytes_def store_bytes_def unat_of_nat64)

lemma chacha20_xor_bytes:
  assumes "not_ahead out inp (unat len)"
  shows "mem_bytes (chacha20_xor m out inp len key c nonce) out (unat len)
     = map2 (XOR) (mem_bytes m inp (unat len)) (map (key_stream key c nonce) [0..<unat len])"
  unfolding chacha20_xor_eq [OF assms] using unat_u64 [of len]
  by (intro nth_equalityI) (auto simp: mem_bytes_def unat_of_nat64 power_numeral)

lemma length_key_gen: "length (poly1305_key_gen key nonce) = 32"
  by (simp add: poly1305_key_gen_def)

lemma le_num_inj: "length xs = length ys \<Longrightarrow> le_num xs = le_num ys \<Longrightarrow> xs = ys"
proof (induction xs ys rule: list_induct2)
  case (Cons x xs y ys)
  have b: "unat x < 256" "unat y < 256" using unsigned_less [of x] unsigned_less [of y] by simp_all
  have "(unat x + 256 * le_num xs) mod 256 = (unat y + 256 * le_num ys) mod 256" using Cons.prems by simp
  then have "unat x = unat y" using b by simp
  moreover have "le_num xs = le_num ys" using Cons.prems calculation by simp
  ultimately show ?case using Cons.IH by (simp add: word_unat_eq_iff)
qed simp

lemma mac_len_nonzero: "length d \<le> MAC_DATA_MAX \<Longrightarrow> unat (of_nat (length (d :: u8 list)) :: u64) = length d"
  by (rule unat_of_nat64) (simp add: MAC_DATA_MAX_def)

subsection \<open>Encryption and decryption\<close>

definition rfc_tag :: "u8 list \<Rightarrow> u8 list \<Rightarrow> u8 list \<Rightarrow> u8 list \<Rightarrow> u8 list" where
  "rfc_tag aad ct key nonce = le_bytes 16 (of_nat (rfc_poly1305 (rfc_mac_data aad ct) (poly1305_key_gen key nonce)) :: 128 word)"

lemma poly1305_tag: "poly1305_auth (rfc_mac_data aad ct) (poly1305_key_gen key nonce) = rfc_tag aad ct key nonce"
proof (rule le_num_inj)
  let ?p = "rfc_poly1305 (rfc_mac_data aad ct) (poly1305_key_gen key nonce)"
  have "?p < 2 ^ 128" by (simp add: rfc_poly1305_def)
  then have "le_num (rfc_tag aad ct key nonce) = ?p"
    unfolding rfc_tag_def le_num_le_bytes by (simp add: unat_of_nat)
  then show "le_num (poly1305_auth (rfc_mac_data aad ct) (poly1305_key_gen key nonce)) = le_num (rfc_tag aad ct key nonce)"
    using poly1305_auth_rfc [OF length_key_gen] by simp
  show "length (poly1305_auth (rfc_mac_data aad ct) (poly1305_key_gen key nonce)) = length (rfc_tag aad ct key nonce)"
    by (simp add: length_poly1305_auth rfc_tag_def)
qed

lemma encrypt_eq:
  fixes aad_len len out pt aad tag :: u64 and key nonce :: "u8 list"
  assumes "length (g_mac_data s) = MAC_DATA_MAX" and "unat aad_len + unat len < 2 ^ 63"
  defines "m \<equiv> chacha20_xor (am_mem s) out pt len key 1 nonce"
  defines "a \<equiv> mem_bytes m aad (unat aad_len)" and "c \<equiv> mem_bytes m out (unat len)"
  shows "\<exists>g. chacha20poly1305_encrypt s out pt len aad aad_len key nonce tag =
      \<lparr>am_mem = store_bytes m tag (if length (rfc_mac_data a c) \<le> MAC_DATA_MAX then rfc_tag a c key nonce else replicate 16 0), g_mac_data = g\<rparr>
     \<and> length g = MAC_DATA_MAX"
proof -
  let ?s = "s\<lparr>am_mem := m\<rparr>" and ?d = "rfc_mac_data a c"
  have g: "length (g_mac_data ?s) = MAC_DATA_MAX" using assms(1) by simp
  note b = build_mac_data_ok [OF g assms(2), of aad out]
  show ?thesis
  proof (cases "length ?d \<le> MAC_DATA_MAX")
    case True
    then obtain g' where g': "build_mac_data ?s aad aad_len out len = (of_nat (length ?d), ?s\<lparr>g_mac_data := g'\<rparr>)"
      "length g' = MAC_DATA_MAX" "take (length ?d) g' = ?d" using b by (auto simp: a_def c_def)
    have ne: "(of_nat (length ?d) :: u64) \<noteq> 0" using mac_len_nonzero [OF True] by (auto simp: length_rfc_mac_data)
    have "chacha20poly1305_encrypt s out pt len aad aad_len key nonce tag
        = \<lparr>am_mem = store_bytes m tag (rfc_tag a c key nonce), g_mac_data = g'\<rparr>"
      unfolding chacha20poly1305_encrypt_def m_def [symmetric] using ne g' mac_len_nonzero [OF True] by (simp add: poly1305_tag)
    then show ?thesis using True g'(2) by simp
  next
    case False
    then have "build_mac_data ?s aad aad_len out len = (0, ?s)" using b by (auto simp: a_def c_def)
    then have "chacha20poly1305_encrypt s out pt len aad aad_len key nonce tag
        = \<lparr>am_mem = store_bytes m tag (replicate 16 0), g_mac_data = g_mac_data s\<rparr>"
      unfolding chacha20poly1305_encrypt_def m_def [symmetric] by (simp add: CHACHA20POLY1305_TAGLEN_def)
    then show ?thesis using False assms(1) by simp
  qed
qed

lemma decrypt_eq:
  fixes aad_len len ct aad tag out :: u64 and key nonce :: "u8 list"
  assumes "length (g_mac_data s) = MAC_DATA_MAX" and "unat aad_len + unat len < 2 ^ 63"
  defines "a \<equiv> mem_bytes (am_mem s) aad (unat aad_len)" and "c \<equiv> mem_bytes (am_mem s) ct (unat len)"
  shows "\<exists>g. length g = MAC_DATA_MAX \<and> chacha20poly1305_decrypt s out ct len aad aad_len key nonce tag =
     (if length (rfc_mac_data a c) \<le> MAC_DATA_MAX \<and> mem_bytes (am_mem s) tag 16 = rfc_tag a c key nonce
      then (True, \<lparr>am_mem = chacha20_xor (am_mem s) out ct len key 1 nonce, g_mac_data = g\<rparr>)
      else (False, \<lparr>am_mem = am_mem s, g_mac_data = g\<rparr>))"
proof -
  let ?d = "rfc_mac_data a c"
  note b = build_mac_data_ok [OF assms(1,2), of aad ct]
  show ?thesis
  proof (cases "length ?d \<le> MAC_DATA_MAX")
    case True
    then obtain g' where g': "build_mac_data s aad aad_len ct len = (of_nat (length ?d), s\<lparr>g_mac_data := g'\<rparr>)"
      "length g' = MAC_DATA_MAX" "take (length ?d) g' = ?d" using b by (auto simp: a_def c_def)
    have ne: "(of_nat (length ?d) :: u64) \<noteq> 0" using mac_len_nonzero [OF True] by (auto simp: length_rfc_mac_data)
    have t: "tags_equal (rfc_tag a c key nonce) (mem_bytes (am_mem s) tag 16) \<longleftrightarrow> mem_bytes (am_mem s) tag 16 = rfc_tag a c key nonce"
      by (subst tags_equal_iff) (auto simp: rfc_tag_def)
    show ?thesis
      unfolding chacha20poly1305_decrypt_def using ne g' mac_len_nonzero [OF True] True t
      by (intro exI [of _ g']) (simp add: poly1305_tag)
  next
    case False
    then have "build_mac_data s aad aad_len ct len = (0, s)" using b by (auto simp: a_def c_def)
    then show ?thesis
      unfolding chacha20poly1305_decrypt_def using False assms(1) by (intro exI [of _ "g_mac_data s"]) simp
  qed
qed

subsection \<open>Properties\<close>

text \<open>
  C22.  Round trip.  A message sealed by \<^verbatim>\<open>chacha20poly1305_encrypt\<close> (in place or into another buffer)
  is opened by \<^verbatim>\<open>chacha20poly1305_decrypt\<close> (again in place or not): it returns 1 and the output buffer
  holds the plaintext.  The message with its associated data has to fit the 40 KiB buffer the tag is
  computed in, and the tag must not overlap the ciphertext or the associated data.
\<close>

theorem aead_roundtrip:
  assumes "length (g_mac_data s) = MAC_DATA_MAX"
    and "length (rfc_mac_data (replicate (unat aad_len) 0) (replicate (unat len) 0)) \<le> MAC_DATA_MAX"
    and "not_ahead out pt (unat len)" and "not_ahead out' out (unat len)"
    and "apart 16 tag (unat len) out" and "apart 16 tag (unat aad_len) aad"
  shows "\<exists>s''. chacha20poly1305_decrypt (chacha20poly1305_encrypt s out pt len aad aad_len key nonce tag)
        out' out len aad aad_len key nonce tag = (True, s'')
     \<and> mem_bytes (am_mem s'') out' (unat len) = mem_bytes (am_mem s) pt (unat len)"
proof -
  have small: "unat aad_len + unat len < 2 ^ 63" using assms(2) by (simp add: length_rfc_mac_data MAC_DATA_MAX_def)
  define m where "m = chacha20_xor (am_mem s) out pt len key 1 nonce"
  define a where "a = mem_bytes m aad (unat aad_len)"
  define c where "c = mem_bytes m out (unat len)"
  have fit: "length (rfc_mac_data a c) \<le> MAC_DATA_MAX" using assms(2) by (simp add: length_rfc_mac_data a_def c_def)
  obtain g where g: "chacha20poly1305_encrypt s out pt len aad aad_len key nonce tag =
      \<lparr>am_mem = store_bytes m tag (rfc_tag a c key nonce), g_mac_data = g\<rparr>" "length g = MAC_DATA_MAX"
    using encrypt_eq [where s = s, OF assms(1) small, where out = out and pt = pt and key = key and nonce = nonce and aad = aad and tag = tag] fit unfolding m_def a_def c_def by auto
  let ?m = "store_bytes m tag (rfc_tag a c key nonce)"
  let ?s = "\<lparr>am_mem = ?m, g_mac_data = g\<rparr>"
  have lt: "length (rfc_tag a c key nonce) = 16" by (simp add: rfc_tag_def)
  have keep: "mem_bytes ?m aad (unat aad_len) = a" "mem_bytes ?m out (unat len) = c" "mem_bytes ?m tag 16 = rfc_tag a c key nonce"
    using store_bytes_apart [of "rfc_tag a c key nonce" tag] store_bytes_same [of "rfc_tag a c key nonce" m tag] assms(5,6) lt
    by (simp_all add: a_def c_def)
  obtain g' where "chacha20poly1305_decrypt ?s out' out len aad aad_len key nonce tag
      = (True, \<lparr>am_mem = chacha20_xor ?m out' out len key 1 nonce, g_mac_data = g'\<rparr>)"
    using decrypt_eq [where s = ?s and ct = out and out = out' and key = key and nonce = nonce and aad = aad and tag = tag and aad_len = aad_len and len = len] small g(2) keep fit by auto
  moreover have "mem_bytes (chacha20_xor ?m out' out len key 1 nonce) out' (unat len) = mem_bytes (am_mem s) pt (unat len)"
  proof -
    have "c = map2 (XOR) (mem_bytes (am_mem s) pt (unat len)) (map (key_stream key 1 nonce) [0..<unat len])"
      unfolding c_def m_def by (rule chacha20_xor_bytes [OF assms(3)])
    then show ?thesis
      unfolding chacha20_xor_bytes [OF assms(4)] keep(2) by (intro nth_equalityI) (auto simp: xor.assoc)
  qed
  ultimately show ?thesis using g(1) by auto
qed

text \<open>Two buffers, the associated data and the tag far apart.\<close>

theorem aead_roundtrip_witness:
  "\<exists>s''. chacha20poly1305_decrypt (chacha20poly1305_encrypt \<lparr>am_mem = (\<lambda>x. ucast x), g_mac_data = replicate MAC_DATA_MAX 0\<rparr>
        0x1000 0x1000 100 0x3000 12 (replicate 32 1) (replicate 12 2) 0x4000)
        0x1000 0x1000 100 0x3000 12 (replicate 32 1) (replicate 12 2) 0x4000 = (True, s'')
     \<and> mem_bytes (am_mem s'') 0x1000 100 = mem_bytes (\<lambda>x. ucast x) 0x1000 100"
  using aead_roundtrip [where s = "\<lparr>am_mem = (\<lambda>x. ucast x), g_mac_data = replicate MAC_DATA_MAX 0\<rparr>" and aad_len = 12 and len = 100
      and out = "0x1000" and pt = "0x1000" and out' = "0x1000" and tag = "0x4000" and aad = "0x3000"
      and key = "replicate 32 1" and nonce = "replicate 12 2"]
  by (simp add: length_rfc_mac_data not_ahead_same apart_def MAC_DATA_MAX_def)

text \<open>
  C23.  Only genuine messages are opened.  \<^verbatim>\<open>chacha20poly1305_decrypt\<close> returns 1 exactly when the sixteen
  bytes at the tag are the RFC 8439 tag of the associated data and the ciphertext (and the message
  fits the buffer); otherwise it returns 0 and writes nothing to memory.  A message that does not fit
  is sealed with a tag of zeros, and is never opened.
\<close>

theorem aead_authentic:
  assumes "length (g_mac_data s) = MAC_DATA_MAX" and "unat aad_len + unat len < 2 ^ 63" and "not_ahead out ct (unat len)"
  shows "\<exists>ok s'. chacha20poly1305_decrypt s out ct len aad aad_len key nonce tag = (ok, s')
     \<and> (let a = mem_bytes (am_mem s) aad (unat aad_len); c = mem_bytes (am_mem s) ct (unat len)
        in (ok \<longleftrightarrow> length (rfc_mac_data a c) \<le> MAC_DATA_MAX \<and> mem_bytes (am_mem s) tag 16 = rfc_tag a c key nonce)
          \<and> (\<not> ok \<longrightarrow> am_mem s' = am_mem s)
          \<and> (ok \<longrightarrow> mem_bytes (am_mem s') out (unat len) = map2 (XOR) c (map (key_stream key 1 nonce) [0..<unat len])
               \<and> (\<forall>x. unat len \<le> unat (x - out) \<longrightarrow> am_mem s' x = am_mem s x)))"
proof -
  obtain g where g: "chacha20poly1305_decrypt s out ct len aad aad_len key nonce tag =
     (if length (rfc_mac_data (mem_bytes (am_mem s) aad (unat aad_len)) (mem_bytes (am_mem s) ct (unat len))) \<le> MAC_DATA_MAX
         \<and> mem_bytes (am_mem s) tag 16 = rfc_tag (mem_bytes (am_mem s) aad (unat aad_len)) (mem_bytes (am_mem s) ct (unat len)) key nonce
      then (True, \<lparr>am_mem = chacha20_xor (am_mem s) out ct len key 1 nonce, g_mac_data = g\<rparr>)
      else (False, \<lparr>am_mem = am_mem s, g_mac_data = g\<rparr>))"
    using decrypt_eq [OF assms(1,2), where ct = ct and out = out and key = key and nonce = nonce and aad = aad and tag = tag] by blast
  have "chacha20_xor (am_mem s) out ct len key 1 nonce x = am_mem s x" if "unat len \<le> unat (x - out)" for x
    using that unfolding chacha20_xor_eq [OF assms(3)] by simp
  then show ?thesis unfolding g Let_def using chacha20_xor_bytes [OF assms(3), of "am_mem s" key 1 nonce] by auto
qed

theorem aead_authentic_witness:
  "\<exists>s'. chacha20poly1305_decrypt \<lparr>am_mem = (\<lambda>x. 0), g_mac_data = replicate MAC_DATA_MAX 0\<rparr>
      0x100000 0x100000 50000 0x3000 0 (replicate 32 1) (replicate 12 2) 0x4000 = (False, s') \<and> am_mem s' = (\<lambda>x. 0)"
  using aead_authentic [where s = "\<lparr>am_mem = (\<lambda>x. 0), g_mac_data = replicate MAC_DATA_MAX 0\<rparr>" and aad_len = 0 and len = 50000
      and out = "0x100000" and ct = "0x100000" and aad = "0x3000" and key = "replicate 32 1" and nonce = "replicate 12 2" and tag = "0x4000"]
  by (auto simp: length_rfc_mac_data not_ahead_same MAC_DATA_MAX_def Let_def)

end
