(* ===== verification/Sync.thy ===== *)
theory Sync
  imports Scheduler
begin

text \<open>
  Synchronisation (\<^verbatim>\<open>kernel/sync/sync.c\<close>, \<^verbatim>\<open>kernel/sync/futex.c\<close>): the interrupt-disabling spinlock,
  the blocking mutex and counting semaphore, and the futex table.  A section between \<^verbatim>\<open>cli\<close> and
  \<^verbatim>\<open>sti\<close> is one function.  What the other processes do from a \<^verbatim>\<open>sched_yield\<close> until the caller runs
  again is the argument \<open>yield\<close>, whose number tells the yields of one call apart.  The contract that
  mutex and semaphore share is the locale \<open>blocking_resource\<close>.
\<close>

definition MUTEX_MAX_WAITERS :: nat where "MUTEX_MAX_WAITERS = 32"
definition SEM_MAX_WAITERS :: nat where "SEM_MAX_WAITERS = 32"
definition FUTEX_MAX_WAITERS :: nat where "FUTEX_MAX_WAITERS = 64"

definition cli :: "sched \<Rightarrow> sched" where "cli s = s\<lparr>cpu_if := False\<rparr>"
definition sti :: "sched \<Rightarrow> sched" where "sti s = s\<lparr>cpu_if := True\<rparr>"

subsection \<open>Spinlock\<close>

record spinlock =
  sl_locked :: int

definition spin_init :: "spinlock \<Rightarrow> spinlock" where
  "spin_init l = l\<lparr>sl_locked := 0\<rparr>"

text \<open>The value \<^verbatim>\<open>pushfq\<close> stores, of which only the interrupt flag is ever read.\<close>

definition rflags :: "sched \<Rightarrow> u64" where
  "rflags s = (if cpu_if s then push_bit 9 1 else 0)"

definition spin_lock_irqsave :: "spinlock \<Rightarrow> sched \<Rightarrow> u64 \<times> spinlock \<times> sched" where
  "spin_lock_irqsave l s = (rflags s, l\<lparr>sl_locked := 1\<rparr>, cli s)"

definition spin_unlock_irqrestore :: "spinlock \<Rightarrow> u64 \<Rightarrow> sched \<Rightarrow> spinlock \<times> sched" where
  "spin_unlock_irqrestore l saved_flags s =
     (l\<lparr>sl_locked := 0\<rparr>, if saved_flags AND push_bit 9 1 \<noteq> 0 then sti s else s)"

subsection \<open>Waking a registered waiter\<close>

text \<open>The body of the wake-up loops of \<^verbatim>\<open>mutex_unlock\<close> and \<^verbatim>\<open>sem_post\<close>.\<close>

definition wake_pid :: "u32 \<Rightarrow> sched \<Rightarrow> sched" where
  "wake_pid pid s =
     (case proc_get s pid of
        None \<Rightarrow> s
      | Some p \<Rightarrow>
          if pr_state (pget s p) = PROC_BLOCKED
          then sched_enqueue (Some p) (pset p (\<lambda>r. r\<lparr>pr_state := PROC_READY\<rparr>) s)
          else s)"

definition current_pid :: "sched \<Rightarrow> u32" where
  "current_pid s = (case g_current_proc s of Some c \<Rightarrow> pr_pid (pget s c) | None \<Rightarrow> 0)"

subsection \<open>Mutex\<close>

record mutex =
  mx_locked :: int
  mx_owner_pid :: u32
  mx_waiters :: "u32 list"
  mx_waiter_count :: nat

definition mutex_init :: "mutex \<Rightarrow> mutex" where
  "mutex_init m = m\<lparr>mx_locked := 0, mx_owner_pid := 0, mx_waiter_count := 0\<rparr>"

definition mutex_trylock :: "mutex \<Rightarrow> sched \<Rightarrow> bool \<times> mutex \<times> sched" where
  "mutex_trylock m s =
     (let s = cli s in
      if mx_locked m = 0 then (True, m\<lparr>mx_locked := 1, mx_owner_pid := current_pid s\<rparr>, sti s)
      else (False, m, sti s))"

text \<open>One turn of the loop of \<^verbatim>\<open>mutex_lock\<close> up to \<^verbatim>\<open>sched_yield\<close>.\<close>

definition mutex_lock_turn :: "mutex \<Rightarrow> sched \<Rightarrow> bool \<times> mutex \<times> sched" where
  "mutex_lock_turn m s =
     (let s = cli s in
      if mx_locked m = 0 then (True, m\<lparr>mx_locked := 1, mx_owner_pid := current_pid s\<rparr>, sti s)
      else
        (case g_current_proc s of
           Some me \<Rightarrow>
             if mx_waiter_count m < MUTEX_MAX_WAITERS then
               (False, m\<lparr>mx_waiters := (mx_waiters m)[mx_waiter_count m := pr_pid (pget s me)],
                         mx_waiter_count := mx_waiter_count m + 1\<rparr>,
                sti (pset me (\<lambda>r. r\<lparr>pr_state := PROC_BLOCKED\<rparr>) s))
             else (False, m, sti s)
         | None \<Rightarrow> (False, m, sti s)))"

partial_function (option) mutex_lock ::
    "(nat \<Rightarrow> mutex \<Rightarrow> sched \<Rightarrow> (mutex \<times> sched) option) \<Rightarrow> nat \<Rightarrow> mutex \<Rightarrow> sched \<Rightarrow> (mutex \<times> sched) option" where
  "mutex_lock yield n m s =
     (case mutex_lock_turn m s of
        (got, m, s) \<Rightarrow>
          if got then Some (m, s)
          else Option.bind (yield n m s) (\<lambda>(m, s). mutex_lock yield (n + 1) m s))"

definition mutex_unlock :: "mutex \<Rightarrow> sched \<Rightarrow> mutex \<times> sched" where
  "mutex_unlock m s =
     (let s = cli s;
          m = m\<lparr>mx_locked := 0, mx_owner_pid := 0\<rparr>;
          s = fold (\<lambda>i. wake_pid (mx_waiters m ! i)) [0..<mx_waiter_count m] s
      in (m\<lparr>mx_waiter_count := 0\<rparr>, sti s))"

subsection \<open>Counting semaphore\<close>

text \<open>
  The count is a C \<^verbatim>\<open>int\<close>, a word of 32 bits that is read as a signed number.  The increment of \<^verbatim>\<open>sem_post\<close> wraps, as the
  processor's does.
\<close>

record semaphore =
  sm_count :: u32
  sm_waiters :: "u32 list"
  sm_waiter_count :: nat

definition sem_init :: "semaphore \<Rightarrow> u32 \<Rightarrow> semaphore" where
  "sem_init r initial_count = r\<lparr>sm_count := initial_count, sm_waiter_count := 0\<rparr>"

definition sem_wait_turn :: "semaphore \<Rightarrow> sched \<Rightarrow> bool \<times> semaphore \<times> sched" where
  "sem_wait_turn r s =
     (let s = cli s in
      if 0 < sint (sm_count r) then (True, r\<lparr>sm_count := sm_count r - 1\<rparr>, sti s)
      else
        (case g_current_proc s of
           Some me \<Rightarrow>
             if sm_waiter_count r < SEM_MAX_WAITERS then
               (False, r\<lparr>sm_waiters := (sm_waiters r)[sm_waiter_count r := pr_pid (pget s me)],
                         sm_waiter_count := sm_waiter_count r + 1\<rparr>,
                sti (pset me (\<lambda>r. r\<lparr>pr_state := PROC_BLOCKED\<rparr>) s))
             else (False, r, sti s)
         | None \<Rightarrow> (False, r, sti s)))"

partial_function (option) sem_wait ::
    "(nat \<Rightarrow> semaphore \<Rightarrow> sched \<Rightarrow> (semaphore \<times> sched) option) \<Rightarrow> nat \<Rightarrow> semaphore \<Rightarrow> sched
       \<Rightarrow> (semaphore \<times> sched) option" where
  "sem_wait yield n r s =
     (case sem_wait_turn r s of
        (got, r, s) \<Rightarrow>
          if got then Some (r, s)
          else Option.bind (yield n r s) (\<lambda>(r, s). sem_wait yield (n + 1) r s))"

definition sem_post :: "semaphore \<Rightarrow> sched \<Rightarrow> semaphore \<times> sched" where
  "sem_post r s =
     (let s = cli s;
          r = r\<lparr>sm_count := sm_count r + 1\<rparr>;
          s = fold (\<lambda>i. wake_pid (sm_waiters r ! i)) [0..<sm_waiter_count r] s
      in (r\<lparr>sm_waiter_count := 0\<rparr>, sti s))"

subsection \<open>Futexes\<close>

record futex_entry =
  fx_used :: bool
  fx_owner_pid :: u32
  fx_uaddr :: u64
  fx_waiter_pid :: u32

text \<open>
  \<open>user\<close> is the caller's memory.  The flag of the result says whether \<^verbatim>\<open>sched_yield\<close> is called before
  the return; nothing follows it.
\<close>

definition futex_wait :: "(u64 \<Rightarrow> u32) \<Rightarrow> u64 \<Rightarrow> u32 \<Rightarrow> futex_entry list \<Rightarrow> sched \<Rightarrow> bool \<times> futex_entry list \<times> sched" where
  "futex_wait user uaddr expected tbl s =
     (case g_current_proc s of
        None \<Rightarrow> (False, tbl, s)
      | Some c \<Rightarrow>
          (let s = cli s in
           if user uaddr \<noteq> expected then (False, tbl, sti s)
           else case first_idx (\<lambda>e. \<not> fx_used e) tbl of
               None \<Rightarrow> (True, tbl, sti s)
             | Some slot \<Rightarrow>
                 (let pid = pr_pid (pget s c) in
                  (True, tbl[slot := \<lparr>fx_used = True, fx_owner_pid = pid, fx_uaddr = uaddr, fx_waiter_pid = pid\<rparr>],
                   sti (pset c (\<lambda>r. r\<lparr>pr_state := PROC_BLOCKED\<rparr>) s)))))"

fun futex_wake_scan :: "u32 \<Rightarrow> u64 \<Rightarrow> u32 \<Rightarrow> u32 \<Rightarrow> nat list \<Rightarrow> futex_entry list \<Rightarrow> sched \<Rightarrow> futex_entry list \<times> sched" where
  "futex_wake_scan owner uaddr cnt woken [] tbl s = (tbl, s)"
| "futex_wake_scan owner uaddr cnt woken (i # js) tbl s =
     (if woken < cnt then
        (if fx_used (tbl ! i) \<and> fx_owner_pid (tbl ! i) = owner \<and> fx_uaddr (tbl ! i) = uaddr then
           futex_wake_scan owner uaddr cnt (woken + 1) js (tbl[i := (tbl ! i)\<lparr>fx_used := False\<rparr>])
             (wake_pid (fx_waiter_pid (tbl ! i)) s)
         else futex_wake_scan owner uaddr cnt woken js tbl s)
      else (tbl, s))"

definition futex_wake :: "u64 \<Rightarrow> u32 \<Rightarrow> futex_entry list \<Rightarrow> sched \<Rightarrow> futex_entry list \<times> sched" where
  "futex_wake uaddr cnt tbl s =
     (case g_current_proc s of
        None \<Rightarrow> (tbl, s)
      | Some c \<Rightarrow>
          (let s = cli s;
               (tbl, s) = futex_wake_scan (pr_pid (pget s c)) uaddr cnt 0 [0..<FUTEX_MAX_WAITERS] tbl s
           in (tbl, sti s)))"

subsection \<open>Wake-ups and the scheduler\<close>

lemma cli_sti_inv [simp]:
  "sched_inv (cli s) qs = sched_inv s qs" "sched_inv (sti s) qs = sched_inv s qs"
  "pget (cli s) i = pget s i" "pget (sti s) i = pget s i"
  "g_current_proc (cli s) = g_current_proc s" "g_current_proc (sti s) = g_current_proc s"
  "proc_get (cli s) pid = proc_get s pid" "proc_get (sti s) pid = proc_get s pid"
proof -
  show g: "pget (cli s) i = pget s i" "pget (sti s) i = pget s i" for i by (simp_all add: cli_def sti_def)
  have "sched_wf (cli s) qs = sched_wf s qs" "sched_wf (sti s) qs = sched_wf s qs"
    by (subst sched_wf_cong [of _ s]; simp add: cli_def sti_def pget_def)+
  then show "sched_inv (cli s) qs = sched_inv s qs" "sched_inv (sti s) qs = sched_inv s qs"
    using g by (simp_all add: sched_inv_def) (simp_all add: cli_def sti_def)
qed (simp_all add: cli_def sti_def proc_get_def)

lemma proc_getD:
  assumes "proc_get s pid = Some i"
  shows "i < length (g_proc_table s)" "pr_pid (pget s i) = pid" "pr_state (pget s i) \<noteq> PROC_UNUSED"
  using first_idx_SomeD [OF assms [unfolded proc_get_def]] by (simp_all add: pget_def)

lemma proc_get_cong:
  assumes len: "length (g_proc_table s') = length (g_proc_table s)"
    and same: "\<And>i. i < length (g_proc_table s) \<Longrightarrow> pr_pid (pget s' i) = pr_pid (pget s i)
      \<and> (pr_state (pget s' i) = PROC_UNUSED \<longleftrightarrow> pr_state (pget s i) = PROC_UNUSED)"
  shows "proc_get s' pid = proc_get s pid"
proof -
  let ?P = "\<lambda>p. pr_pid p = pid \<and> pr_state p \<noteq> PROC_UNUSED"
  have m: "map ?P (g_proc_table s') = map ?P (g_proc_table s)"
    using len same by (intro nth_equalityI) (simp_all add: pget_def)
  have e: "first_idx ?P xs = first_idx id (map ?P xs)" for xs by (induction xs) auto
  show ?thesis unfolding proc_get_def e [of "g_proc_table s'"] e [of "g_proc_table s"] m ..
qed

text \<open>Waking one process: its state becomes ready and nothing else changes but the queues.\<close>

lemma wake_pid_ok:
  assumes inv: "sched_inv s qs"
  shows "\<exists>qs'. sched_inv (wake_pid pid s) qs' \<and> grows qs qs' \<and> quiet s (wake_pid pid s)"
proof (cases "proc_get s pid")
  case None
  then show ?thesis using inv grows_refl quiet_refl by (auto simp: wake_pid_def)
next
  case (Some p)
  then have "p < MAX_PROCESSES" using inv proc_getD(1) [OF Some] by (simp add: sched_inv_def sched_wf_def)
  from make_ready_step [OF inv this, of "\<lambda>r. r\<lparr>pr_state := PROC_READY\<rparr>"]
  show ?thesis using Some inv grows_refl quiet_refl by (auto simp: wake_pid_def)
qed

lemma wake_pid_procs:
  assumes inv: "sched_inv s qs"
  shows "unlink (pget (wake_pid pid s) j) =
      (if proc_get s pid = Some j \<and> pr_state (pget s j) = PROC_BLOCKED
       then (unlink (pget s j))\<lparr>pr_state := PROC_READY\<rparr> else unlink (pget s j))" (is ?P)
    and "length (g_proc_table (wake_pid pid s)) = length (g_proc_table s)" (is ?L)
proof -
  let ?f = "\<lambda>r. r\<lparr>pr_state := PROC_READY\<rparr>"
  have "?P \<and> ?L"
  proof (cases "\<exists>p. proc_get s pid = Some p \<and> pr_state (pget s p) = PROC_BLOCKED")
    case True
    then obtain p where p: "proc_get s pid = Some p" "pr_state (pget s p) = PROC_BLOCKED" by blast
    have pl: "p < length (g_proc_table s)" "p < MAX_PROCESSES"
      using inv proc_getD(1) [OF p(1)] by (simp_all add: sched_inv_def sched_wf_def)
    have sp: "same_procs (pset p ?f s) (wake_pid pid s)"
      using enqueue_same_procs [OF inv pl(2), of ?f] p by (simp add: wake_pid_def)
    have "unlink (pget (wake_pid pid s) j) = unlink (pget (pset p ?f s) j)"
      using sp by (simp add: same_procs_def)
    also have "\<dots> = (if j = p then (unlink (pget s j))\<lparr>pr_state := PROC_READY\<rparr> else unlink (pget s j))"
      using pl(1) by (simp add: pget_pset unlink_def)
    finally show ?thesis using p same_procs_rest(3) [OF sp] by auto
  next
    case False
    then have "wake_pid pid s = s" by (auto simp: wake_pid_def split: option.splits)
    then show ?thesis using False by auto
  qed
  then show ?P ?L by auto
qed

lemma wake_pid_state:
  assumes inv: "sched_inv s qs"
  shows "pr_state (pget (wake_pid pid s) j) =
      (if proc_get s pid = Some j \<and> pr_state (pget s j) = PROC_BLOCKED then PROC_READY else pr_state (pget s j))"
    and "proc_get (wake_pid pid s) = proc_get s"
proof -
  have st: "pr_pid (pget (wake_pid pid s) j) = pr_pid (pget s j) \<and> pr_state (pget (wake_pid pid s) j) =
      (if proc_get s pid = Some j \<and> pr_state (pget s j) = PROC_BLOCKED then PROC_READY else pr_state (pget s j))" for j
    using arg_cong [OF wake_pid_procs(1) [OF inv, of pid j], of pr_state] arg_cong [OF wake_pid_procs(1) [OF inv, of pid j], of pr_pid]
    by (simp add: unlink_def split: if_splits)
  then show "pr_state (pget (wake_pid pid s) j) =
      (if proc_get s pid = Some j \<and> pr_state (pget s j) = PROC_BLOCKED then PROC_READY else pr_state (pget s j))" by blast
  show "proc_get (wake_pid pid s) = proc_get s"
    by (rule ext, rule proc_get_cong) (use st wake_pid_procs(2) [OF inv] in auto)
qed

lemma wake_pids_ok:
  assumes "sched_inv s qs"
  shows "\<exists>qs'. sched_inv (fold wake_pid ws s) qs' \<and> grows qs qs' \<and> quiet s (fold wake_pid ws s)"
  using assms
proof (induction ws arbitrary: s qs)
  case Nil
  then show ?case using grows_refl quiet_refl by auto
next
  case (Cons w ws)
  obtain qs1 where 1: "sched_inv (wake_pid w s) qs1" "grows qs qs1" "quiet s (wake_pid w s)"
    using wake_pid_ok [OF Cons.prems] by blast
  obtain qs2 where 2: "sched_inv (fold wake_pid ws (wake_pid w s)) qs2" "grows qs1 qs2"
    "quiet (wake_pid w s) (fold wake_pid ws (wake_pid w s))" using Cons.IH [OF 1(1)] by blast
  show ?case using 2(1) grows_trans [OF 1(2) 2(2)] quiet_trans [OF 1(3) 2(3)] by auto
qed

lemma wake_pids_state:
  assumes "sched_inv s qs"
  shows "pr_state (pget (fold wake_pid ws s) j) =
      (if (\<exists>w \<in> set ws. proc_get s w = Some j) \<and> pr_state (pget s j) = PROC_BLOCKED then PROC_READY else pr_state (pget s j))"
  using assms
proof (induction ws arbitrary: s qs)
  case (Cons w ws)
  obtain qs1 where 1: "sched_inv (wake_pid w s) qs1" using wake_pid_ok [OF Cons.prems] by blast
  have "pr_state (pget (fold wake_pid (w # ws) s) j) =
      (if (\<exists>v \<in> set ws. proc_get s v = Some j) \<and> pr_state (pget (wake_pid w s) j) = PROC_BLOCKED then PROC_READY
       else pr_state (pget (wake_pid w s) j))"
    using Cons.IH [OF 1] unfolding wake_pid_state(2) [OF Cons.prems, of w] fold_simps .
  then show ?case
    unfolding wake_pid_state(1) [OF Cons.prems, of w j] by (cases "proc_get s w = Some j"; cases "pr_state (pget s j) = PROC_BLOCKED") simp_all
qed simp

subsection \<open>The contract of a blocking resource\<close>

lemma sti_cli [simp]: "sti (cli s) = sti s" "cli (sti s) = cli s"
  by (simp_all add: cli_def sti_def)

lemma current_pid_cli [simp]: "current_pid (cli s) = current_pid s" "current_pid (sti s) = current_pid s"
  by (simp_all add: current_pid_def split: option.splits)

text \<open>The state before the \<open>k\<close>-th further attempt of a blocked caller.\<close>

fun attempt ::
    "('r \<Rightarrow> sched \<Rightarrow> bool \<times> 'r \<times> sched) \<Rightarrow> (nat \<Rightarrow> 'r \<Rightarrow> sched \<Rightarrow> ('r \<times> sched) option) \<Rightarrow> nat \<Rightarrow> nat \<Rightarrow> 'r \<Rightarrow> sched
       \<Rightarrow> ('r \<times> sched) option" where
  "attempt turn yield n 0 r s = Some (r, s)"
| "attempt turn yield n (Suc k) r s =
     (case turn r s of (_, r, s) \<Rightarrow> Option.bind (yield n r s) (\<lambda>(r, s). attempt turn yield (n + 1) k r s))"

text \<open>
  \<open>turn\<close> is one attempt, made with interrupts off: it takes a free resource, or registers the caller
  and marks it blocked.  \<open>release\<close> empties the list of registered waiters and wakes all of them.
  \<open>acquire\<close> repeats attempts with a yield in between.
\<close>

locale blocking_resource =
  fixes turn :: "'r \<Rightarrow> sched \<Rightarrow> bool \<times> 'r \<times> sched"
    and release :: "'r \<Rightarrow> sched \<Rightarrow> 'r \<times> sched"
    and acquire :: "(nat \<Rightarrow> 'r \<Rightarrow> sched \<Rightarrow> ('r \<times> sched) option) \<Rightarrow> nat \<Rightarrow> 'r \<Rightarrow> sched \<Rightarrow> ('r \<times> sched) option"
    and free :: "'r \<Rightarrow> bool"
    and waiting :: "'r \<Rightarrow> u32 list"
    and ok :: "'r \<Rightarrow> bool"
  assumes turn_free: "free r \<Longrightarrow> \<exists>r'. turn r s = (True, r', sti s) \<and> waiting r' = waiting r \<and> (ok r \<longrightarrow> ok r')"
    and turn_busy: "\<not> free r \<Longrightarrow> \<exists>r' s'. turn r s = (False, r', s') \<and> \<not> free r'"
    and turn_registers: "ok r \<Longrightarrow> \<not> free r \<Longrightarrow> turn r s = (False, r', s') \<Longrightarrow>
      ok r' \<and> (waiting r' = waiting r \<and> s' = sti s \<or>
        (\<exists>me. g_current_proc s = Some me \<and> waiting r' = waiting r @ [pr_pid (pget s me)]
           \<and> s' = sti (pset me (\<lambda>p. p\<lparr>pr_state := PROC_BLOCKED\<rparr>) (cli s))))"
    and release_wakes: "ok r \<Longrightarrow>
      \<exists>r'. release r s = (r', sti (fold wake_pid (waiting r) (cli s))) \<and> ok r' \<and> waiting r' = []"
    and acquire_loop: "acquire yield n r s =
      (case turn r s of (got, r, s) \<Rightarrow>
         if got then Some (r, s) else Option.bind (yield n r s) (\<lambda>(r, s). acquire yield (n + 1) r s))"
begin

text \<open>No lost wake-up: while anyone is registered the resource is taken, so a release is still to come.\<close>

definition safe :: "'r \<Rightarrow> bool" where
  "safe r \<longleftrightarrow> ok r \<and> (waiting r \<noteq> [] \<longrightarrow> \<not> free r)"

lemma turn_safe:
  assumes "safe r" and "turn r s = (got, r', s')"
  shows "safe r'" and "got \<longleftrightarrow> free r"
proof -
  have "safe r' \<and> (got \<longleftrightarrow> free r)"
  proof (cases "free r")
    case True
    then show ?thesis using turn_free [OF True, of s] assms by (auto simp: safe_def)
  next
    case False
    then obtain t' where "turn r s = (False, r', t')" "\<not> free r'" using turn_busy [OF False, of s] assms(2) by auto
    then show ?thesis using turn_registers [of r s r' s'] False assms by (auto simp: safe_def)
  qed
  then show "safe r'" "got \<longleftrightarrow> free r" by auto
qed

lemma release_safe: "safe r \<Longrightarrow> release r s = (r', s') \<Longrightarrow> safe r'"
  using release_wakes [of r s] by (auto simp: safe_def)

lemma release_wakes_all:
  assumes "ok r" and inv: "sched_inv s qs" and rel: "release r s = (r', s')"
  shows "\<exists>qs'. sched_inv s' qs' \<and> grows qs qs'
     \<and> (\<forall>j. pr_state (pget s' j) =
           (if (\<exists>w \<in> set (waiting r). proc_get s w = Some j) \<and> pr_state (pget s j) = PROC_BLOCKED then PROC_READY
            else pr_state (pget s j)))"
proof -
  have s': "s' = sti (fold wake_pid (waiting r) (cli s))" using release_wakes [OF assms(1), of s] rel by auto
  have inv': "sched_inv (cli s) qs" using inv by simp
  obtain qs' where "sched_inv (fold wake_pid (waiting r) (cli s)) qs'" "grows qs qs'"
    using wake_pids_ok [OF inv'] by blast
  then show ?thesis unfolding s' using wake_pids_state [OF inv', of "waiting r"] by auto
qed

text \<open>Once an attempt finds the resource free the caller returns with it.\<close>

lemma acquire_returns:
  assumes "attempt turn yield n k r s = Some (rk, sk)" and "free rk"
  shows "\<exists>j \<le> k. \<exists>rj sj r'. attempt turn yield n j r s = Some (rj, sj) \<and> free rj
     \<and> turn rj sj = (True, r', sti sj) \<and> acquire yield n r s = Some (r', sti sj)"
  using assms
proof (induction k arbitrary: n r s)
  case 0
  then obtain r' where "turn r s = (True, r', sti s)" using turn_free [of r s] by auto
  then show ?case using 0 acquire_loop [of yield n r s] by auto
next
  case (Suc k)
  show ?case
  proof (cases "free r")
    case True
    then obtain r' where "turn r s = (True, r', sti s)" using turn_free [of r s] by auto
    then show ?thesis using True acquire_loop [of yield n r s] by (intro exI [of _ "0 :: nat"]) auto
  next
    case False
    then obtain r1 s1 where t: "turn r s = (False, r1, s1)" using turn_busy [OF False, of s] by blast
    with Suc.prems(1) obtain r2 s2 where y: "yield n r1 s1 = Some (r2, s2)"
      and a: "attempt turn yield (n + 1) k r2 s2 = Some (rk, sk)" by (cases "yield n r1 s1") auto
    obtain j rj sj r' where j: "j \<le> k" "attempt turn yield (n + 1) j r2 s2 = Some (rj, sj)" "free rj"
      "turn rj sj = (True, r', sti sj)" "acquire yield (n + 1) r2 s2 = Some (r', sti sj)"
      using Suc.IH [OF a Suc.prems(2)] by blast
    have "attempt turn yield n (Suc j) r s = Some (rj, sj)" using t y j(2) by simp
    moreover have "acquire yield n r s = Some (r', sti sj)" using acquire_loop [of yield n r s] t y j(5) by simp
    ultimately show ?thesis using j(1,3,4) by (intro exI [of _ "Suc j"]) auto
  qed
qed

end

subsection \<open>Mutex and semaphore keep it\<close>

definition mutex_waiting :: "mutex \<Rightarrow> u32 list" where
  "mutex_waiting m = take (mx_waiter_count m) (mx_waiters m)"

definition mutex_ok :: "mutex \<Rightarrow> bool" where
  "mutex_ok m \<longleftrightarrow> length (mx_waiters m) = MUTEX_MAX_WAITERS \<and> mx_waiter_count m \<le> MUTEX_MAX_WAITERS"

definition sem_waiting :: "semaphore \<Rightarrow> u32 list" where
  "sem_waiting r = take (sm_waiter_count r) (sm_waiters r)"

definition sem_ok :: "semaphore \<Rightarrow> bool" where
  "sem_ok r \<longleftrightarrow> length (sm_waiters r) = SEM_MAX_WAITERS \<and> sm_waiter_count r \<le> SEM_MAX_WAITERS"

lemma take_update_Suc: "n < length xs \<Longrightarrow> take (Suc n) (xs[n := x]) = take n xs @ [x]"
  by (simp add: take_Suc_conv_app_nth)

lemma fold_take:
  "n \<le> length xs \<Longrightarrow> fold (\<lambda>i. f (xs ! i)) [0..<n] s = fold f (take n xs) s"
proof -
  assume "n \<le> length xs"
  then have "take n xs = map ((!) xs) [0..<n]" by (intro nth_equalityI) simp_all
  then show ?thesis by (simp add: fold_map o_def)
qed

interpretation mx: blocking_resource mutex_lock_turn mutex_unlock mutex_lock
  "\<lambda>m. mx_locked m = 0" mutex_waiting mutex_ok
proof (unfold_locales, goal_cases)
  case (1 r s)
  then show ?case by (auto simp: mutex_lock_turn_def Let_def mutex_waiting_def mutex_ok_def)
next
  case (2 r s)
  then show ?case by (auto simp: mutex_lock_turn_def Let_def split: option.splits)
next
  case (3 r s r' s')
  then show ?case
    by (auto simp: mutex_lock_turn_def Let_def mutex_waiting_def mutex_ok_def take_update_Suc split: option.splits if_splits)
next
  case (4 r s)
  then show ?case using fold_take [of "mx_waiter_count r" "mx_waiters r" wake_pid "cli s"]
    by (simp add: mutex_unlock_def Let_def mutex_waiting_def mutex_ok_def)
next
  case (5 yield n r s)
  show ?case by (rule mutex_lock.simps)
qed

interpretation sm: blocking_resource sem_wait_turn sem_post sem_wait
  "\<lambda>r. 0 < sint (sm_count r)" sem_waiting sem_ok
proof (unfold_locales, goal_cases)
  case (1 r s)
  then show ?case by (auto simp: sem_wait_turn_def Let_def sem_waiting_def sem_ok_def)
next
  case (2 r s)
  then show ?case by (auto simp: sem_wait_turn_def Let_def split: option.splits)
next
  case (3 r s r' s')
  then show ?case
    by (auto simp: sem_wait_turn_def Let_def sem_waiting_def sem_ok_def take_update_Suc split: option.splits if_splits)
next
  case (4 r s)
  then show ?case using fold_take [of "sm_waiter_count r" "sm_waiters r" wake_pid "cli s"]
    by (simp add: sem_post_def Let_def sem_waiting_def sem_ok_def)
next
  case (5 yield n r s)
  show ?case by (rule sem_wait.simps)
qed

subsection \<open>All interleavings of the users of one mutex\<close>

text \<open>
  The state is the mutex, the scheduler, the pids of the processes that have acquired the mutex and not released it, and whether every
  unlock so far came from one of these.  Any process may unlock, as \<^verbatim>\<open>mutex_unlock\<close> does not look at the owner.  Between the operations
  the rest of the kernel does to the scheduler whatever it likes.
\<close>

type_synonym mutex_state = "mutex \<times> sched \<times> u32 list \<times> bool"

inductive mutex_step :: "mutex_state \<Rightarrow> mutex_state \<Rightarrow> bool" where
  turn: "mutex_lock_turn m s = (got, m', s') \<Longrightarrow>
    mutex_step (m, s, hs, own) (m', s', if got then current_pid s # hs else hs, own)"
| trylock: "mutex_trylock m s = (got, m', s') \<Longrightarrow>
    mutex_step (m, s, hs, own) (m', s', if got then current_pid s # hs else hs, own)"
| unlock: "mutex_unlock m s = (m', s') \<Longrightarrow>
    mutex_step (m, s, hs, own) (m', s', remove1 (current_pid s) hs, own \<and> current_pid s \<in> set hs)"
| other: "mutex_step (m, s, hs, own) (m, s', hs, own)"

inductive mutex_reach :: "mutex_state \<Rightarrow> bool" where
  start: "length (mx_waiters m) = MUTEX_MAX_WAITERS \<Longrightarrow> mutex_reach (mutex_init m, s, [], True)"
| step: "mutex_reach t \<Longrightarrow> mutex_step t t' \<Longrightarrow> mutex_reach t'"

definition mutex_state_ok :: "mutex_state \<Rightarrow> bool" where
  "mutex_state_ok t = (case t of (m, s, hs, own) \<Rightarrow>
     mx.safe m \<and> (own \<longrightarrow> (if mx_locked m = 0 then hs = [] else hs = [mx_owner_pid m])))"

lemma mutex_trylock_safe:
  assumes "mx.safe m" and "mutex_trylock m s = (got, m', s')"
  shows "mx.safe m'" and "got \<longleftrightarrow> mx_locked m = 0"
  using assms by (auto simp: mutex_trylock_def Let_def mx.safe_def mutex_waiting_def mutex_ok_def split: if_splits)

lemma mutex_turn_owner:
  "mutex_lock_turn m s = (True, m', s') \<Longrightarrow> mx_locked m' \<noteq> 0 \<and> mx_owner_pid m' = current_pid s"
  "mutex_lock_turn m s = (False, m', s') \<Longrightarrow> mx_locked m' = mx_locked m \<and> mx_owner_pid m' = mx_owner_pid m"
  "mutex_trylock m s = (True, m', s') \<Longrightarrow> mx_locked m' \<noteq> 0 \<and> mx_owner_pid m' = current_pid s"
  "mutex_trylock m s = (False, m', s') \<Longrightarrow> m' = m"
  by (auto simp: mutex_lock_turn_def mutex_trylock_def Let_def split: if_splits option.splits)

lemma mutex_step_ok:
  assumes "mutex_step t t'" and "mutex_state_ok t"
  shows "mutex_state_ok t'"
  using assms
proof (induction rule: mutex_step.induct)
  case (turn m s got m' s' hs own)
  have safe: "mx.safe m" using turn.prems by (simp add: mutex_state_ok_def)
  have g: "got \<longleftrightarrow> mx_locked m = 0" "mx.safe m'" using mx.turn_safe [OF safe turn.hyps] by auto
  show ?case
    using turn.prems turn.hyps g mutex_turn_owner(1,2) [of m s m' s'] by (cases got) (auto simp: mutex_state_ok_def)
next
  case (trylock m s got m' s' hs own)
  have safe: "mx.safe m" using trylock.prems by (simp add: mutex_state_ok_def)
  have g: "got \<longleftrightarrow> mx_locked m = 0" "mx.safe m'" using mutex_trylock_safe [OF safe trylock.hyps] by auto
  show ?case
    using trylock.prems trylock.hyps g mutex_turn_owner(3,4) [of m s m' s'] by (cases got) (auto simp: mutex_state_ok_def)
next
  case (unlock m s m' s' hs own)
  have safe: "mx.safe m" using unlock.prems by (simp add: mutex_state_ok_def)
  have "mx_locked m' = 0" using unlock.hyps by (auto simp: mutex_unlock_def Let_def)
  moreover have "hs = [current_pid s]" if "own" "current_pid s \<in> set hs"
    using unlock.prems that by (auto simp: mutex_state_ok_def split: if_splits)
  ultimately show ?case using mx.release_safe [OF safe unlock.hyps] by (auto simp: mutex_state_ok_def)
next
  case (other m s hs own s')
  then show ?case by (simp add: mutex_state_ok_def)
qed

lemma mutex_reach_ok: "mutex_reach t \<Longrightarrow> mutex_state_ok t"
proof (induction rule: mutex_reach.induct)
  case (start m s)
  then show ?case by (simp add: mutex_state_ok_def mutex_init_def mx.safe_def mutex_waiting_def mutex_ok_def)
next
  case (step t t')
  then show ?case using mutex_step_ok by blast
qed

subsection \<open>All interleavings of the users of one semaphore\<close>

text \<open>
  The two numbers count the posts and the completed waits; the flag says whether a post has found the count at its largest value.
\<close>

type_synonym sem_state = "semaphore \<times> sched \<times> nat \<times> nat \<times> bool"

inductive sem_step :: "sem_state \<Rightarrow> sem_state \<Rightarrow> bool" where
  turn: "sem_wait_turn r s = (got, r', s') \<Longrightarrow>
    sem_step (r, s, posts, waits, over) (r', s', posts, if got then waits + 1 else waits, over)"
| post: "sem_post r s = (r', s') \<Longrightarrow>
    sem_step (r, s, posts, waits, over) (r', s', posts + 1, waits, over \<or> sint (sm_count r) = 2 ^ 31 - 1)"
| other: "sem_step (r, s, posts, waits, over) (r, s', posts, waits, over)"

inductive sem_reach :: "u32 \<Rightarrow> sem_state \<Rightarrow> bool" for c where
  start: "length (sm_waiters r) = SEM_MAX_WAITERS \<Longrightarrow> sem_reach c (sem_init r c, s, 0, 0, False)"
| step: "sem_reach c t \<Longrightarrow> sem_step t t' \<Longrightarrow> sem_reach c t'"

definition sem_state_ok :: "u32 \<Rightarrow> sem_state \<Rightarrow> bool" where
  "sem_state_ok c t = (case t of (r, s, posts, waits, over) \<Rightarrow> sm.safe r \<and> c + of_nat posts = sm_count r + of_nat waits
     \<and> (if over then 2 ^ 31 \<le> sint c + int posts
        else 0 \<le> sint (sm_count r) \<and> sint (sm_count r) = sint c + int posts - int waits))"

lemma sint32_bounds: "- (2 ^ 31) \<le> sint (x :: u32)" "sint (x :: u32) < 2 ^ 31"
  using sint_greater_eq [of x] sint_less [of x] by simp_all

lemma sint32_add: "- (2 ^ 31) \<le> sint a + sint b \<Longrightarrow> sint a + sint b < 2 ^ 31 \<Longrightarrow> sint (a + b) = sint a + sint (b :: u32)"
  by (simp add: sint_word_ariths signed_take_bit_int_eq_self)

lemma sint32_inc: "sint x \<noteq> 2 ^ 31 - 1 \<Longrightarrow> sint (x + 1) = sint (x :: u32) + 1"
  using sint32_add [of x 1] sint32_bounds [of x] by simp

lemma sint32_dec: "0 < sint x \<Longrightarrow> sint (x - 1) = sint (x :: u32) - 1"
  using sint32_add [of x "-1"] sint32_bounds [of x] by simp

lemma sem_turn_count:
  assumes "sem_wait_turn r s = (got, r', s')"
  shows "sm_count r' = (if 0 < sint (sm_count r) then sm_count r - 1 else sm_count r)"
  using assms by (auto simp: sem_wait_turn_def Let_def split: if_splits option.splits)

lemma sem_step_ok:
  assumes "sem_step t t'" and "sem_state_ok c t"
  shows "sem_state_ok c t'"
  using assms
proof (induction rule: sem_step.induct)
  case (turn r s got r' s' posts waits over)
  then have safe: "sm.safe r" by (simp add: sem_state_ok_def)
  have g: "got \<longleftrightarrow> 0 < sint (sm_count r)" "sm.safe r'" using sm.turn_safe [OF safe turn.hyps] by auto
  show ?case
  proof (cases got)
    case True
    then have p: "0 < sint (sm_count r)" using g(1) by simp
    then have c: "sm_count r' = sm_count r - 1" using sem_turn_count [OF turn.hyps] by simp
    show ?thesis using turn.prems True g(2) p sint32_dec [OF p] unfolding sem_state_ok_def prod.case c by (cases over) (simp_all add: algebra_simps)
  next
    case False
    then have c: "sm_count r' = sm_count r" using sem_turn_count [OF turn.hyps] g(1) by simp
    show ?thesis using turn.prems False g(2) unfolding sem_state_ok_def prod.case c by (cases over) simp_all
  qed
next
  case (post r s r' s' posts waits over)
  then have safe: "sm.safe r" by (simp add: sem_state_ok_def)
  have c: "sm_count r' = sm_count r + 1" using post.hyps by (auto simp: sem_post_def Let_def)
  have sf: "sm.safe r'" by (rule sm.release_safe [OF safe post.hyps])
  show ?case
  proof (cases "over \<or> sint (sm_count r) = 2 ^ 31 - 1")
    case True
    then have "2 ^ 31 \<le> sint c + int (posts + 1)" using post.prems by (auto simp: sem_state_ok_def split: if_splits)
    then show ?thesis using post.prems True sf unfolding sem_state_ok_def prod.case c by simp
  next
    case False
    then have "sint (sm_count r + 1) = sint (sm_count r) + 1" by (intro sint32_inc) simp
    then show ?thesis using post.prems False sf unfolding sem_state_ok_def prod.case c by (simp add: algebra_simps)
  qed
next
  case (other r s posts waits over s')
  then show ?case unfolding sem_state_ok_def prod.case .
qed

lemma sem_reach_ok: "sem_reach c t \<Longrightarrow> 0 \<le> sint c \<Longrightarrow> sem_state_ok c t"
proof (induction rule: sem_reach.induct)
  case (start r s)
  then show ?case by (simp add: sem_state_ok_def sem_init_def sm.safe_def sem_waiting_def sem_ok_def)
next
  case (step t t')
  then show ?case using sem_step_ok by blast
qed

subsection \<open>The futex table\<close>

text \<open>An entry is made by a process for itself; while it is in use its process is not running.\<close>

definition futex_ok :: "futex_entry list \<Rightarrow> bool" where
  "futex_ok tbl \<longleftrightarrow> length tbl = FUTEX_MAX_WAITERS \<and> (\<forall>e \<in> set tbl. fx_used e \<longrightarrow> fx_owner_pid e = fx_waiter_pid e)"

lemma futex_okD: "futex_ok tbl \<Longrightarrow> i < FUTEX_MAX_WAITERS \<Longrightarrow> fx_used (tbl ! i) \<Longrightarrow> fx_owner_pid (tbl ! i) = fx_waiter_pid (tbl ! i)"
  by (simp add: futex_ok_def)

lemma futex_wait_ok:
  assumes "futex_ok tbl" and "futex_wait user uaddr expected tbl s = (y, tbl', s')"
  shows "futex_ok tbl'"
  using assms set_update_subset_insert [of tbl]
  by (fastforce simp: futex_wait_def Let_def futex_ok_def split: option.splits if_splits)

lemma wake_pid_not_blocked:
  "proc_get s pid = Some j \<Longrightarrow> pr_state (pget s j) \<noteq> PROC_BLOCKED \<Longrightarrow> wake_pid pid s = s"
  by (simp add: wake_pid_def)

lemma futex_wake_scan_self:
  assumes "futex_ok tbl" and "proc_get s owner = Some c" and "pr_state (pget s c) \<noteq> PROC_BLOCKED"
    and "\<forall>i \<in> set js. i < FUTEX_MAX_WAITERS"
  shows "\<exists>tbl'. futex_wake_scan owner uaddr cnt woken js tbl s = (tbl', s) \<and> futex_ok tbl'"
  using assms(1,4)
proof (induction js arbitrary: tbl woken)
  case (Cons i js)
  have il: "i < FUTEX_MAX_WAITERS" using Cons.prems(2) by simp
  show ?case
  proof (cases "woken < cnt \<and> fx_used (tbl ! i) \<and> fx_owner_pid (tbl ! i) = owner \<and> fx_uaddr (tbl ! i) = uaddr")
    case True
    then have "wake_pid (fx_waiter_pid (tbl ! i)) s = s"
      using futex_okD [OF Cons.prems(1) il] wake_pid_not_blocked [OF assms(2,3)] by simp
    moreover have "futex_ok (tbl[i := (tbl ! i)\<lparr>fx_used := False\<rparr>])"
      using Cons.prems(1) set_update_subset_insert [of tbl i] by (fastforce simp: futex_ok_def)
    ultimately show ?thesis using Cons.IH [of "tbl[i := (tbl ! i)\<lparr>fx_used := False\<rparr>]" "woken + 1"] Cons.prems(2) True
      by simp
  next
    case False
    then show ?thesis using Cons.IH [of tbl woken] Cons.prems by auto
  qed
qed simp

inductive futex_reach :: "futex_entry list \<Rightarrow> bool" where
  start: "length tbl = FUTEX_MAX_WAITERS \<Longrightarrow> \<forall>e \<in> set tbl. \<not> fx_used e \<Longrightarrow> futex_reach tbl"
| wait: "futex_reach tbl \<Longrightarrow> futex_wait user uaddr expected tbl s = (y, tbl', s') \<Longrightarrow> futex_reach tbl'"
| wake: "futex_reach tbl \<Longrightarrow> futex_wake uaddr cnt tbl s = (tbl', s') \<Longrightarrow> futex_reach tbl'"

lemma futex_wake_scan_ok:
  assumes "futex_ok tbl"
  shows "futex_ok (fst (futex_wake_scan owner uaddr cnt woken js tbl s))"
  using assms
proof (induction owner uaddr cnt woken js tbl s rule: futex_wake_scan.induct)
  case (2 owner uaddr cnt woken i js tbl s)
  have "futex_ok (tbl[i := (tbl ! i)\<lparr>fx_used := False\<rparr>])"
    using "2.prems" set_update_subset_insert [of tbl i] by (fastforce simp: futex_ok_def)
  then show ?case using 2 by simp
qed simp

lemma futex_reach_ok: "futex_reach tbl \<Longrightarrow> futex_ok tbl"
proof (induction rule: futex_reach.induct)
  case (start tbl)
  then show ?case by (simp add: futex_ok_def)
next
  case (wait tbl user uaddr expected s y tbl' s')
  then show ?case using futex_wait_ok by blast
next
  case (wake tbl uaddr cnt s tbl' s')
  show ?case
  proof (cases "g_current_proc s")
    case (Some c)
    obtain t1 s1 where e: "futex_wake_scan (pr_pid (pget (cli s) c)) uaddr cnt 0 [0..<FUTEX_MAX_WAITERS] tbl (cli s) = (t1, s1)"
      by (cases "futex_wake_scan (pr_pid (pget (cli s) c)) uaddr cnt 0 [0..<FUTEX_MAX_WAITERS] tbl (cli s)")
    then have "tbl' = t1" using wake.hyps(2) Some by (simp add: futex_wake_def Let_def)
    then show ?thesis using futex_wake_scan_ok [OF wake.IH, of "pr_pid (pget (cli s) c)" uaddr cnt 0 "[0..<FUTEX_MAX_WAITERS]" "cli s"]
      unfolding e by simp
  qed (use wake in \<open>simp add: futex_wake_def\<close>)
qed

text \<open>Taking a spinlock inside another section leaves interrupts as they were before.\<close>

lemma spin_lock_nested:
  assumes "spin_lock_irqsave l s = (flags, l', s')" and "cpu_if t = cpu_if s'"
  shows "\<not> cpu_if s'" and "cpu_if (snd (spin_unlock_irqrestore l' flags t)) = cpu_if s"
  using assms by (auto simp: spin_lock_irqsave_def spin_unlock_irqrestore_def rflags_def cli_def sti_def split: if_splits)

subsection \<open>Properties\<close>

definition free_mutex :: mutex where
  "free_mutex = \<lparr>mx_locked = 0, mx_owner_pid = 0, mx_waiters = replicate 32 0, mx_waiter_count = 0\<rparr>"

text \<open>
  C24.  Mutual exclusion rests on the unlocking process.  In every interleaving of \<^verbatim>\<open>mutex_lock\<close>, \<^verbatim>\<open>mutex_trylock\<close> and
  \<^verbatim>\<open>mutex_unlock\<close> in which every unlock so far came from a process that held the mutex, at most one process holds it and \<^verbatim>\<open>owner_pid\<close>
  is that process.  \<^verbatim>\<open>mutex_unlock\<close> does not compare the caller with \<^verbatim>\<open>owner_pid\<close>: called by a process that does not hold the mutex it
  succeeds, and any process then acquires the mutex while the first one still holds it.  Whoever unlocks, no wake-up is lost: whenever a process
  is registered as a waiter the mutex is locked, so that an unlock is still to come, and the list of waiters stays within its bound.
\<close>

theorem mutex_exclusion:
  assumes "mutex_reach (m, s, hs, own)"
  shows "(own \<longrightarrow> hs = (if mx_locked m = 0 then [] else [mx_owner_pid m]))
    \<and> (own \<and> mx_locked m \<noteq> 0 \<and> current_pid s \<noteq> mx_owner_pid m \<longrightarrow>
        (\<exists>m' s'. mutex_unlock m s = (m', s') \<and> mutex_reach (m', s', [mx_owner_pid m], False)
           \<and> (\<forall>t. \<exists>m''. mutex_trylock m' t = (True, m'', sti t))))
    \<and> (mutex_waiting m \<noteq> [] \<longrightarrow> mx_locked m \<noteq> 0) \<and> mx_waiter_count m \<le> MUTEX_MAX_WAITERS"
proof (intro conjI impI)
  note ok = mutex_reach_ok [OF assms]
  show hs: "hs = (if mx_locked m = 0 then [] else [mx_owner_pid m])" if own using ok that by (simp add: mutex_state_ok_def split: if_splits)
  show "mx_locked m \<noteq> 0" if "mutex_waiting m \<noteq> []" using ok that by (simp add: mutex_state_ok_def mx.safe_def)
  show "mx_waiter_count m \<le> MUTEX_MAX_WAITERS" using ok by (simp add: mutex_state_ok_def mx.safe_def mutex_ok_def)
  assume a: "own \<and> mx_locked m \<noteq> 0 \<and> current_pid s \<noteq> mx_owner_pid m"
  obtain m' s' where u: "mutex_unlock m s = (m', s')" by (cases "mutex_unlock m s")
  have "mutex_reach (m', s', [mx_owner_pid m], False)"
    using mutex_reach.step [OF assms mutex_step.unlock [OF u]] a hs by simp
  moreover have "mx_locked m' = 0" using u by (auto simp: mutex_unlock_def Let_def)
  then have "\<exists>m''. mutex_trylock m' t = (True, m'', sti t)" for t by (simp add: mutex_trylock_def)
  ultimately show "\<exists>m' s'. mutex_unlock m s = (m', s') \<and> mutex_reach (m', s', [mx_owner_pid m], False)
      \<and> (\<forall>t. \<exists>m''. mutex_trylock m' t = (True, m'', sti t))" using u by blast
qed

text \<open>Process 1 takes the mutex, process 2 registers as a waiter and then unlocks it.\<close>

theorem mutex_exclusion_witness:
  "\<exists>m s. mutex_reach (m, s, [1], True) \<and> mx_owner_pid m = 1 \<and> mutex_waiting m = [2]
    \<and> (\<exists>m' s'. mutex_unlock m (demo_sched\<lparr>g_current_proc := Some 1\<rparr>) = (m', s') \<and> mutex_reach (m', s', [1], False)
         \<and> (\<exists>m''. mutex_trylock m' s' = (True, m'', sti s')))"
proof -
  let ?s = "demo_sched\<lparr>g_current_proc := Some 1\<rparr>"
  define m where "m = free_mutex\<lparr>mx_locked := 1, mx_owner_pid := 1\<rparr>"
  define m2 where "m2 = m\<lparr>mx_waiters := (replicate 32 0)[0 := 2], mx_waiter_count := 1\<rparr>"
  have p: "pr_pid (pget demo_sched 0) = 1" "pr_pid (pget demo_sched (Suc 0)) = 2"
    by (simp_all add: demo_pget [simplified] demo_table_def)
  have cur: "current_pid demo_sched = 1" "current_pid ?s = 2"
    using p by (simp_all add: current_pid_def demo_sched_def [THEN arg_cong, of g_current_proc])
  have r0: "mutex_reach (mutex_init free_mutex, demo_sched, [], True)"
    by (rule mutex_reach.start) (simp add: free_mutex_def MUTEX_MAX_WAITERS_def)
  have "mutex_lock_turn (mutex_init free_mutex) demo_sched = (True, m, sti demo_sched)"
    using cur by (simp add: mutex_lock_turn_def mutex_init_def free_mutex_def m_def Let_def)
  then have "mutex_step (mutex_init free_mutex, demo_sched, [], True) (m, sti demo_sched, [1], True)"
    using mutex_step.turn [of "mutex_init free_mutex" demo_sched True m "sti demo_sched" "[]" True] cur by simp
  note r1 = mutex_reach.step [OF mutex_reach.step [OF r0 this] mutex_step.other [of m _ _ _ ?s]]
  have "\<exists>s2. mutex_lock_turn m ?s = (False, m2, s2)"
    using p(2) by (simp add: mutex_lock_turn_def free_mutex_def m_def m2_def Let_def MUTEX_MAX_WAITERS_def)
  then obtain s2 where "mutex_lock_turn m ?s = (False, m2, s2)" ..
  then have "mutex_step (m, ?s, [1], True) (m2, s2, [1], True)" using mutex_step.turn [of m ?s False m2 s2 "[1]" True] by simp
  note r2 = mutex_reach.step [OF mutex_reach.step [OF r1 this] mutex_step.other [of m2 _ _ _ ?s]]
  have w: "mutex_waiting m2 = [2]" by (simp add: mutex_waiting_def m2_def take_Suc_conv_app_nth)
  have o: "mx_owner_pid m2 = 1" "mx_locked m2 \<noteq> 0" by (simp_all add: m2_def m_def)
  show ?thesis using mutex_exclusion [OF r2] r2 w o cur(2) by (intro exI [of _ m2] exI [of _ ?s]) auto
qed

text \<open>
  \<^verbatim>\<open>mutex_unlock\<close> wakes exactly its waiters: every registered process that is blocked becomes ready
  and is queued, the state of every other process stays, and the scheduler's invariant is kept.
\<close>

lemma mutex_unlock_wakes:
  assumes "mutex_ok m" and "sched_inv s qs" and "mutex_unlock m s = (m', s')"
  shows "mx_locked m' = 0 \<and> mutex_waiting m' = []
    \<and> (\<exists>qs'. sched_inv s' qs' \<and> grows qs qs'
      \<and> (\<forall>j < MAX_PROCESSES. (\<exists>w \<in> set (mutex_waiting m). proc_get s w = Some j) \<and> pr_state (pget s j) = PROC_BLOCKED
            \<longrightarrow> pr_state (pget s' j) = PROC_READY \<and> queued qs' j)
      \<and> (\<forall>j. \<not> ((\<exists>w \<in> set (mutex_waiting m). proc_get s w = Some j) \<and> pr_state (pget s j) = PROC_BLOCKED)
            \<longrightarrow> pr_state (pget s' j) = pr_state (pget s j)))"
proof -
  have m: "mx_locked m' = 0" "mutex_waiting m' = []" using assms(3) by (auto simp: mutex_unlock_def mutex_waiting_def Let_def)
  let ?W = "\<lambda>j. (\<exists>w \<in> set (mutex_waiting m). proc_get s w = Some j) \<and> pr_state (pget s j) = PROC_BLOCKED"
  obtain qs' where q: "sched_inv s' qs'" "grows qs qs'"
    "\<And>j. pr_state (pget s' j) = (if ?W j then PROC_READY else pr_state (pget s j))"
    using mx.release_wakes_all [OF assms] by blast
  have "queued qs' j" if "j < MAX_PROCESSES" "?W j" for j
    using q(1) q(3) [of j] that by (simp add: sched_inv_def)
  then have "\<exists>qs'. sched_inv s' qs' \<and> grows qs qs' \<and> (\<forall>j < MAX_PROCESSES. ?W j \<longrightarrow> pr_state (pget s' j) = PROC_READY \<and> queued qs' j)
      \<and> (\<forall>j. \<not> ?W j \<longrightarrow> pr_state (pget s' j) = pr_state (pget s j))"
    using q by (intro exI [of _ qs']) simp
  then show ?thesis using m by blast
qed

lemma demo_proc_get: "proc_get demo_sched 5 = Some 4" "proc_get demo_sched 1 = Some 0"
  by (simp_all add: proc_get_def demo_sched_def demo_table_def blank_process_def)

text \<open>
  C25.  The semaphore counts within the range of its 32-bit count.  In every interleaving of \<^verbatim>\<open>sem_wait\<close> and \<^verbatim>\<open>sem_post\<close> from a
  count that is not negative, the count is the initial count plus the posts minus the completed waits as a 32-bit word.  As long as no post has
  found it at \<open>2\<^sup>3\<^sup>1 - 1\<close> this holds for the signed numbers too and the count is never negative; a post finds it there only after at least
  \<open>2\<^sup>3\<^sup>1\<close> minus the initial count posts.  No process is registered as a waiter while the count is positive, and a caller of \<^verbatim>\<open>sem_wait\<close>
  returns, having taken one, as soon as one of its attempts finds the count positive.
\<close>

theorem sem_counts:
  assumes "sem_reach c (r, s, posts, waits, over)" and "0 \<le> sint c"
  shows "sm_count r = c + of_nat posts - of_nat waits
    \<and> (\<not> over \<longrightarrow> sint (sm_count r) = sint c + int posts - int waits \<and> 0 \<le> sint (sm_count r))
    \<and> (over \<longrightarrow> 2 ^ 31 \<le> sint c + int posts)
    \<and> (sem_waiting r \<noteq> [] \<longrightarrow> \<not> 0 < sint (sm_count r))
    \<and> (\<forall>yield k rk sk. attempt sem_wait_turn yield 0 k r s = Some (rk, sk) \<and> 0 < sint (sm_count rk) \<longrightarrow>
        (\<exists>j \<le> k. \<exists>rj sj r' s'. attempt sem_wait_turn yield 0 j r s = Some (rj, sj)
           \<and> sem_wait yield 0 r s = Some (r', s') \<and> sint (sm_count r') = sint (sm_count rj) - 1 \<and> 0 \<le> sint (sm_count r')))"
proof (intro conjI allI impI)
  note ok = sem_reach_ok [OF assms, unfolded sem_state_ok_def, simplified]
  show "sm_count r = c + of_nat posts - of_nat waits" using ok by (simp add: algebra_simps)
  show "sem_waiting r \<noteq> [] \<Longrightarrow> \<not> 0 < sint (sm_count r)" using ok by (auto simp: sm.safe_def)
  show "sint (sm_count r) = sint c + int posts - int waits" "0 \<le> sint (sm_count r)" if "\<not> over" using ok that by auto
  show "2 ^ 31 \<le> sint c + int posts" if over using ok that by simp
next
  fix yield k rk sk
  assume "attempt sem_wait_turn yield 0 k r s = Some (rk, sk) \<and> 0 < sint (sm_count rk)"
  then obtain j rj sj r' where j: "j \<le> k" "attempt sem_wait_turn yield 0 j r s = Some (rj, sj)" "0 < sint (sm_count rj)"
    "sem_wait_turn rj sj = (True, r', sti sj)" "sem_wait yield 0 r s = Some (r', sti sj)"
    using sm.acquire_returns by blast
  have "sint (sm_count r') = sint (sm_count rj) - 1" using sem_turn_count [OF j(4)] j(3) sint32_dec [OF j(3)] by simp
  then show "\<exists>j \<le> k. \<exists>rj sj r' s'. attempt sem_wait_turn yield 0 j r s = Some (rj, sj) \<and> sem_wait yield 0 r s = Some (r', s')
        \<and> sint (sm_count r') = sint (sm_count rj) - 1 \<and> 0 \<le> sint (sm_count r')"
    using j by (intro exI [of _ j] exI [of _ rj] exI [of _ sj] exI [of _ r'] exI [of _ "sti sj"]) simp
qed

text \<open>A caller that finds the count 0 waits for the post of another process.\<close>

theorem sem_counts_witness:
  "\<exists>r s r' s'. sem_reach 0 (r, s, 0, 0, False) \<and> sem_wait (\<lambda>n r s. Some (sem_post r s)) 0 r s = Some (r', s') \<and> sint (sm_count r') = 0"
proof -
  let ?r = "\<lparr>sm_count = 0, sm_waiters = replicate 32 0, sm_waiter_count = 0\<rparr>"
  let ?y = "\<lambda>n r s. Some (sem_post r s)"
  have r: "sem_reach 0 (?r, demo_sched, 0, 0, False)"
    using sem_reach.start [of ?r 0 demo_sched] by (simp add: sem_init_def SEM_MAX_WAITERS_def)
  obtain r1 s1 where t: "sem_wait_turn ?r demo_sched = (False, r1, s1)"
    using sm.turn_busy [of ?r demo_sched] by auto
  obtain r2 s2 where p: "sem_post r1 s1 = (r2, s2)" by (cases "sem_post r1 s1")
  have a: "attempt sem_wait_turn ?y 0 (Suc 0) ?r demo_sched = Some (r2, s2)" using t p by simp
  have c: "sm_count r1 = 0" "sm_count r2 = 1" using sem_turn_count [OF t] p by (auto simp: sem_post_def Let_def)
  have pos: "0 < sint (sm_count r2)" using c(2) by simp
  have base: "0 \<le> sint (0 :: u32)" by simp
  obtain j rj sj r' s' where j: "j \<le> Suc 0" "attempt sem_wait_turn ?y 0 j ?r demo_sched = Some (rj, sj)"
    "sem_wait ?y 0 ?r demo_sched = Some (r', s')" "sint (sm_count r') = sint (sm_count rj) - 1" "0 \<le> sint (sm_count r')"
    using sem_counts [OF r base] a pos by blast
  have "j = 0 \<or> j = Suc 0" using j(1) by auto
  then have "sint (sm_count rj) \<le> 1" using j(2) a c by auto
  then show ?thesis using r j(3-5) by (intro exI [of _ ?r] exI [of _ demo_sched] exI [of _ r'] exI [of _ s']) simp
qed

text \<open>
  C26.  A futex wakes nobody: entries are made by a process for itself and \<^verbatim>\<open>futex_wake\<close> serves only the
  entries of its caller, which is running; so in every reachable table a wake leaves every process, and
  with them everyone who blocked in \<^verbatim>\<open>futex_wait\<close>, as it was.
\<close>

theorem futex_wakes_nobody:
  assumes "futex_reach tbl" and "g_current_proc s = Some c" and "pr_state (pget s c) = PROC_RUNNING"
    and "proc_get s (pr_pid (pget s c)) = Some c"
  shows "\<exists>tbl'. futex_wake uaddr cnt tbl s = (tbl', sti s)"
proof -
  have rn: "proc_get (cli s) (pr_pid (pget (cli s) c)) = Some c" "pr_state (pget (cli s) c) \<noteq> PROC_BLOCKED"
    using assms by simp_all
  have "\<forall>i \<in> set [0..<FUTEX_MAX_WAITERS]. i < FUTEX_MAX_WAITERS" by simp
  from futex_wake_scan_self [OF futex_reach_ok [OF assms(1)] rn this, where uaddr = uaddr and cnt = cnt and woken = 0]
  obtain tbl' where "futex_wake_scan (pr_pid (pget (cli s) c)) uaddr cnt 0 [0..<FUTEX_MAX_WAITERS] tbl (cli s) = (tbl', cli s)" by blast
  then show ?thesis using assms(2) by (simp add: futex_wake_def Let_def)
qed

theorem futex_wakes_nobody_witness:
  "\<exists>tbl tbl' s. futex_wait (\<lambda>_. 7) 0x1000 7 (replicate 64 \<lparr>fx_used = False, fx_owner_pid = 0, fx_uaddr = 0, fx_waiter_pid = 0\<rparr>)
       (demo_sched\<lparr>g_current_proc := Some 1\<rparr>) = (True, tbl, s)
     \<and> futex_wake 0x1000 1 tbl demo_sched = (tbl', sti demo_sched)"
proof -
  let ?t = "replicate 64 \<lparr>fx_used = False, fx_owner_pid = 0, fx_uaddr = 0, fx_waiter_pid = 0\<rparr>"
  let ?s = "demo_sched\<lparr>g_current_proc := Some 1\<rparr>"
  have "first_idx (\<lambda>e. \<not> fx_used e) ?t = Some 0" by (simp add: numeral_eq_Suc)
  then obtain tbl s where w: "futex_wait (\<lambda>_. 7) 0x1000 7 ?t ?s = (True, tbl, s)"
    by (simp add: futex_wait_def Let_def)
  have "futex_reach ?t" by (rule futex_reach.start) (simp_all add: FUTEX_MAX_WAITERS_def)
  then have r: "futex_reach tbl" using w by (rule futex_reach.wait)
  have c: "g_current_proc demo_sched = Some 0" by (simp add: demo_sched_def)
  have p: "pr_state (pget demo_sched 0) = PROC_RUNNING" "pr_pid (pget demo_sched 0) = 1"
    by (simp_all add: demo_pget [simplified] demo_table_def)
  have g: "proc_get demo_sched (pr_pid (pget demo_sched 0)) = Some 0" using p demo_proc_get by simp
  show ?thesis using w futex_wakes_nobody [OF r c p(1) g, where uaddr = "0x1000" and cnt = 1] by blast
qed

end
