(* ===== verification/Ipc.thy ===== *)
theory Ipc
  imports Sync Kmalloc
begin

text \<open>
  Message passing between processes (\<^verbatim>\<open>kernel/ipc/ipc.c\<close>): each process has an inbox of eight
  messages in the kernel heap.  The inboxes are kept by address beside the heap that allocates them;
  the abstract inbox is a list of messages.
\<close>

definition IPC_QUEUE_DEPTH :: nat where "IPC_QUEUE_DEPTH = 8"
definition IPC_MSG_PAYLOAD :: nat where "IPC_MSG_PAYLOAD = 120"

record ipc_msg =
  im_from_pid :: u32
  im_type :: u32
  im_data :: "u8 list"
  im_len :: u32

record ipc_state =
  iq_queue :: "ipc_msg list"
  iq_head :: u8
  iq_tail :: u8
  iq_count :: u8
  iq_waiting :: bool

record kernel =
  k_sched :: sched
  k_heap :: heap
  k_inbox :: "u64 \<Rightarrow> ipc_state"

definition zero_msg :: ipc_msg where
  "zero_msg = \<lparr>im_from_pid = 0, im_type = 0, im_data = replicate IPC_MSG_PAYLOAD 0, im_len = 0\<rparr>"

definition zero_inbox :: ipc_state where
  "zero_inbox = \<lparr>iq_queue = replicate IPC_QUEUE_DEPTH zero_msg, iq_head = 0, iq_tail = 0, iq_count = 0, iq_waiting = False\<rparr>"

text \<open>\<^verbatim>\<open>sizeof(ipc_state_t)\<close>: eight messages of 132 bytes, five bytes, and padding to a multiple of four.\<close>

definition sizeof_ipc_state :: u64 where "sizeof_ipc_state = 1064"

definition ipc_alloc_state :: "'a kernel_scheme \<Rightarrow> (u64 \<times> 'a kernel_scheme) option" where
  "ipc_alloc_state k =
     map_option (\<lambda>(p, H).
         if p = 0 then (0, k\<lparr>k_heap := H\<rparr>)
         else (p, k\<lparr>k_heap := H, k_inbox := (k_inbox k)(p := zero_inbox)\<rparr>))
       (kmalloc (k_heap k) sizeof_ipc_state)"

definition ipc_free_state :: "u64 \<Rightarrow> 'a kernel_scheme \<Rightarrow> 'a kernel_scheme option" where
  "ipc_free_state p k =
     (if p \<noteq> 0 then map_option (\<lambda>H. k\<lparr>k_heap := H\<rparr>) (kfree (k_heap k) p) else Some k)"

text \<open>Copying a message into the tail slot, and taking one from the head slot.\<close>

definition inbox_push :: "ipc_msg \<Rightarrow> ipc_state \<Rightarrow> ipc_state" where
  "inbox_push msg b =
     (let slot = iq_queue b ! unat (iq_tail b);
          copy_len = im_len msg;
          copy_len = (if of_nat IPC_MSG_PAYLOAD < copy_len then of_nat IPC_MSG_PAYLOAD else copy_len);
          slot = slot\<lparr>im_from_pid := im_from_pid msg, im_type := im_type msg, im_len := copy_len,
                      im_data := take (unat copy_len) (im_data msg) @ drop (unat copy_len) (im_data slot)\<rparr>
      in b\<lparr>iq_queue := (iq_queue b)[unat (iq_tail b) := slot],
           iq_tail := of_nat ((unat (iq_tail b) + 1) mod IPC_QUEUE_DEPTH),
           iq_count := iq_count b + 1\<rparr>)"

definition inbox_pop :: "ipc_state \<Rightarrow> ipc_msg \<times> ipc_state" where
  "inbox_pop b =
     (iq_queue b ! unat (iq_head b),
      b\<lparr>iq_head := of_nat ((unat (iq_head b) + 1) mod IPC_QUEUE_DEPTH), iq_count := iq_count b - 1\<rparr>)"

definition ipc_send :: "u32 \<Rightarrow> ipc_msg option \<Rightarrow> 'a kernel_scheme \<Rightarrow> int \<times> 'a kernel_scheme" where
  "ipc_send dst_pid msg k =
     (case msg of
        None \<Rightarrow> (-1, k)
      | Some msg \<Rightarrow>
          (case proc_get (k_sched k) dst_pid of
             None \<Rightarrow> (-1, k)
           | Some dst \<Rightarrow>
               (let s = k_sched k; p = pget s dst; a = pr_ipc p in
                if pr_state p = PROC_UNUSED \<or> pr_state p = PROC_ZOMBIE then (-1, k)
                else if a = 0 then (-1, k)
                else
                  (let s = cli s; b = k_inbox k a in
                   if of_nat IPC_QUEUE_DEPTH \<le> iq_count b then (-2, k\<lparr>k_sched := sti s\<rparr>)
                   else
                     (let b = inbox_push msg b;
                          was_waiting = iq_waiting b;
                          s = (if was_waiting
                               then sched_enqueue (Some dst) (pset dst (\<lambda>r. r\<lparr>pr_state := PROC_READY\<rparr>) s) else s);
                          b = (if was_waiting then b\<lparr>iq_waiting := False\<rparr> else b)
                      in (0, k\<lparr>k_sched := sti s, k_inbox := (k_inbox k)(a := b)\<rparr>))))))"

text \<open>
  One turn of the loop of \<^verbatim>\<open>ipc_recv\<close>, up to \<^verbatim>\<open>sched_yield\<close>: \<open>self\<close> and \<open>a\<close> are the process and the inbox
  that were read before the loop.
\<close>

definition recv_turn :: "nat \<Rightarrow> u64 \<Rightarrow> 'a kernel_scheme \<Rightarrow> ipc_msg option \<times> 'a kernel_scheme" where
  "recv_turn self a k =
     (let s = cli (k_sched k); b = k_inbox k a in
      if 0 < iq_count b then
        (let (m, b) = inbox_pop b in (Some m, k\<lparr>k_sched := sti s, k_inbox := (k_inbox k)(a := b)\<rparr>))
      else
        (None, k\<lparr>k_sched := sti (pset self (\<lambda>r. r\<lparr>pr_state := PROC_BLOCKED\<rparr>) s),
                 k_inbox := (k_inbox k)(a := b\<lparr>iq_waiting := True\<rparr>)\<rparr>))"

partial_function (option) recv_loop ::
    "(nat \<Rightarrow> 'a kernel_scheme \<Rightarrow> 'a kernel_scheme option) \<Rightarrow> nat \<Rightarrow> u64 \<Rightarrow> nat \<Rightarrow> 'a kernel_scheme
       \<Rightarrow> (ipc_msg \<times> 'a kernel_scheme) option" where
  "recv_loop yield self a n k =
     (case recv_turn self a k of
        (Some m, k) \<Rightarrow> Some (m, k)
      | (None, k) \<Rightarrow> Option.bind (yield n k) (recv_loop yield self a (n + 1)))"

text \<open>The message \<^verbatim>\<open>out\<close> points to is an argument and a result; \<open>None\<close> is the null pointer.\<close>

definition ipc_recv ::
    "(nat \<Rightarrow> 'a kernel_scheme \<Rightarrow> 'a kernel_scheme option) \<Rightarrow> ipc_msg option \<Rightarrow> 'a kernel_scheme
       \<Rightarrow> (int \<times> ipc_msg option \<times> 'a kernel_scheme) option" where
  "ipc_recv yield out k =
     (case (out, g_current_proc (k_sched k)) of
        (Some _, Some self) \<Rightarrow>
          (let a = pr_ipc (pget (k_sched k) self) in
           if a = 0 then Some (-1, out, k)
           else map_option (\<lambda>(m, k). (0, Some m, k)) (recv_loop yield self a 0 k))
      | _ \<Rightarrow> Some (-1, out, k))"

definition ipc_recv_nb :: "ipc_msg option \<Rightarrow> 'a kernel_scheme \<Rightarrow> int \<times> ipc_msg option \<times> 'a kernel_scheme" where
  "ipc_recv_nb out k =
     (case (out, g_current_proc (k_sched k)) of
        (Some _, Some self) \<Rightarrow>
          (let a = pr_ipc (pget (k_sched k) self); s = cli (k_sched k); b = k_inbox k a in
           if a = 0 then (-1, out, k)
           else if iq_count b = 0 then (-1, out, k\<lparr>k_sched := sti s\<rparr>)
           else (let (m, b) = inbox_pop b in (0, Some m, k\<lparr>k_sched := sti s, k_inbox := (k_inbox k)(a := b)\<rparr>)))
      | _ \<Rightarrow> (-1, out, k))"

subsection \<open>The inbox as a list\<close>

text \<open>The part of a message its length announces.\<close>

definition msg_view :: "ipc_msg \<Rightarrow> u32 \<times> u32 \<times> u8 list" where
  "msg_view m = (im_from_pid m, im_type m, take (unat (im_len m)) (im_data m))"

definition slot_at :: "ipc_state \<Rightarrow> nat \<Rightarrow> ipc_msg" where
  "slot_at b i = iq_queue b ! ((unat (iq_head b) + i) mod IPC_QUEUE_DEPTH)"

definition inbox_msgs :: "ipc_state \<Rightarrow> (u32 \<times> u32 \<times> u8 list) list" where
  "inbox_msgs b = map (\<lambda>i. msg_view (slot_at b i)) [0..<unat (iq_count b)]"

definition inbox_ok :: "ipc_state \<Rightarrow> bool" where
  "inbox_ok b \<longleftrightarrow> length (iq_queue b) = IPC_QUEUE_DEPTH \<and> unat (iq_head b) < IPC_QUEUE_DEPTH
     \<and> unat (iq_count b) \<le> IPC_QUEUE_DEPTH \<and> unat (iq_tail b) = (unat (iq_head b) + unat (iq_count b)) mod IPC_QUEUE_DEPTH
     \<and> (\<forall>m \<in> set (iq_queue b). length (im_data m) = IPC_MSG_PAYLOAD)
     \<and> (iq_waiting b \<longrightarrow> iq_count b = 0)"

lemma ipc_alloc_state_ok:
  assumes "ipc_alloc_state k = Some (p, k')" and "p \<noteq> 0"
  shows "inbox_ok (k_inbox k' p)" and "inbox_msgs (k_inbox k' p) = []"
  using assms by (auto simp: ipc_alloc_state_def inbox_ok_def inbox_msgs_def zero_inbox_def zero_msg_def IPC_QUEUE_DEPTH_def
      IPC_MSG_PAYLOAD_def split: if_splits)

lemma unat_mod8: "unat (of_nat (n mod IPC_QUEUE_DEPTH) :: u8) = n mod IPC_QUEUE_DEPTH"
proof -
  have "n mod 8 < (256 :: nat)" by (rule less_le_trans [of _ 8]) simp_all
  then show ?thesis by (simp add: IPC_QUEUE_DEPTH_def unat_of_nat take_bit_eq_mod)
qed

text \<open>A message longer than a slot is cut.\<close>

definition msg_cut :: "ipc_msg \<Rightarrow> ipc_msg" where
  "msg_cut m = m\<lparr>im_len := min (im_len m) (of_nat IPC_MSG_PAYLOAD)\<rparr>"

lemma ring_index_inj: "i < n \<Longrightarrow> j < n \<Longrightarrow> (h + i) mod n = (h + j) mod n \<Longrightarrow> i = (j :: nat)"
proof (induction i j rule: linorder_wlog)
  case (le i j)
  then have "n dvd j - i" using mod_eq_dvd_iff_nat [of "h + i" "h + j" n] by simp
  then show ?case using le by (auto dest: dvd_imp_le)
qed simp

lemma inbox_push_ok:
  assumes ok: "inbox_ok b" and room: "unat (iq_count b) < IPC_QUEUE_DEPTH" and dat: "length (im_data msg) = IPC_MSG_PAYLOAD"
  shows "inbox_ok ((inbox_push msg b)\<lparr>iq_waiting := False\<rparr>)" (is ?ok)
    and "inbox_msgs (inbox_push msg b) = inbox_msgs b @ [msg_view (msg_cut msg)]" (is ?msgs)
proof -
  let ?h = "unat (iq_head b)" and ?c = "unat (iq_count b)" and ?t = "unat (iq_tail b)"
  define cl where "cl = (if of_nat IPC_MSG_PAYLOAD < im_len msg then of_nat IPC_MSG_PAYLOAD else im_len msg)"
  define slot where "slot = (iq_queue b ! ?t)\<lparr>im_from_pid := im_from_pid msg, im_type := im_type msg, im_len := cl,
                      im_data := take (unat cl) (im_data msg) @ drop (unat cl) (im_data (iq_queue b ! ?t))\<rparr>"
  define b' where "b' = inbox_push msg b"
  have b': "iq_queue b' = (iq_queue b)[?t := slot]" "iq_head b' = iq_head b" "iq_count b' = iq_count b + 1"
    "iq_tail b' = of_nat ((?t + 1) mod IPC_QUEUE_DEPTH)"
    by (simp_all add: b'_def inbox_push_def Let_def slot_def cl_def)
  have len: "length (iq_queue b) = IPC_QUEUE_DEPTH" and t: "?t = (?h + ?c) mod IPC_QUEUE_DEPTH" "?t < IPC_QUEUE_DEPTH"
    using ok by (simp_all add: inbox_ok_def IPC_QUEUE_DEPTH_def)
  have c': "unat (iq_count b') = ?c + 1"
    using room unfolding b'(3) by (simp add: unat_word_ariths IPC_QUEUE_DEPTH_def)
  have cl: "cl = min (im_len msg) (of_nat IPC_MSG_PAYLOAD)" "unat cl \<le> IPC_MSG_PAYLOAD"
    by (auto simp: cl_def min_def IPC_MSG_PAYLOAD_def word_le_nat_alt word_less_nat_alt)
  have old: "length (im_data (iq_queue b ! ?t)) = IPC_MSG_PAYLOAD" using ok t(2) len by (simp add: inbox_ok_def)
  have view: "msg_view slot = msg_view (msg_cut msg)"
    using cl dat by (simp add: msg_view_def slot_def msg_cut_def)
  have data: "length (im_data m) = IPC_MSG_PAYLOAD" if "m \<in> set (iq_queue b')" for m
    using that set_update_subset_insert [of "iq_queue b" ?t slot] ok old dat cl(2)
    by (auto simp: b'(1) inbox_ok_def slot_def)
  have tail: "unat (iq_tail b') = (?h + (?c + 1)) mod IPC_QUEUE_DEPTH"
    unfolding b'(4) unat_mod8 t(1) by (simp add: mod_simps)
  show ?ok using ok room len c' tail data unfolding b'_def [symmetric] by (simp add: inbox_ok_def b'(1,2))
  have "slot_at b' i = slot_at b i" if "i < ?c" for i
  proof -
    have "?t \<noteq> (?h + i) mod IPC_QUEUE_DEPTH" using ring_index_inj [of i IPC_QUEUE_DEPTH ?c ?h] that room t(1) by auto
    then show ?thesis by (simp add: slot_at_def b'(1,2))
  qed
  moreover have "slot_at b' ?c = slot" using t len by (simp add: slot_at_def b'(1,2))
  ultimately show ?msgs unfolding b'_def [symmetric] inbox_msgs_def c' using view by simp
qed

lemma inbox_pop_ok:
  assumes ok: "inbox_ok b" and some: "0 < iq_count b"
  shows "inbox_ok (snd (inbox_pop b))" and "inbox_msgs b = msg_view (fst (inbox_pop b)) # inbox_msgs (snd (inbox_pop b))"
proof -
  let ?h = "unat (iq_head b)" and ?c = "unat (iq_count b)"
  define b' where "b' = snd (inbox_pop b)"
  have b': "iq_queue b' = iq_queue b" "iq_head b' = of_nat ((?h + 1) mod IPC_QUEUE_DEPTH)" "iq_count b' = iq_count b - 1"
    "iq_tail b' = iq_tail b" "iq_waiting b' = iq_waiting b"
    by (simp_all add: b'_def inbox_pop_def)
  have pos: "0 < ?c" using some by (simp add: word_less_nat_alt)
  have c': "?c = Suc (unat (iq_count b'))"
    unfolding b'(3) using pos unat_minus_one [of "iq_count b"] some by (cases "iq_count b = 0") simp_all
  have h': "unat (iq_head b') = (?h + 1) mod IPC_QUEUE_DEPTH" unfolding b'(2) by (rule unat_mod8)
  have "(?h + ?c) mod IPC_QUEUE_DEPTH = (unat (iq_head b') + unat (iq_count b')) mod IPC_QUEUE_DEPTH"
    unfolding h' c' by (simp add: mod_simps)
  moreover have "\<not> iq_waiting b" using ok some by (auto simp: inbox_ok_def)
  ultimately show "inbox_ok (snd (inbox_pop b))"
    using ok c' h' unfolding b'_def [symmetric] by (simp add: inbox_ok_def b' IPC_QUEUE_DEPTH_def)
  have "slot_at b (Suc i) = slot_at b' i" for i
    unfolding slot_at_def b'(1) h' by (simp add: mod_simps)
  moreover have "fst (inbox_pop b) = slot_at b 0" using ok by (simp add: inbox_pop_def slot_at_def inbox_ok_def)
  ultimately show "inbox_msgs b = msg_view (fst (inbox_pop b)) # inbox_msgs (snd (inbox_pop b))"
    unfolding b'_def [symmetric] inbox_msgs_def c' by (simp add: upt_conv_Cons map_Suc_upt [symmetric] del: upt_Suc)
qed

subsection \<open>Sending and receiving\<close>

lemma iq_full: "of_nat IPC_QUEUE_DEPTH \<le> iq_count b \<longleftrightarrow> IPC_QUEUE_DEPTH \<le> unat (iq_count b)"
  by (simp add: IPC_QUEUE_DEPTH_def word_le_nat_alt)

lemma inbox_push_waiting [simp]: "iq_waiting (inbox_push m b) = iq_waiting b"
  by (simp add: inbox_push_def Let_def)

lemma inbox_msgs_waiting [simp]: "inbox_msgs (b\<lparr>iq_waiting := w\<rparr>) = inbox_msgs b"
  by (simp add: inbox_msgs_def slot_at_def)

lemma length_inbox_msgs [simp]: "length (inbox_msgs b) = unat (iq_count b)"
  by (simp add: inbox_msgs_def)

text \<open>Delivery to a live process with an inbox that has room.\<close>

lemma ipc_send_delivers:
  assumes inv: "sched_inv (k_sched k) qs" and dst: "proc_get (k_sched k) pid = Some d" "pr_state (pget (k_sched k) d) \<noteq> PROC_ZOMBIE"
    and a: "pr_ipc (pget (k_sched k) d) = a" "a \<noteq> 0"
    and ok: "inbox_ok (k_inbox k a)" and dat: "length (im_data m) = IPC_MSG_PAYLOAD"
    and room: "length (inbox_msgs (k_inbox k a)) < IPC_QUEUE_DEPTH"
  shows "\<exists>k' qs'. ipc_send pid (Some m) k = (0, k') \<and> k_heap k' = k_heap k \<and> sched_inv (k_sched k') qs' \<and> grows qs qs'
     \<and> k_inbox k' = (k_inbox k)(a := k_inbox k' a) \<and> inbox_ok (k_inbox k' a)
     \<and> inbox_msgs (k_inbox k' a) = inbox_msgs (k_inbox k a) @ [msg_view (msg_cut m)]
     \<and> \<not> iq_waiting (k_inbox k' a)
     \<and> (iq_waiting (k_inbox k a) \<longrightarrow> pr_state (pget (k_sched k') d) = PROC_READY \<and> queued qs' d)"
proof -
  let ?s = "cli (k_sched k)" and ?b = "inbox_push m (k_inbox k a)" and ?w = "iq_waiting (k_inbox k a)"
  let ?f = "\<lambda>r. r\<lparr>pr_state := PROC_READY\<rparr>"
  define s' where "s' = (if ?w then sched_enqueue (Some d) (pset d ?f ?s) else ?s)"
  define b' where "b' = (if ?w then ?b\<lparr>iq_waiting := False\<rparr> else ?b)"
  define k' where "k' = k\<lparr>k_sched := sti s', k_inbox := (k_inbox k)(a := b')\<rparr>"
  have send: "ipc_send pid (Some m) k = (0, k')"
    using dst a room proc_getD(3) [OF dst(1)] iq_full [of "k_inbox k a"]
    by (simp add: ipc_send_def Let_def k'_def s'_def b'_def)
  have inv': "sched_inv ?s qs" using inv by simp
  have d: "d < MAX_PROCESSES" "d < length (g_proc_table ?s)"
    using proc_getD(1) [OF dst(1)] inv inv' by (simp_all add: sched_inv_def sched_wf_def)
  have b'w: "b' = ?b\<lparr>iq_waiting := False\<rparr>" by (cases ?w) (simp_all add: b'_def)
  note push = inbox_push_ok [OF ok _ dat]
  have inbox: "inbox_ok b'" "inbox_msgs b' = inbox_msgs (k_inbox k a) @ [msg_view (msg_cut m)]" "\<not> iq_waiting b'"
    using push room unfolding b'w by simp_all
  have "\<exists>qs'. sched_inv s' qs' \<and> grows qs qs' \<and> (?w \<longrightarrow> pr_state (pget s' d) = PROC_READY \<and> queued qs' d)"
  proof (cases ?w)
    case True
    obtain qs' where q: "sched_inv s' qs'" "grows qs qs'"
      using make_ready_step [OF inv' d(1), of ?f] True by (auto simp: s'_def)
    have "same_procs (pset d ?f ?s) s'" using enqueue_same_procs [OF inv' d(1), of ?f] True by (simp add: s'_def)
    then have "pr_state (pget s' d) = PROC_READY"
      using same_procs_fields(2) [of "pset d ?f ?s" s' d] d(2) by (simp add: pget_pset)
    then show ?thesis using q d(1) by (intro exI [of _ qs']) (simp add: sched_inv_def)
  next
    case False
    then show ?thesis using inv' grows_refl by (auto simp: s'_def)
  qed
  then obtain qs' where "sched_inv s' qs'" "grows qs qs'" "?w \<longrightarrow> pr_state (pget s' d) = PROC_READY \<and> queued qs' d" by blast
  then show ?thesis using send inbox by (intro exI [of _ k'] exI [of _ qs']) (simp add: k'_def)
qed

text \<open>The state before the \<open>j\<close>-th further turn of a receiver.\<close>

fun recv_state ::
    "(nat \<Rightarrow> 'a kernel_scheme \<Rightarrow> 'a kernel_scheme option) \<Rightarrow> nat \<Rightarrow> u64 \<Rightarrow> nat \<Rightarrow> nat \<Rightarrow> 'a kernel_scheme \<Rightarrow> 'a kernel_scheme option" where
  "recv_state yield self a n 0 k = Some k"
| "recv_state yield self a n (Suc j) k =
     Option.bind (yield n (snd (recv_turn self a k))) (recv_state yield self a (n + 1) j)"

lemma recv_loop_returns:
  assumes "recv_state yield self a n j k = Some kj" and "0 < iq_count (k_inbox kj a)"
  shows "\<exists>i \<le> j. \<exists>ki. recv_state yield self a n i k = Some ki \<and> 0 < iq_count (k_inbox ki a)
     \<and> recv_loop yield self a n k = Some (fst (inbox_pop (k_inbox ki a)),
          ki\<lparr>k_sched := sti (k_sched ki), k_inbox := (k_inbox ki)(a := snd (inbox_pop (k_inbox ki a)))\<rparr>)"
  using assms
proof (induction j arbitrary: n k)
  case 0
  then show ?case by (subst recv_loop.simps) (simp add: recv_turn_def Let_def inbox_pop_def)
next
  case (Suc j)
  show ?case
  proof (cases "0 < iq_count (k_inbox k a)")
    case True
    then have "recv_loop yield self a n k = Some (fst (inbox_pop (k_inbox k a)),
          k\<lparr>k_sched := sti (k_sched k), k_inbox := (k_inbox k)(a := snd (inbox_pop (k_inbox k a)))\<rparr>)"
      by (subst recv_loop.simps) (simp add: recv_turn_def Let_def inbox_pop_def)
    then show ?thesis using True recv_state.simps(1) [of yield self a n k] le0 by blast
  next
    case False
    obtain k1 where t: "recv_turn self a k = (None, k1)" using False by (simp add: recv_turn_def Let_def)
    obtain k2 where y: "yield n k1 = Some k2" and r: "recv_state yield self a (n + 1) j k2 = Some kj"
      using Suc.prems(1) t by (cases "yield n k1") auto
    obtain i ki where i: "i \<le> j" "recv_state yield self a (n + 1) i k2 = Some ki" "0 < iq_count (k_inbox ki a)"
      "recv_loop yield self a (n + 1) k2 = Some (fst (inbox_pop (k_inbox ki a)),
          ki\<lparr>k_sched := sti (k_sched ki), k_inbox := (k_inbox ki)(a := snd (inbox_pop (k_inbox ki a)))\<rparr>)"
      using Suc.IH [OF r Suc.prems(2)] by blast
    have "recv_state yield self a n (Suc i) k = Some ki" using t y i(2) by simp
    moreover have "recv_loop yield self a n k = recv_loop yield self a (n + 1) k2"
      by (subst recv_loop.simps) (simp add: t y)
    moreover have "Suc i \<le> Suc j" using i(1) by simp
    ultimately show ?thesis using i(3,4) by (metis (no_types, lifting))
  qed
qed

lemma ipc_recv_nb_ok:
  assumes "g_current_proc (k_sched k) = Some self" and "pr_ipc (pget (k_sched k) self) = a" and "a \<noteq> 0" and ok: "inbox_ok (k_inbox k a)"
  shows "case inbox_msgs (k_inbox k a) of
      [] \<Rightarrow> ipc_recv_nb (Some out) k = (-1, Some out, k\<lparr>k_sched := sti (k_sched k)\<rparr>)
    | v # vs \<Rightarrow> \<exists>m b. ipc_recv_nb (Some out) k = (0, Some m, k\<lparr>k_sched := sti (k_sched k), k_inbox := (k_inbox k)(a := b)\<rparr>)
        \<and> msg_view m = v \<and> inbox_ok b \<and> inbox_msgs b = vs"
proof (cases "iq_count (k_inbox k a) = 0")
  case True
  then show ?thesis using assms by (simp add: ipc_recv_nb_def Let_def inbox_msgs_def)
next
  case False
  then have pos: "0 < iq_count (k_inbox k a)" by (simp add: word_gt_0)
  obtain m b where pop: "inbox_pop (k_inbox k a) = (m, b)" by (cases "inbox_pop (k_inbox k a)")
  have "ipc_recv_nb (Some out) k = (0, Some m, k\<lparr>k_sched := sti (k_sched k), k_inbox := (k_inbox k)(a := b)\<rparr>)"
    using assms False pop by (simp add: ipc_recv_nb_def Let_def)
  moreover have "inbox_msgs (k_inbox k a) = msg_view m # inbox_msgs b" "inbox_ok b"
    using inbox_pop_ok [OF ok pos] unfolding pop by simp_all
  ultimately show ?thesis unfolding \<open>inbox_msgs (k_inbox k a) = _\<close> list.case by blast
qed

lemma ipc_send_full:
  assumes "proc_get (k_sched k) pid = Some d" and "pr_state (pget (k_sched k) d) \<noteq> PROC_ZOMBIE"
    and "pr_ipc (pget (k_sched k) d) = a" and "a \<noteq> 0" and "IPC_QUEUE_DEPTH \<le> length (inbox_msgs (k_inbox k a))"
  shows "ipc_send pid (Some m) k = (-2, k\<lparr>k_sched := sti (k_sched k)\<rparr>)"
  using assms proc_getD(3) [OF assms(1)] iq_full [of "k_inbox k a"] by (simp add: ipc_send_def Let_def)

text \<open>A process that is not queued may be marked blocked.\<close>

lemma block_inv:
  assumes inv: "sched_inv s qs" and i: "i < MAX_PROCESSES" and nr: "pr_state (pget s i) \<noteq> PROC_READY"
  shows "sched_inv (pset i (\<lambda>r. r\<lparr>pr_state := PROC_BLOCKED\<rparr>) s) qs"
proof -
  let ?s = "pset i (\<lambda>r. r\<lparr>pr_state := PROC_BLOCKED\<rparr>) s"
  have "i < length (g_proc_table s)" using inv i by (simp add: sched_inv_def sched_wf_def)
  then have g: "pget ?s p = (if p = i then (pget s i)\<lparr>pr_state := PROC_BLOCKED\<rparr> else pget s p)" for p by (simp add: pget_pset)
  have "sched_wf ?s qs = sched_wf s qs" using g by (intro sched_wf_cong) auto
  then show ?thesis using inv nr i g by (auto simp: sched_inv_def)
qed

subsection \<open>Properties\<close>

text \<open>
  C27.  An inbox is a bounded queue.  \<^verbatim>\<open>ipc_send\<close> to a live process appends the message, cut to 120 bytes
  of payload, to a list of at most eight, or returns \<open>-2\<close> and changes nothing when there are eight
  already; a receiver that was waiting becomes ready and queued.  \<^verbatim>\<open>ipc_recv_nb\<close> returns the first message of the
  caller's inbox and removes it, or \<open>-1\<close> when there is none.  No other inbox changes.
\<close>

theorem ipc_fifo:
  assumes "sched_inv (k_sched k) qs"
    and "proc_get (k_sched k) pid = Some d" and "pr_state (pget (k_sched k) d) \<noteq> PROC_ZOMBIE"
    and "pr_ipc (pget (k_sched k) d) = a" and "a \<noteq> 0" and "inbox_ok (k_inbox k a)"
    and "length (im_data m) = IPC_MSG_PAYLOAD"
    and "g_current_proc (k_sched k) = Some self" and "pr_ipc (pget (k_sched k) self) = a'" and "a' \<noteq> 0"
    and "inbox_ok (k_inbox k a')"
  shows "(if length (inbox_msgs (k_inbox k a)) < IPC_QUEUE_DEPTH then
       \<exists>k' qs'. ipc_send pid (Some m) k = (0, k') \<and> sched_inv (k_sched k') qs'
         \<and> k_inbox k' = (k_inbox k)(a := k_inbox k' a) \<and> inbox_ok (k_inbox k' a)
         \<and> inbox_msgs (k_inbox k' a) = inbox_msgs (k_inbox k a) @ [msg_view (msg_cut m)]
         \<and> (iq_waiting (k_inbox k a) \<longrightarrow> pr_state (pget (k_sched k') d) = PROC_READY \<and> queued qs' d)
     else ipc_send pid (Some m) k = (-2, k\<lparr>k_sched := sti (k_sched k)\<rparr>))
   \<and> (case inbox_msgs (k_inbox k a') of
        [] \<Rightarrow> ipc_recv_nb (Some out) k = (-1, Some out, k\<lparr>k_sched := sti (k_sched k)\<rparr>)
      | v # vs \<Rightarrow> \<exists>r b. ipc_recv_nb (Some out) k = (0, Some r, k\<lparr>k_sched := sti (k_sched k), k_inbox := (k_inbox k)(a' := b)\<rparr>)
          \<and> msg_view r = v \<and> inbox_ok b \<and> inbox_msgs b = vs)"
proof (rule conjI)
  show "case inbox_msgs (k_inbox k a') of
        [] \<Rightarrow> ipc_recv_nb (Some out) k = (-1, Some out, k\<lparr>k_sched := sti (k_sched k)\<rparr>)
      | v # vs \<Rightarrow> \<exists>r b. ipc_recv_nb (Some out) k = (0, Some r, k\<lparr>k_sched := sti (k_sched k), k_inbox := (k_inbox k)(a' := b)\<rparr>)
          \<and> msg_view r = v \<and> inbox_ok b \<and> inbox_msgs b = vs"
    by (rule ipc_recv_nb_ok [OF assms(8-11)])
  show "if length (inbox_msgs (k_inbox k a)) < IPC_QUEUE_DEPTH then
       \<exists>k' qs'. ipc_send pid (Some m) k = (0, k') \<and> sched_inv (k_sched k') qs'
         \<and> k_inbox k' = (k_inbox k)(a := k_inbox k' a) \<and> inbox_ok (k_inbox k' a)
         \<and> inbox_msgs (k_inbox k' a) = inbox_msgs (k_inbox k a) @ [msg_view (msg_cut m)]
         \<and> (iq_waiting (k_inbox k a) \<longrightarrow> pr_state (pget (k_sched k') d) = PROC_READY \<and> queued qs' d)
     else ipc_send pid (Some m) k = (-2, k\<lparr>k_sched := sti (k_sched k)\<rparr>)"
    using ipc_send_delivers [OF assms(1-7)] ipc_send_full [OF assms(2-5), of m] by (simp add: not_less) blast
qed

text \<open>Process 0 is running and sends to process 4, which is blocked; both have an inbox.\<close>

definition ipc_sched :: sched where
  "ipc_sched = pset 4 (\<lambda>r. r\<lparr>pr_ipc := 0x8000\<rparr>) (pset 0 (\<lambda>r. r\<lparr>pr_ipc := 0x9000\<rparr>) demo_sched)"

definition ipc_kernel :: kernel where
  "ipc_kernel = \<lparr>k_sched = ipc_sched, k_heap = kmalloc_init 0x100000 0x10000 (\<lambda>_. 0),
     k_inbox = (\<lambda>_. zero_inbox)(0x8000 := zero_inbox\<lparr>iq_waiting := True\<rparr>)\<rparr>"

definition hello_msg :: ipc_msg where
  "hello_msg = \<lparr>im_from_pid = 1, im_type = 7, im_data = [104, 105] @ replicate 118 0, im_len = 2\<rparr>"

lemma ipc_pget:
  "pget ipc_sched 4 = (pget demo_sched 4)\<lparr>pr_ipc := 0x8000\<rparr>" "pget ipc_sched 0 = (pget demo_sched 0)\<lparr>pr_ipc := 0x9000\<rparr>"
  "g_current_proc ipc_sched = Some 0"
  by (simp_all add: ipc_sched_def pget_def pset_def demo_sched_def demo_table_def)

lemma ipc_pget_fields:
  "pr_state (pget ipc_sched p) = pr_state (pget demo_sched p) \<and> pr_intent (pget ipc_sched p) = pr_intent (pget demo_sched p)
   \<and> pr_sched_next (pget ipc_sched p) = pr_sched_next (pget demo_sched p) \<and> pr_pid (pget ipc_sched p) = pr_pid (pget demo_sched p)"
proof -
  consider "p = 4" | "p = 0" | "p \<noteq> 4" "p \<noteq> 0" by blast
  then show ?thesis
  proof cases
    case 1
    then show ?thesis unfolding 1 ipc_pget(1) by simp
  next
    case 2
    then show ?thesis unfolding 2 ipc_pget(2) by simp
  next
    case 3
    then have "pget ipc_sched p = pget demo_sched p" unfolding ipc_sched_def by simp
    then show ?thesis by simp
  qed
qed

lemma zero_inbox_ok: "inbox_ok zero_inbox" "inbox_msgs zero_inbox = []" "inbox_ok (zero_inbox\<lparr>iq_waiting := True\<rparr>)"
  by (simp_all add: inbox_ok_def inbox_msgs_def zero_inbox_def zero_msg_def IPC_QUEUE_DEPTH_def IPC_MSG_PAYLOAD_def)

lemma ipc_sched_inv: "sched_inv ipc_sched demo_queues"
proof -
  have "g_queues ipc_sched = g_queues demo_sched" "length (g_proc_table ipc_sched) = length (g_proc_table demo_sched)"
    "g_current_proc ipc_sched = g_current_proc demo_sched"
    by (simp_all add: ipc_sched_def)
  then show ?thesis using demo_sched_inv sched_wf_cong [of ipc_sched demo_sched demo_queues] ipc_pget_fields by (simp add: sched_inv_def)
qed

lemma ipc_proc_get: "proc_get ipc_sched 5 = Some 4" "proc_get ipc_sched 1 = Some 0"
proof -
  have "proc_get ipc_sched p = proc_get demo_sched p" for p
  proof (rule proc_get_cong)
    show "length (g_proc_table ipc_sched) = length (g_proc_table demo_sched)" by (simp add: ipc_sched_def)
    show "pr_pid (pget ipc_sched i) = pr_pid (pget demo_sched i) \<and> (pr_state (pget ipc_sched i) = PROC_UNUSED) = (pr_state (pget demo_sched i) = PROC_UNUSED)" for i
      using ipc_pget_fields by simp
  qed
  then show "proc_get ipc_sched 5 = Some 4" "proc_get ipc_sched 1 = Some 0" using demo_proc_get by simp_all
qed

theorem ipc_fifo_witness:
  "\<exists>k' qs'. ipc_send 5 (Some hello_msg) ipc_kernel = (0, k') \<and> inbox_msgs (k_inbox k' 0x8000) = [(1, 7, [104, 105])]
     \<and> pr_state (pget (k_sched k') 4) = PROC_READY \<and> queued qs' 4 \<and> sched_inv (k_sched k') qs'
     \<and> ipc_recv_nb (Some hello_msg) ipc_kernel = (-1, Some hello_msg, ipc_kernel\<lparr>k_sched := sti ipc_sched\<rparr>)"
proof -
  have s: "k_sched ipc_kernel = ipc_sched" by (simp add: ipc_kernel_def)
  have i: "k_inbox ipc_kernel 0x8000 = zero_inbox\<lparr>iq_waiting := True\<rparr>" "k_inbox ipc_kernel 0x9000 = zero_inbox"
    by (simp_all add: ipc_kernel_def)
  have v: "msg_view (msg_cut hello_msg) = (1, 7, [104, 105])" "length (im_data hello_msg) = IPC_MSG_PAYLOAD"
    by (simp_all add: msg_view_def msg_cut_def hello_msg_def IPC_MSG_PAYLOAD_def min_def)
  have p: "pr_state (pget ipc_sched 4) = PROC_BLOCKED" "pr_ipc (pget ipc_sched 4) = 0x8000" "pr_ipc (pget ipc_sched 0) = 0x9000"
    using ipc_pget by (simp_all add: demo_pget [simplified] demo_table_def)
  have c: "(0x8000 :: u64) \<noteq> 0" "(0x9000 :: u64) \<noteq> 0" by simp_all
  have e: "inbox_msgs (zero_inbox\<lparr>iq_waiting := True\<rparr>) = []" using zero_inbox_ok(2) by simp
  have nz: "pr_state (pget ipc_sched 4) \<noteq> PROC_ZOMBIE" using p(1) by simp
  note f = ipc_fifo [of ipc_kernel demo_queues 5 4 "0x8000" hello_msg 0 "0x9000" hello_msg, unfolded s i e zero_inbox_ok(2),
      OF ipc_sched_inv ipc_proc_get(1) nz p(2) c(1) zero_inbox_ok(3) v(2) ipc_pget(3) p(3) c(2) zero_inbox_ok(1)]
  have w: "iq_waiting (zero_inbox\<lparr>iq_waiting := True\<rparr>)" "length ([] :: (u32 \<times> u32 \<times> u8 list) list) < IPC_QUEUE_DEPTH"
    by (simp_all add: IPC_QUEUE_DEPTH_def)
  show ?thesis using f w unfolding v(1) append_Nil if_P [OF w(2)] list.case by blast
qed

text \<open>
  C28.  A blocked receiver gets its message.  Whatever the other processes do while it waits, as soon as
  its inbox is not empty at one of its turns, \<^verbatim>\<open>ipc_recv\<close> returns \<open>0\<close> with the first message of the inbox
  at that turn and removes exactly this one.
\<close>

theorem ipc_recv_delivers:
  assumes "g_current_proc (k_sched k) = Some self" and "pr_ipc (pget (k_sched k) self) = a" and "a \<noteq> 0"
    and "recv_state yield self a 0 j k = Some kj" and "inbox_msgs (k_inbox kj a) \<noteq> []"
    and "\<forall>i \<le> j. \<forall>ki. recv_state yield self a 0 i k = Some ki \<longrightarrow> inbox_ok (k_inbox ki a)"
  shows "\<exists>i \<le> j. \<exists>ki m k'. recv_state yield self a 0 i k = Some ki \<and> ipc_recv yield (Some out) k = Some (0, Some m, k')
     \<and> inbox_msgs (k_inbox ki a) = msg_view m # inbox_msgs (k_inbox k' a) \<and> inbox_ok (k_inbox k' a)"
proof -
  have "0 < iq_count (k_inbox kj a)" using assms(5) by (auto simp: inbox_msgs_def word_gt_0)
  from recv_loop_returns [OF assms(4) this]
  obtain i ki where i: "i \<le> j" "recv_state yield self a 0 i k = Some ki" "0 < iq_count (k_inbox ki a)"
    "recv_loop yield self a 0 k = Some (fst (inbox_pop (k_inbox ki a)),
          ki\<lparr>k_sched := sti (k_sched ki), k_inbox := (k_inbox ki)(a := snd (inbox_pop (k_inbox ki a)))\<rparr>)" by blast
  let ?k' = "ki\<lparr>k_sched := sti (k_sched ki), k_inbox := (k_inbox ki)(a := snd (inbox_pop (k_inbox ki a)))\<rparr>"
  have "ipc_recv yield (Some out) k = Some (0, Some (fst (inbox_pop (k_inbox ki a))), ?k')"
    using assms(1-3) i(4) by (simp add: ipc_recv_def Let_def)
  moreover have "inbox_ok (k_inbox ki a)" using assms(6) i(1,2) by blast
  note inbox_pop_ok [OF this i(3)]
  ultimately show ?thesis using i(1,2)
    by (intro exI [of _ i] conjI exI [of _ ki] exI [of _ "fst (inbox_pop (k_inbox ki a))"] exI [of _ ?k']) simp_all
qed

text \<open>Process 0 waits on its empty inbox; process 1 sends to it.\<close>

theorem ipc_recv_delivers_witness:
  "\<exists>m k'. ipc_recv (\<lambda>n k. Some (snd (ipc_send 1 (Some hello_msg) k))) (Some zero_msg) ipc_kernel = Some (0, Some m, k')
     \<and> msg_view m = (1, 7, [104, 105])"
proof -
  let ?y = "\<lambda>n k. Some (snd (ipc_send 1 (Some hello_msg) k))"
  have s: "k_sched ipc_kernel = ipc_sched" "k_inbox ipc_kernel 0x9000 = zero_inbox" by (simp_all add: ipc_kernel_def)
  have p: "pr_ipc (pget ipc_sched 0) = 0x9000" "g_current_proc ipc_sched = Some 0" using ipc_pget by simp_all
  define b1 where "b1 = zero_inbox\<lparr>iq_waiting := True\<rparr>"
  define s1 where "s1 = sti (pset 0 (\<lambda>r. r\<lparr>pr_state := PROC_BLOCKED\<rparr>) (cli ipc_sched))"
  define k1 where "k1 = ipc_kernel\<lparr>k_sched := s1, k_inbox := (k_inbox ipc_kernel)(0x9000 := b1)\<rparr>"
  have turn: "recv_turn 0 0x9000 ipc_kernel = (None, k1)"
  proof -
    have "\<not> 0 < iq_count (k_inbox ipc_kernel 0x9000)" unfolding s(2) by (simp add: zero_inbox_def)
    then show ?thesis unfolding recv_turn_def Let_def k1_def s1_def b1_def s by simp
  qed
  have inv1: "sched_inv (k_sched k1) demo_queues"
  proof -
    have "pr_state (pget (cli ipc_sched) 0) \<noteq> PROC_READY" using ipc_pget_fields [of 0] by (simp add: demo_pget [simplified] demo_table_def)
    then have "sched_inv (pset 0 (\<lambda>r. r\<lparr>pr_state := PROC_BLOCKED\<rparr>) (cli ipc_sched)) demo_queues"
      using ipc_sched_inv by (intro block_inv) (simp_all add: MAX_PROCESSES_def)
    then show ?thesis by (simp add: k1_def s1_def)
  qed
  have l: "0 < length (g_proc_table ipc_sched)" using ipc_sched_inv by (simp add: sched_inv_def sched_wf_def MAX_PROCESSES_def)
  have g: "pget s1 i = (if i = 0 then (pget ipc_sched 0)\<lparr>pr_state := PROC_BLOCKED\<rparr> else pget ipc_sched i)" for i
    using l by (simp add: s1_def pget_pset cli_def)
  have pg: "proc_get s1 1 = Some 0"
  proof -
    have "pr_state (pget ipc_sched 0) \<noteq> PROC_UNUSED" using ipc_pget_fields [of 0] by (simp add: demo_pget [simplified] demo_table_def)
    moreover have "length (g_proc_table s1) = length (g_proc_table ipc_sched)" by (simp add: s1_def sti_def cli_def)
    ultimately have "proc_get s1 1 = proc_get ipc_sched 1" using g by (intro proc_get_cong) auto
    then show ?thesis using ipc_proc_get(2) by simp
  qed
  have k1: "k_sched k1 = s1" "k_inbox k1 0x9000 = b1" by (simp_all add: k1_def)
  have d1: "pr_state (pget s1 0) \<noteq> PROC_ZOMBIE" "pr_ipc (pget s1 0) = 0x9000" using g p by simp_all
  have ok1: "inbox_ok b1" "inbox_msgs b1 = []" using zero_inbox_ok by (simp_all add: b1_def)
  have v: "msg_view (msg_cut hello_msg) = (1, 7, [104, 105])" "length (im_data hello_msg) = IPC_MSG_PAYLOAD"
    by (simp_all add: msg_view_def msg_cut_def hello_msg_def IPC_MSG_PAYLOAD_def min_def)
  obtain k2 where k2: "ipc_send 1 (Some hello_msg) k1 = (0, k2)" "inbox_ok (k_inbox k2 0x9000)" "inbox_msgs (k_inbox k2 0x9000) = [(1, 7, [104, 105])]"
  proof -
    have r: "length (inbox_msgs (k_inbox k1 0x9000)) < IPC_QUEUE_DEPTH" "(0x9000 :: u64) \<noteq> 0" using ok1 by (simp_all add: k1 IPC_QUEUE_DEPTH_def)
    have "\<exists>k2. ipc_send 1 (Some hello_msg) k1 = (0, k2) \<and> inbox_ok (k_inbox k2 0x9000) \<and> inbox_msgs (k_inbox k2 0x9000) = inbox_msgs b1 @ [msg_view (msg_cut hello_msg)]"
      using ipc_send_delivers [OF inv1, of 1 0 "0x9000" hello_msg] pg d1 r ok1(1) v(2) unfolding k1 by blast
    then show ?thesis using that ok1(2) v(1) by auto
  qed
  have st0: "recv_state ?y 0 0x9000 0 0 ipc_kernel = Some ipc_kernel" by simp
  have st1: "recv_state ?y 0 0x9000 0 (Suc 0) ipc_kernel = Some k2" using turn k2(1) by simp
  have oks: "inbox_ok (k_inbox ki 0x9000)" if "i \<le> Suc 0" "recv_state ?y 0 0x9000 0 i ipc_kernel = Some ki" for i ki
  proof (cases i)
    case 0
    then have "ki = ipc_kernel" using that(2) by simp
    then show ?thesis using s(2) zero_inbox_ok(1) by simp
  next
    case (Suc l)
    then have "i = Suc 0" using that(1) by simp
    then have "ki = k2" using that(2) st1 by (simp only: option.inject)
    then show ?thesis using k2(2) by simp
  qed
  have c: "g_current_proc (k_sched ipc_kernel) = Some 0" "pr_ipc (pget (k_sched ipc_kernel) 0) = 0x9000" "(0x9000 :: u64) \<noteq> 0"
    using p s by simp_all
  have ne: "inbox_msgs (k_inbox k2 0x9000) \<noteq> []" using k2(3) by simp
  from ipc_recv_delivers [where yield = ?y and self = 0 and a = "0x9000" and j = "Suc 0" and k = ipc_kernel and kj = k2 and out = zero_msg,
      OF c st1 ne] oks
  obtain i ki m k' where r: "i \<le> Suc 0" "recv_state ?y 0 0x9000 0 i ipc_kernel = Some ki"
    "ipc_recv ?y (Some zero_msg) ipc_kernel = Some (0, Some m, k')"
    "inbox_msgs (k_inbox ki 0x9000) = msg_view m # inbox_msgs (k_inbox k' 0x9000)"
    by blast
  have "i \<noteq> 0"
  proof
    assume "i = 0"
    then have "ki = ipc_kernel" using r(2) by simp
    then show False using r(4) s(2) zero_inbox_ok(2) by simp
  qed
  then have "i = Suc 0" using r(1) by simp
  then have "ki = k2" using r(2) st1 by (simp only: option.inject)
  then show ?thesis using r(3,4) k2(3) by auto
qed

end
