(* ===== verification/Fim.thy ===== *)
theory Fim
  imports Kernel_Prelude
begin

text \<open>
  File integrity monitoring (\<^verbatim>\<open>kernel/cnsl/fim.c\<close>): the table of watched paths and the two hooks the
  file system calls.  An alert, which the code prints on the serial line, is a value.
\<close>

datatype fim_severity = FIM_SEV_MEDIUM | FIM_SEV_HIGH | FIM_SEV_CRITICAL

datatype fim_event = FIM_EVENT_WRITE | FIM_EVENT_CREATE | FIM_EVENT_DELETE

record fim_watch =
  fw_path :: string
  fw_is_prefix :: bool
  fw_severity :: fim_severity
  fw_reason :: string

definition watch :: "string \<Rightarrow> bool \<Rightarrow> fim_severity \<Rightarrow> string \<Rightarrow> fim_watch" where
  "watch p pre sev r = \<lparr>fw_path = p, fw_is_prefix = pre, fw_severity = sev, fw_reason = r\<rparr>"

definition g_watched :: "fim_watch list" where
  "g_watched =
     [watch ''/etc/passwd'' False FIM_SEV_CRITICAL ''user account modified'',
      watch ''/etc/shadow'' False FIM_SEV_CRITICAL ''password hashes modified'',
      watch ''/etc/sudoers'' False FIM_SEV_CRITICAL ''sudo config modified'',
      watch ''/etc/ssh/sshd_config'' False FIM_SEV_CRITICAL ''SSH daemon config modified'',
      watch ''/root/.ssh/'' True FIM_SEV_CRITICAL ''root SSH key modified'',
      watch ''/etc/ld.so.preload'' False FIM_SEV_CRITICAL ''library preload modified (rootkit?)'',
      watch ''/etc/crontab'' False FIM_SEV_HIGH ''crontab modified'',
      watch ''/etc/cron.d/'' True FIM_SEV_HIGH ''cron job modified'',
      watch ''/etc/hosts'' False FIM_SEV_HIGH ''hosts file modified (DNS hijack?)'',
      watch ''/bin/bash'' False FIM_SEV_HIGH ''bash binary modified'',
      watch ''/sbin/init'' False FIM_SEV_HIGH ''init binary modified'',
      watch ''/etc/fstab'' False FIM_SEV_MEDIUM ''fstab modified'',
      watch ''/etc/resolv.conf'' False FIM_SEV_MEDIUM ''DNS resolver modified'']"

text \<open>A string ends with the character 0, which is not part of the list.\<close>

definition c_char :: "string \<Rightarrow> nat \<Rightarrow> nat" where
  "c_char s i = (if i < length s then of_char (s ! i) else 0)"

function k_strncmp_from :: "nat \<Rightarrow> string \<Rightarrow> string \<Rightarrow> nat \<Rightarrow> int" where
  "k_strncmp_from i a b n =
     (if i < n then
        (if c_char a i \<noteq> c_char b i then int (c_char a i) - int (c_char b i)
         else if c_char a i = 0 then 0
         else k_strncmp_from (i + 1) a b n)
      else 0)"
  by pat_completeness auto
termination by (relation "measure (\<lambda>(i, a, b, n). n - i)") auto

definition k_strncmp :: "string \<Rightarrow> string \<Rightarrow> nat \<Rightarrow> int" where
  "k_strncmp a b n = k_strncmp_from 0 a b n"

definition fim_matches :: "string \<Rightarrow> fim_watch \<Rightarrow> bool" where
  "fim_matches path w =
     (if fw_is_prefix w then k_strncmp path (fw_path w) (length (fw_path w)) = 0 else path = fw_path w)"

definition fim_match :: "string \<Rightarrow> fim_watch option" where
  "fim_match path = (case filter (fim_matches path) g_watched of [] \<Rightarrow> None | w # _ \<Rightarrow> Some w)"

record fim_alert =
  fa_watch :: fim_watch
  fa_path :: string
  fa_event :: fim_event

definition fim_hook :: "fim_event \<Rightarrow> string \<Rightarrow> bool \<times> fim_alert option" where
  "fim_hook ev path =
     (case fim_match path of
        None \<Rightarrow> (False, None)
      | Some w \<Rightarrow> (fw_severity w = FIM_SEV_CRITICAL, Some \<lparr>fa_watch = w, fa_path = path, fa_event = ev\<rparr>))"

definition fim_on_write :: "string \<Rightarrow> bool \<times> fim_alert option" where
  "fim_on_write path = fim_hook FIM_EVENT_WRITE path"

definition fim_on_create :: "string \<Rightarrow> bool \<times> fim_alert option" where
  "fim_on_create path = fim_hook FIM_EVENT_CREATE path"

declare k_strncmp_from.simps [simp del]

lemma k_strncmp_prefix:
  assumes "CHR 0x00 \<notin> set b"
  shows "k_strncmp a b (length b) = 0 \<longleftrightarrow> take (length b) a = b"
proof -
  have pos: "c_char b i \<noteq> 0" if "i < length b" for i
  proof
    assume "c_char b i = 0"
    then have "b ! i = CHR 0x00" using that of_char_eq_iff [of "b ! i" "CHR 0x00", where 'a = nat] by (simp add: c_char_def)
    then show False using assms that nth_mem [of i b] by simp
  qed
  have "k_strncmp_from i a b (length b) = 0 \<longleftrightarrow> (\<forall>j. i \<le> j \<longrightarrow> j < length b \<longrightarrow> c_char a j = c_char b j)" for i
  proof (induction "length b - i" arbitrary: i)
    case 0
    then show ?case by (subst k_strncmp_from.simps) auto
  next
    case (Suc d)
    then have "i < length b" "d = length b - (i + 1)" by auto
    with Suc.hyps(1) [of "i + 1"] pos [of i] show ?case
      by (subst k_strncmp_from.simps) (auto simp: Suc_le_eq dest: le_neq_implies_less)
  qed
  moreover have "(\<forall>j. j < length b \<longrightarrow> c_char a j = c_char b j) \<longleftrightarrow> take (length b) a = b"
  proof
    assume e: "\<forall>j. j < length b \<longrightarrow> c_char a j = c_char b j"
    have l: "length b \<le> length a"
    proof (rule ccontr)
      assume "\<not> length b \<le> length a"
      then have "c_char a (length a) = c_char b (length a)" "c_char b (length a) \<noteq> 0" using e pos [of "length a"] by auto
      then show False by (simp add: c_char_def)
    qed
    have "a ! j = b ! j" if "j < length b" for j using e that l by (simp add: c_char_def)
    then show "take (length b) a = b" using l by (intro nth_equalityI) simp_all
  next
    assume t: "take (length b) a = b"
    then have l: "length b \<le> length a" by (metis length_take min.cobounded1)
    then show "\<forall>j. j < length b \<longrightarrow> c_char a j = c_char b j" using t by (auto simp: c_char_def) (metis nth_take)
  qed
  ultimately show ?thesis by (simp add: k_strncmp_def)
qed

text \<open>Every watched path is absolute, so a bare file name matches none.\<close>

lemma g_watched_paths: "w \<in> set g_watched \<Longrightarrow> \<exists>p. fw_path w = CHR ''/'' # p \<and> CHR 0x00 \<notin> set (fw_path w)"
  by (auto simp: g_watched_def watch_def)

lemma fim_match_relative:
  assumes "\<forall>p. path \<noteq> CHR ''/'' # p"
  shows "fim_match path = None"
proof -
  have "\<not> fim_matches path w" if w: "w \<in> set g_watched" for w
  proof -
    obtain p where p: "fw_path w = CHR ''/'' # p" "CHR 0x00 \<notin> set (fw_path w)" using g_watched_paths [OF w] by blast
    have "take (length (fw_path w)) path \<noteq> fw_path w" using p(1) assms by (cases path) auto
    then show ?thesis using k_strncmp_prefix [OF p(2), of path] p(1) assms by (auto simp: fim_matches_def)
  qed
  then have "filter (fim_matches path) g_watched = []" by (simp add: filter_empty_conv)
  then show ?thesis by (simp add: fim_match_def)
qed

lemma fim_match_watched:
  "fim_match path = Some w \<Longrightarrow> w \<in> set g_watched \<and>
     (if fw_is_prefix w then take (length (fw_path w)) path = fw_path w else path = fw_path w)"
proof -
  assume m: "fim_match path = Some w"
  then obtain ws where "filter (fim_matches path) g_watched = w # ws" by (auto simp: fim_match_def split: list.splits)
  then have "w \<in> set (filter (fim_matches path) g_watched)" by simp
  then have w: "w \<in> set g_watched" "fim_matches path w" by simp_all
  obtain p where "CHR 0x00 \<notin> set (fw_path w)" using g_watched_paths [OF w(1)] by blast
  then show ?thesis using w k_strncmp_prefix [of "fw_path w" path] by (simp add: fim_matches_def split: if_splits)
qed

end
