(* ===== verification/Cnsl.thy ===== *)
theory Cnsl
  imports Audit_Log
begin

text \<open>
  The security policy engine (\<^verbatim>\<open>kernel/cnsl/cnsl.c\<close>): events are kept per source address in a ring of
  64, six correlation rules may block the address, and a block lasts 30 minutes.  The counters and
  ring indices of the code never exceed 256 and are natural numbers here.  The abstract state of the
  block table is the list of blocked addresses with the time their block ends.
\<close>

definition CNSL_KIND_SSH_FAIL :: nat where "CNSL_KIND_SSH_FAIL = 0"
definition CNSL_KIND_SSH_SUCCESS :: nat where "CNSL_KIND_SSH_SUCCESS = 1"
definition CNSL_KIND_DB_AUTH_FAIL :: nat where "CNSL_KIND_DB_AUTH_FAIL = 2"
definition CNSL_KIND_WEB_SCAN :: nat where "CNSL_KIND_WEB_SCAN = 3"
definition CNSL_KIND_WEB_EXPLOIT :: nat where "CNSL_KIND_WEB_EXPLOIT = 4"
definition CNSL_KIND_WEB_AUTH_FAIL :: nat where "CNSL_KIND_WEB_AUTH_FAIL = 5"
definition CNSL_KIND_FW_HONEYPOT_PORT :: nat where "CNSL_KIND_FW_HONEYPOT_PORT = 6"
definition CNSL_KIND_SUDO_FAIL :: nat where "CNSL_KIND_SUDO_FAIL = 7"
definition CNSL_KIND_SU_FAIL :: nat where "CNSL_KIND_SU_FAIL = 8"
definition CNSL_KIND_COUNT :: nat where "CNSL_KIND_COUNT = 9"
definition CNSL_BLOCK_DURATION :: u64 where "CNSL_BLOCK_DURATION = 1800"

definition CNSL_MAX_IPS :: nat where "CNSL_MAX_IPS = 256"
definition CNSL_EVENT_BUF :: nat where "CNSL_EVENT_BUF = 64"
definition CNSL_BLOCK_TABLE :: nat where "CNSL_BLOCK_TABLE = 64"
definition CNSL_WINDOW_SHORT :: u64 where "CNSL_WINDOW_SHORT = 180"
definition CNSL_WINDOW_MEDIUM :: u64 where "CNSL_WINDOW_MEDIUM = 300"
definition CNSL_WINDOW_LONG :: u64 where "CNSL_WINDOW_LONG = 600"
definition CNSL_WINDOW_RECON :: u64 where "CNSL_WINDOW_RECON = 1800"
definition CNSL_COOLDOWN :: u64 where "CNSL_COOLDOWN = 120"
definition CNSL_NUM_RULES :: nat where "CNSL_NUM_RULES = 6"

record cnsl_event =
  ev_ts :: u64
  ev_kind :: nat

record ip_buf =
  ib_ip :: u32
  ib_events :: "cnsl_event list"
  ib_head :: nat
  ib_count :: nat
  ib_last_alert_ts :: "u64 list"

record block_entry =
  bk_ip :: u32
  bk_active :: bool
  bk_unblock_at :: u64

record cnsl =
  g_ip_table :: "ip_buf list"
  g_block_table :: "block_entry list"
  g_ip_count :: nat
  g_block_count :: nat
  cn_uptime :: u64
  cn_audit :: audit_state

text \<open>\<open>NOW()\<close>: the 100 Hz tick counter in seconds.\<close>

definition NOW :: "cnsl \<Rightarrow> u64" where "NOW c = cn_uptime c div 100"

definition zero_ip_buf :: ip_buf where
  "zero_ip_buf = \<lparr>ib_ip = 0, ib_events = replicate CNSL_EVENT_BUF \<lparr>ev_ts = 0, ev_kind = 0\<rparr>, ib_head = 0, ib_count = 0,
     ib_last_alert_ts = replicate CNSL_NUM_RULES 0\<rparr>"

definition cnsl_init :: "cnsl \<Rightarrow> cnsl" where
  "cnsl_init c = c\<lparr>g_ip_table := replicate CNSL_MAX_IPS zero_ip_buf,
     g_block_table := replicate CNSL_BLOCK_TABLE \<lparr>bk_ip = 0, bk_active = False, bk_unblock_at = 0\<rparr>,
     g_ip_count := 0, g_block_count := 0\<rparr>"

definition find_or_create_buf :: "u32 \<Rightarrow> cnsl \<Rightarrow> nat option \<times> cnsl" where
  "find_or_create_buf ip c =
     (case first_idx (\<lambda>b. ib_ip b = ip) (take (g_ip_count c) (g_ip_table c)) of
        Some i \<Rightarrow> (Some i, c)
      | None \<Rightarrow>
          if CNSL_MAX_IPS \<le> g_ip_count c then (None, c)
          else (Some (g_ip_count c),
                c\<lparr>g_ip_table := (g_ip_table c)[g_ip_count c := zero_ip_buf\<lparr>ib_ip := ip\<rparr>], g_ip_count := g_ip_count c + 1\<rparr>))"

definition event_in_window :: "cnsl \<Rightarrow> u64 \<Rightarrow> u64 \<Rightarrow> bool" where
  "event_in_window c ts window_sec = (let now = NOW c in if now < ts then False else now - ts \<le> window_sec)"

definition count_kind :: "cnsl \<Rightarrow> ip_buf \<Rightarrow> nat \<Rightarrow> u64 \<Rightarrow> nat" where
  "count_kind c b kind window_sec =
     length (filter (\<lambda>ev. event_in_window c (ev_ts ev) window_sec \<and> ev_kind ev = kind) (take (ib_count b) (ib_events b)))"

definition kind_group :: "nat \<Rightarrow> u8" where
  "kind_group kind =
     (if kind = CNSL_KIND_SSH_FAIL \<or> kind = CNSL_KIND_SSH_SUCCESS then push_bit 0 1
      else if kind = CNSL_KIND_WEB_SCAN \<or> kind = CNSL_KIND_WEB_EXPLOIT \<or> kind = CNSL_KIND_WEB_AUTH_FAIL then push_bit 1 1
      else push_bit 2 1)"

definition count_window_stats :: "cnsl \<Rightarrow> ip_buf \<Rightarrow> u64 \<Rightarrow> nat \<times> u16 \<times> u8" where
  "count_window_stats c b window_sec =
     fold (\<lambda>ev (total, kinds, groups).
         if \<not> event_in_window c (ev_ts ev) window_sec then (total, kinds, groups)
         else (total + 1, kinds OR push_bit (ev_kind ev) 1, groups OR kind_group (ev_kind ev)))
       (take (ib_count b) (ib_events b)) (0, 0, 0)"

function popcount16 :: "u16 \<Rightarrow> nat" where
  "popcount16 v = (if v = 0 then 0 else unat (v AND 1) + popcount16 (drop_bit 1 v))"
  by pat_completeness auto
termination
proof (relation "measure unat")
  fix v :: u16
  assume "v \<noteq> 0"
  then show "(drop_bit 1 v, v) \<in> measure unat"
    using unat_eq_0 [of v] by (simp add: unat_drop_bit_eq drop_bit_eq_div [where 'a = nat])
qed simp

definition do_block :: "u32 \<Rightarrow> cnsl \<Rightarrow> cnsl" where
  "do_block ip c =
     (let live = take (g_block_count c) (g_block_table c) in
      if \<exists>e \<in> set live. bk_ip e = ip \<and> bk_active e then c
      else
        (case first_idx (\<lambda>e. \<not> bk_active e) live of
           Some slot \<Rightarrow>
             c\<lparr>g_block_table := (g_block_table c)[slot := \<lparr>bk_ip = ip, bk_active = True, bk_unblock_at = NOW c + CNSL_BLOCK_DURATION\<rparr>],
               cn_audit := audit_record AUDIT_CNSL_BLOCK 0 (ucast ip) 0 (cn_audit c)\<rparr>
         | None \<Rightarrow>
             if CNSL_BLOCK_TABLE \<le> g_block_count c then c
             else c\<lparr>g_block_table := (g_block_table c)[g_block_count c := \<lparr>bk_ip = ip, bk_active = True, bk_unblock_at = NOW c + CNSL_BLOCK_DURATION\<rparr>],
                    g_block_count := g_block_count c + 1,
                    cn_audit := audit_record AUDIT_CNSL_BLOCK 0 (ucast ip) 0 (cn_audit c)\<rparr>))"

definition bget :: "cnsl \<Rightarrow> nat \<Rightarrow> ip_buf" where "bget c i = g_ip_table c ! i"

definition check_cooldown :: "nat \<Rightarrow> nat \<Rightarrow> cnsl \<Rightarrow> bool \<times> cnsl" where
  "check_cooldown i rule_idx c =
     (let now = NOW c; last = ib_last_alert_ts (bget c i) ! rule_idx in
      if last \<noteq> 0 \<and> last \<le> now \<and> now - last < CNSL_COOLDOWN then (False, c)
      else (True, c\<lparr>g_ip_table := (g_ip_table c)[i := (bget c i)\<lparr>ib_last_alert_ts := (ib_last_alert_ts (bget c i))[rule_idx := now]\<rparr>]\<rparr>))"

definition rule_honeypot_ssh :: "nat \<Rightarrow> u32 \<Rightarrow> cnsl \<Rightarrow> bool \<times> cnsl" where
  "rule_honeypot_ssh i ip c =
     (let (ready, c) = check_cooldown i 0 c in
      if \<not> ready then (False, c)
      else if 1 \<le> count_kind c (bget c i) CNSL_KIND_FW_HONEYPOT_PORT CNSL_WINDOW_SHORT
           \<and> 1 \<le> count_kind c (bget c i) CNSL_KIND_SSH_FAIL CNSL_WINDOW_SHORT
      then (True, do_block ip c) else (False, c))"

definition rule_credential_spray :: "nat \<Rightarrow> u32 \<Rightarrow> cnsl \<Rightarrow> bool \<times> cnsl" where
  "rule_credential_spray i ip c =
     (let (ready, c) = check_cooldown i 1 c in
      if \<not> ready then (False, c)
      else if 3 \<le> count_kind c (bget c i) CNSL_KIND_SSH_FAIL CNSL_WINDOW_MEDIUM
           \<and> 2 \<le> count_kind c (bget c i) CNSL_KIND_DB_AUTH_FAIL CNSL_WINDOW_MEDIUM
      then (True, do_block ip c) else (False, c))"

definition rule_web_recon_ssh :: "nat \<Rightarrow> u32 \<Rightarrow> cnsl \<Rightarrow> bool \<times> cnsl" where
  "rule_web_recon_ssh i ip c =
     (let (ready, c) = check_cooldown i 2 c in
      if \<not> ready then (False, c)
      else
        (let web = count_kind c (bget c i) CNSL_KIND_WEB_SCAN CNSL_WINDOW_LONG
                   + count_kind c (bget c i) CNSL_KIND_WEB_EXPLOIT CNSL_WINDOW_LONG;
             ssh = count_kind c (bget c i) CNSL_KIND_SSH_FAIL CNSL_WINDOW_LONG
         in if 5 \<le> web \<and> 3 \<le> ssh then (True, do_block ip c) else (False, c)))"

definition rule_privesc :: "nat \<Rightarrow> u32 \<Rightarrow> cnsl \<Rightarrow> bool \<times> cnsl" where
  "rule_privesc i ip c =
     (let (ready, c) = check_cooldown i 3 c in
      if \<not> ready then (False, c)
      else
        (let ssh_ok = count_kind c (bget c i) CNSL_KIND_SSH_SUCCESS CNSL_WINDOW_MEDIUM;
             priv = count_kind c (bget c i) CNSL_KIND_SUDO_FAIL CNSL_WINDOW_MEDIUM
                    + count_kind c (bget c i) CNSL_KIND_SU_FAIL CNSL_WINDOW_MEDIUM
         in if 1 \<le> ssh_ok \<and> 2 \<le> priv then (True, do_block ip c) else (False, c)))"

definition rule_web_auth_flood :: "nat \<Rightarrow> u32 \<Rightarrow> cnsl \<Rightarrow> bool \<times> cnsl" where
  "rule_web_auth_flood i ip c =
     (let (ready, c) = check_cooldown i 4 c in
      if \<not> ready then (False, c)
      else if 15 \<le> count_kind c (bget c i) CNSL_KIND_WEB_AUTH_FAIL 120 then (True, do_block ip c) else (False, c))"

definition rule_anomaly_scan_window :: "nat \<Rightarrow> u32 \<Rightarrow> cnsl \<Rightarrow> bool \<times> cnsl" where
  "rule_anomaly_scan_window i ip c =
     (let (ready, c) = check_cooldown i 5 c in
      if \<not> ready then (False, c)
      else
        (let (total, kinds_mask, groups_mask) = count_window_stats c (bget c i) CNSL_WINDOW_RECON;
             unique_kinds = popcount16 kinds_mask;
             unique_groups = popcount16 (ucast groups_mask)
         in if 20 \<le> total \<and> 4 \<le> unique_kinds \<and> 3 \<le> unique_groups then (True, do_block ip c) else (False, c)))"

definition cnsl_is_blocked :: "u32 \<Rightarrow> cnsl \<Rightarrow> bool" where
  "cnsl_is_blocked ip c \<longleftrightarrow> (\<exists>e \<in> set (take (g_block_count c) (g_block_table c)). bk_ip e = ip \<and> bk_active e)"

definition cnsl_unblock :: "u32 \<Rightarrow> cnsl \<Rightarrow> bool \<times> cnsl" where
  "cnsl_unblock ip c =
     (case first_idx (\<lambda>e. bk_ip e = ip \<and> bk_active e) (take (g_block_count c) (g_block_table c)) of
        Some i \<Rightarrow> (True, c\<lparr>g_block_table := (g_block_table c)[i := (g_block_table c ! i)\<lparr>bk_active := False\<rparr>],
                           cn_audit := audit_record AUDIT_CNSL_UNBLOCK 0 (ucast ip) 0 (cn_audit c)\<rparr>)
      | None \<Rightarrow> (False, c))"

definition cnsl_get_block_ttl :: "u32 \<Rightarrow> cnsl \<Rightarrow> u64" where
  "cnsl_get_block_ttl ip c =
     (case first_idx (\<lambda>e. bk_ip e = ip \<and> bk_active e) (take (g_block_count c) (g_block_table c)) of
        Some i \<Rightarrow> (let u = bk_unblock_at (g_block_table c ! i) in if NOW c < u then u - NOW c else 0)
      | None \<Rightarrow> 0)"

definition expire_entry :: "nat \<Rightarrow> cnsl \<Rightarrow> cnsl" where
  "expire_entry i c =
     (let e = g_block_table c ! i in
      if bk_active e \<and> bk_unblock_at e \<le> NOW c then
        c\<lparr>g_block_table := (g_block_table c)[i := e\<lparr>bk_active := False\<rparr>],
          cn_audit := audit_record AUDIT_CNSL_UNBLOCK 0 (ucast (bk_ip e)) 0 (cn_audit c)\<rparr>
      else c)"

definition cnsl_tick :: "cnsl \<Rightarrow> cnsl" where
  "cnsl_tick c = fold expire_entry [0..<g_block_count c] c"

definition cnsl_list :: "nat \<Rightarrow> cnsl \<Rightarrow> (u32 \<times> u64) list" where
  "cnsl_list mx c =
     take mx (map (\<lambda>e. (bk_ip e, cnsl_get_block_ttl (bk_ip e) c)) (filter bk_active (take (g_block_count c) (g_block_table c))))"

text \<open>The rules in the order \<^verbatim>\<open>cnsl_ingest\<close> tries them, until one reports a block.\<close>

fun first_rule :: "(cnsl \<Rightarrow> bool \<times> cnsl) list \<Rightarrow> cnsl \<Rightarrow> bool \<times> cnsl" where
  "first_rule [] c = (False, c)"
| "first_rule (r # rs) c = (case r c of (fired, c) \<Rightarrow> if fired then (True, c) else first_rule rs c)"

definition record_event :: "nat \<Rightarrow> nat \<Rightarrow> cnsl \<Rightarrow> cnsl" where
  "record_event i kind c =
     (let b = bget c i;
          b' = b\<lparr>ib_events := (ib_events b)[ib_head b := \<lparr>ev_ts = NOW c, ev_kind = kind\<rparr>],
                 ib_head := (ib_head b + 1) mod CNSL_EVENT_BUF,
                 ib_count := (if ib_count b < CNSL_EVENT_BUF then ib_count b + 1 else ib_count b)\<rparr>
      in c\<lparr>g_ip_table := (g_ip_table c)[i := b']\<rparr>)"

definition cnsl_ingest :: "u32 \<Rightarrow> nat \<Rightarrow> cnsl \<Rightarrow> bool \<times> cnsl" where
  "cnsl_ingest src_ip kind c =
     (if CNSL_KIND_COUNT \<le> kind then (False, c)
      else
        (let c = cnsl_tick c in
         if cnsl_is_blocked src_ip c then (True, c)
         else
           (case find_or_create_buf src_ip c of
              (None, c) \<Rightarrow> (False, c)
            | (Some i, c) \<Rightarrow>
                first_rule
                  [rule_honeypot_ssh i src_ip, rule_credential_spray i src_ip, rule_web_recon_ssh i src_ip,
                   rule_privesc i src_ip, rule_web_auth_flood i src_ip, rule_anomaly_scan_window i src_ip]
                  (record_event i kind c))))"

subsection \<open>The block table as a partial map\<close>

definition blocked_until :: "cnsl \<Rightarrow> u32 \<Rightarrow> u64 option" where
  "blocked_until c ip =
     map_option (\<lambda>i. bk_unblock_at (g_block_table c ! i))
       (first_idx (\<lambda>e. bk_ip e = ip \<and> bk_active e) (take (g_block_count c) (g_block_table c)))"

definition cnsl_ok :: "cnsl \<Rightarrow> bool" where
  "cnsl_ok c \<longleftrightarrow> length (g_block_table c) = CNSL_BLOCK_TABLE \<and> g_block_count c \<le> CNSL_BLOCK_TABLE
     \<and> (\<forall>i < g_block_count c. \<forall>j < g_block_count c. bk_active (g_block_table c ! i) \<longrightarrow> bk_active (g_block_table c ! j)
          \<longrightarrow> bk_ip (g_block_table c ! i) = bk_ip (g_block_table c ! j) \<longrightarrow> i = j)"

definition block_at :: "cnsl \<Rightarrow> nat \<Rightarrow> u32 \<Rightarrow> u64 \<Rightarrow> bool" where
  "block_at c i ip u \<longleftrightarrow> i < g_block_count c \<and> bk_active (g_block_table c ! i) \<and> bk_ip (g_block_table c ! i) = ip
     \<and> bk_unblock_at (g_block_table c ! i) = u"

lemma blocked_until_iff:
  assumes ok: "cnsl_ok c"
  shows "blocked_until c ip = Some u \<longleftrightarrow> (\<exists>i. block_at c i ip u)"
proof -
  let ?P = "\<lambda>e. bk_ip e = ip \<and> bk_active e" and ?l = "take (g_block_count c) (g_block_table c)"
  have len: "length ?l = g_block_count c" using ok by (simp add: cnsl_ok_def)
  show ?thesis
  proof
    assume "blocked_until c ip = Some u"
    then obtain i where i: "first_idx ?P ?l = Some i" "u = bk_unblock_at (g_block_table c ! i)"
      by (auto simp: blocked_until_def)
    then show "\<exists>i. block_at c i ip u" using first_idx_SomeD [OF i(1)] len by (auto simp: block_at_def)
  next
    assume "\<exists>i. block_at c i ip u"
    then obtain i where i: "block_at c i ip u" ..
    have "first_idx ?P ?l = Some i"
    proof (rule first_idx_SomeI)
      show "i < length ?l" "?P (?l ! i)" using i len by (simp_all add: block_at_def)
      show "\<not> ?P (?l ! j)" if "j < i" for j
        using ok i len that unfolding cnsl_ok_def block_at_def by (metis less_trans nth_take order_less_irrefl)
    qed
    then show "blocked_until c ip = Some u" using i by (simp add: blocked_until_def block_at_def)
  qed
qed

lemma blocked_until_None:
  assumes "cnsl_ok c"
  shows "blocked_until c ip = None \<longleftrightarrow> (\<forall>i u. \<not> block_at c i ip u)"
  using blocked_until_iff [OF assms, of ip] by (metis not_None_eq)

lemma blocked_until_eqI:
  assumes "cnsl_ok c" and "\<And>u. (\<exists>i. block_at c i ip u) \<longleftrightarrow> r = Some u"
  shows "blocked_until c ip = r"
  using assms(2) blocked_until_iff [OF assms(1), of ip] by (metis not_None_eq)

lemma cnsl_is_blocked_iff: "cnsl_is_blocked ip c \<longleftrightarrow> blocked_until c ip \<noteq> None"
  by (auto simp: cnsl_is_blocked_def blocked_until_def first_idx_None)

lemma cnsl_ttl_eq:
  "cnsl_get_block_ttl ip c = (case blocked_until c ip of Some u \<Rightarrow> if NOW c < u then u - NOW c else 0 | None \<Rightarrow> 0)"
  by (simp add: cnsl_get_block_ttl_def blocked_until_def Let_def split: option.splits)

text \<open>Expiry.\<close>

definition expired :: "cnsl \<Rightarrow> block_entry \<Rightarrow> block_entry" where
  "expired c e = (if bk_active e \<and> bk_unblock_at e \<le> NOW c then e\<lparr>bk_active := False\<rparr> else e)"

lemma expired_sel [simp]:
  "bk_active (expired c e) \<longleftrightarrow> bk_active e \<and> \<not> bk_unblock_at e \<le> NOW c"
  "bk_ip (expired c e) = bk_ip e" "bk_unblock_at (expired c e) = bk_unblock_at e"
  by (auto simp: expired_def)

lemma expire_fold:
  "k \<le> length (g_block_table c) \<Longrightarrow> \<exists>a. fold expire_entry [0..<k] c =
     c\<lparr>g_block_table := map (expired c) (take k (g_block_table c)) @ drop k (g_block_table c), cn_audit := a\<rparr>"
proof (induction k)
  case 0
  then show ?case by (auto intro: exI [of _ "cn_audit c"])
next
  case (Suc k)
  let ?t = "\<lambda>k. map (expired c) (take k (g_block_table c)) @ drop k (g_block_table c)"
  obtain a where a: "fold expire_entry [0..<k] c = c\<lparr>g_block_table := ?t k, cn_audit := a\<rparr>" using Suc by auto
  have k: "k < length (g_block_table c)" using Suc.prems by simp
  have nth: "?t k ! k = g_block_table c ! k" using k by (simp add: nth_append)
  have upd: "(?t k)[k := expired c (g_block_table c ! k)] = ?t (Suc k)"
    using k by (simp add: list_update_append take_Suc_conv_app_nth Cons_nth_drop_Suc [symmetric])
  have same: "(?t k)[k := g_block_table c ! k] = ?t k" using nth by (metis list_update_id)
  have "\<exists>b. expire_entry k (c\<lparr>g_block_table := ?t k, cn_audit := a\<rparr>) = c\<lparr>g_block_table := ?t (Suc k), cn_audit := b\<rparr>"
  proof (cases "bk_active (g_block_table c ! k) \<and> bk_unblock_at (g_block_table c ! k) \<le> NOW c")
    case True
    then show ?thesis using nth upd by (auto simp: expire_entry_def Let_def expired_def NOW_def)
  next
    case False
    then have "expired c (g_block_table c ! k) = g_block_table c ! k" unfolding expired_def by (rule if_not_P)
    then have "?t (Suc k) = ?t k" using upd same by metis
    then show ?thesis using False nth by (auto simp: expire_entry_def Let_def NOW_def intro: exI [of _ a])
  qed
  then show ?case using a by simp
qed

lemma cnsl_tick_eq:
  assumes "cnsl_ok c"
  shows "\<exists>a. cnsl_tick c = c\<lparr>g_block_table := map (expired c) (take (g_block_count c) (g_block_table c))
     @ drop (g_block_count c) (g_block_table c), cn_audit := a\<rparr>"
  using expire_fold [of "g_block_count c" c] assms by (simp add: cnsl_tick_def cnsl_ok_def)

lemma cnsl_tick_refines:
  assumes ok: "cnsl_ok c"
  shows "cnsl_ok (cnsl_tick c)"
    and "blocked_until (cnsl_tick c) ip = (case blocked_until c ip of Some u \<Rightarrow> if u \<le> NOW c then None else Some u | None \<Rightarrow> None)"
    and "NOW (cnsl_tick c) = NOW c" "g_ip_table (cnsl_tick c) = g_ip_table c" "g_ip_count (cnsl_tick c) = g_ip_count c"
proof -
  obtain a where e: "cnsl_tick c = c\<lparr>g_block_table := map (expired c) (take (g_block_count c) (g_block_table c))
     @ drop (g_block_count c) (g_block_table c), cn_audit := a\<rparr>" using cnsl_tick_eq [OF ok] by blast
  have len: "length (g_block_table c) = CNSL_BLOCK_TABLE" "g_block_count c \<le> CNSL_BLOCK_TABLE" using ok by (simp_all add: cnsl_ok_def)
  have n: "g_block_table (cnsl_tick c) ! i = expired c (g_block_table c ! i)" if "i < g_block_count c" for i
    using that len by (simp add: e nth_append)
  have c: "g_block_count (cnsl_tick c) = g_block_count c" "length (g_block_table (cnsl_tick c)) = CNSL_BLOCK_TABLE" using len by (simp_all add: e)
  have at: "block_at (cnsl_tick c) i ip u \<longleftrightarrow> block_at c i ip u \<and> \<not> u \<le> NOW c" for i u ip
    using n [of i] c(1) by (auto simp: block_at_def)
  show ok': "cnsl_ok (cnsl_tick c)"
    using ok n c unfolding cnsl_ok_def by simp
  show "blocked_until (cnsl_tick c) ip = (case blocked_until c ip of Some u \<Rightarrow> if u \<le> NOW c then None else Some u | None \<Rightarrow> None)"
  proof (rule blocked_until_eqI [OF ok'])
    fix u
    have "(\<exists>i. block_at (cnsl_tick c) i ip u) \<longleftrightarrow> blocked_until c ip = Some u \<and> \<not> u \<le> NOW c"
      using blocked_until_iff [OF ok, of ip u] at by blast
    then show "(\<exists>i. block_at (cnsl_tick c) i ip u) \<longleftrightarrow>
        (case blocked_until c ip of Some u \<Rightarrow> if u \<le> NOW c then None else Some u | None \<Rightarrow> None) = Some u"
      by (auto split: option.splits)
  qed
  show "NOW (cnsl_tick c) = NOW c" "g_ip_table (cnsl_tick c) = g_ip_table c" "g_ip_count (cnsl_tick c) = g_ip_count c"
    by (simp_all add: e NOW_def)
qed

text \<open>Blocking and unblocking.  A table with 64 active entries takes no more.\<close>

definition block_full :: "cnsl \<Rightarrow> bool" where
  "block_full c \<longleftrightarrow> g_block_count c = CNSL_BLOCK_TABLE \<and> (\<forall>i < CNSL_BLOCK_TABLE. bk_active (g_block_table c ! i))"

lemma first_idx_takeD:
  assumes "first_idx P (take n xs) = Some i"
  shows "i < n" and "P (xs ! i)"
  using first_idx_SomeD [OF assms] by (auto simp: nth_take)

lemma block_unique: "cnsl_ok c \<Longrightarrow> block_at c i a u \<Longrightarrow> block_at c j a v \<Longrightarrow> i = j"
  unfolding cnsl_ok_def block_at_def by metis

lemma cnsl_okI:
  assumes "length (g_block_table c) = CNSL_BLOCK_TABLE" and "g_block_count c \<le> CNSL_BLOCK_TABLE"
    and "\<And>i j a u v. block_at c i a u \<Longrightarrow> block_at c j a v \<Longrightarrow> i = j"
  shows "cnsl_ok c"
  using assms unfolding cnsl_ok_def block_at_def by blast

lemma put_block:
  assumes ok: "cnsl_ok c" and new: "blocked_until c ip = None"
    and slot: "slot < CNSL_BLOCK_TABLE" "slot < g_block_count c \<and> \<not> bk_active (g_block_table c ! slot) \<and> n = g_block_count c
       \<or> slot = g_block_count c \<and> n = g_block_count c + 1"
    and c': "g_block_table c' = (g_block_table c)[slot := \<lparr>bk_ip = ip, bk_active = True, bk_unblock_at = u\<rparr>]" "g_block_count c' = n"
  shows "cnsl_ok c'" and "blocked_until c' = (blocked_until c)(ip \<mapsto> u)"
proof -
  have len: "length (g_block_table c) = CNSL_BLOCK_TABLE" "g_block_count c \<le> CNSL_BLOCK_TABLE" using ok by (simp_all add: cnsl_ok_def)
  have nth: "g_block_table c' ! i = (if i = slot then \<lparr>bk_ip = ip, bk_active = True, bk_unblock_at = u\<rparr> else g_block_table c ! i)" for i
    using slot(1) len by (auto simp: c'(1) nth_list_update)
  have at: "block_at c' i a v \<longleftrightarrow> (if i = slot then a = ip \<and> v = u else block_at c i a v)" for i a v
    using slot(2) nth [of i] c'(2) by (auto simp: block_at_def)
  have nb: "\<not> block_at c i ip v" for i v using new blocked_until_None [OF ok] by simp
  have nslot: "\<not> block_at c slot a v" for a v using slot(2) by (auto simp: block_at_def)
  show ok': "cnsl_ok c'"
  proof (rule cnsl_okI)
    show "length (g_block_table c') = CNSL_BLOCK_TABLE" "g_block_count c' \<le> CNSL_BLOCK_TABLE" using len slot c' by auto
    show "i = j" if "block_at c' i a x" "block_at c' j a y" for i j a x y
      using that nb block_unique [OF ok, of i a x j y] unfolding at by (auto split: if_splits)
  qed
  show "blocked_until c' = (blocked_until c)(ip \<mapsto> u)"
  proof (rule ext, rule blocked_until_eqI [OF ok'])
    fix a v
    show "(\<exists>i. block_at c' i a v) \<longleftrightarrow> ((blocked_until c)(ip \<mapsto> u)) a = Some v"
    proof (cases "a = ip")
      case True
      then have "(\<exists>i. block_at c' i a v) \<longleftrightarrow> v = u" using at nb by metis
      then show ?thesis using True by auto
    next
      case False
      then have "(\<exists>i. block_at c' i a v) \<longleftrightarrow> (\<exists>i. block_at c i a v)" using at nslot by metis
      then show ?thesis using False blocked_until_iff [OF ok, of a v] by simp
    qed
  qed
qed

lemma do_block_refines:
  assumes ok: "cnsl_ok c"
  shows "cnsl_ok (do_block ip c)"
    and "blocked_until (do_block ip c) =
      (if blocked_until c ip \<noteq> None \<or> block_full c then blocked_until c
       else (blocked_until c)(ip \<mapsto> NOW c + CNSL_BLOCK_DURATION))"
    and "NOW (do_block ip c) = NOW c"
proof -
  let ?live = "take (g_block_count c) (g_block_table c)"
  have len: "length (g_block_table c) = CNSL_BLOCK_TABLE" "g_block_count c \<le> CNSL_BLOCK_TABLE" using ok by (simp_all add: cnsl_ok_def)
  have blk: "(\<exists>e \<in> set ?live. bk_ip e = ip \<and> bk_active e) \<longleftrightarrow> blocked_until c ip \<noteq> None"
    using cnsl_is_blocked_iff [of ip c] by (simp add: cnsl_is_blocked_def)
  consider (old) "blocked_until c ip \<noteq> None" | (reuse) slot where "blocked_until c ip = None" "first_idx (\<lambda>e. \<not> bk_active e) ?live = Some slot"
    | (full) "blocked_until c ip = None" "first_idx (\<lambda>e. \<not> bk_active e) ?live = None" "g_block_count c = CNSL_BLOCK_TABLE"
    | (grow) "blocked_until c ip = None" "first_idx (\<lambda>e. \<not> bk_active e) ?live = None" "g_block_count c < CNSL_BLOCK_TABLE"
    using len(2) by (cases "blocked_until c ip"; cases "first_idx (\<lambda>e. \<not> bk_active e) ?live") force+
  then have "cnsl_ok (do_block ip c) \<and> blocked_until (do_block ip c) =
      (if blocked_until c ip \<noteq> None \<or> block_full c then blocked_until c
       else (blocked_until c)(ip \<mapsto> NOW c + CNSL_BLOCK_DURATION))"
  proof cases
    case old
    then have "do_block ip c = c" unfolding do_block_def Let_def blk by simp
    then show ?thesis using ok old by simp
  next
    case (reuse slot)
    note sl = first_idx_takeD [OF reuse(2)]
    then have nf: "\<not> block_full c" using len by (auto simp: block_full_def)
    have d: "g_block_table (do_block ip c) = (g_block_table c)[slot := \<lparr>bk_ip = ip, bk_active = True, bk_unblock_at = NOW c + CNSL_BLOCK_DURATION\<rparr>]"
      "g_block_count (do_block ip c) = g_block_count c"
      unfolding do_block_def Let_def blk using reuse by simp_all
    then show ?thesis using put_block [OF ok reuse(1), of slot "g_block_count c" "do_block ip c" "NOW c + CNSL_BLOCK_DURATION"] sl len nf reuse(1) by simp
  next
    case full
    then have "do_block ip c = c" unfolding do_block_def Let_def blk by simp
    moreover have "block_full c" using full(2,3) len nth_mem [of _ "g_block_table c"] by (simp add: block_full_def first_idx_None)
    ultimately show ?thesis using ok by simp
  next
    case grow
    then have nf: "\<not> block_full c" by (simp add: block_full_def)
    have d: "g_block_table (do_block ip c) = (g_block_table c)[g_block_count c := \<lparr>bk_ip = ip, bk_active = True, bk_unblock_at = NOW c + CNSL_BLOCK_DURATION\<rparr>]"
      "g_block_count (do_block ip c) = g_block_count c + 1"
      unfolding do_block_def Let_def blk using grow by simp_all
    then show ?thesis using put_block [OF ok grow(1), of "g_block_count c" "g_block_count c + 1" "do_block ip c" "NOW c + CNSL_BLOCK_DURATION"] grow nf by simp
  qed
  then show "cnsl_ok (do_block ip c)" "blocked_until (do_block ip c) =
      (if blocked_until c ip \<noteq> None \<or> block_full c then blocked_until c
       else (blocked_until c)(ip \<mapsto> NOW c + CNSL_BLOCK_DURATION))" by blast+
  show "NOW (do_block ip c) = NOW c" by (simp add: do_block_def Let_def NOW_def split: option.splits)
qed

lemma cnsl_unblock_refines:
  assumes ok: "cnsl_ok c"
  shows "cnsl_ok (snd (cnsl_unblock ip c))" and "fst (cnsl_unblock ip c) \<longleftrightarrow> blocked_until c ip \<noteq> None"
    and "blocked_until (snd (cnsl_unblock ip c)) = (blocked_until c)(ip := None)"
proof -
  let ?P = "\<lambda>e. bk_ip e = ip \<and> bk_active e" and ?live = "take (g_block_count c) (g_block_table c)"
  have len: "length (g_block_table c) = CNSL_BLOCK_TABLE" "g_block_count c \<le> CNSL_BLOCK_TABLE" using ok by (simp_all add: cnsl_ok_def)
  have "cnsl_ok (snd (cnsl_unblock ip c)) \<and> (fst (cnsl_unblock ip c) \<longleftrightarrow> blocked_until c ip \<noteq> None)
    \<and> blocked_until (snd (cnsl_unblock ip c)) = (blocked_until c)(ip := None)"
  proof (cases "first_idx ?P ?live")
    case None
    then have "blocked_until c ip = None" by (simp add: blocked_until_def)
    then show ?thesis using None ok by (auto simp: cnsl_unblock_def fun_upd_idem)
  next
    case (Some s)
    define c' where "c' = snd (cnsl_unblock ip c)"
    note s = first_idx_takeD [OF Some]
    have c': "g_block_table c' = (g_block_table c)[s := (g_block_table c ! s)\<lparr>bk_active := False\<rparr>]" "g_block_count c' = g_block_count c"
      using Some by (simp_all add: c'_def cnsl_unblock_def)
    have nth: "g_block_table c' ! i = (if i = s then (g_block_table c ! s)\<lparr>bk_active := False\<rparr> else g_block_table c ! i)" for i
      using s len by (simp add: c'(1) nth_list_update)
    have at: "block_at c' i a v \<longleftrightarrow> i \<noteq> s \<and> block_at c i a v" for i a v using nth [of i] by (auto simp: block_at_def c'(2))
    have only: "block_at c i ip v \<Longrightarrow> i = s" for i v using block_unique [OF ok, of i ip v s] s by (simp add: block_at_def)
    have ats: "block_at c s a v \<Longrightarrow> a = ip" for a v using s by (simp add: block_at_def)
    have ok': "cnsl_ok c'"
    proof (rule cnsl_okI)
      show "length (g_block_table c') = CNSL_BLOCK_TABLE" "g_block_count c' \<le> CNSL_BLOCK_TABLE" using len c' by simp_all
      show "i = j" if "block_at c' i a x" "block_at c' j a y" for i j a x y
        using that block_unique [OF ok, of i a x j y] unfolding at by blast
    qed
    moreover have "blocked_until c' = (blocked_until c)(ip := None)"
    proof (rule ext, rule blocked_until_eqI [OF ok'])
      fix a v
      show "(\<exists>i. block_at c' i a v) \<longleftrightarrow> ((blocked_until c)(ip := None)) a = Some v"
      proof (cases "a = ip")
        case True
        then have "\<not> (\<exists>i. block_at c' i a v)" using at only by metis
        then show ?thesis using True by simp
      next
        case False
        then have "(\<exists>i. block_at c' i a v) \<longleftrightarrow> (\<exists>i. block_at c i a v)" using at ats by metis
        then show ?thesis using False blocked_until_iff [OF ok, of a v] by simp
      qed
    qed
    moreover have "fst (cnsl_unblock ip c)" "blocked_until c ip \<noteq> None" using Some by (simp_all add: cnsl_unblock_def blocked_until_def)
    ultimately show ?thesis by (simp add: c'_def)
  qed
  then show "cnsl_ok (snd (cnsl_unblock ip c))" "fst (cnsl_unblock ip c) \<longleftrightarrow> blocked_until c ip \<noteq> None"
    "blocked_until (snd (cnsl_unblock ip c)) = (blocked_until c)(ip := None)" by blast+
qed

subsection \<open>Rules and blocks\<close>

text \<open>What every rule, fired or not, keeps: the clock and every block that exists.\<close>

definition keeps_blocks :: "cnsl \<Rightarrow> cnsl \<Rightarrow> bool" where
  "keeps_blocks c c' \<longleftrightarrow> cnsl_ok c' \<and> cn_uptime c' = cn_uptime c
     \<and> (\<forall>a u. blocked_until c a = Some u \<longrightarrow> blocked_until c' a = Some u)"

lemma keeps_blocks_refl: "cnsl_ok c \<Longrightarrow> keeps_blocks c c"
  by (simp add: keeps_blocks_def)

lemma keeps_blocks_trans: "keeps_blocks c c' \<Longrightarrow> keeps_blocks c' c'' \<Longrightarrow> keeps_blocks c c''"
  by (simp add: keeps_blocks_def)

lemma ip_table_blocks [simp]:
  "cnsl_ok (c\<lparr>g_ip_table := t\<rparr>) = cnsl_ok c" "blocked_until (c\<lparr>g_ip_table := t\<rparr>) = blocked_until c" "NOW (c\<lparr>g_ip_table := t\<rparr>) = NOW c"
  "cnsl_ok (c\<lparr>g_ip_count := n\<rparr>) = cnsl_ok c" "blocked_until (c\<lparr>g_ip_count := n\<rparr>) = blocked_until c" "NOW (c\<lparr>g_ip_count := n\<rparr>) = NOW c"
  "cnsl_ok (c\<lparr>cn_uptime := w\<rparr>) = cnsl_ok c" "blocked_until (c\<lparr>cn_uptime := w\<rparr>) = blocked_until c"
  by (simp_all add: cnsl_ok_def blocked_until_def NOW_def fun_eq_iff)

lemma do_block_keeps: "cnsl_ok c \<Longrightarrow> keeps_blocks c (do_block ip c)"
  using do_block_refines [of c ip] by (auto simp: keeps_blocks_def do_block_def Let_def split: option.splits)

lemma check_cooldown_keeps: "cnsl_ok c \<Longrightarrow> check_cooldown i r c = (b, c') \<Longrightarrow> keeps_blocks c c'"
  by (auto simp: check_cooldown_def Let_def keeps_blocks_def split: if_splits)

lemma rule_shape_keeps:
  assumes ok: "cnsl_ok c"
    and "r = (let (ready, c) = check_cooldown i n c in if \<not> ready then (False, c) else if P c then (True, do_block ip c) else (False, c))"
  shows "keeps_blocks c (snd r)"
proof -
  obtain b c1 where c1: "check_cooldown i n c = (b, c1)" by (cases "check_cooldown i n c")
  have k: "keeps_blocks c c1" using check_cooldown_keeps [OF ok c1] .
  then have "cnsl_ok c1" by (simp add: keeps_blocks_def)
  then have "keeps_blocks c (do_block ip c1)" using do_block_keeps k keeps_blocks_trans by blast
  then show ?thesis using k c1 assms(2) by simp
qed

lemma rules_keep:
  assumes "cnsl_ok c"
  shows "keeps_blocks c (snd (rule_honeypot_ssh i ip c))" "keeps_blocks c (snd (rule_credential_spray i ip c))"
    "keeps_blocks c (snd (rule_web_recon_ssh i ip c))" "keeps_blocks c (snd (rule_privesc i ip c))"
    "keeps_blocks c (snd (rule_web_auth_flood i ip c))" "keeps_blocks c (snd (rule_anomaly_scan_window i ip c))"
  by (rule rule_shape_keeps [OF assms], unfold rule_honeypot_ssh_def rule_credential_spray_def rule_web_recon_ssh_def
      rule_privesc_def rule_web_auth_flood_def rule_anomaly_scan_window_def Let_def case_prod_beta, rule refl)+

lemma first_rule_keeps:
  assumes "\<And>r c. r \<in> set rs \<Longrightarrow> cnsl_ok c \<Longrightarrow> keeps_blocks c (snd (r c))" and "cnsl_ok c"
  shows "keeps_blocks c (snd (first_rule rs c))"
  using assms
proof (induction rs arbitrary: c)
  case (Cons r rs)
  obtain b c1 where c1: "r c = (b, c1)" by (cases "r c")
  have k: "keeps_blocks c c1" using Cons.prems(1) [of r c] Cons.prems(2) c1 by simp
  then have "cnsl_ok c1" by (simp add: keeps_blocks_def)
  then have "keeps_blocks c1 (snd (first_rule rs c1))" using Cons.IH Cons.prems(1) by simp
  then show ?case using k keeps_blocks_trans c1 by (auto split: if_splits)
qed (simp add: keeps_blocks_refl)

lemma find_or_create_keeps: "cnsl_ok c \<Longrightarrow> find_or_create_buf ip c = (i, c') \<Longrightarrow> keeps_blocks c c'"
  by (auto simp: find_or_create_buf_def keeps_blocks_def split: option.splits if_splits)

lemma cnsl_ingest_keeps:
  assumes ok: "cnsl_ok c" and k: "kind < CNSL_KIND_COUNT"
  shows "keeps_blocks (cnsl_tick c) (snd (cnsl_ingest ip kind c))"
proof -
  let ?c = "cnsl_tick c"
  have ok1: "cnsl_ok ?c" using cnsl_tick_refines(1) [OF ok] .
  obtain io c1 where f: "find_or_create_buf ip ?c = (io, c1)" by (cases "find_or_create_buf ip ?c")
  have k1: "keeps_blocks ?c c1" using find_or_create_keeps [OF ok1 f] .
  then have ok2: "cnsl_ok (record_event i kind c1)" "keeps_blocks c1 (record_event i kind c1)" for i
    by (simp_all add: keeps_blocks_def record_event_def Let_def)
  show ?thesis
  proof (cases "cnsl_is_blocked ip ?c")
    case True
    then show ?thesis using k ok1 keeps_blocks_refl by (simp add: cnsl_ingest_def Let_def)
  next
    case False
    show ?thesis
    proof (cases io)
      case None
      then show ?thesis using k1 f k False by (simp add: cnsl_ingest_def Let_def)
    next
      case (Some i)
      have "keeps_blocks (record_event i kind c1) (snd (first_rule
          [rule_honeypot_ssh i ip, rule_credential_spray i ip, rule_web_recon_ssh i ip,
           rule_privesc i ip, rule_web_auth_flood i ip, rule_anomaly_scan_window i ip] (record_event i kind c1)))"
        by (rule first_rule_keeps [OF _ ok2(1)]) (auto intro: rules_keep)
      then have "keeps_blocks ?c (snd (first_rule
          [rule_honeypot_ssh i ip, rule_credential_spray i ip, rule_web_recon_ssh i ip,
           rule_privesc i ip, rule_web_auth_flood i ip, rule_anomaly_scan_window i ip] (record_event i kind c1)))"
        using k1 ok2(2) keeps_blocks_trans by blast
      then show ?thesis using Some f k False by (simp add: cnsl_ingest_def Let_def)
    qed
  qed
qed

subsection \<open>Sequences of operations\<close>

inductive cnsl_step :: "u32 \<Rightarrow> cnsl \<Rightarrow> cnsl \<Rightarrow> bool" for ip where
  ingest: "cnsl_step ip c (snd (cnsl_ingest src kind c))"
| tick: "cnsl_step ip c (cnsl_tick c)"
| unblock: "other \<noteq> ip \<Longrightarrow> cnsl_step ip c (snd (cnsl_unblock other c))"
| time: "cn_uptime c \<le> t \<Longrightarrow> cnsl_step ip c (c\<lparr>cn_uptime := t\<rparr>)"

inductive cnsl_steps :: "u32 \<Rightarrow> cnsl \<Rightarrow> cnsl \<Rightarrow> bool" for ip where
  refl: "cnsl_steps ip c c"
| step: "cnsl_steps ip c c' \<Longrightarrow> cnsl_step ip c' c'' \<Longrightarrow> cnsl_steps ip c c''"

lemma NOW_mono: "cn_uptime c \<le> cn_uptime c' \<Longrightarrow> NOW c \<le> NOW c'"
  by (simp add: NOW_def word_le_nat_alt unat_div div_le_mono)

lemma cnsl_tick_uptime: "cnsl_ok c \<Longrightarrow> cn_uptime (cnsl_tick c) = cn_uptime c"
  using cnsl_tick_eq [of c] by auto

lemma cnsl_step_keeps:
  assumes "cnsl_step ip c c'" and ok: "cnsl_ok c"
  shows "cnsl_ok c' \<and> cn_uptime c \<le> cn_uptime c'
    \<and> (\<forall>u. blocked_until c ip = Some u \<longrightarrow> NOW c < u \<longrightarrow> blocked_until c' ip = Some u)"
  using assms(1)
proof cases
  case (ingest src kind)
  have t: "blocked_until (cnsl_tick c) ip = Some u" if "blocked_until c ip = Some u" "NOW c < u" for u
    using cnsl_tick_refines(2) [OF ok, of ip] that by simp
  show ?thesis
  proof (cases "kind < CNSL_KIND_COUNT")
    case True
    then show ?thesis using cnsl_ingest_keeps [OF ok True, of src] t cnsl_tick_uptime [OF ok] ingest by (simp add: keeps_blocks_def)
  next
    case False
    then show ?thesis using ingest ok by (simp add: cnsl_ingest_def)
  qed
next
  case tick
  then show ?thesis using cnsl_tick_refines [OF ok] cnsl_tick_uptime [OF ok] by (auto simp: not_less)
next
  case (unblock other)
  have "cn_uptime c' = cn_uptime c" using unblock(1) by (simp add: cnsl_unblock_def split: option.splits)
  then show ?thesis using cnsl_unblock_refines [OF ok, of other] unblock by simp
next
  case (time t)
  then show ?thesis using ok by simp
qed

lemma cnsl_steps_keep:
  assumes "cnsl_steps ip c c'" and "cnsl_ok c"
  shows "cnsl_ok c' \<and> cn_uptime c \<le> cn_uptime c'
    \<and> (\<forall>u. blocked_until c ip = Some u \<longrightarrow> NOW c' < u \<longrightarrow> blocked_until c' ip = Some u)"
  using assms
proof (induction rule: cnsl_steps.induct)
  case (refl c)
  then show ?case by simp
next
  case (step c c' c'')
  have 1: "cnsl_ok c'" "cn_uptime c \<le> cn_uptime c'"
    "\<And>u. blocked_until c ip = Some u \<Longrightarrow> NOW c' < u \<Longrightarrow> blocked_until c' ip = Some u" using step by auto
  note 2 = cnsl_step_keeps [OF step.hyps(2) 1(1)]
  have "NOW c' \<le> NOW c''" using 2 NOW_mono by blast
  then show ?case using 1 2 by (meson order.strict_trans1 order.trans)
qed

subsection \<open>The cooldown\<close>

fun ingest_all :: "u32 \<Rightarrow> (u64 \<times> nat) list \<Rightarrow> cnsl \<Rightarrow> bool list \<times> cnsl" where
  "ingest_all ip [] c = ([], c)"
| "ingest_all ip ((t, kind) # evs) c =
     (let (r, c) = cnsl_ingest ip kind (c\<lparr>cn_uptime := t\<rparr>); (rs, c) = ingest_all ip evs c in (r # rs, c))"

text \<open>An address whose six rules were all tried at second \<open>t0\<close>.\<close>

definition armed :: "u32 \<Rightarrow> u64 \<Rightarrow> nat \<Rightarrow> cnsl \<Rightarrow> bool" where
  "armed ip t0 i c \<longleftrightarrow> cnsl_ok c \<and> blocked_until c ip = None \<and> length (g_ip_table c) = CNSL_MAX_IPS
     \<and> g_ip_count c \<le> CNSL_MAX_IPS
     \<and> first_idx (\<lambda>b. ib_ip b = ip) (take (g_ip_count c) (g_ip_table c)) = Some i
     \<and> ib_last_alert_ts (bget c i) = replicate CNSL_NUM_RULES t0"

lemma take_list_update: "i < n \<Longrightarrow> take n (xs[i := x]) = (take n xs)[i := x]"
  by (simp add: take_update_swap)

lemma first_idx_update:
  assumes "P (xs ! i) = P x"
  shows "first_idx P (xs[i := x]) = first_idx P xs"
proof -
  have "first_idx P ys = first_idx id (map P ys)" for ys by (induction ys) auto
  moreover have "map P (xs[i := x]) = map P xs"
    using assms by (cases "i < length xs") (auto simp: map_update list_update_same_conv list_update_beyond)
  ultimately show ?thesis by metis
qed

lemma cooldown_skips:
  assumes "ib_last_alert_ts (bget c i) = replicate CNSL_NUM_RULES t0" and "t0 \<noteq> 0" and "t0 \<le> NOW c" and "NOW c - t0 < CNSL_COOLDOWN"
    and "n < CNSL_NUM_RULES"
  shows "check_cooldown i n c = (False, c)"
  using assms by (simp add: check_cooldown_def Let_def)

lemma bget_record_event:
  "i < length (g_ip_table c) \<Longrightarrow> ib_last_alert_ts (bget (record_event i k c) i) = ib_last_alert_ts (bget c i)"
  "i < length (g_ip_table c) \<Longrightarrow> ib_ip (bget (record_event i k c) i) = ib_ip (bget c i)"
  by (simp_all add: bget_def record_event_def Let_def)

lemma record_event_rest [simp]:
  "cnsl_ok (record_event i k c) = cnsl_ok c" "blocked_until (record_event i k c) = blocked_until c" "NOW (record_event i k c) = NOW c"
  "g_ip_count (record_event i k c) = g_ip_count c" "length (g_ip_table (record_event i k c)) = length (g_ip_table c)"
  by (simp_all add: record_event_def Let_def)

lemma armed_record:
  assumes "armed ip t0 i c"
  shows "armed ip t0 i (record_event i k c)"
proof -
  have i: "first_idx (\<lambda>b. ib_ip b = ip) (take (g_ip_count c) (g_ip_table c)) = Some i" using assms by (simp add: armed_def)
  have il: "i < g_ip_count c" "i < length (g_ip_table c)" using first_idx_takeD(1) [OF i] assms by (auto simp: armed_def)
  have "take (g_ip_count c) (g_ip_table (record_event i k c)) = (take (g_ip_count c) (g_ip_table c))[i := bget (record_event i k c) i]"
    using il by (simp add: record_event_def Let_def bget_def take_list_update)
  moreover have "(take (g_ip_count c) (g_ip_table c)) ! i = bget c i" using il by (simp add: bget_def)
  ultimately have "first_idx (\<lambda>b. ib_ip b = ip) (take (g_ip_count c) (g_ip_table (record_event i k c))) = Some i"
    using first_idx_update [of "\<lambda>b. ib_ip b = ip" "take (g_ip_count c) (g_ip_table c)" i "bget (record_event i k c) i"]
      bget_record_event(2) [OF il(2)] i by simp
  then show ?thesis using assms bget_record_event(1) [OF il(2)] by (simp add: armed_def)
qed

lemma armed_ingest:
  assumes arm: "armed ip t0 i c" and t: "t0 \<noteq> 0" "t0 \<le> NOW c" "NOW c - t0 < CNSL_COOLDOWN"
  shows "\<exists>c'. cnsl_ingest ip k c = (False, c') \<and> armed ip t0 i c'"
proof (cases "k < CNSL_KIND_COUNT")
  case True
  have ok: "cnsl_ok c" using arm by (simp add: armed_def)
  have a1: "armed ip t0 i (cnsl_tick c)"
    using arm cnsl_tick_refines [OF ok] by (simp add: armed_def bget_def)
  let ?c = "record_event i k (cnsl_tick c)"
  have a2: "armed ip t0 i ?c" using armed_record [OF a1] .
  have n: "NOW ?c = NOW c" using cnsl_tick_refines(3) [OF ok] by simp
  have la: "ib_last_alert_ts (bget ?c i) = replicate CNSL_NUM_RULES t0" using a2 by (simp add: armed_def)
  have skip: "check_cooldown i r ?c = (False, ?c)" if "r < 6" for r
    using cooldown_skips [OF la t(1)] t(2,3) that n by (simp add: CNSL_NUM_RULES_def)
  have nb: "\<not> cnsl_is_blocked ip (cnsl_tick c)" using a1 by (simp add: cnsl_is_blocked_iff armed_def)
  have f: "find_or_create_buf ip (cnsl_tick c) = (Some i, cnsl_tick c)" using a1 by (simp add: find_or_create_buf_def armed_def)
  have "cnsl_ingest ip k c = (False, ?c)"
    using True nb f skip [of 0] skip [of 1] skip [of 2] skip [of 3] skip [of 4] skip [of 5]
    by (simp add: cnsl_ingest_def Let_def rule_honeypot_ssh_def rule_credential_spray_def rule_web_recon_ssh_def
        rule_privesc_def rule_web_auth_flood_def rule_anomaly_scan_window_def)
  then show ?thesis using a2 by blast
next
  case False
  then show ?thesis using arm by (simp add: cnsl_ingest_def)
qed

lemma armed_ingest_all:
  assumes "armed ip t0 i c" and "t0 \<noteq> 0" and "\<forall>(t, k) \<in> set evs. t0 \<le> t div 100 \<and> t div 100 - t0 < CNSL_COOLDOWN"
  shows "\<exists>c'. ingest_all ip evs c = (replicate (length evs) False, c') \<and> armed ip t0 i c'"
  using assms(1,3)
proof (induction evs arbitrary: c)
  case (Cons e evs)
  obtain t k where e: "e = (t, k)" by (cases e)
  let ?c = "c\<lparr>cn_uptime := t\<rparr>"
  have arm: "armed ip t0 i ?c" using Cons.prems(1) by (simp add: armed_def bget_def)
  have now: "t0 \<le> NOW ?c" "NOW ?c - t0 < CNSL_COOLDOWN" using Cons.prems(2) e by (simp_all add: NOW_def)
  obtain c1 where c1: "cnsl_ingest ip k ?c = (False, c1)" "armed ip t0 i c1" using armed_ingest [OF arm assms(2) now] by blast
  obtain c2 where c2: "ingest_all ip evs c1 = (replicate (length evs) False, c2)" "armed ip t0 i c2"
    using Cons.IH [OF c1(2)] Cons.prems(2) by auto
  then show ?case using c1 e by simp
qed simp

lemma count_kind_one:
  "take (ib_count b) (ib_events b) = [ev] \<Longrightarrow> count_kind c b k w = (if event_in_window c (ev_ts ev) w \<and> ev_kind ev = k then 1 else 0)"
  by (simp add: count_kind_def)

lemma count_window_stats_one:
  "take (ib_count b) (ib_events b) = [ev] \<Longrightarrow> fst (count_window_stats c b w) \<le> 1"
  by (simp add: count_window_stats_def)

text \<open>Trying a rule when its cooldown is over marks it as tried now, whether it fires or not.\<close>

definition tried :: "nat \<Rightarrow> nat \<Rightarrow> cnsl \<Rightarrow> cnsl" where
  "tried i n c = c\<lparr>g_ip_table := (g_ip_table c)[i := (bget c i)\<lparr>ib_last_alert_ts := (ib_last_alert_ts (bget c i))[n := NOW c]\<rparr>]\<rparr>"

lemma tried_rest [simp]:
  "cnsl_ok (tried i n c) = cnsl_ok c" "blocked_until (tried i n c) = blocked_until c" "NOW (tried i n c) = NOW c"
  "g_ip_count (tried i n c) = g_ip_count c" "length (g_ip_table (tried i n c)) = length (g_ip_table c)"
  by (simp_all add: tried_def)

lemma bget_tried:
  "i < length (g_ip_table c) \<Longrightarrow>
     bget (tried i n c) i = (bget c i)\<lparr>ib_last_alert_ts := (ib_last_alert_ts (bget c i))[n := NOW c]\<rparr>"
  by (simp add: tried_def bget_def)

lemma check_cooldown_fresh: "ib_last_alert_ts (bget c i) ! n = 0 \<Longrightarrow> check_cooldown i n c = (True, tried i n c)"
  by (simp add: check_cooldown_def Let_def tried_def)

text \<open>With a single event in the buffer no rule fires.\<close>

lemma rules_single:
  assumes one: "take (ib_count (bget c i)) (ib_events (bget c i)) = [ev]" and i: "i < length (g_ip_table c)"
  shows "ib_last_alert_ts (bget c i) ! 0 = 0 \<Longrightarrow> rule_honeypot_ssh i ip c = (False, tried i 0 c)"
    and "ib_last_alert_ts (bget c i) ! 1 = 0 \<Longrightarrow> rule_credential_spray i ip c = (False, tried i 1 c)"
    and "ib_last_alert_ts (bget c i) ! 2 = 0 \<Longrightarrow> rule_web_recon_ssh i ip c = (False, tried i 2 c)"
    and "ib_last_alert_ts (bget c i) ! 3 = 0 \<Longrightarrow> rule_privesc i ip c = (False, tried i 3 c)"
    and "ib_last_alert_ts (bget c i) ! 4 = 0 \<Longrightarrow> rule_web_auth_flood i ip c = (False, tried i 4 c)"
    and "ib_last_alert_ts (bget c i) ! 5 = 0 \<Longrightarrow> rule_anomaly_scan_window i ip c = (False, tried i 5 c)"
proof -
  have t: "take (ib_count (bget (tried i n c) i)) (ib_events (bget (tried i n c) i)) = [ev]" for n
    using one i by (simp add: bget_tried)
  note ck = count_kind_one [OF t]
  show "rule_honeypot_ssh i ip c = (False, tried i 0 c)" if "ib_last_alert_ts (bget c i) ! 0 = 0"
    using check_cooldown_fresh [OF that] by (simp add: rule_honeypot_ssh_def ck CNSL_KIND_FW_HONEYPOT_PORT_def CNSL_KIND_SSH_FAIL_def)
  show "rule_credential_spray i ip c = (False, tried i 1 c)" if "ib_last_alert_ts (bget c i) ! 1 = 0"
    unfolding rule_credential_spray_def check_cooldown_fresh [OF that] by (simp add: ck)
  show "rule_web_recon_ssh i ip c = (False, tried i 2 c)" if "ib_last_alert_ts (bget c i) ! 2 = 0"
    unfolding rule_web_recon_ssh_def check_cooldown_fresh [OF that] by (simp add: ck Let_def)
  show "rule_privesc i ip c = (False, tried i 3 c)" if "ib_last_alert_ts (bget c i) ! 3 = 0"
    unfolding rule_privesc_def check_cooldown_fresh [OF that]
    by (simp add: ck Let_def CNSL_KIND_SSH_SUCCESS_def CNSL_KIND_SUDO_FAIL_def CNSL_KIND_SU_FAIL_def)
  show "rule_web_auth_flood i ip c = (False, tried i 4 c)" if "ib_last_alert_ts (bget c i) ! 4 = 0"
    unfolding rule_web_auth_flood_def check_cooldown_fresh [OF that] by (simp add: ck)
  show "rule_anomaly_scan_window i ip c = (False, tried i 5 c)" if "ib_last_alert_ts (bget c i) ! 5 = 0"
    using count_window_stats_one [OF t [of 5], of "tried i 5 c" CNSL_WINDOW_RECON]
    unfolding rule_anomaly_scan_window_def check_cooldown_fresh [OF that] by (simp add: Let_def case_prod_beta)
qed

lemma first_ingest_armed:
  assumes ok: "cnsl_ok c" and nb: "blocked_until c ip = None" and len: "length (g_ip_table c) = CNSL_MAX_IPS"
    and room: "g_ip_count c < CNSL_MAX_IPS" and new: "\<forall>b \<in> set (take (g_ip_count c) (g_ip_table c)). ib_ip b \<noteq> ip"
    and k: "kind < CNSL_KIND_COUNT"
  shows "\<exists>c'. cnsl_ingest ip kind c = (False, c') \<and> armed ip (NOW c) (g_ip_count c) c'"
proof -
  let ?i = "g_ip_count c"
  note tick = cnsl_tick_refines [OF ok]
  define c1 where "c1 = (cnsl_tick c)\<lparr>g_ip_table := (g_ip_table (cnsl_tick c))[?i := zero_ip_buf\<lparr>ib_ip := ip\<rparr>], g_ip_count := ?i + 1\<rparr>"
  define c2 where "c2 = record_event ?i kind c1"
  have nbt: "\<not> cnsl_is_blocked ip (cnsl_tick c)" using tick(2) [of ip] nb by (simp add: cnsl_is_blocked_iff)
  have f: "find_or_create_buf ip (cnsl_tick c) = (Some ?i, c1)"
  proof -
    have "first_idx (\<lambda>b. ib_ip b = ip) (take ?i (g_ip_table c)) = None" using new by (simp add: first_idx_None)
    then show ?thesis using room tick(4,5) by (simp add: find_or_create_buf_def c1_def)
  qed
  have b1: "bget c1 ?i = zero_ip_buf\<lparr>ib_ip := ip\<rparr>" "length (g_ip_table c1) = CNSL_MAX_IPS" using len room tick(4) by (simp_all add: c1_def bget_def)
  then have i2: "?i < length (g_ip_table c2)" using room by (simp add: c2_def)
  have il1: "?i < length (g_ip_table c1)" using b1(2) room by simp
  have la: "ib_last_alert_ts (bget c2 ?i) = replicate CNSL_NUM_RULES 0" and ip2: "ib_ip (bget c2 ?i) = ip"
    unfolding c2_def using bget_record_event [OF il1] b1(1) by (simp_all add: zero_ip_buf_def)
  have one: "take (ib_count (bget c2 ?i)) (ib_events (bget c2 ?i)) = [\<lparr>ev_ts = NOW c1, ev_kind = kind\<rparr>]"
  proof -
    have "bget c2 ?i = (let b = bget c1 ?i in b\<lparr>ib_events := (ib_events b)[ib_head b := \<lparr>ev_ts = NOW c1, ev_kind = kind\<rparr>],
        ib_head := (ib_head b + 1) mod CNSL_EVENT_BUF, ib_count := (if ib_count b < CNSL_EVENT_BUF then ib_count b + 1 else ib_count b)\<rparr>)"
      using il1 by (simp add: c2_def record_event_def bget_def Let_def)
    then show ?thesis by (simp add: b1(1) zero_ip_buf_def CNSL_EVENT_BUF_def take_Suc_conv_app_nth Let_def)
  qed
  define d where "d = (\<lambda>n. fold (tried ?i) [0..<n] c2)"
  have d: "bget (d n) ?i = (bget c2 ?i)\<lparr>ib_last_alert_ts := replicate n (NOW c) @ replicate (6 - n) 0\<rparr> \<and> NOW (d n) = NOW c
      \<and> length (g_ip_table (d n)) = CNSL_MAX_IPS \<and> cnsl_ok (d n) \<and> blocked_until (d n) = blocked_until (cnsl_tick c)
      \<and> g_ip_count (d n) = ?i + 1 \<and> (\<forall>j. j \<noteq> ?i \<longrightarrow> g_ip_table (d n) ! j = g_ip_table c ! j)" if "n \<le> 6" for n
    using that
  proof (induction n)
    case 0
    have "NOW c2 = NOW c" "cnsl_ok c2" "blocked_until c2 = blocked_until (cnsl_tick c)"
      using tick(1,3) by (simp_all add: c2_def c1_def)
    moreover have "\<forall>j. j \<noteq> ?i \<longrightarrow> g_ip_table c2 ! j = g_ip_table c ! j"
      using tick(4) by (simp add: c2_def c1_def record_event_def Let_def)
    ultimately show ?case using la b1(2) by (simp add: d_def CNSL_NUM_RULES_def) (simp add: c2_def c1_def)
  next
    case (Suc n)
    then have n: "n < 6" and IH: "bget (d n) ?i = (bget c2 ?i)\<lparr>ib_last_alert_ts := replicate n (NOW c) @ replicate (6 - n) 0\<rparr>"
      "NOW (d n) = NOW c" "length (g_ip_table (d n)) = CNSL_MAX_IPS" by simp_all
    have e: "d (Suc n) = tried ?i n (d n)" by (simp add: d_def)
    have r: "(replicate n (NOW c) @ replicate (6 - n) 0)[n := NOW c] = replicate (Suc n) (NOW c) @ replicate (6 - Suc n) 0"
    proof -
      have "6 - n = Suc (6 - Suc n)" using n by simp
      then show ?thesis by (simp add: list_update_append replicate_app_Cons_same)
    qed
    have "bget (d (Suc n)) ?i = (bget c2 ?i)\<lparr>ib_last_alert_ts := replicate (Suc n) (NOW c) @ replicate (6 - Suc n) 0\<rparr>"
      unfolding e using IH room r by (simp add: bget_tried)
    then show ?case using Suc unfolding e by (simp add: tried_def)
  qed
  have la_n: "ib_last_alert_ts (bget (d n) ?i) ! n = 0" if "n < 6" for n
    using d [of n] that by (simp add: nth_append)
  have one_n: "take (ib_count (bget (d n) ?i)) (ib_events (bget (d n) ?i)) = [\<lparr>ev_ts = NOW c1, ev_kind = kind\<rparr>]" if "n \<le> 6" for n
    using d [OF that] one by simp
  have il: "?i < length (g_ip_table (d n))" if "n \<le> 6" for n using d [OF that] room by simp
  note rs = rules_single [OF one_n il]
  have "first_rule [rule_honeypot_ssh ?i ip, rule_credential_spray ?i ip, rule_web_recon_ssh ?i ip,
           rule_privesc ?i ip, rule_web_auth_flood ?i ip, rule_anomaly_scan_window ?i ip] c2 = (False, d 6)"
  proof -
    have st: "tried ?i n (d n) = d (Suc n)" for n by (simp add: d_def)
    have s: "d 0 = c2" "tried ?i 0 (d 0) = d 1" "tried ?i 1 (d 1) = d 2" "tried ?i 2 (d 2) = d 3" "tried ?i 3 (d 3) = d 4"
      "tried ?i 4 (d 4) = d 5" "tried ?i 5 (d 5) = d 6"
      using st [of 0] st [of 1] st [of 2] st [of 3] st [of 4] st [of 5] by (simp_all add: eval_nat_numeral) (simp add: d_def)
    show ?thesis
      using rs(1) [of 0 ip] rs(2) [of 1 ip] rs(3) [of 2 ip] rs(4) [of 3 ip] rs(5) [of 4 ip] rs(6) [of 5 ip] la_n la_n [of 0] s by simp
  qed
  then have r: "cnsl_ingest ip kind c = (False, d 6)" using k nbt f by (simp add: cnsl_ingest_def Let_def c2_def)
  note d6 = d [of 6, simplified]
  have "first_idx (\<lambda>b. ib_ip b = ip) (take (g_ip_count (d 6)) (g_ip_table (d 6))) = Some ?i"
  proof (rule first_idx_SomeI)
    show "?i < length (take (g_ip_count (d 6)) (g_ip_table (d 6)))" using d6 room by simp
    show "ib_ip (take (g_ip_count (d 6)) (g_ip_table (d 6)) ! ?i) = ip" using d6 ip2 by (simp add: bget_def)
    show "ib_ip (take (g_ip_count (d 6)) (g_ip_table (d 6)) ! j) \<noteq> ip" if "j < ?i" for j
    proof -
      have "take ?i (g_ip_table c) ! j \<in> set (take ?i (g_ip_table c))" using that len room by (intro nth_mem) simp
      then show ?thesis using new that d6 by auto
    qed
  qed
  then have "armed ip (NOW c) ?i (d 6)"
    using d6 tick(2) [of ip] nb room by (simp add: armed_def CNSL_NUM_RULES_def)
  then show ?thesis using r by blast
qed

subsection \<open>Properties\<close>

definition demo_cnsl :: cnsl where
  "demo_cnsl = cnsl_init \<lparr>g_ip_table = [], g_block_table = [], g_ip_count = 0, g_block_count = 0, cn_uptime = 1000000, cn_audit = audit_init\<rparr>"

lemma demo_cnsl_ok:
  "cnsl_ok demo_cnsl" "blocked_until demo_cnsl ip = None" "length (g_ip_table demo_cnsl) = CNSL_MAX_IPS" "g_ip_count demo_cnsl = 0"
  "NOW demo_cnsl = 10000" "\<not> block_full demo_cnsl"
  by (simp_all add: demo_cnsl_def cnsl_init_def cnsl_ok_def blocked_until_def NOW_def block_full_def CNSL_BLOCK_TABLE_def)

text \<open>
  C29.  A block lasts exactly its 30 minutes.  Blocking an address that is not blocked yet, in a table that
  is not full, blocks it until 1800 seconds later.  In every sequence of events from any
  address, expiry ticks, manual unblocking of other addresses and passing time, an address that is blocked
  until \<open>u\<close> stays so while the clock is before \<open>u\<close>; and the first tick at \<open>u\<close> or later lifts the block.
\<close>

theorem cnsl_block_lasts:
  assumes "cnsl_ok c"
  shows "(\<not> cnsl_is_blocked ip c \<and> \<not> block_full c \<longrightarrow> blocked_until (do_block ip c) ip = Some (NOW c + CNSL_BLOCK_DURATION))
    \<and> (\<forall>u c'. blocked_until c ip = Some u \<and> cnsl_steps ip c c' \<longrightarrow>
         (if NOW c' < u then cnsl_is_blocked ip c' \<and> cnsl_get_block_ttl ip c' = u - NOW c' else True)
         \<and> (blocked_until c' ip = Some u \<and> u \<le> NOW c' \<longrightarrow> \<not> cnsl_is_blocked ip (cnsl_tick c')))"
proof (intro conjI allI impI)
  show "blocked_until (do_block ip c) ip = Some (NOW c + CNSL_BLOCK_DURATION)" if "\<not> cnsl_is_blocked ip c \<and> \<not> block_full c"
    using do_block_refines(2) [OF assms, of ip] that by (simp add: cnsl_is_blocked_iff)
next
  fix u c'
  assume a: "blocked_until c ip = Some u \<and> cnsl_steps ip c c'"
  have k: "cnsl_ok c'" "NOW c' < u \<longrightarrow> blocked_until c' ip = Some u" using cnsl_steps_keep [of ip c c'] a assms by auto
  show "if NOW c' < u then cnsl_is_blocked ip c' \<and> cnsl_get_block_ttl ip c' = u - NOW c' else True"
    using k(2) by (simp add: cnsl_is_blocked_iff cnsl_ttl_eq)
  show "\<not> cnsl_is_blocked ip (cnsl_tick c')" if "blocked_until c' ip = Some u \<and> u \<le> NOW c'"
    using cnsl_tick_refines(2) [OF k(1), of ip] that by (simp add: cnsl_is_blocked_iff)
qed

theorem cnsl_block_lasts_witness:
  "cnsl_is_blocked 7 (snd (cnsl_ingest 9 CNSL_KIND_SSH_FAIL ((do_block 7 demo_cnsl)\<lparr>cn_uptime := 1179900\<rparr>)))"
proof -
  let ?c = "do_block 7 demo_cnsl"
  have "blocked_until ?c 7 = Some (NOW demo_cnsl + CNSL_BLOCK_DURATION)"
    using cnsl_block_lasts [OF demo_cnsl_ok(1), of 7] demo_cnsl_ok by (simp add: cnsl_is_blocked_iff)
  then have b: "blocked_until ?c 7 = Some 11800" using demo_cnsl_ok by (simp add: CNSL_BLOCK_DURATION_def)
  have ok: "cnsl_ok ?c" using do_block_refines(1) [OF demo_cnsl_ok(1)] .
  have up: "cn_uptime ?c = 1000000" by (simp add: do_block_def Let_def demo_cnsl_def cnsl_init_def)
  let ?c1 = "?c\<lparr>cn_uptime := 1179900\<rparr>"
  let ?c2 = "snd (cnsl_ingest 9 CNSL_KIND_SSH_FAIL ?c1)"
  have "cnsl_step 7 ?c ?c1" using up by (intro cnsl_step.time) simp
  then have s: "cnsl_steps 7 ?c ?c2"
    using cnsl_steps.step [OF cnsl_steps.step [OF cnsl_steps.refl]] cnsl_step.ingest by blast
  have "keeps_blocks (cnsl_tick ?c1) ?c2" using cnsl_ingest_keeps [of ?c1] ok by (simp add: CNSL_KIND_SSH_FAIL_def CNSL_KIND_COUNT_def)
  then have "cn_uptime ?c2 = 1179900" using cnsl_tick_uptime [of ?c1] ok by (simp add: keeps_blocks_def)
  then have "NOW ?c2 < 11800" by (simp add: NOW_def)
  then show ?thesis using cnsl_block_lasts [OF ok, of 7] b s by auto
qed

text \<open>
  C30.  The cooldown blinds the rules.  Trying a rule starts its cooldown even when it does not fire, so the
  first event of an address silences all six rules for two minutes: whatever that address does
  within 120 seconds of its first event, none of its events is reported and it is not blocked.
\<close>

theorem cnsl_cooldown_blind:
  assumes "cnsl_ok c" and "\<not> cnsl_is_blocked ip c" and "length (g_ip_table c) = CNSL_MAX_IPS" and "g_ip_count c < CNSL_MAX_IPS"
    and "\<forall>b \<in> set (take (g_ip_count c) (g_ip_table c)). ib_ip b \<noteq> ip"
    and "kind < CNSL_KIND_COUNT" and "t div 100 \<noteq> 0"
    and "\<forall>(t', k') \<in> set evs. t div 100 \<le> t' div 100 \<and> t' div 100 - t div 100 < CNSL_COOLDOWN"
  shows "fst (ingest_all ip ((t, kind) # evs) c) = replicate (length evs + 1) False
    \<and> \<not> cnsl_is_blocked ip (snd (ingest_all ip ((t, kind) # evs) c))"
proof -
  let ?c = "c\<lparr>cn_uptime := t\<rparr>"
  have now: "NOW ?c = t div 100" by (simp add: NOW_def)
  obtain c1 where c1: "cnsl_ingest ip kind ?c = (False, c1)" "armed ip (NOW ?c) (g_ip_count ?c) c1"
    using first_ingest_armed [of ?c ip kind] assms(1-6) by (auto simp: cnsl_is_blocked_iff)
  obtain c2 where c2: "ingest_all ip evs c1 = (replicate (length evs) False, c2)" "armed ip (NOW ?c) (g_ip_count ?c) c2"
    using armed_ingest_all [OF c1(2)] assms(7,8) now by auto
  then show ?thesis using c1(1) by (simp add: cnsl_is_blocked_iff armed_def)
qed

text \<open>A honeypot probe and three failed logins within three seconds.\<close>

theorem cnsl_cooldown_blind_witness:
  "\<not> cnsl_is_blocked 7 (snd (ingest_all 7 [(1000000, CNSL_KIND_FW_HONEYPOT_PORT), (1000100, CNSL_KIND_SSH_FAIL),
      (1000200, CNSL_KIND_SSH_FAIL), (1000300, CNSL_KIND_SSH_FAIL)] demo_cnsl))"
proof -
  have "\<not> cnsl_is_blocked 7 demo_cnsl" using demo_cnsl_ok(2) by (simp add: cnsl_is_blocked_iff)
  then show ?thesis
    using cnsl_cooldown_blind [of demo_cnsl 7 CNSL_KIND_FW_HONEYPOT_PORT 1000000
        "[(1000100, CNSL_KIND_SSH_FAIL), (1000200, CNSL_KIND_SSH_FAIL), (1000300, CNSL_KIND_SSH_FAIL)]"] demo_cnsl_ok
    by (simp add: CNSL_MAX_IPS_def CNSL_KIND_FW_HONEYPOT_PORT_def CNSL_KIND_COUNT_def CNSL_COOLDOWN_def del: ingest_all.simps)
qed

end
