(* ===== verification/Vfs.thy ===== *)
theory Vfs
  imports Ipc Fim "HOL-Library.Monad_Syntax"
begin

text \<open>
  The virtual file system (\<^verbatim>\<open>kernel/fs/vfs/vfs.c\<close>): mount table, path lookup with symbolic links,
  permissions, and the file descriptor table that the whole system shares.  Nodes are records kept by
  address beside the heap, which allocates and frees their blocks; an address 0 is the null pointer.  The operations of a file system driver are function
  pointers in the code and an argument \<open>ops\<close> here, which gives the operation table at an address.
  Strings and buffers are lists of characters without the terminating 0.  The result \<open>None\<close> stands
  for a call that does not return or leaves the defined behaviour of C, such as a call through a null pointer.
\<close>

definition VFS_NAME_MAX :: nat where "VFS_NAME_MAX = 255"
definition VFS_MAX_FDS :: nat where "VFS_MAX_FDS = 64"
definition MAX_MOUNTS :: nat where "MAX_MOUNTS = 16"
definition VFS_SYMLINK_MAX_DEPTH :: nat where "VFS_SYMLINK_MAX_DEPTH = 8"
definition UID_ROOT :: u32 where "UID_ROOT = 0"
definition GID_ROOT :: u32 where "GID_ROOT = 0"

datatype vfs_node_type = VFS_FILE | VFS_DIRECTORY | VFS_DEVICE | VFS_SYMLINK

record vfs_node =
  vn_name :: string
  vn_type :: vfs_node_type
  vn_size :: u64
  vn_inode :: u64
  vn_ops :: u64
  vn_fs_data :: u64
  vn_parent :: u64
  vn_mode :: u32
  vn_owner_uid :: u32
  vn_group_gid :: u32

text \<open>A table of operations over a state \<open>'k\<close>; a missing entry is \<open>None\<close>.\<close>

record 'k vfs_ops =
  op_open :: "(u64 \<Rightarrow> u32 \<Rightarrow> 'k \<Rightarrow> (int \<times> 'k) option) option"
  op_close :: "(u64 \<Rightarrow> 'k \<Rightarrow> (int \<times> 'k) option) option"
  op_read :: "(u64 \<Rightarrow> u64 \<Rightarrow> u64 \<Rightarrow> 'k \<Rightarrow> (int \<times> string \<times> 'k) option) option"
  op_write :: "(u64 \<Rightarrow> u64 \<Rightarrow> string \<Rightarrow> u64 \<Rightarrow> 'k \<Rightarrow> (int \<times> 'k) option) option"
  op_lookup :: "(u64 \<Rightarrow> string \<Rightarrow> 'k \<Rightarrow> (u64 \<times> 'k) option) option"
  op_readdir :: "(u64 \<Rightarrow> u64 \<Rightarrow> u64 \<Rightarrow> 'k \<Rightarrow> (int \<times> string \<times> 'k) option) option"
  op_create :: "(u64 \<Rightarrow> string \<Rightarrow> u8 \<Rightarrow> 'k \<Rightarrow> (u64 \<times> 'k) option) option"
  op_unlink :: "(u64 \<Rightarrow> string \<Rightarrow> 'k \<Rightarrow> (int \<times> 'k) option) option"
  op_rmdir :: "(u64 \<Rightarrow> string \<Rightarrow> 'k \<Rightarrow> (int \<times> 'k) option) option"
  op_chmod :: "(u64 \<Rightarrow> u32 \<Rightarrow> 'k \<Rightarrow> (int \<times> 'k) option) option"
  op_rename :: "(u64 \<Rightarrow> string \<Rightarrow> u64 \<Rightarrow> string \<Rightarrow> 'k \<Rightarrow> (int \<times> 'k) option) option"
  op_symlink :: "(u64 \<Rightarrow> string \<Rightarrow> string \<Rightarrow> 'k \<Rightarrow> (int \<times> 'k) option) option"
  op_chgrp :: "(u64 \<Rightarrow> u32 \<Rightarrow> 'k \<Rightarrow> (int \<times> 'k) option) option"

record mount_entry =
  mt_mountpoint :: string
  mt_root :: u64
  mt_active :: bool

record fd_entry =
  fd_node :: u64
  fd_offset :: u64
  fd_active :: bool
  fd_owner_pid :: u32

text \<open>The file system's variables beside the scheduler and the heap; \<open>v_alerts\<close> collects the alerts.\<close>

record vkernel = kernel +
  v_nodes :: "u64 \<Rightarrow> vfs_node"
  g_mounts :: "mount_entry list"
  g_fds :: "fd_entry list"
  g_mount_count :: nat
  g_cwd :: u64
  v_alerts :: "fim_alert list"

definition zero_fd :: fd_entry where
  "zero_fd = \<lparr>fd_node = 0, fd_offset = 0, fd_active = False, fd_owner_pid = 0\<rparr>"

definition vfs_init :: "'a vkernel_scheme \<Rightarrow> 'a vkernel_scheme" where
  "vfs_init k = k\<lparr>g_mounts := replicate MAX_MOUNTS \<lparr>mt_mountpoint = [], mt_root = 0, mt_active = False\<rparr>,
     g_fds := replicate VFS_MAX_FDS zero_fd, g_mount_count := 0, g_cwd := 0\<rparr>"

definition vfs_mount :: "string option \<Rightarrow> u64 \<Rightarrow> 'a vkernel_scheme \<Rightarrow> int \<times> 'a vkernel_scheme" where
  "vfs_mount mountpoint root k =
     (case mountpoint of
        None \<Rightarrow> (-1, k)
      | Some mp \<Rightarrow>
          if root = 0 then (-1, k)
          else if MAX_MOUNTS \<le> g_mount_count k then (-1, k)
          else (0, k\<lparr>g_mounts := (g_mounts k)[g_mount_count k := \<lparr>mt_mountpoint = take VFS_NAME_MAX mp, mt_root = root, mt_active = True\<rparr>],
                     g_mount_count := g_mount_count k + 1\<rparr>))"

subsection \<open>Nodes\<close>

definition node_at :: "'a vkernel_scheme \<Rightarrow> u64 \<Rightarrow> vfs_node" where "node_at k n = v_nodes k n"

text \<open>\<^verbatim>\<open>kfree(node->fs_data); kfree(node);\<close> and the same guarded by \<^verbatim>\<open>node->parent != NULL\<close>.\<close>

definition free_node :: "u64 \<Rightarrow> 'a vkernel_scheme \<Rightarrow> 'a vkernel_scheme option" where
  "free_node n k =
     do {
       H \<leftarrow> kfree (k_heap k) (vn_fs_data (node_at k n));
       H \<leftarrow> kfree H n;
       Some (k\<lparr>k_heap := H\<rparr>)
     }"

definition free_unless_root :: "u64 \<Rightarrow> 'a vkernel_scheme \<Rightarrow> 'a vkernel_scheme option" where
  "free_unless_root n k = (if vn_parent (node_at k n) \<noteq> 0 then free_node n k else Some k)"

text \<open>\<^verbatim>\<open>node->ops && node->ops->f\<close>: the operation, if there is one.\<close>

definition node_op :: "(u64 \<Rightarrow> 'k vfs_ops) \<Rightarrow> ('k vfs_ops \<Rightarrow> 'f option) \<Rightarrow> vfs_node \<Rightarrow> 'f option" where
  "node_op ops f n = (if vn_ops n = 0 then None else f (ops (vn_ops n)))"

subsection \<open>Lookup\<close>

text \<open>The loop over the mounts: the longest mount point that is a prefix of the path.\<close>

definition mount_step :: "string \<Rightarrow> mount_entry \<Rightarrow> (u64 \<times> nat) option \<Rightarrow> (u64 \<times> nat) option" where
  "mount_step path m best =
     (let mlen = length (mt_mountpoint m) in
      if \<not> mt_active m then best
      else if mlen = 0 then best
      else if length path < mlen then best
      else if take mlen path = mt_mountpoint m then
        (case best of
           None \<Rightarrow> Some (mt_root m, mlen)
         | Some (_, best_len) \<Rightarrow> if best_len < mlen then Some (mt_root m, mlen) else best)
      else best)"

definition best_mount :: "string \<Rightarrow> 'a vkernel_scheme \<Rightarrow> (u64 \<times> nat) option" where
  "best_mount path k = fold (mount_step path) (take (g_mount_count k) (g_mounts k)) None"

definition skip_slashes :: "string \<Rightarrow> string" where
  "skip_slashes s = dropWhile (\<lambda>c. c = CHR ''/'') s"

definition component :: "string \<Rightarrow> string" where
  "component s = takeWhile (\<lambda>c. c \<noteq> CHR ''/'') s"

definition after_component :: "string \<Rightarrow> string" where
  "after_component s = dropWhile (\<lambda>c. c \<noteq> CHR ''/'') s"

text \<open>A buffer read as a C string.\<close>

definition c_string :: "string \<Rightarrow> string" where
  "c_string s = takeWhile (\<lambda>c. c \<noteq> CHR 0x00) s"

text \<open>\<^verbatim>\<open>combined\<close>: at most 250 characters of the target, then the rest of the path, 299 in all.\<close>

definition combine :: "string \<Rightarrow> string \<Rightarrow> string" where
  "combine target rest = take 299 (take 250 target @ rest)"

lemma after_component_shorter:
  assumes "cur \<noteq> []"
  shows "length (skip_slashes (after_component cur)) < length cur"
proof -
  have d: "length (dropWhile P xs) \<le> length xs" for P :: "char \<Rightarrow> bool" and xs by (rule length_dropWhile_le)
  obtain x xs where cur: "cur = x # xs" using assms by (cases cur) auto
  show ?thesis
  proof (cases "x = CHR ''/''")
    case True
    then show ?thesis using cur d [of _ xs] by (simp add: skip_slashes_def after_component_def le_imp_less_Suc)
  next
    case False
    have "length (skip_slashes (after_component cur)) \<le> length (after_component xs)"
      using cur False d by (simp add: skip_slashes_def after_component_def)
    also have "\<dots> \<le> length xs" using d by (simp add: after_component_def)
    finally show ?thesis using cur by simp
  qed
qed

text \<open>
  The walk over the components of a path.  \<open>follow\<close> is the recursive call of \<^verbatim>\<open>vfs_lookup_impl\<close> one level deeper.
\<close>

function walk ::
    "(u64 \<Rightarrow> 'a vkernel_scheme vfs_ops) \<Rightarrow> (string \<Rightarrow> 'a vkernel_scheme \<Rightarrow> (u64 \<times> 'a vkernel_scheme) option) \<Rightarrow> bool
       \<Rightarrow> u64 \<Rightarrow> u64 \<Rightarrow> string \<Rightarrow> 'a vkernel_scheme \<Rightarrow> (u64 \<times> 'a vkernel_scheme) option" where
  "walk ops follow follow_last best_root node cur k =
     (if cur = [] \<or> node = 0 then Some (node, k)
      else if VFS_NAME_MAX < length (component cur) then Some (0, k)
      else
        (case node_op ops op_lookup (node_at k node) of
           None \<Rightarrow> Some (0, k)
         | Some lookup \<Rightarrow>
             do {
               (nx, k) \<leftarrow> lookup node (component cur) k;
               k \<leftarrow> (if node \<noteq> best_root then free_node node k else Some k);
               (if nx \<noteq> 0 \<and> vn_type (node_at k nx) = VFS_SYMLINK \<and> (after_component cur \<noteq> [] \<or> follow_last) then
                  (case node_op ops op_read (node_at k nx) of
                     None \<Rightarrow> do { k \<leftarrow> free_unless_root nx k; Some (0, k) }
                   | Some read \<Rightarrow>
                       do {
                         (n, target, k) \<leftarrow> read nx 0 (of_nat VFS_NAME_MAX) k;
                         k \<leftarrow> free_unless_root nx k;
                         (if n \<le> 0 then Some (0, k)
                          else
                            (let target = c_string (take (nat n) target) in
                             if target = [] \<or> hd target \<noteq> CHR ''/'' then Some (0, k)
                             else follow (combine target (after_component cur)) k))
                       })
                else walk ops follow follow_last best_root nx (skip_slashes (after_component cur)) k)
             }))"
  by pat_completeness auto
termination
  by (relation "measure (\<lambda>(ops, follow, fl, root, node, cur, k). length cur)") (use after_component_shorter in auto)

declare walk.simps [simp del]

text \<open>
  \<^verbatim>\<open>vfs_lookup_impl\<close>; the number is how many levels of symbolic links are left, \<open>9 - depth\<close>.
\<close>

fun vfs_lookup_impl ::
    "(u64 \<Rightarrow> 'a vkernel_scheme vfs_ops) \<Rightarrow> nat \<Rightarrow> bool \<Rightarrow> string \<Rightarrow> 'a vkernel_scheme \<Rightarrow> (u64 \<times> 'a vkernel_scheme) option" where
  "vfs_lookup_impl ops 0 follow_last path k = Some (0, k)"
| "vfs_lookup_impl ops (Suc n) follow_last path k =
     (if path = [] \<or> hd path \<noteq> CHR ''/'' then Some (0, k)
      else
        (case best_mount path k of
           None \<Rightarrow> Some (0, k)
         | Some (best_root, best_len) \<Rightarrow>
             if best_root = 0 then Some (0, k)
             else if node_op ops op_lookup (node_at k best_root) = None then Some (best_root, k)
             else walk ops (vfs_lookup_impl ops n follow_last) follow_last best_root best_root
                    (skip_slashes (drop best_len path)) k))"

definition vfs_lookup :: "(u64 \<Rightarrow> 'a vkernel_scheme vfs_ops) \<Rightarrow> string \<Rightarrow> 'a vkernel_scheme \<Rightarrow> (u64 \<times> 'a vkernel_scheme) option" where
  "vfs_lookup ops path k = vfs_lookup_impl ops (VFS_SYMLINK_MAX_DEPTH + 1) True path k"

definition vfs_lookup_link :: "(u64 \<Rightarrow> 'a vkernel_scheme vfs_ops) \<Rightarrow> string \<Rightarrow> 'a vkernel_scheme \<Rightarrow> (u64 \<times> 'a vkernel_scheme) option" where
  "vfs_lookup_link ops path k = vfs_lookup_impl ops (VFS_SYMLINK_MAX_DEPTH + 1) False path k"

subsection \<open>Opening and closing\<close>

definition caller_uid :: "'a vkernel_scheme \<Rightarrow> u32" where
  "caller_uid k = (case g_current_proc (k_sched k) of Some c \<Rightarrow> pr_uid (pget (k_sched k) c) | None \<Rightarrow> UID_ROOT)"

definition caller_gid :: "'a vkernel_scheme \<Rightarrow> u32" where
  "caller_gid k = (case g_current_proc (k_sched k) of Some c \<Rightarrow> pr_gid (pget (k_sched k) c) | None \<Rightarrow> GID_ROOT)"

definition caller_pid :: "'a vkernel_scheme \<Rightarrow> u32" where
  "caller_pid k = current_pid (k_sched k)"

text \<open>The permission check of \<^verbatim>\<open>vfs_open\<close>; the bits are octal 400, 40, 4 to read and 200, 20, 2 to write.\<close>

definition open_allowed :: "vfs_node \<Rightarrow> u32 \<Rightarrow> u32 \<Rightarrow> u32 \<Rightarrow> bool" where
  "open_allowed node uid gid flags =
     (let is_owner = (uid = UID_ROOT \<or> uid = vn_owner_uid node);
          is_group = (\<not> is_owner \<and> gid = vn_group_gid node);
          access = flags AND 3;
          wants_read = (access = 0 \<or> access = 2);
          wants_write = ((access = 1 \<or> access = 2) \<or> flags AND 0x400 \<noteq> 0);
          read_bit = (if is_owner then 0x100 else if is_group then 0x20 else 4);
          write_bit = (if is_owner then 0x80 else if is_group then 0x10 else 2)
      in if wants_read \<and> vn_mode node AND read_bit = 0 then False
         else if wants_write \<and> vn_mode node AND write_bit = 0 then False
         else True)"

definition free_fd :: "'a vkernel_scheme \<Rightarrow> nat option" where
  "free_fd k = map_option (\<lambda>i. i + 3) (first_idx (\<lambda>e. \<not> fd_active e) (drop 3 (g_fds k)))"

definition install_fd :: "nat \<Rightarrow> u64 \<Rightarrow> 'a vkernel_scheme \<Rightarrow> 'a vkernel_scheme" where
  "install_fd i node k =
     k\<lparr>g_fds := (g_fds k)[i := \<lparr>fd_node = node, fd_offset = 0, fd_active = True, fd_owner_pid = caller_pid k\<rparr>]\<rparr>"

definition vfs_open :: "(u64 \<Rightarrow> 'a vkernel_scheme vfs_ops) \<Rightarrow> string \<Rightarrow> u32 \<Rightarrow> 'a vkernel_scheme \<Rightarrow> (int \<times> 'a vkernel_scheme) option" where
  "vfs_open ops path flags k =
     do {
       (node, k) \<leftarrow> vfs_lookup ops path k;
       (if node = 0 then Some (-1, k)
        else if vn_ops (node_at k node) = 0 \<or> \<not> open_allowed (node_at k node) (caller_uid k) (caller_gid k) flags
        then do { k \<leftarrow> free_unless_root node k; Some (-1, k) }
        else
          (case free_fd k of
             None \<Rightarrow> do { k \<leftarrow> free_unless_root node k; Some (-1, k) }
           | Some i \<Rightarrow>
               do {
                 k \<leftarrow> (case op_open (ops (vn_ops (node_at k node))) of
                        None \<Rightarrow> Some k
                      | Some f \<Rightarrow> map_option snd (f node flags k));
                 Some (int i, install_fd i node k)
               }))
     }"

definition fd_ok :: "int \<Rightarrow> 'a vkernel_scheme \<Rightarrow> bool" where
  "fd_ok fd k \<longleftrightarrow> \<not> (fd < 0 \<or> int VFS_MAX_FDS \<le> fd) \<and> fd_active (g_fds k ! nat fd)"

definition vfs_close :: "(u64 \<Rightarrow> 'a vkernel_scheme vfs_ops) \<Rightarrow> int \<Rightarrow> 'a vkernel_scheme \<Rightarrow> (int \<times> 'a vkernel_scheme) option" where
  "vfs_close ops fd k =
     (if \<not> fd_ok fd k then Some (-1, k)
      else
        (let node = fd_node (g_fds k ! nat fd) in
         do {
           k \<leftarrow> (if node \<noteq> 0 then
                  (case node_op ops op_close (node_at k node) of
                     None \<Rightarrow> Some k
                   | Some f \<Rightarrow> map_option snd (f node k))
                 else Some k);
           k \<leftarrow> (if node \<noteq> 0 then free_unless_root node k else Some k);
           Some (0, k\<lparr>g_fds := (g_fds k)[nat fd := zero_fd]\<rparr>)
         }))"

fun close_owned :: "(u64 \<Rightarrow> 'a vkernel_scheme vfs_ops) \<Rightarrow> u32 \<Rightarrow> nat list \<Rightarrow> 'a vkernel_scheme \<Rightarrow> 'a vkernel_scheme option" where
  "close_owned ops pid [] k = Some k"
| "close_owned ops pid (i # is) k =
     do {
       k \<leftarrow> (if fd_active (g_fds k ! i) \<and> fd_owner_pid (g_fds k ! i) = pid
             then map_option snd (vfs_close ops (int i) k) else Some k);
       close_owned ops pid is k
     }"

definition vfs_close_all_for_pid :: "(u64 \<Rightarrow> 'a vkernel_scheme vfs_ops) \<Rightarrow> u32 \<Rightarrow> 'a vkernel_scheme \<Rightarrow> 'a vkernel_scheme option" where
  "vfs_close_all_for_pid ops pid k = (if pid = 0 then Some k else close_owned ops pid [3..<VFS_MAX_FDS] k)"

subsection \<open>Reading and writing\<close>

definition advance :: "int \<Rightarrow> int \<Rightarrow> 'a vkernel_scheme \<Rightarrow> 'a vkernel_scheme" where
  "advance fd n k =
     (if 0 < n then k\<lparr>g_fds := (g_fds k)[nat fd := (g_fds k ! nat fd)\<lparr>fd_offset := fd_offset (g_fds k ! nat fd) + of_int n\<rparr>]\<rparr> else k)"

definition vfs_read :: "(u64 \<Rightarrow> 'a vkernel_scheme vfs_ops) \<Rightarrow> int \<Rightarrow> u64 \<Rightarrow> 'a vkernel_scheme \<Rightarrow> (int \<times> string \<times> 'a vkernel_scheme) option" where
  "vfs_read ops fd len k =
     (if \<not> fd_ok fd k then Some (-1, [], k)
      else
        (let e = g_fds k ! nat fd; node = fd_node e in
         case (if node = 0 then None else node_op ops op_read (node_at k node)) of
           None \<Rightarrow> Some (-1, [], k)
         | Some f \<Rightarrow> do { (n, buf, k) \<leftarrow> f node (fd_offset e) len k; Some (n, buf, advance fd n k) }))"

definition alert :: "fim_alert option \<Rightarrow> 'a vkernel_scheme \<Rightarrow> 'a vkernel_scheme" where
  "alert a k = (case a of None \<Rightarrow> k | Some a \<Rightarrow> k\<lparr>v_alerts := v_alerts k @ [a]\<rparr>)"

definition vfs_write :: "(u64 \<Rightarrow> 'a vkernel_scheme vfs_ops) \<Rightarrow> int \<Rightarrow> string \<Rightarrow> u64 \<Rightarrow> 'a vkernel_scheme \<Rightarrow> (int \<times> 'a vkernel_scheme) option" where
  "vfs_write ops fd buf len k =
     (if \<not> fd_ok fd k then Some (-1, k)
      else
        (let e = g_fds k ! nat fd; node = fd_node e in
         case (if node = 0 then None else node_op ops op_write (node_at k node)) of
           None \<Rightarrow> Some (-1, k)
         | Some f \<Rightarrow>
             (let name = vn_name (node_at k node);
                  k = (if name \<noteq> [] then alert (snd (fim_on_write name)) k else k)
              in do { (n, k) \<leftarrow> f node (fd_offset e) buf len k; Some (n, advance fd n k) })))"

definition vfs_readdir :: "(u64 \<Rightarrow> 'a vkernel_scheme vfs_ops) \<Rightarrow> int \<Rightarrow> u64 \<Rightarrow> 'a vkernel_scheme \<Rightarrow> (int \<times> string \<times> 'a vkernel_scheme) option" where
  "vfs_readdir ops fd mx k =
     (if \<not> fd_ok fd k then Some (-1, [], k)
      else
        (let e = g_fds k ! nat fd; node = fd_node e in
         if node = 0 \<or> vn_type (node_at k node) \<noteq> VFS_DIRECTORY then Some (-1, [], k)
         else case node_op ops op_readdir (node_at k node) of
             None \<Rightarrow> Some (-1, [], k)
           | Some f \<Rightarrow> do { (n, buf, k) \<leftarrow> f node (fd_offset e) mx k; Some (n, buf, advance fd n k) }))"

subsection \<open>Directories\<close>

definition last_slash :: "string \<Rightarrow> nat" where
  "last_slash path = fold (\<lambda>i l. if path ! i = CHR ''/'' then i else l) [0..<length path] 0"

definition split_path :: "string \<Rightarrow> (string \<times> string) option" where
  "split_path path =
     (let l = last_slash path;
          name = (if path \<noteq> [] \<and> path ! l = CHR ''/'' then drop (l + 1) path else path)
      in if name = [] then None
         else if VFS_NAME_MAX < length name then None
         else if l = 0 then Some (''/'', name)
         else if 255 \<le> l then None
         else Some (take l path, name))"

definition dot_name :: "string \<Rightarrow> bool" where
  "dot_name name \<longleftrightarrow> name = ''.'' \<or> name = ''..''"

definition vfs_create :: "(u64 \<Rightarrow> 'a vkernel_scheme vfs_ops) \<Rightarrow> string \<Rightarrow> u8 \<Rightarrow> 'a vkernel_scheme \<Rightarrow> (int \<times> 'a vkernel_scheme) option" where
  "vfs_create ops path typ k =
     (case split_path path of
        None \<Rightarrow> Some (-1, k)
      | Some (parent, name) \<Rightarrow>
          if dot_name name then Some (-1, k)
          else
            do {
              (dir, k) \<leftarrow> vfs_lookup ops parent k;
              (if dir = 0 \<or> vn_type (node_at k dir) \<noteq> VFS_DIRECTORY then Some (-1, k)
               else case node_op ops op_create (node_at k dir) of
                   None \<Rightarrow> Some (-1, k)
                 | Some create \<Rightarrow>
                     do {
                       (newnode, k) \<leftarrow> create dir name typ k;
                       k \<leftarrow> free_unless_root dir k;
                       (if newnode = 0 then Some (-1, k)
                        else
                          (let k = alert (snd (fim_on_create path)) k in
                           case free_fd k of
                             None \<Rightarrow> do { k \<leftarrow> free_node newnode k; Some (-1, k) }
                           | Some i \<Rightarrow>
                               do {
                                 k \<leftarrow> (case node_op ops op_open (node_at k newnode) of
                                        None \<Rightarrow> Some k
                                      | Some f \<Rightarrow> map_option snd (f newnode 0 k));
                                 Some (int i, install_fd i newnode k)
                               }))
                     })
            })"

definition vfs_get_cwd :: "'a vkernel_scheme \<Rightarrow> u64" where
  "vfs_get_cwd k = g_cwd k"

definition update_node :: "u64 \<Rightarrow> (vfs_node \<Rightarrow> vfs_node) \<Rightarrow> 'a vkernel_scheme \<Rightarrow> 'a vkernel_scheme" where
  "update_node n f k = k\<lparr>v_nodes := (v_nodes k)(n := f (v_nodes k n))\<rparr>"

definition vfs_chmod :: "(u64 \<Rightarrow> 'a vkernel_scheme vfs_ops) \<Rightarrow> string \<Rightarrow> u32 \<Rightarrow> 'a vkernel_scheme \<Rightarrow> (int \<times> 'a vkernel_scheme) option" where
  "vfs_chmod ops path mode k =
     do {
       (node, k) \<leftarrow> vfs_lookup ops path k;
       (if node = 0 then Some (-1, k)
        else
          do {
            (result, k) \<leftarrow> (case node_op ops op_chmod (node_at k node) of
                 None \<Rightarrow> Some (-1, k)
               | Some f \<Rightarrow> map_option (\<lambda>(r, k). (r, if r = 0 then update_node node (\<lambda>n. n\<lparr>vn_mode := mode\<rparr>) k else k)) (f node mode k));
            k \<leftarrow> free_unless_root node k;
            Some (result, k)
          })
     }"

definition vfs_chgrp :: "(u64 \<Rightarrow> 'a vkernel_scheme vfs_ops) \<Rightarrow> string \<Rightarrow> u32 \<Rightarrow> 'a vkernel_scheme \<Rightarrow> (int \<times> 'a vkernel_scheme) option" where
  "vfs_chgrp ops path gid k =
     do {
       (node, k) \<leftarrow> vfs_lookup ops path k;
       (if node = 0 then Some (-1, k)
        else
          do {
            (result, k) \<leftarrow> (case node_op ops op_chgrp (node_at k node) of
                 None \<Rightarrow> Some (-1, k)
               | Some f \<Rightarrow> map_option (\<lambda>(r, k). (r, if r = 0 then update_node node (\<lambda>n. n\<lparr>vn_group_gid := gid\<rparr>) k else k)) (f node gid k));
            k \<leftarrow> free_unless_root node k;
            Some (result, k)
          })
     }"

text \<open>The common body of \<^verbatim>\<open>vfs_unlink\<close> and \<^verbatim>\<open>vfs_rmdir\<close>.\<close>

definition remove_entry ::
    "(u64 \<Rightarrow> 'a vkernel_scheme vfs_ops) \<Rightarrow>
     ('a vkernel_scheme vfs_ops \<Rightarrow> (u64 \<Rightarrow> string \<Rightarrow> 'a vkernel_scheme \<Rightarrow> (int \<times> 'a vkernel_scheme) option) option) \<Rightarrow>
     string \<Rightarrow> 'a vkernel_scheme \<Rightarrow> (int \<times> 'a vkernel_scheme) option" where
  "remove_entry ops op path k =
     (case split_path path of
        None \<Rightarrow> Some (-1, k)
      | Some (parent, name) \<Rightarrow>
          do {
            (dir, k) \<leftarrow> vfs_lookup ops parent k;
            (if dir = 0 \<or> vn_type (node_at k dir) \<noteq> VFS_DIRECTORY then Some (-1, k)
             else case node_op ops op (node_at k dir) of
                 None \<Rightarrow> do { k \<leftarrow> free_unless_root dir k; Some (-1, k) }
               | Some f \<Rightarrow>
                   do {
                     (result, k) \<leftarrow> f dir name k;
                     k \<leftarrow> free_unless_root dir k;
                     Some (result, k)
                   })
          })"

definition vfs_unlink :: "(u64 \<Rightarrow> 'a vkernel_scheme vfs_ops) \<Rightarrow> string \<Rightarrow> 'a vkernel_scheme \<Rightarrow> (int \<times> 'a vkernel_scheme) option" where
  "vfs_unlink ops path k = remove_entry ops op_unlink path k"

definition vfs_rmdir :: "(u64 \<Rightarrow> 'a vkernel_scheme vfs_ops) \<Rightarrow> string \<Rightarrow> 'a vkernel_scheme \<Rightarrow> (int \<times> 'a vkernel_scheme) option" where
  "vfs_rmdir ops path k = remove_entry ops op_rmdir path k"

definition vfs_rename :: "(u64 \<Rightarrow> 'a vkernel_scheme vfs_ops) \<Rightarrow> string \<Rightarrow> string \<Rightarrow> 'a vkernel_scheme \<Rightarrow> (int \<times> 'a vkernel_scheme) option" where
  "vfs_rename ops old_path new_path k =
     (case (split_path old_path, split_path new_path) of
        (Some (old_parent, old_name), Some (new_parent, new_name)) \<Rightarrow>
          if dot_name old_name \<or> dot_name new_name then Some (-1, k)
          else
            do {
              (old_dir, k) \<leftarrow> vfs_lookup ops old_parent k;
              (if old_dir = 0 \<or> vn_type (node_at k old_dir) \<noteq> VFS_DIRECTORY then Some (-1, k)
               else
                 do {
                   (new_dir, k) \<leftarrow> vfs_lookup ops new_parent k;
                   (if new_dir = 0 \<or> vn_type (node_at k new_dir) \<noteq> VFS_DIRECTORY
                    then do { k \<leftarrow> free_unless_root old_dir k; Some (-1, k) }
                    else
                      do {
                        (result, k) \<leftarrow> (case node_op ops op_rename (node_at k old_dir) of
                             Some f \<Rightarrow> if vn_ops (node_at k old_dir) = vn_ops (node_at k new_dir)
                                      then f old_dir old_name new_dir new_name k else Some (-1, k)
                           | None \<Rightarrow> Some (-1, k));
                        k \<leftarrow> free_unless_root old_dir k;
                        k \<leftarrow> (if new_dir \<noteq> old_dir then free_unless_root new_dir k else Some k);
                        Some (result, k)
                      })
                 })
            }
      | _ \<Rightarrow> Some (-1, k))"

definition vfs_symlink :: "(u64 \<Rightarrow> 'a vkernel_scheme vfs_ops) \<Rightarrow> string \<Rightarrow> string \<Rightarrow> 'a vkernel_scheme \<Rightarrow> (int \<times> 'a vkernel_scheme) option" where
  "vfs_symlink ops target linkpath k =
     (if target = [] \<or> VFS_NAME_MAX < length target then Some (-1, k)
      else case split_path linkpath of
          None \<Rightarrow> Some (-1, k)
        | Some (parent, name) \<Rightarrow>
            if dot_name name then Some (-1, k)
            else
              do {
                (dir, k) \<leftarrow> vfs_lookup ops parent k;
                (if dir = 0 \<or> vn_type (node_at k dir) \<noteq> VFS_DIRECTORY then Some (-1, k)
                 else
                   do {
                     (result, k) \<leftarrow> (case node_op ops op_symlink (node_at k dir) of
                          None \<Rightarrow> Some (-1, k)
                        | Some f \<Rightarrow> f dir name target k);
                     k \<leftarrow> free_unless_root dir k;
                     Some (result, k)
                   })
              })"

definition vfs_readlink :: "(u64 \<Rightarrow> 'a vkernel_scheme vfs_ops) \<Rightarrow> string \<Rightarrow> u64 \<Rightarrow> 'a vkernel_scheme \<Rightarrow> (int \<times> string \<times> 'a vkernel_scheme) option" where
  "vfs_readlink ops path bufsize k =
     do {
       (node, k) \<leftarrow> vfs_lookup_link ops path k;
       (if node = 0 then Some (-1, [], k)
        else if vn_type (node_at k node) \<noteq> VFS_SYMLINK then do { k \<leftarrow> free_unless_root node k; Some (-1, [], k) }
        else
          do {
            (n, buf, k) \<leftarrow> (case node_op ops op_read (node_at k node) of
                 None \<Rightarrow> Some (-1, [], k)
               | Some f \<Rightarrow> f node 0 bufsize k);
            k \<leftarrow> free_unless_root node k;
            Some (n, buf, k)
          })
     }"

subsection \<open>The working directory\<close>

definition set_cwd :: "u64 \<Rightarrow> 'a vkernel_scheme \<Rightarrow> 'a vkernel_scheme option" where
  "set_cwd node k =
     do {
       k \<leftarrow> (if g_cwd k \<noteq> 0 then free_unless_root (g_cwd k) k else Some k);
       Some (k\<lparr>g_cwd := node\<rparr>)
     }"

text \<open>
  The loop of \<^verbatim>\<open>vfs_chdir\<close> over the mounts for a relative path; the flag tells whether it returned 0.
\<close>

fun chdir_mounts ::
    "(u64 \<Rightarrow> 'a vkernel_scheme vfs_ops) \<Rightarrow> string \<Rightarrow> mount_entry list \<Rightarrow> 'a vkernel_scheme \<Rightarrow> (bool \<times> 'a vkernel_scheme) option" where
  "chdir_mounts ops path [] k = Some (False, k)"
| "chdir_mounts ops path (m # ms) k =
     (if \<not> mt_active m then chdir_mounts ops path ms k
      else
        do {
          (mount_matches, k) \<leftarrow>
            (if mt_root m = g_cwd k then Some (True, k)
             else
               do {
                 lookup \<leftarrow> node_op ops op_lookup (node_at k (mt_root m));
                 (probe, k) \<leftarrow> lookup (mt_root m) path k;
                 (if probe \<noteq> 0 then do { k \<leftarrow> free_unless_root probe k; Some (True, k) } else Some (False, k))
               });
          (if mount_matches \<and> length (mt_mountpoint m) + length path + 2 < 512 then
             (if mt_mountpoint m = [] then None
              else
                do {
                  (node, k) \<leftarrow> vfs_lookup ops
                     (mt_mountpoint m @ (if last (mt_mountpoint m) \<noteq> CHR ''/'' then ''/'' else []) @ path) k;
                  (if node \<noteq> 0 \<and> vn_type (node_at k node) = VFS_DIRECTORY
                   then do { k \<leftarrow> set_cwd node k; Some (True, k) }
                   else
                     do {
                       k \<leftarrow> (if node \<noteq> 0 then free_unless_root node k else Some k);
                       chdir_mounts ops path ms k
                     })
                })
           else chdir_mounts ops path ms k)
        })"

definition chdir_to :: "(u64 \<Rightarrow> 'a vkernel_scheme vfs_ops) \<Rightarrow> string \<Rightarrow> 'a vkernel_scheme \<Rightarrow> (int \<times> 'a vkernel_scheme) option" where
  "chdir_to ops path k =
     do {
       (node, k) \<leftarrow> vfs_lookup ops path k;
       (if node = 0 then Some (-1, k)
        else if vn_type (node_at k node) \<noteq> VFS_DIRECTORY then do { k \<leftarrow> free_unless_root node k; Some (-1, k) }
        else do { k \<leftarrow> set_cwd node k; Some (0, k) })
     }"

definition vfs_chdir :: "(u64 \<Rightarrow> 'a vkernel_scheme vfs_ops) \<Rightarrow> string \<Rightarrow> 'a vkernel_scheme \<Rightarrow> (int \<times> 'a vkernel_scheme) option" where
  "vfs_chdir ops path k =
     (if path \<noteq> [] \<and> hd path = CHR ''/'' then chdir_to ops path k
      else
        do {
          (ok, k) \<leftarrow> (if g_cwd k \<noteq> 0 \<and> vn_name (node_at k (g_cwd k)) \<noteq> []
                     then chdir_mounts ops path (take (g_mount_count k) (g_mounts k)) k else Some (False, k));
          (if ok then Some (0, k)
           else chdir_to ops (if length path + 2 < 512 then ''/'' @ path else path) k)
        })"

text \<open>The components \<^verbatim>\<open>vfs_getcwd\<close> collects on its way up, at most \<open>n\<close>, and the path it builds of them.\<close>

fun cwd_parts :: "nat \<Rightarrow> u64 \<Rightarrow> 'a vkernel_scheme \<Rightarrow> string list" where
  "cwd_parts 0 node k = []"
| "cwd_parts (Suc n) node k =
     (let p = vn_parent (node_at k node) in
      if node = 0 \<or> p = 0 \<or> node = p then [] else take VFS_NAME_MAX (vn_name (node_at k node)) # cwd_parts n p k)"

fun join_slash :: "string list \<Rightarrow> string" where
  "join_slash [] = []"
| "join_slash [s] = s"
| "join_slash (s # ss) = s @ ''/'' @ join_slash ss"

text \<open>The path is built in a buffer of 1024 characters; a longer one is written past its end.\<close>

definition vfs_getcwd :: "u64 \<Rightarrow> 'a vkernel_scheme \<Rightarrow> (int \<times> string) option" where
  "vfs_getcwd sz k =
     (if sz = 0 then Some (-1, [])
      else if g_cwd k = 0 then Some (0, ''/'')
      else
        (let tmp = ''/'' @ join_slash (rev (cwd_parts 16 (g_cwd k) k)) in
         if 1024 \<le> length tmp then None
         else Some (0, take (unat (sz - 1)) tmp)))"

subsection \<open>Descriptors\<close>

definition VFS_SEEK_SET :: int where "VFS_SEEK_SET = 0"
definition VFS_SEEK_CUR :: int where "VFS_SEEK_CUR = 1"
definition VFS_SEEK_END :: int where "VFS_SEEK_END = 2"

text \<open>Offsets are 64-bit words; \<^verbatim>\<open>int64_t\<close> reads them in two's complement.\<close>

definition vfs_lseek :: "int \<Rightarrow> u64 \<Rightarrow> int \<Rightarrow> 'a vkernel_scheme \<Rightarrow> int \<times> 'a vkernel_scheme" where
  "vfs_lseek fd offset whence k =
     (if \<not> fd_ok fd k then (-1, k)
      else
        (let e = g_fds k ! nat fd; node = fd_node e in
         if node = 0 then (-1, k)
         else if whence \<noteq> VFS_SEEK_SET \<and> whence \<noteq> VFS_SEEK_CUR \<and> whence \<noteq> VFS_SEEK_END then (-1, k)
         else
           (let new_offset = (if whence = VFS_SEEK_SET then offset
                              else if whence = VFS_SEEK_CUR then fd_offset e + offset
                              else vn_size (node_at k node) + offset)
            in if sint new_offset < 0 then (-1, k)
               else (sint new_offset, k\<lparr>g_fds := (g_fds k)[nat fd := e\<lparr>fd_offset := new_offset\<rparr>]\<rparr>))))"

record vfs_stat_t =
  vs_size :: u64
  vs_type :: vfs_node_type
  vs_inode :: u64

definition node_stat :: "vfs_node \<Rightarrow> vfs_stat_t" where
  "node_stat n = \<lparr>vs_size = vn_size n, vs_type = vn_type n, vs_inode = vn_inode n\<rparr>"

definition vfs_fstat :: "int \<Rightarrow> 'a vkernel_scheme \<Rightarrow> int \<times> vfs_stat_t option" where
  "vfs_fstat fd k =
     (if \<not> fd_ok fd k then (-1, None)
      else (let node = fd_node (g_fds k ! nat fd) in if node = 0 then (-1, None) else (0, Some (node_stat (node_at k node)))))"

definition vfs_stat :: "(u64 \<Rightarrow> 'a vkernel_scheme vfs_ops) \<Rightarrow> string \<Rightarrow> 'a vkernel_scheme \<Rightarrow> (int \<times> vfs_stat_t option \<times> 'a vkernel_scheme) option" where
  "vfs_stat ops path k =
     do {
       (node, k) \<leftarrow> vfs_lookup ops path k;
       (if node = 0 then Some (-1, None, k)
        else
          (let st = node_stat (node_at k node) in
           do { k \<leftarrow> free_unless_root node k; Some (0, Some st, k) }))
     }"

definition vfs_dup :: "int \<Rightarrow> 'a vkernel_scheme \<Rightarrow> int \<times> 'a vkernel_scheme" where
  "vfs_dup fd k =
     (if \<not> fd_ok fd k then (-1, k)
      else case free_fd k of
          None \<Rightarrow> (-1, k)
        | Some i \<Rightarrow> (int i, k\<lparr>g_fds := (g_fds k)[i := g_fds k ! nat fd]\<rparr>))"

definition vfs_dup2 :: "(u64 \<Rightarrow> 'a vkernel_scheme vfs_ops) \<Rightarrow> int \<Rightarrow> int \<Rightarrow> 'a vkernel_scheme \<Rightarrow> (int \<times> 'a vkernel_scheme) option" where
  "vfs_dup2 ops oldfd newfd k =
     (if \<not> fd_ok oldfd k then Some (-1, k)
      else if newfd < 0 \<or> int VFS_MAX_FDS \<le> newfd then Some (-1, k)
      else if newfd = oldfd then Some (newfd, k)
      else
        do {
          k \<leftarrow> (if fd_active (g_fds k ! nat newfd) then map_option snd (vfs_close ops newfd k) else Some k);
          Some (newfd, k\<lparr>g_fds := (g_fds k)[nat newfd := g_fds k ! nat oldfd]\<rparr>)
        })"

end
