(* ===== verification/Vfs_Facts.thy ===== *)
theory Vfs_Facts
  imports Vfs
begin

text \<open>
  Properties of the virtual file system: who may open a node, what closing the descriptors of a
  process gives back to the kernel heap, and how the mount table resolves a path.
\<close>


subsection \<open>The close operation of ExFS\<close>

text \<open>The only driver is ExFS, whose close (\<^verbatim>\<open>kernel/fs/exfs/exfs.c\<close>) does nothing.\<close>

definition exfs_op_close :: "u64 \<Rightarrow> 'k \<Rightarrow> (int \<times> 'k) option" where
  "exfs_op_close node k = Some (0, k)"

definition exfs_close :: "(u64 \<Rightarrow> 'k vfs_ops) \<Rightarrow> bool" where
  "exfs_close ops \<longleftrightarrow> (\<forall>a. op_close (ops a) = None \<or> op_close (ops a) = Some exfs_op_close)"

lemma close_op_nop:
  assumes "exfs_close ops"
  shows "(case node_op ops op_close n of None \<Rightarrow> Some k | Some f \<Rightarrow> map_option snd (f a k)) = Some k"
  using assms by (auto simp: exfs_close_def node_op_def exfs_op_close_def split: option.splits dest: spec [of _ "vn_ops n"])

subsection \<open>Ownership of heap blocks by descriptors\<close>

definition node_blocks :: "'a vkernel_scheme \<Rightarrow> u64 \<Rightarrow> u64 list" where
  "node_blocks k n = filter (\<lambda>p. p \<noteq> 0) [vn_fs_data (node_at k n), n]"

definition fd_blocks :: "'a vkernel_scheme \<Rightarrow> fd_entry \<Rightarrow> u64 list" where
  "fd_blocks k e = (if fd_active e \<and> fd_node e \<noteq> 0 \<and> vn_parent (node_at k (fd_node e)) \<noteq> 0 then node_blocks k (fd_node e) else [])"

definition fds_blocks :: "'a vkernel_scheme \<Rightarrow> u64 list" where
  "fds_blocks k = concat (map (fd_blocks k) (g_fds k))"

definition fds_ok :: "'a vkernel_scheme \<Rightarrow> bool" where
  "fds_ok k \<longleftrightarrow> length (g_fds k) = VFS_MAX_FDS \<and> heap_inv (k_heap k) \<and> distinct (fds_blocks k)
     \<and> (\<forall>p \<in> set (fds_blocks k). \<exists>n. (unat p, n) \<in> live (k_heap k))"

text \<open>The blocks that start at the given addresses are released and no others.\<close>

definition releases :: "heap \<Rightarrow> u64 set \<Rightarrow> heap \<Rightarrow> bool" where
  "releases H P H' \<longleftrightarrow> heap_inv H' \<and> (\<exists>F. F \<subseteq> live H \<and> fst ` F = unat ` P \<and> live H' = live H - F)
     \<and> same_on (live H') (h_mem H) (h_mem H')"

lemma releases_refl: "heap_inv H \<Longrightarrow> releases H {} H"
  by (auto simp: releases_def intro: exI [of _ "{}"])

lemma releasesE:
  assumes "releases H P H'"
  obtains F where "heap_inv H'" "F \<subseteq> live H" "fst ` F = unat ` P" "live H' = live H - F" "same_on (live H') (h_mem H) (h_mem H')"
  using assms unfolding releases_def by blast

lemma releasesI:
  "heap_inv H' \<Longrightarrow> F \<subseteq> live H \<Longrightarrow> fst ` F = unat ` P \<Longrightarrow> live H' = live H - F \<Longrightarrow> same_on (live H') (h_mem H) (h_mem H')
     \<Longrightarrow> releases H P H'"
  unfolding releases_def by blast

lemma releases_trans:
  assumes "releases H P H'" and "releases H' Q H''"
  shows "releases H (P \<union> Q) H''"
proof -
  obtain F where f: "F \<subseteq> live H" "fst ` F = unat ` P" "live H' = live H - F" "same_on (live H') (h_mem H) (h_mem H')"
    using assms(1) by (rule releasesE)
  obtain G where g: "heap_inv H''" "G \<subseteq> live H'" "fst ` G = unat ` Q" "live H'' = live H' - G" "same_on (live H'') (h_mem H') (h_mem H'')"
    using assms(2) by (rule releasesE)
  have s: "live H'' \<subseteq> live H'" using g(4) by simp
  show ?thesis
  proof (rule releasesI [where F = "F \<union> G"])
    show "F \<union> G \<subseteq> live H" "live H'' = live H - (F \<union> G)" using f g by auto
    show "fst ` (F \<union> G) = unat ` (P \<union> Q)" unfolding image_Un f(2) g(3) ..
    show "same_on (live H'') (h_mem H) (h_mem H'')" by (rule same_on_trans [OF same_on_subset [OF f(4) s] g(5)])
  qed (rule g(1))
qed

lemma releases_keeps:
  assumes "releases H P H'" and "(unat p, n) \<in> live H" and "p \<notin> P"
  shows "(unat p, n) \<in> live H'"
proof -
  obtain F where f: "fst ` F = unat ` P" "live H' = live H - F" using assms(1) by (rule releasesE)
  have "(unat p, n) \<notin> F"
  proof
    assume "(unat p, n) \<in> F"
    then have "unat p \<in> unat ` P" using f(1) by force
    then obtain q where "q \<in> P" "unat p = unat q" by blast
    then show False using assms(3) by (simp add: word_unat_eq_iff [symmetric])
  qed
  then show ?thesis using assms(2) f(2) by simp
qed

lemma kfree_releases:
  assumes "heap_inv H" and "p \<noteq> 0 \<Longrightarrow> \<exists>n. (unat p, n) \<in> live H"
  shows "\<exists>H'. kfree H p = Some H' \<and> releases H (if p = 0 then {} else {p}) H'"
proof (cases "p = 0")
  case True
  then show ?thesis using releases_refl [OF assms(1)] by (simp add: kfree_def)
next
  case False
  obtain n where n: "(unat p, n) \<in> live H" using assms(2) False by blast
  obtain H' where "kfree H p = Some H'" "heap_inv H'" "live H' = live H - {(unat p, n)}" "same_on (live H') (h_mem H) (h_mem H')"
    using kheap.release_ok [OF assms(1) n] by blast
  moreover from this have "releases H {p} H'" by (intro releasesI [where F = "{(unat p, n)}"]) (use n in simp_all)
  ultimately show ?thesis using False by simp
qed

lemma node_in_blocks: "n \<noteq> 0 \<Longrightarrow> n \<in> set (node_blocks k n)"
  by (simp add: node_blocks_def)

lemma free_node_releases:
  assumes "heap_inv (k_heap k)" and "distinct (node_blocks k n)" and "\<forall>p \<in> set (node_blocks k n). \<exists>m. (unat p, m) \<in> live (k_heap k)"
    and "n \<noteq> 0"
  shows "\<exists>H'. free_node n k = Some (k\<lparr>k_heap := H'\<rparr>) \<and> releases (k_heap k) (set (node_blocks k n)) H'"
proof -
  let ?d = "vn_fs_data (node_at k n)"
  obtain H1 where H1: "kfree (k_heap k) ?d = Some H1" "releases (k_heap k) (if ?d = 0 then {} else {?d}) H1"
    using kfree_releases [OF assms(1), of ?d] assms(3) by (auto simp: node_blocks_def)
  obtain m where m: "(unat n, m) \<in> live (k_heap k)" using assms(3) node_in_blocks [OF assms(4)] by blast
  have "n \<notin> (if ?d = 0 then {} else {?d})" using assms(2,4) by (auto simp: node_blocks_def)
  then have "(unat n, m) \<in> live H1" using releases_keeps [OF H1(2) m] by blast
  moreover have "heap_inv H1" using H1(2) by (rule releasesE)
  ultimately obtain H2 where H2: "kfree H1 n = Some H2" "releases H1 (if n = 0 then {} else {n}) H2"
    using kfree_releases [of H1 n] by blast
  have "releases (k_heap k) (set (node_blocks k n)) H2"
    using releases_trans [OF H1(2) H2(2)] assms(4) by (auto simp: node_blocks_def insert_commute split: if_splits)
  then show ?thesis using H1(1) H2(1) by (auto simp: free_node_def)
qed

lemma node_at_heap [simp]:
  "node_at (k\<lparr>k_heap := H\<rparr>) n = node_at k n" "node_at (k\<lparr>g_fds := f\<rparr>) n = node_at k n"
  by (simp_all add: node_at_def)

lemma fd_blocks_heap [simp]:
  "fd_blocks (k\<lparr>k_heap := H\<rparr>) e = fd_blocks k e" "fd_blocks (k\<lparr>g_fds := f\<rparr>) e = fd_blocks k e" "fd_blocks k zero_fd = []"
  by (simp_all add: fd_blocks_def node_blocks_def zero_fd_def)

lemma concat_update_Nil:
  assumes "i < length xss" and "distinct (concat xss)"
  shows "distinct (concat (xss[i := []]))" and "set (concat (xss[i := []])) = set (concat xss) - set (xss ! i)"
proof -
  have e: "concat xss = concat (take i xss) @ xss ! i @ concat (drop (Suc i) xss)"
    using id_take_nth_drop [OF assms(1)] by (metis concat.simps(2) concat_append)
  have u: "concat (xss[i := []]) = concat (take i xss) @ concat (drop (Suc i) xss)"
    using assms(1) by (simp add: upd_conv_take_nth_drop)
  show "distinct (concat (xss[i := []]))" using assms(2) unfolding e u by auto
  show "set (concat (xss[i := []])) = set (concat xss) - set (xss ! i)" using assms(2) unfolding e u by auto
qed

lemma vfs_close_ok:
  assumes ok: "fds_ok k" and fd: "fd_ok fd k" and ex: "exfs_close ops"
  shows "\<exists>H'. vfs_close ops fd k = Some (0, k\<lparr>k_heap := H', g_fds := (g_fds k)[nat fd := zero_fd]\<rparr>)
     \<and> fds_ok (k\<lparr>k_heap := H', g_fds := (g_fds k)[nat fd := zero_fd]\<rparr>)
     \<and> releases (k_heap k) (set (fd_blocks k (g_fds k ! nat fd))) H'"
proof -
  let ?e = "g_fds k ! nat fd" and ?i = "nat fd"
  let ?n = "fd_node ?e"
  have i: "?i < length (g_fds k)" using ok fd by (auto simp: fds_ok_def fd_ok_def)
  have inv: "heap_inv (k_heap k)" using ok by (simp add: fds_ok_def)
  have sub: "set (fd_blocks k ?e) \<subseteq> set (fds_blocks k)" using nth_mem [OF i] by (auto simp: fds_blocks_def)
  have dis: "distinct (fd_blocks k ?e)" using ok i by (simp add: fds_ok_def fds_blocks_def distinct_concat_iff)
  have act: "fd_active ?e" using fd by (simp add: fd_ok_def)
  have "\<exists>H'. (if ?n \<noteq> 0 then free_unless_root ?n k else Some k) = Some (k\<lparr>k_heap := H'\<rparr>) \<and> releases (k_heap k) (set (fd_blocks k ?e)) H'"
  proof (cases "?n \<noteq> 0 \<and> vn_parent (node_at k ?n) \<noteq> 0")
    case True
    then have b: "fd_blocks k ?e = node_blocks k ?n" using act by (simp add: fd_blocks_def)
    have lv: "\<forall>p \<in> set (node_blocks k ?n). \<exists>m. (unat p, m) \<in> live (k_heap k)" using ok sub b by (auto simp: fds_ok_def)
    show ?thesis using free_node_releases [OF inv _ lv] dis b True by (simp add: free_unless_root_def)
  next
    case False
    then have "fd_blocks k ?e = []" unfolding fd_blocks_def by (intro if_not_P) blast
    then show ?thesis using False releases_refl [OF inv] by (intro exI [of _ "k_heap k"]) (auto simp: free_unless_root_def)
  qed
  then obtain H' where H': "(if ?n \<noteq> 0 then free_unless_root ?n k else Some k) = Some (k\<lparr>k_heap := H'\<rparr>)"
    "releases (k_heap k) (set (fd_blocks k ?e)) H'" by blast
  let ?k = "k\<lparr>k_heap := H', g_fds := (g_fds k)[?i := zero_fd]\<rparr>"
  have "vfs_close ops fd k = do { k \<leftarrow> (if ?n \<noteq> 0 then free_unless_root ?n k else Some k); Some (0, k\<lparr>g_fds := (g_fds k)[?i := zero_fd]\<rparr>) }"
    using fd close_op_nop [OF ex] by (simp add: vfs_close_def Let_def)
  then have "vfs_close ops fd k = Some (0, ?k)" unfolding H'(1) by simp
  moreover have "fds_ok ?k"
  proof -
    have "fd_blocks ?k = fd_blocks k" by (rule ext) simp
    then have b: "fds_blocks ?k = concat ((map (fd_blocks k) (g_fds k))[?i := []])" by (simp add: fds_blocks_def map_update)
    note c = concat_update_Nil [of ?i "map (fd_blocks k) (g_fds k)"]
    have s: "distinct (fds_blocks ?k)" "set (fds_blocks ?k) = set (fds_blocks k) - set (fd_blocks k ?e)"
      using c ok i unfolding b by (simp_all add: fds_ok_def fds_blocks_def)
    have "\<exists>n. (unat p, n) \<in> live H'" if "p \<in> set (fds_blocks ?k)" for p
    proof -
      have p: "p \<in> set (fds_blocks k)" "p \<notin> set (fd_blocks k ?e)" using that s(2) by auto
      obtain n where "(unat p, n) \<in> live (k_heap k)" using p(1) ok unfolding fds_ok_def by blast
      then show ?thesis using releases_keeps [OF H'(2) _ p(2)] by blast
    qed
    then show ?thesis using s ok H'(2) by (simp add: fds_ok_def releases_def)
  qed
  ultimately show ?thesis using H'(2) by blast
qed

definition owned_by :: "u32 \<Rightarrow> fd_entry \<Rightarrow> bool" where
  "owned_by pid e \<longleftrightarrow> fd_active e \<and> fd_owner_pid e = pid"

lemma close_owned_ok:
  assumes ex: "exfs_close ops" and "fds_ok k" and "set js \<subseteq> {..<VFS_MAX_FDS}" and "distinct js"
  shows "\<exists>H' fds'. close_owned ops pid js k = Some (k\<lparr>k_heap := H', g_fds := fds'\<rparr>)
     \<and> fds_ok (k\<lparr>k_heap := H', g_fds := fds'\<rparr>)
     \<and> (\<forall>j. fds' ! j = (if j \<in> set js \<and> owned_by pid (g_fds k ! j) then zero_fd else g_fds k ! j))
     \<and> releases (k_heap k) (\<Union>j \<in> {j \<in> set js. owned_by pid (g_fds k ! j)}. set (fd_blocks k (g_fds k ! j))) H'"
  using assms(2-4)
proof (induction js arbitrary: k)
  case Nil
  have e: "k\<lparr>k_heap := k_heap k, g_fds := g_fds k\<rparr> = k" by simp
  have "heap_inv (k_heap k)" using Nil.prems by (simp add: fds_ok_def)
  then show ?case using Nil.prems releases_refl by (intro exI [of _ "k_heap k"] exI [of _ "g_fds k"]) (simp add: e)
next
  case (Cons i js)
  have il: "i < VFS_MAX_FDS" "i < length (g_fds k)" using Cons.prems by (auto simp: fds_ok_def)
  have js: "set js \<subseteq> {..<VFS_MAX_FDS}" "distinct js" "i \<notin> set js" using Cons.prems by auto
  show ?case
  proof (cases "owned_by pid (g_fds k ! i)")
    case True
    then have "fd_ok (int i) k" using il by (simp add: fd_ok_def owned_by_def)
    from vfs_close_ok [OF Cons.prems(1) this ex] obtain H1 where
      c: "vfs_close ops (int i) k = Some (0, k\<lparr>k_heap := H1, g_fds := (g_fds k)[i := zero_fd]\<rparr>)"
      and ok1: "fds_ok (k\<lparr>k_heap := H1, g_fds := (g_fds k)[i := zero_fd]\<rparr>)"
      and r1: "releases (k_heap k) (set (fd_blocks k (g_fds k ! i))) H1" by auto
    let ?k = "k\<lparr>k_heap := H1, g_fds := (g_fds k)[i := zero_fd]\<rparr>"
    have nth: "g_fds ?k ! j = (if j = i then zero_fd else g_fds k ! j)" for j using il by (simp add: nth_list_update)
    have nz: "\<not> owned_by pid zero_fd" by (simp add: owned_by_def zero_fd_def)
    obtain H2 fds2 where 2: "close_owned ops pid js ?k = Some (?k\<lparr>k_heap := H2, g_fds := fds2\<rparr>)" "fds_ok (?k\<lparr>k_heap := H2, g_fds := fds2\<rparr>)"
      "\<forall>j. fds2 ! j = (if j \<in> set js \<and> owned_by pid (g_fds ?k ! j) then zero_fd else g_fds ?k ! j)"
      "releases (k_heap ?k) (\<Union>j \<in> {j \<in> set js. owned_by pid (g_fds ?k ! j)}. set (fd_blocks ?k (g_fds ?k ! j))) H2"
      using Cons.IH [OF ok1 js(1,2)] by blast
    have s: "{j \<in> set js. owned_by pid (g_fds ?k ! j)} = {j \<in> set js. owned_by pid (g_fds k ! j)}" using nth js(3) by auto
    have u: "(\<Union>j \<in> {j \<in> set js. owned_by pid (g_fds ?k ! j)}. set (fd_blocks ?k (g_fds ?k ! j)))
        = (\<Union>j \<in> {j \<in> set js. owned_by pid (g_fds k ! j)}. set (fd_blocks k (g_fds k ! j)))"
      unfolding s by (intro SUP_cong refl) (use nth js(3) in auto)
    have "releases (k_heap k) (set (fd_blocks k (g_fds k ! i)) \<union> (\<Union>j \<in> {j \<in> set js. owned_by pid (g_fds k ! j)}. set (fd_blocks k (g_fds k ! j)))) H2"
      using releases_trans [OF r1] 2(4) unfolding u by simp
    moreover have s': "{j \<in> set (i # js). owned_by pid (g_fds k ! j)} = insert i {j \<in> set js. owned_by pid (g_fds k ! j)}" using True by auto
    ultimately have r: "releases (k_heap k) (\<Union>j \<in> {j \<in> set (i # js). owned_by pid (g_fds k ! j)}. set (fd_blocks k (g_fds k ! j))) H2"
      unfolding s' by simp
    have c2: "close_owned ops pid (i # js) k = Some (k\<lparr>k_heap := H2, g_fds := fds2\<rparr>)"
      using True c 2(1) by (simp add: owned_by_def)
    have n2: "\<forall>j. fds2 ! j = (if j \<in> set (i # js) \<and> owned_by pid (g_fds k ! j) then zero_fd else g_fds k ! j)"
      using 2(3) nth nz True js(3) by auto
    have ok2: "fds_ok (k\<lparr>k_heap := H2, g_fds := fds2\<rparr>)" using 2(2) by simp
    show ?thesis by (intro exI conjI) (rule c2 ok2 n2 r)+
  next
    case False
    have c: "close_owned ops pid (i # js) k = close_owned ops pid js k" using False by (auto simp: owned_by_def)
    have s: "{j \<in> set (i # js). owned_by pid (g_fds k ! j)} = {j \<in> set js. owned_by pid (g_fds k ! j)}" using False by auto
    have n: "(if j \<in> set (i # js) \<and> owned_by pid (g_fds k ! j) then zero_fd else g_fds k ! j)
        = (if j \<in> set js \<and> owned_by pid (g_fds k ! j) then zero_fd else g_fds k ! j)" for j using False by auto
    show ?thesis unfolding c s n by (rule Cons.IH [OF Cons.prems(1) js(1,2)])
  qed
qed

lemma vfs_close_all_ok:
  assumes "exfs_close ops" and "fds_ok k" and "pid \<noteq> 0"
  shows "\<exists>H' fds'. vfs_close_all_for_pid ops pid k = Some (k\<lparr>k_heap := H', g_fds := fds'\<rparr>)
     \<and> fds_ok (k\<lparr>k_heap := H', g_fds := fds'\<rparr>)
     \<and> (\<forall>j. fds' ! j = (if j \<in> {3..<VFS_MAX_FDS} \<and> owned_by pid (g_fds k ! j) then zero_fd else g_fds k ! j))
     \<and> releases (k_heap k) (\<Union>j \<in> {j \<in> {3..<VFS_MAX_FDS}. owned_by pid (g_fds k ! j)}. set (fd_blocks k (g_fds k ! j))) H'"
proof -
  have "set [3..<VFS_MAX_FDS] \<subseteq> {..<VFS_MAX_FDS}" "distinct [3..<VFS_MAX_FDS]" by auto
  note c = close_owned_ok [OF assms(1,2) this, of pid, unfolded set_upt]
  have e: "vfs_close_all_for_pid ops pid k = close_owned ops pid [3..<VFS_MAX_FDS] k"
    using assms(3) unfolding vfs_close_all_for_pid_def by (rule if_not_P)
  show ?thesis unfolding e by (rule c)
qed

subsection \<open>Permissions\<close>

text \<open>The Unix permission model: the bits of the class the caller belongs to, root counting as the owner.\<close>

datatype perm_class = Owner | Group | Other

definition class_of :: "vfs_node \<Rightarrow> u32 \<Rightarrow> u32 \<Rightarrow> perm_class" where
  "class_of n uid gid =
     (if uid = UID_ROOT \<or> uid = vn_owner_uid n then Owner else if gid = vn_group_gid n then Group else Other)"

definition may_read :: "vfs_node \<Rightarrow> u32 \<Rightarrow> u32 \<Rightarrow> bool" where
  "may_read n uid gid = bit (vn_mode n) (case class_of n uid gid of Owner \<Rightarrow> 8 | Group \<Rightarrow> 5 | Other \<Rightarrow> 2)"

definition may_write :: "vfs_node \<Rightarrow> u32 \<Rightarrow> u32 \<Rightarrow> bool" where
  "may_write n uid gid = bit (vn_mode n) (case class_of n uid gid of Owner \<Rightarrow> 7 | Group \<Rightarrow> 4 | Other \<Rightarrow> 1)"


lemma mode_bits:
  "m AND 0x100 = 0 \<longleftrightarrow> \<not> bit m 8" "m AND 0x80 = 0 \<longleftrightarrow> \<not> bit m 7" "m AND 0x20 = 0 \<longleftrightarrow> \<not> bit m 5"
  "m AND 0x10 = 0 \<longleftrightarrow> \<not> bit m 4" "m AND 4 = 0 \<longleftrightarrow> \<not> bit m 2" "m AND 2 = 0 \<longleftrightarrow> \<not> bit m 1" for m :: u32
  using and_exp_eq_0_iff_not_bit [of m 8] and_exp_eq_0_iff_not_bit [of m 7] and_exp_eq_0_iff_not_bit [of m 5]
    and_exp_eq_0_iff_not_bit [of m 4] and_exp_eq_0_iff_not_bit [of m 2] and_exp_eq_0_iff_not_bit [of m 1] by simp_all

lemma open_allowed_iff:
  "open_allowed n uid gid flags \<longleftrightarrow>
     ((flags AND 3 = 0 \<or> flags AND 3 = 2) \<longrightarrow> may_read n uid gid)
     \<and> ((flags AND 3 = 1 \<or> flags AND 3 = 2 \<or> flags AND 0x400 \<noteq> 0) \<longrightarrow> may_write n uid gid)"
proof -
  have "class_of n uid gid = Owner \<or> class_of n uid gid = Group \<or> class_of n uid gid = Other" by (cases "class_of n uid gid") auto
  then show ?thesis
    unfolding open_allowed_def Let_def may_read_def may_write_def class_of_def
    by (auto simp: mode_bits)
qed

text \<open>Root needs the bits of the owner.\<close>

lemma root_owner_bits:
  "may_read n uid gid \<Longrightarrow> uid = UID_ROOT \<Longrightarrow> bit (vn_mode n) 8" "may_write n uid gid \<Longrightarrow> uid = UID_ROOT \<Longrightarrow> bit (vn_mode n) 7"
  by (simp_all add: may_read_def may_write_def class_of_def)

lemma free_fdD:
  assumes "free_fd k = Some i"
  shows "3 \<le> i" and "i < length (g_fds k)" and "\<not> fd_active (g_fds k ! i)"
proof -
  obtain j where j: "first_idx (\<lambda>e. \<not> fd_active e) (drop 3 (g_fds k)) = Some j" and i: "i = j + 3"
    using assms by (auto simp: free_fd_def)
  have "j < length (g_fds k) - 3" "\<not> fd_active (g_fds k ! (3 + j))" using first_idx_SomeD [OF j] by auto
  then show "3 \<le> i" "i < length (g_fds k)" "\<not> fd_active (g_fds k ! i)" unfolding i by (auto simp: add.commute)
qed

text \<open>
  C31: \<open>vfs_open\<close> hands out a descriptor only for a node that the path leads to and that grants the
  caller what the access mode asks for, in the class (owner, group or other) the caller belongs to.
  Root is not exempt: it counts as the owner of every node and needs the owner's bits, although the comments of
  \<^verbatim>\<open>vfs_open\<close> and of \<^verbatim>\<open>struct vfs_node\<close> say that it bypasses all checks.
  The descriptor is a free slot past the three standard ones, starts at offset 0 and belongs to the
  calling process.
\<close>

theorem vfs_open_permission:
  assumes "vfs_open ops path flags k = Some (fd, k')" and "fd \<noteq> -1"
  shows "\<exists>node k1 k2. vfs_lookup ops path k = Some (node, k1) \<and> node \<noteq> 0
     \<and> (flags AND 3 = 0 \<or> flags AND 3 = 2 \<longrightarrow> may_read (node_at k1 node) (caller_uid k1) (caller_gid k1)
          \<and> (caller_uid k1 = UID_ROOT \<longrightarrow> bit (vn_mode (node_at k1 node)) 8))
     \<and> (flags AND 3 = 1 \<or> flags AND 3 = 2 \<or> flags AND 0x400 \<noteq> 0 \<longrightarrow> may_write (node_at k1 node) (caller_uid k1) (caller_gid k1)
          \<and> (caller_uid k1 = UID_ROOT \<longrightarrow> bit (vn_mode (node_at k1 node)) 7))
     \<and> 3 \<le> fd \<and> nat fd < length (g_fds k1) \<and> \<not> fd_active (g_fds k1 ! nat fd)
     \<and> k' = k2\<lparr>g_fds := (g_fds k2)[nat fd := \<lparr>fd_node = node, fd_offset = 0, fd_active = True, fd_owner_pid = caller_pid k2\<rparr>]\<rparr>"
proof -
  obtain node k1 where l: "vfs_lookup ops path k = Some (node, k1)" using assms(1) by (auto simp: vfs_open_def bind_eq_Some_conv)
  note o = assms(1) [unfolded vfs_open_def l, simplified]
  have n: "node \<noteq> 0" using o assms(2) by auto
  have a: "vn_ops (node_at k1 node) \<noteq> 0" "open_allowed (node_at k1 node) (caller_uid k1) (caller_gid k1) flags"
    using o n assms(2) by (auto split: if_splits simp: bind_eq_Some_conv)
  obtain i where i: "free_fd k1 = Some i" using o n a assms(2) by (cases "free_fd k1") (auto simp: bind_eq_Some_conv)
  obtain k2 where "fd = int i" "k' = install_fd i node k2" using o n a i by (auto simp: bind_eq_Some_conv)
  moreover have "(flags AND 3 = 0 \<or> flags AND 3 = 2 \<longrightarrow> may_read (node_at k1 node) (caller_uid k1) (caller_gid k1)
          \<and> (caller_uid k1 = UID_ROOT \<longrightarrow> bit (vn_mode (node_at k1 node)) 8))
      \<and> (flags AND 3 = 1 \<or> flags AND 3 = 2 \<or> flags AND 0x400 \<noteq> 0 \<longrightarrow> may_write (node_at k1 node) (caller_uid k1) (caller_gid k1)
          \<and> (caller_uid k1 = UID_ROOT \<longrightarrow> bit (vn_mode (node_at k1 node)) 7))"
    using a(2) [unfolded open_allowed_iff] root_owner_bits by blast
  ultimately show ?thesis using l n free_fdD [OF i] unfolding install_fd_def
    by (intro exI [of _ node] exI [of _ k1] exI [of _ k2]) simp
qed

subsection \<open>Two holes\<close>

text \<open>What the driver does when \<open>vfs_open\<close> has found a descriptor.\<close>

definition driver_open :: "(u64 \<Rightarrow> 'a vkernel_scheme vfs_ops) \<Rightarrow> u64 \<Rightarrow> u32 \<Rightarrow> 'a vkernel_scheme \<Rightarrow> 'a vkernel_scheme option" where
  "driver_open ops node flags k =
     (case op_open (ops (vn_ops (node_at k node))) of None \<Rightarrow> Some k | Some f \<Rightarrow> map_option snd (f node flags k))"

text \<open>
  C32: The permission check asks for neither reading nor writing when the two low bits of the flags
  are 3, and \<open>vfs_write\<close> looks neither at the flags a descriptor was opened with nor at its owner.
  Hence, while a descriptor is free, any caller opens any node whose driver can write with flags 3, whatever its mode bits and
  owner are, and writes to it through the driver.  This needs of the driver's open operation only that it returns and leaves the
  descriptors and the node alone; \<^verbatim>\<open>exfs_op_open\<close> does so, as it refreshes its copy of the inode, records the access on the disk
  and in the audit ring, and ignores the flags.  Where the node has a bare name, as ExFS gives it, the file integrity
  monitor is not told: the state handed to the driver has no new alert.
\<close>

theorem vfs_write_unchecked:
  assumes "vfs_lookup ops path k = Some (node, k1)" and "node \<noteq> 0" and "vn_ops (node_at k1 node) \<noteq> 0"
    and "free_fd k1 = Some i" and "length (g_fds k1) = VFS_MAX_FDS"
    and "driver_open ops node 3 k1 = Some k2" and "g_fds k2 = g_fds k1" and "node_at k2 node = node_at k1 node"
    and "op_write (ops (vn_ops (node_at k1 node))) = Some f"
    and "vn_name (node_at k1 node) = c # name" and "c \<noteq> CHR ''/''"
  shows "vfs_open ops path 3 k = Some (int i, install_fd i node k2)
     \<and> vfs_write ops (int i) buf len (install_fd i node k2)
         = map_option (\<lambda>(n, k3). (n, advance (int i) n k3)) (f node 0 buf len (install_fd i node k2))"
proof
  have "open_allowed (node_at k1 node) (caller_uid k1) (caller_gid k1) 3" by (simp add: open_allowed_iff)
  then show "vfs_open ops path 3 k = Some (int i, install_fd i node k2)"
    using assms(1-4,6) by (simp add: vfs_open_def driver_open_def)
next
  let ?k = "install_fd i node k2"
  have i: "i < VFS_MAX_FDS" using free_fdD [OF assms(4)] assms(5) by simp
  have g: "g_fds ?k ! i = \<lparr>fd_node = node, fd_offset = 0, fd_active = True, fd_owner_pid = caller_pid k2\<rparr>"
    using i assms(5,7) by (simp add: install_fd_def)
  have n: "node_at ?k node = node_at k1 node" using assms(8) by (simp add: install_fd_def node_at_def)
  have al: "alert (snd (fim_on_write (c # name))) ?k = ?k"
    using fim_match_relative [of "c # name"] assms(11) by (simp add: alert_def fim_on_write_def fim_hook_def)
  have "fd_ok (int i) ?k" using i g by (simp add: fd_ok_def)
  then show "vfs_write ops (int i) buf len ?k = map_option (\<lambda>(n, k3). (n, advance (int i) n k3)) (f node 0 buf len ?k)"
    using assms(2,3,9,10) g n al
    by (cases "f node 0 buf len ?k") (auto simp: vfs_write_def node_op_def Let_def)
qed

lemma best_mount_single:
  assumes "take (g_mount_count k) (g_mounts k) = [m]" and "mt_active m" and "mt_mountpoint m \<noteq> []"
  shows "best_mount (mt_mountpoint m @ rest) k = Some (mt_root m, length (mt_mountpoint m))"
  using assms by (simp add: best_mount_def mount_step_def)

text \<open>
  A mount point is matched as a prefix of the characters of the path, not of its components:
  with a file system mounted on \<open>mp\<close> alone, the path \<open>mp\<close> followed by any text resolves as \<open>mp\<close>, a slash
  and that text, so \<^verbatim>\<open>/mntfoo\<close> names the file \<^verbatim>\<open>foo\<close> below \<^verbatim>\<open>/mnt\<close>.
\<close>

lemma vfs_mount_boundary:
  assumes "take (g_mount_count k) (g_mounts k) = [m]" and "mt_active m" and "mt_mountpoint m = CHR ''/'' # mp"
  shows "vfs_lookup ops (mt_mountpoint m @ rest) k = vfs_lookup ops (mt_mountpoint m @ ''/'' @ rest) k"
proof -
  have ne: "mt_mountpoint m \<noteq> []" using assms(3) by simp
  note b = best_mount_single [OF assms(1,2) this]
  have "skip_slashes (drop (length (mt_mountpoint m)) (mt_mountpoint m @ rest))
      = skip_slashes (drop (length (mt_mountpoint m)) (mt_mountpoint m @ ''/'' @ rest))" by (simp add: skip_slashes_def)
  moreover have "hd (mt_mountpoint m @ r) = CHR ''/''" "mt_mountpoint m @ r \<noteq> []" for r using assms(3) by auto
  ultimately show ?thesis using ne b [of rest] b [of "''/'' @ rest"]
    unfolding vfs_lookup_def add_Suc_right One_nat_def add_0_right vfs_lookup_impl.simps by simp
qed

subsection \<open>An example system\<close>

text \<open>
  One file system on \<^verbatim>\<open>/mnt\<close> with a file that others may only read and one that nobody may touch;
  the caller is user 1000.  As in ExFS, opening a node writes to the driver's data in the heap.
\<close>

definition demo_refresh :: "'a vkernel_scheme \<Rightarrow> 'a vkernel_scheme" where
  "demo_refresh k = k\<lparr>k_heap := (k_heap k)\<lparr>h_mem := (h_mem (k_heap k))(0x108000 := 1)\<rparr>\<rparr>"

definition demo_ops :: "u64 \<Rightarrow> 'a vkernel_scheme vfs_ops" where
  "demo_ops a = \<lparr>op_open = Some (\<lambda>node flags k. Some (0, demo_refresh k)), op_close = None, op_read = None,
     op_write = Some (\<lambda>node offset buf len k. Some (int (unat len), k)),
     op_lookup = Some (\<lambda>dir name k. Some (if name = ''motd'' then 0x200 else if name = ''shadow'' then 0x300 else 0, k)),
     op_readdir = None, op_create = None, op_unlink = None, op_rmdir = None, op_chmod = None, op_rename = None,
     op_symlink = None, op_chgrp = None\<rparr>"

definition demo_node :: "string \<Rightarrow> vfs_node_type \<Rightarrow> u32 \<Rightarrow> vfs_node" where
  "demo_node name ty mode = \<lparr>vn_name = name, vn_type = ty, vn_size = 0, vn_inode = 1, vn_ops = 0x1000, vn_fs_data = 0,
     vn_parent = 0, vn_mode = mode, vn_owner_uid = 0, vn_group_gid = 0\<rparr>"

definition demo_mount :: mount_entry where
  "demo_mount = \<lparr>mt_mountpoint = ''/mnt'', mt_root = 0x100, mt_active = True\<rparr>"

definition demo_vfs :: vkernel where
  "demo_vfs = \<lparr>k_sched = pset 0 (\<lambda>p. p\<lparr>pr_uid := 1000, pr_gid := 1000\<rparr>) demo_sched,
     k_heap = kmalloc_init 0x100000 0x10000 (\<lambda>_. 0), k_inbox = (\<lambda>_. zero_inbox),
     v_nodes = (\<lambda>a. if a = 0x100 then demo_node ''/'' VFS_DIRECTORY 0x1ED else if a = 0x200 then demo_node ''motd'' VFS_FILE 0x1A4
                   else demo_node ''shadow'' VFS_FILE 0),
     g_mounts = [demo_mount], g_fds = replicate VFS_MAX_FDS zero_fd, g_mount_count = 1, g_cwd = 0, v_alerts = []\<rparr>"

lemma demo_caller: "caller_uid demo_vfs = 1000" "caller_gid demo_vfs = 1000" "caller_pid demo_vfs = pr_pid (pget demo_sched 0)"
  by (simp_all add: demo_vfs_def caller_uid_def caller_gid_def caller_pid_def current_pid_def pget_def pset_def demo_sched_def demo_table_def)

lemma demo_free_fd: "free_fd demo_vfs = Some 3"
proof -
  have "drop 3 (replicate VFS_MAX_FDS zero_fd) = zero_fd # replicate 60 zero_fd"
    by (simp add: VFS_MAX_FDS_def numeral_3_eq_3 flip: replicate_Suc)
  then show ?thesis by (simp add: free_fd_def demo_vfs_def zero_fd_def)
qed

lemma demo_node_at:
  "node_at demo_vfs 0x100 = demo_node ''/'' VFS_DIRECTORY 0x1ED" "node_at demo_vfs 0x200 = demo_node ''motd'' VFS_FILE 0x1A4"
  "node_at demo_vfs 0x300 = demo_node ''shadow'' VFS_FILE 0"
  by (simp_all add: node_at_def demo_vfs_def)

lemma demo_mounts: "take (g_mount_count demo_vfs) (g_mounts demo_vfs) = [demo_mount]"
  by (simp add: demo_vfs_def)

lemma demo_lookup:
  "vfs_lookup demo_ops ''/mnt/motd'' demo_vfs = Some (0x200, demo_vfs)"
  "vfs_lookup demo_ops ''/mnt/shadow'' demo_vfs = Some (0x300, demo_vfs)"
  unfolding vfs_lookup_def add_Suc_right One_nat_def add_0_right vfs_lookup_impl.simps best_mount_def demo_mounts
  by (simp_all add: mount_step_def demo_mount_def walk.simps VFS_NAME_MAX_def component_def after_component_def skip_slashes_def
     node_op_def demo_node_at demo_ops_def demo_node_def)

lemma demo_open: "vfs_open demo_ops ''/mnt/motd'' 0 demo_vfs = Some (3, install_fd 3 0x200 (demo_refresh demo_vfs))"
  by (simp add: vfs_open_def demo_lookup demo_free_fd demo_node_at demo_caller open_allowed_def UID_ROOT_def)
     (simp add: demo_node_def demo_ops_def)

theorem vfs_open_permission_witness:
  "vfs_open demo_ops ''/mnt/motd'' 0 demo_vfs = Some (3, install_fd 3 0x200 (demo_refresh demo_vfs))
   \<and> may_read (node_at demo_vfs 0x200) (caller_uid demo_vfs) (caller_gid demo_vfs)
   \<and> vfs_open demo_ops ''/mnt/motd'' 1 demo_vfs = Some (-1, demo_vfs)"
proof (intro conjI)
  show "may_read (node_at demo_vfs 0x200) (caller_uid demo_vfs) (caller_gid demo_vfs)"
    using vfs_open_permission [OF demo_open] by (auto simp: demo_lookup)
  show "vfs_open demo_ops ''/mnt/motd'' 1 demo_vfs = Some (-1, demo_vfs)"
    by (simp add: vfs_open_def demo_lookup demo_node_at demo_caller open_allowed_def UID_ROOT_def free_unless_root_def)
       (simp add: demo_node_def)
qed (rule demo_open)

theorem vfs_write_unchecked_witness:
  "\<not> may_write (node_at demo_vfs 0x300) (caller_uid demo_vfs) (caller_gid demo_vfs)
   \<and> vfs_open demo_ops ''/mnt/shadow'' 3 demo_vfs = Some (3, install_fd 3 0x300 (demo_refresh demo_vfs))
   \<and> (\<exists>k. vfs_write demo_ops 3 ''root::0:0'' 9 (install_fd 3 0x300 (demo_refresh demo_vfs)) = Some (9, k))"
proof -
  have "length (g_fds demo_vfs) = VFS_MAX_FDS" by (simp add: demo_vfs_def)
  moreover have n: "vn_name (node_at demo_vfs 0x300) = CHR ''s'' # ''hadow''" "vn_ops (node_at demo_vfs 0x300) = 0x1000"
    by (simp_all add: demo_node_at demo_node_def)
  moreover have "driver_open demo_ops 0x300 3 demo_vfs = Some (demo_refresh demo_vfs)" by (simp add: driver_open_def demo_ops_def)
  moreover have "g_fds (demo_refresh demo_vfs) = g_fds demo_vfs" "node_at (demo_refresh demo_vfs) 0x300 = node_at demo_vfs 0x300"
    by (simp_all add: demo_refresh_def node_at_def)
  moreover have "op_write (demo_ops 0x1000 :: vkernel vfs_ops) = Some (\<lambda>node offset buf len k. Some (int (unat len), k))" by (simp add: demo_ops_def)
  ultimately show ?thesis
    using vfs_write_unchecked [OF demo_lookup(2), where c = "CHR ''s''" and name = "''hadow''" and i = 3 and buf = "''root::0:0''" and len = 9
        and ?k2.0 = "demo_refresh demo_vfs" and f = "\<lambda>node offset buf len k. Some (int (unat len), k)"]
    by (simp add: demo_free_fd may_write_def demo_node_at demo_node_def)
qed

end
