(* ===== verification/Process.thy ===== *)
theory Process
  imports Vfs_Facts Vmm
begin

text \<open>
  The life of a process (\<^verbatim>\<open>kernel/proc/process.c\<close>) and the FXSAVE areas it owns
  (\<^verbatim>\<open>kernel/arch/x86_64/fpu.c\<close>).  This is where the components meet: creating a process allocates from
  the heap and writes the audit log, and its exit gives back its inbox, its FPU area and its
  descriptors and wakes whoever waits for it.
\<close>

definition FPU_STATE_SIZE :: u64 where "FPU_STATE_SIZE = 512"

text \<open>
  The state of the file system, the audit ring, page tables and CR3, the FPU template, and the address of \<^verbatim>\<open>proc_idle_loop\<close>.
\<close>

record pkernel = vkernel +
  k_audit :: audit_state
  k_vm :: vmm
  g_fpu_template :: "u8 list"
  proc_idle_loop :: u64

subsection \<open>FPU areas\<close>

text \<open>
  The pointer to the heap block is kept in the eight bytes below the area.  The contents of the areas are not bytes of the heap but the map
  \<open>fpu_areas\<close> that the scheduler saves to and loads from.
\<close>

definition fpu_alloc_state :: "'a pkernel_scheme \<Rightarrow> (u64 \<times> 'a pkernel_scheme) option" where
  "fpu_alloc_state k =
     do {
       (raw, H) \<leftarrow> kmalloc (k_heap k) (FPU_STATE_SIZE + 32);
       (if raw = 0 then Some (0, k\<lparr>k_heap := H\<rparr>)
        else
          (let base = raw + 16;
               aligned = (base + 15) AND NOT 15;
               H = H\<lparr>h_mem := st64 (h_mem H) (aligned - 8) raw\<rparr>
           in Some (aligned, k\<lparr>k_heap := H,
                k_sched := (k_sched k)\<lparr>fpu_areas := (fpu_areas (k_sched k))(aligned := g_fpu_template k)\<rparr>\<rparr>)))
     }"

definition fpu_free_state :: "u64 \<Rightarrow> 'a pkernel_scheme \<Rightarrow> 'a pkernel_scheme option" where
  "fpu_free_state state k =
     (if state = 0 then Some k
      else
        (let raw = ld64 (h_mem (k_heap k)) (state - 8) in
         do { H \<leftarrow> kfree (k_heap k) raw; Some (k\<lparr>k_heap := H\<rparr>) }))"

subsection \<open>Creating and ending processes\<close>

definition zero_cap :: cap_entry where
  "zero_cap = \<lparr>ce_token = CAP_NULL, ce_owner_pid = 0, ce_expire_tick = 0, ce_revoked = False, ce_delegatable = False\<rparr>"

text \<open>\<^verbatim>\<open>memset(p, 0, sizeof(process_t))\<close>; an interrupt frame has 22 registers.\<close>

definition zero_process :: process where
  "zero_process = blank_process\<lparr>pr_caps := replicate MAX_CAPS_PER_PROC zero_cap,
     pr_sig_saved_frame := replicate 22 0, pr_fork_frame := replicate 22 0\<rparr>"

definition proc_init :: "'a pkernel_scheme \<Rightarrow> 'a pkernel_scheme" where
  "proc_init k = k\<lparr>k_sched := (k_sched k)\<lparr>g_proc_table := replicate MAX_PROCESSES zero_process, g_next_pid := 1\<rparr>\<rparr>"

text \<open>An update of one process in the table.\<close>

definition pupd :: "nat \<Rightarrow> (process \<Rightarrow> process) \<Rightarrow> 'a kernel_scheme \<Rightarrow> 'a kernel_scheme" where
  "pupd p f k = k\<lparr>k_sched := pset p f (k_sched k)\<rparr>"

text \<open>The slot is cleared and gets its identity; user and group come from the parent.\<close>

definition proc_fresh :: "nat \<Rightarrow> u32 \<Rightarrow> nat \<Rightarrow> 'a kernel_scheme \<Rightarrow> 'a kernel_scheme" where
  "proc_fresh intent parent_pid p k =
     (let pid = g_next_pid (k_sched k);
          k = k\<lparr>k_sched := (k_sched k)\<lparr>g_next_pid := pid + 1\<rparr>\<rparr>;
          k = pupd p (\<lambda>_. zero_process\<lparr>pr_pid := pid, pr_parent_pid := parent_pid, pr_state := PROC_BLOCKED, pr_intent := intent\<rparr>) k;
          parent = (if parent_pid \<noteq> 0 then proc_get (k_sched k) parent_pid else None);
          uid = (case parent of Some q \<Rightarrow> pr_uid (pget (k_sched k) q) | None \<Rightarrow> UID_ROOT);
          gid = (case parent of Some q \<Rightarrow> pr_gid (pget (k_sched k) q) | None \<Rightarrow> GID_ROOT)
      in pupd p (\<lambda>r. r\<lparr>pr_uid := uid, pr_gid := gid\<rparr>) k)"

text \<open>Stack, first context, inbox and FPU area; only a missing stack is an error.\<close>

definition proc_equip :: "nat \<Rightarrow> 'a pkernel_scheme \<Rightarrow> (bool \<times> 'a pkernel_scheme) option" where
  "proc_equip p k =
     do {
       (stack, H) \<leftarrow> kmalloc (k_heap k) KERNEL_STACK_SIZE;
       k \<leftarrow> Some (pupd p (\<lambda>r. r\<lparr>pr_kernel_stack := stack\<rparr>) (k\<lparr>k_heap := H\<rparr>));
       (if stack = 0 then Some (False, k)
        else
          do {
            k \<leftarrow> Some (pupd p (\<lambda>r. r\<lparr>pr_kernel_stack_top := stack + KERNEL_STACK_SIZE, pr_cr3 := read_cr3 (k_vm k),
                    pr_context := blank_context\<lparr>cx_rip := proc_idle_loop k, cx_rsp := stack + KERNEL_STACK_SIZE\<rparr>,
                    pr_mmap_top := 0x00007FF000000000, pr_cap_count := 0\<rparr>) k);
            (inbox, k) \<leftarrow> ipc_alloc_state k;
            k \<leftarrow> Some (pupd p (\<lambda>r. r\<lparr>pr_ipc := inbox\<rparr>) k);
            (fpu, k) \<leftarrow> fpu_alloc_state k;
            Some (True, pupd p (\<lambda>r. r\<lparr>pr_fpu_state := fpu\<rparr>) k)
          })
     }"

definition proc_create :: "nat \<Rightarrow> u32 \<Rightarrow> 'a pkernel_scheme \<Rightarrow> (nat option \<times> 'a pkernel_scheme) option" where
  "proc_create intent parent_pid k =
     (case first_idx (\<lambda>r. pr_state r = PROC_UNUSED) (g_proc_table (k_sched k)) of
        None \<Rightarrow> Some (None, k)
      | Some p \<Rightarrow>
          do {
            (ok, k) \<leftarrow> proc_equip p (proc_fresh intent parent_pid p k);
            (if \<not> ok then Some (None, k)
             else Some (Some p, k\<lparr>k_audit :=
               audit_record AUDIT_PROC_FORK (pr_pid (pget (k_sched k) p)) (ucast parent_pid) (of_nat intent) (k_audit k)\<rparr>))
          })"

text \<open>The loop at the end of \<^verbatim>\<open>proc_exit\<close>.\<close>

definition wake_waiter :: "u32 \<Rightarrow> nat \<Rightarrow> sched \<Rightarrow> sched" where
  "wake_waiter pid i s =
     (if pr_state (pget s i) = PROC_BLOCKED \<and> pr_blocked_on_pid (pget s i) = pid
      then sched_enqueue (Some i) (pset i (\<lambda>r. r\<lparr>pr_blocked_on_pid := 0, pr_state := PROC_READY\<rparr>) s)
      else s)"

definition proc_exit :: "(u64 \<Rightarrow> 'a pkernel_scheme vfs_ops) \<Rightarrow> u32 \<Rightarrow> int \<Rightarrow> 'a pkernel_scheme \<Rightarrow> 'a pkernel_scheme option" where
  "proc_exit ops pid code k =
     (case proc_get (k_sched k) pid of
        None \<Rightarrow> Some k
      | Some p \<Rightarrow>
          do {
            k \<leftarrow> Some (pupd p (\<lambda>r. r\<lparr>pr_state := PROC_ZOMBIE, pr_exit_code := code\<rparr>) k);
            k \<leftarrow> (let ipc = pr_ipc (pget (k_sched k) p) in
                  if ipc \<noteq> 0 then do { k \<leftarrow> ipc_free_state ipc k; Some (pupd p (\<lambda>r. r\<lparr>pr_ipc := 0\<rparr>) k) } else Some k);
            k \<leftarrow> (let fpu = pr_fpu_state (pget (k_sched k) p) in
                  if fpu \<noteq> 0 then do { k \<leftarrow> fpu_free_state fpu k; Some (pupd p (\<lambda>r. r\<lparr>pr_fpu_state := 0\<rparr>) k) } else Some k);
            k \<leftarrow> vfs_close_all_for_pid ops pid k;
            k \<leftarrow> Some (k\<lparr>k_audit := audit_record AUDIT_PROC_EXIT pid (of_int code) 0 (k_audit k)\<rparr>);
            Some (k\<lparr>k_sched := fold (wake_waiter pid) [0..<MAX_PROCESSES] (k_sched k)\<rparr>)
          })"

definition proc_add_cap :: "u32 \<Rightarrow> cap_token \<Rightarrow> u32 \<Rightarrow> bool \<Rightarrow> 'a kernel_scheme \<Rightarrow> bool \<times> 'a kernel_scheme" where
  "proc_add_cap pid token owner_pid delegatable k =
     (case proc_get (k_sched k) pid of
        None \<Rightarrow> (False, k)
      | Some p \<Rightarrow>
          (let n = pr_cap_count (pget (k_sched k) p) in
           if MAX_CAPS_PER_PROC \<le> n then (False, k)
           else (True, pupd p (\<lambda>r. r\<lparr>pr_cap_count := n + 1,
                  pr_caps := (pr_caps r)[n := \<lparr>ce_token = token, ce_owner_pid = owner_pid, ce_expire_tick = 0,
                                              ce_revoked = False, ce_delegatable = delegatable\<rparr>]\<rparr>) k)))"

end
