(* ===== verification/Fork.thy ===== *)
theory Fork
  imports Process
begin

text \<open>
  \<^verbatim>\<open>fork\<close> and \<^verbatim>\<open>waitpid\<close> (\<^verbatim>\<open>kernel/proc/fork_exec.c\<close>): the deep copy of an address space, its release, and the
  reaping of a zombie.  Page tables and user pages are in the memory of the page table state \<open>k_vm\<close>.
\<close>

subsection \<open>Releasing an address space\<close>

definition tbl :: "vmm \<Rightarrow> u64 \<Rightarrow> nat \<Rightarrow> u64" where
  "tbl s t i = ld64 (vm_mem s) (entry_addr t (of_nat i))"

definition pmm_free_vm :: "u64 \<Rightarrow> vmm \<Rightarrow> vmm" where
  "pmm_free_vm p s = s\<lparr>vm_pmm := pmm_free (vm_pmm s) p\<rparr>"

text \<open>The bodies of the four nested loops, from the inside.\<close>

definition free_p1 :: "u64 \<Rightarrow> nat \<Rightarrow> vmm \<Rightarrow> vmm" where
  "free_p1 pt p1 s =
     (if tbl s pt p1 AND 1 = 0 then s
      else pmm_free_vm (tbl s pt p1 AND VMM_ADDR_MASK) s)"

definition free_p2 :: "u64 \<Rightarrow> nat \<Rightarrow> vmm \<Rightarrow> vmm" where
  "free_p2 pd p2 s =
     (if tbl s pd p2 AND 1 = 0 then s
      else if tbl s pd p2 AND VMM_HUGE \<noteq> 0 then s
      else
        (let pt_phys = tbl s pd p2 AND VMM_ADDR_MASK;
             s = fold (free_p1 pt_phys) [0..<512] s
         in pmm_free_vm pt_phys s))"

definition free_p3 :: "u64 \<Rightarrow> nat \<Rightarrow> vmm \<Rightarrow> vmm" where
  "free_p3 pdpt p3 s =
     (if tbl s pdpt p3 AND 1 = 0 then s
      else if tbl s pdpt p3 AND VMM_HUGE \<noteq> 0 then s
      else
        (let pd_phys = tbl s pdpt p3 AND VMM_ADDR_MASK;
             s = fold (free_p2 pd_phys) [0..<512] s
         in pmm_free_vm pd_phys s))"

definition free_p4 :: "u64 \<Rightarrow> u64 \<Rightarrow> nat \<Rightarrow> vmm \<Rightarrow> vmm" where
  "free_p4 pml4 kpml4 p4 s =
     (if tbl s pml4 p4 AND 1 = 0 then s
      else if tbl s pml4 p4 = tbl s kpml4 p4 then s
      else
        (let pdpt_phys = tbl s pml4 p4 AND VMM_ADDR_MASK;
             s = fold (free_p3 pdpt_phys) [0..<512] s
         in pmm_free_vm pdpt_phys s))"

definition free_user_address_space :: "u64 \<Rightarrow> vmm \<Rightarrow> vmm" where
  "free_user_address_space pml4_phys s =
     (if pml4_phys = 0 then s
      else pmm_free_vm pml4_phys (fold (free_p4 pml4_phys (vmm_get_kernel_pml4 s)) [0..<256] s))"

subsection \<open>Copying an address space\<close>

text \<open>
  A loop whose body may jump to \<^verbatim>\<open>oom\<close>: the flag is False after the jump.  As for every caller of \<^verbatim>\<open>pmm_alloc\<close>, None stands for
  an allocation that does not return.
\<close>

fun for_each :: "(nat \<Rightarrow> vmm \<Rightarrow> (bool \<times> vmm) option) \<Rightarrow> nat list \<Rightarrow> vmm \<Rightarrow> (bool \<times> vmm) option" where
  "for_each f [] s = Some (True, s)"
| "for_each f (i # is') s =
     (case f i s of None \<Rightarrow> None | Some (False, s) \<Rightarrow> Some (False, s) | Some (True, s) \<Rightarrow> for_each f is' s)"

definition pmm_alloc_vm :: "u32 \<Rightarrow> vmm \<Rightarrow> (u64 \<times> vmm) option" where
  "pmm_alloc_vm z s = map_option (\<lambda>(p, pm). (p, s\<lparr>vm_pmm := pm\<rparr>)) (pmm_alloc (vm_pmm s) z)"

definition set_tbl :: "u64 \<Rightarrow> nat \<Rightarrow> u64 \<Rightarrow> vmm \<Rightarrow> vmm" where
  "set_tbl t i e s = s\<lparr>vm_mem := st64 (vm_mem s) (entry_addr t (of_nat i)) e\<rparr>"

definition copy_p1 :: "u64 \<Rightarrow> u64 \<Rightarrow> nat \<Rightarrow> vmm \<Rightarrow> (bool \<times> vmm) option" where
  "copy_p1 parent_pt child_pt p1 s =
     (if tbl s parent_pt p1 AND 1 = 0 then Some (True, s)
      else
        (let src_phys = tbl s parent_pt p1 AND VMM_ADDR_MASK in
         do {
           (dst_phys, s) \<leftarrow> pmm_alloc_vm ZONE_RED s;
           (if dst_phys = 0 then Some (False, s)
            else
              (let s = s\<lparr>vm_mem := mem_copy (vm_mem s) dst_phys src_phys PAGE_SIZE\<rparr>
               in Some (True, set_tbl child_pt p1 (dst_phys OR (tbl s parent_pt p1 AND 0xFFF)) s)))
         }))"

text \<open>
  A present entry of an upper table: a large page is shared, anything else gets a zeroed table of its own, with the low twelve
  bits of the parent's entry, which is then filled by the next loop.
\<close>

definition copy_table :: "(u64 \<Rightarrow> u64 \<Rightarrow> nat \<Rightarrow> vmm \<Rightarrow> (bool \<times> vmm) option) \<Rightarrow> u64 \<Rightarrow> u64 \<Rightarrow> nat \<Rightarrow> vmm \<Rightarrow> (bool \<times> vmm) option" where
  "copy_table inner parent child i s =
     do {
       (t, s) \<leftarrow> pmm_alloc_vm ZONE_GREEN s;
       (if t = 0 then Some (False, s)
        else
          (let s = s\<lparr>vm_mem := mem_set (vm_mem s) t 0 PAGE_SIZE\<rparr>;
               s = set_tbl child i (t OR (tbl s parent i AND 0xFFF)) s
           in for_each (inner (tbl s parent i AND VMM_ADDR_MASK) t) [0..<512] s))
     }"

definition copy_p2 :: "u64 \<Rightarrow> u64 \<Rightarrow> nat \<Rightarrow> vmm \<Rightarrow> (bool \<times> vmm) option" where
  "copy_p2 parent_pd child_pd p2 s =
     (if tbl s parent_pd p2 AND 1 = 0 then Some (True, s)
      else if tbl s parent_pd p2 AND VMM_HUGE \<noteq> 0 then Some (True, set_tbl child_pd p2 (tbl s parent_pd p2) s)
      else copy_table copy_p1 parent_pd child_pd p2 s)"

definition copy_p3 :: "u64 \<Rightarrow> u64 \<Rightarrow> nat \<Rightarrow> vmm \<Rightarrow> (bool \<times> vmm) option" where
  "copy_p3 parent_pdpt child_pdpt p3 s =
     (if tbl s parent_pdpt p3 AND 1 = 0 then Some (True, s)
      else if tbl s parent_pdpt p3 AND VMM_HUGE \<noteq> 0 then Some (True, set_tbl child_pdpt p3 (tbl s parent_pdpt p3) s)
      else copy_table copy_p2 parent_pdpt child_pdpt p3 s)"

definition copy_p4 :: "u64 \<Rightarrow> u64 \<Rightarrow> u64 \<Rightarrow> nat \<Rightarrow> vmm \<Rightarrow> (bool \<times> vmm) option" where
  "copy_p4 kpml4 parent_pml4 child_pml4 p4 s =
     (if tbl s parent_pml4 p4 AND 1 = 0 then Some (True, s)
      else if tbl s parent_pml4 p4 = tbl s kpml4 p4 then Some (True, s)
      else copy_table copy_p3 parent_pml4 child_pml4 p4 s)"

subsection \<open>fork\<close>

text \<open>The registers that the system call entry saves.\<close>

record syscall_frame =
  sf_r9 :: u64
  sf_r8 :: u64
  sf_r10 :: u64
  sf_rdx :: u64
  sf_rsi :: u64
  sf_rdi :: u64
  sf_rax :: u64
  sf_r11 :: u64
  sf_rcx :: u64
  sf_user_rsp :: u64

text \<open>
  The registers of the child in the order of \<^verbatim>\<open>interrupt_frame_t\<close>.  The callee-saved registers come from a \<^verbatim>\<open>cpu_context_t\<close>;
  \<^verbatim>\<open>int_num\<close> and \<^verbatim>\<open>error_code\<close> stay as they were.
\<close>

definition fork_regs :: "cpu_context \<Rightarrow> syscall_frame \<Rightarrow> u64 list \<Rightarrow> u64 list" where
  "fork_regs c f old =
     [cx_r15 c, cx_r14 c, cx_r13 c, cx_r12 c, sf_r11 f, sf_r10 f, sf_r9 f, sf_r8 f,
      cx_rbp c, sf_rdi f, sf_rsi f, sf_rdx f, sf_rcx f, cx_rbx c, 0,
      old ! 15, old ! 16,
      sf_rcx f, 0x23, sf_r11 f, sf_user_rsp f, 0x1B]"

definition set_cr3 :: "u64 \<Rightarrow> 'a pkernel_scheme \<Rightarrow> 'a pkernel_scheme" where
  "set_cr3 v k = k\<lparr>k_vm := write_cr3 (k_vm k) v\<rparr>"

text \<open>From \<^verbatim>\<open>child->cr3 = child_pml4_phys\<close> to the return.\<close>

definition fork_finish :: "nat \<Rightarrow> nat \<Rightarrow> u64 \<Rightarrow> u64 \<Rightarrow> 'a pkernel_scheme \<Rightarrow> int \<times> 'a pkernel_scheme" where
  "fork_finish parent child child_pml4_phys parent_pml4_phys k =
     (let k = pupd child (\<lambda>r. r\<lparr>pr_cr3 := child_pml4_phys\<rparr>) k;
          k = set_cr3 parent_pml4_phys k;
          pa = pget (k_sched k) parent;
          k = pupd child (\<lambda>r. r\<lparr>pr_caps := take (pr_cap_count pa) (pr_caps pa) @ drop (pr_cap_count pa) (pr_caps r),
                                pr_cap_count := pr_cap_count pa\<rparr>) k;
          k = pupd child (\<lambda>r. r\<lparr>pr_context := (pr_context r)\<lparr>cx_rsp := pr_kernel_stack_top r\<rparr>, pr_state := PROC_READY\<rparr>) k;
          k = k\<lparr>k_sched := sched_enqueue (Some child) (k_sched k)\<rparr>;
          pid = pr_pid (pget (k_sched k) child)
      in (int (unat pid), k\<lparr>k_audit := audit_record AUDIT_PROC_FORK pid (ucast (pr_pid (pget (k_sched k) parent))) 0 (k_audit k)\<rparr>))"

text \<open>The error exits, with \<^verbatim>\<open>cr3\<close> back at the parent's tables.\<close>

definition fork_fail :: "(u64 \<Rightarrow> 'a pkernel_scheme vfs_ops) \<Rightarrow> nat \<Rightarrow> u64 \<Rightarrow> 'a pkernel_scheme \<Rightarrow> (int \<times> 'a pkernel_scheme) option" where
  "fork_fail ops child parent_pml4_phys k =
     do {
       k \<leftarrow> Some (set_cr3 parent_pml4_phys k);
       k \<leftarrow> proc_exit ops (pr_pid (pget (k_sched k) child)) (-1) k;
       Some (-1, k)
     }"

text \<open>\<open>c\<close> holds the callee-saved registers at the entry and \<open>entry\<close> is the address of \<^verbatim>\<open>fork_child_entry\<close>.\<close>

definition sys_fork_impl :: "(u64 \<Rightarrow> 'a pkernel_scheme vfs_ops) \<Rightarrow> u64 \<Rightarrow> cpu_context \<Rightarrow> syscall_frame \<Rightarrow> 'a pkernel_scheme \<Rightarrow> (int \<times> 'a pkernel_scheme) option" where
  "sys_fork_impl ops entry c f k =
     (case g_current_proc (k_sched k) of
        None \<Rightarrow> Some (-1, k)
      | Some parent \<Rightarrow>
          do {
            (created, k) \<leftarrow> proc_create (pr_intent (pget (k_sched k) parent)) (pr_pid (pget (k_sched k) parent)) k;
            (case created of
               None \<Rightarrow> Some (-1, k)
             | Some child \<Rightarrow>
                 do {
                   k \<leftarrow> Some (pupd child (\<lambda>r. r\<lparr>pr_fork_frame := fork_regs c f (pr_fork_frame r),
                                                 pr_context := (pr_context r)\<lparr>cx_rip := entry\<rparr>\<rparr>) k);
                   parent_pml4_phys \<leftarrow> Some (read_cr3 (k_vm k) AND VMM_ADDR_MASK);
                   kpml4_phys \<leftarrow> Some (vmm_get_kernel_pml4 (k_vm k));
                   k \<leftarrow> Some (set_cr3 kpml4_phys k);
                   (child_pml4_phys, vm) \<leftarrow> pmm_alloc_vm ZONE_GREEN (k_vm k);
                   k \<leftarrow> Some (k\<lparr>k_vm := vm\<rparr>);
                   (if child_pml4_phys = 0 then fork_fail ops child parent_pml4_phys k
                    else
                      do {
                        vm \<leftarrow> Some ((k_vm k)\<lparr>vm_mem := copy_entries 512 child_pml4_phys kpml4_phys (vm_mem (k_vm k))\<rparr>);
                        (ok, vm) \<leftarrow> for_each (copy_p4 kpml4_phys parent_pml4_phys child_pml4_phys) [0..<256] vm;
                        k \<leftarrow> Some (k\<lparr>k_vm := vm\<rparr>);
                        (if ok then Some (fork_finish parent child child_pml4_phys parent_pml4_phys k)
                         else
                           fork_fail ops child parent_pml4_phys
                             (pupd child (\<lambda>r. r\<lparr>pr_cr3 := 0\<rparr>) (k\<lparr>k_vm := free_user_address_space child_pml4_phys (k_vm k)\<rparr>)))
                      })
                 })
          })"

subsection \<open>waitpid\<close>

text \<open>What happens before \<^verbatim>\<open>sched_yield\<close>, if the process is there: whether the caller blocks.\<close>

definition waitpid_block :: "u32 \<Rightarrow> nat \<Rightarrow> 'a pkernel_scheme \<Rightarrow> bool \<times> 'a pkernel_scheme" where
  "waitpid_block pid child k =
     (case g_current_proc (k_sched k) of
        Some self \<Rightarrow>
          if pr_state (pget (k_sched k) child) \<noteq> PROC_ZOMBIE
          then (True, pupd self (\<lambda>r. r\<lparr>pr_blocked_on_pid := pid, pr_state := PROC_BLOCKED\<rparr>) k)
          else (False, k)
      | None \<Rightarrow> (False, k))"

text \<open>What happens after it.\<close>

definition waitpid_reap :: "u32 \<Rightarrow> 'a pkernel_scheme \<Rightarrow> int \<times> 'a pkernel_scheme" where
  "waitpid_reap pid k =
     (case proc_get (k_sched k) pid of
        None \<Rightarrow> (-1, k)
      | Some child \<Rightarrow>
          (let r = pget (k_sched k) child;
               code = pr_exit_code r;
               k = (if pr_cr3 r \<noteq> 0 then
                      (let caller_cr3 = (case g_current_proc (k_sched k) of Some q \<Rightarrow> pr_cr3 (pget (k_sched k) q) | None \<Rightarrow> 0);
                           k = set_cr3 (vmm_get_kernel_pml4 (k_vm k)) k;
                           k = k\<lparr>k_vm := free_user_address_space (pr_cr3 r) (k_vm k)\<rparr>;
                           k = (if caller_cr3 \<noteq> 0 then set_cr3 caller_cr3 k else k)
                       in pupd child (\<lambda>r. r\<lparr>pr_cr3 := 0\<rparr>) k)
                    else k)
           in (code, pupd child (\<lambda>r. r\<lparr>pr_state := PROC_UNUSED, pr_pid := 0\<rparr>) k)))"

definition sys_waitpid_impl :: "('a pkernel_scheme \<Rightarrow> 'a pkernel_scheme option) \<Rightarrow> u32 \<Rightarrow> 'a pkernel_scheme \<Rightarrow> (int \<times> 'a pkernel_scheme) option" where
  "sys_waitpid_impl yield pid k =
     (case proc_get (k_sched k) pid of
        None \<Rightarrow> Some (-1, k)
      | Some child \<Rightarrow>
          (let (blocks, k) = waitpid_block pid child k in
           do { k \<leftarrow> (if blocks then yield k else Some k); Some (waitpid_reap pid k) }))"

end
