(* ===== verification/Shm.thy ===== *)
theory Shm
  imports Fork Vmm_Facts
begin

text \<open>
  Shared memory (\<^verbatim>\<open>kernel/shm/shm.c\<close>): regions of physical pages that processes map into their address
  spaces.  It uses the page allocator, the page tables and the process table.
\<close>

definition SHM_MAX_REGIONS :: nat where "SHM_MAX_REGIONS = 32"
definition SHM_MAX_PAGES :: u64 where "SHM_MAX_PAGES = 256"
definition SHM_PAGE_SIZE :: u64 where "SHM_PAGE_SIZE = 4096"

record shm_region =
  sr_id :: u32
  sr_owner_pid :: u32
  sr_size :: u64
  sr_page_count :: u32
  sr_phys_pages :: "u64 list"
  sr_map_count :: u8
  sr_valid :: bool

record skernel = pkernel +
  g_regions :: "shm_region list"
  g_next_id :: u32

definition rget :: "'a skernel_scheme \<Rightarrow> nat \<Rightarrow> shm_region" where
  "rget k i = g_regions k ! i"

definition rset :: "nat \<Rightarrow> (shm_region \<Rightarrow> shm_region) \<Rightarrow> 'a skernel_scheme \<Rightarrow> 'a skernel_scheme" where
  "rset i f k = k\<lparr>g_regions := (g_regions k)[i := f (g_regions k ! i)]\<rparr>"

definition shm_init :: "'a skernel_scheme \<Rightarrow> 'a skernel_scheme" where
  "shm_init k = k\<lparr>g_regions := map (\<lambda>r. r\<lparr>sr_valid := False, sr_id := 0\<rparr>) (g_regions k)\<rparr>"

definition find_free_slot :: "'a skernel_scheme \<Rightarrow> nat option" where
  "find_free_slot k = first_idx (\<lambda>r. \<not> sr_valid r) (g_regions k)"

definition shm_get :: "u32 \<Rightarrow> 'a skernel_scheme \<Rightarrow> nat option" where
  "shm_get shm_id k = (if shm_id = 0 then None else first_idx (\<lambda>r. sr_valid r \<and> sr_id r = shm_id) (g_regions k))"

subsection \<open>Creating and destroying\<close>

text \<open>The inner loop that gives pages back, in \<^verbatim>\<open>shm_create\<close> after a failure and in \<^verbatim>\<open>shm_destroy\<close>.\<close>

definition free_pages :: "nat \<Rightarrow> nat \<Rightarrow> 'a skernel_scheme \<Rightarrow> 'a skernel_scheme" where
  "free_pages slot n k =
     k\<lparr>k_vm := fold (\<lambda>j. pmm_free_vm (sr_phys_pages (rget k slot) ! j)) [0..<n] (k_vm k)\<rparr>"

text \<open>The loop that allocates pages \<open>i\<close>, \<open>i + 1\<close>, ...; \<open>n\<close> is the number of pages left.\<close>

fun alloc_pages :: "nat \<Rightarrow> nat \<Rightarrow> nat \<Rightarrow> 'a skernel_scheme \<Rightarrow> (bool \<times> 'a skernel_scheme) option" where
  "alloc_pages slot i 0 k = Some (True, k)"
| "alloc_pages slot i (Suc n) k =
     (case pmm_alloc_vm ZONE_RED (k_vm k) of
        None \<Rightarrow> None
      | Some (phys, vm) \<Rightarrow>
          (let k = k\<lparr>k_vm := vm\<rparr> in
           if phys = 0 then Some (False, free_pages slot i k)
           else alloc_pages slot (Suc i) n (rset slot (\<lambda>r. r\<lparr>sr_phys_pages := (sr_phys_pages r)[i := phys]\<rparr>) k)))"

definition shm_create :: "u32 \<Rightarrow> u64 \<Rightarrow> 'a skernel_scheme \<Rightarrow> (u32 \<times> 'a skernel_scheme) option" where
  "shm_create owner_pid sz k =
     (if sz = 0 then Some (0, k)
      else
        (let pages = (sz + SHM_PAGE_SIZE - 1) div SHM_PAGE_SIZE in
         if SHM_MAX_PAGES < pages then Some (0, k)
         else case find_free_slot k of
             None \<Rightarrow> Some (0, k)
           | Some slot \<Rightarrow>
               (case alloc_pages slot 0 (unat pages) k of
                  None \<Rightarrow> None
                | Some (False, k) \<Rightarrow> Some (0, k)
                | Some (True, k) \<Rightarrow>
                    (let new_id = g_next_id k;
                         k = k\<lparr>g_next_id := new_id + 1\<rparr>
                     in Some (new_id, rset slot (\<lambda>r. r\<lparr>sr_id := new_id, sr_owner_pid := owner_pid, sr_size := pages * SHM_PAGE_SIZE,
                                 sr_page_count := ucast pages, sr_map_count := 0, sr_valid := True\<rparr>) k)))))"

definition shm_destroy :: "u32 \<Rightarrow> u32 \<Rightarrow> 'a skernel_scheme \<Rightarrow> int \<times> 'a skernel_scheme" where
  "shm_destroy shm_id caller k =
     (case shm_get shm_id k of
        None \<Rightarrow> (-1, k)
      | Some slot \<Rightarrow>
          if sr_owner_pid (rget k slot) \<noteq> caller then (-1, k)
          else if 0 < sr_map_count (rget k slot) then (-1, k)
          else (0, rset slot (\<lambda>r. r\<lparr>sr_valid := False, sr_id := 0\<rparr>) (free_pages slot (unat (sr_page_count (rget k slot))) k)))"

subsection \<open>Mapping\<close>

definition page_va :: "u64 \<Rightarrow> nat \<Rightarrow> u64" where
  "page_va virt i = virt + of_nat i * SHM_PAGE_SIZE"

definition unmap_pages :: "u64 \<Rightarrow> u64 \<Rightarrow> nat \<Rightarrow> vmm \<Rightarrow> vmm" where
  "unmap_pages cr3 virt n vm = fold (\<lambda>j vm. vmm_unmap_into vm cr3 (page_va virt j)) [0..<n] vm"

text \<open>The loop over the pages \<open>i\<close>, \<open>i + 1\<close>, ... of \<^verbatim>\<open>shm_map\<close>; \<open>ps\<close> are those that are left.\<close>

fun map_pages :: "u64 \<Rightarrow> u64 \<Rightarrow> nat \<Rightarrow> u64 list \<Rightarrow> vmm \<Rightarrow> (bool \<times> vmm) option" where
  "map_pages cr3 virt i [] vm = Some (True, vm)"
| "map_pages cr3 virt i (p # ps) vm =
     (case vmm_map_into vm cr3 p (page_va virt i) (VMM_WRITE OR VMM_USER OR VMM_NX) of
        None \<Rightarrow> None
      | Some (False, vm) \<Rightarrow> Some (False, unmap_pages cr3 virt i vm)
      | Some (True, vm) \<Rightarrow> map_pages cr3 virt (Suc i) ps vm)"

definition shm_map :: "u32 \<Rightarrow> u32 \<Rightarrow> 'a skernel_scheme \<Rightarrow> (u64 \<times> 'a skernel_scheme) option" where
  "shm_map shm_id pid k =
     (case shm_get shm_id k of
        None \<Rightarrow> Some (0, k)
      | Some slot \<Rightarrow>
          (case proc_get (k_sched k) pid of
             None \<Rightarrow> Some (0, k)
           | Some p \<Rightarrow>
               (let r = rget k slot;
                    virt_top = pr_mmap_top (pget (k_sched k) p);
                    virt = virt_top - sr_size r
                in
                if virt_top \<le> virt then Some (0, k)
                else if virt < 0x1000 then Some (0, k)
                else case map_pages (pr_cr3 (pget (k_sched k) p)) virt 0 (take (unat (sr_page_count r)) (sr_phys_pages r)) (k_vm k) of
                    None \<Rightarrow> None
                  | Some (False, vm) \<Rightarrow> Some (0, k\<lparr>k_vm := vm\<rparr>)
                  | Some (True, vm) \<Rightarrow>
                      (let k = pupd p (\<lambda>q. q\<lparr>pr_mmap_top := virt\<rparr>) (k\<lparr>k_vm := vm\<rparr>)
                       in Some (virt, rset slot (\<lambda>r. r\<lparr>sr_map_count := sr_map_count r + 1\<rparr>) k)))))"

text \<open>The region whose count \<^verbatim>\<open>shm_unmap\<close> lowers: the first of the same size that is mapped.\<close>

definition mapped_slot :: "u64 \<Rightarrow> 'a skernel_scheme \<Rightarrow> nat option" where
  "mapped_slot sz k = first_idx (\<lambda>r. sr_valid r \<and> sr_size r = sz \<and> 0 < sr_map_count r) (g_regions k)"

definition shm_unmap :: "u64 \<Rightarrow> u64 \<Rightarrow> u32 \<Rightarrow> 'a skernel_scheme \<Rightarrow> 'a skernel_scheme" where
  "shm_unmap va sz pid k =
     (if va = 0 \<or> sz = 0 then k
      else case proc_get (k_sched k) pid of
          None \<Rightarrow> k
        | Some p \<Rightarrow>
            (let pages = (sz + SHM_PAGE_SIZE - 1) div SHM_PAGE_SIZE;
                 k = k\<lparr>k_vm := unmap_pages (pr_cr3 (pget (k_sched k) p)) va (unat pages) (k_vm k)\<rparr>
             in case mapped_slot (pages * SHM_PAGE_SIZE) k of
                  None \<Rightarrow> k
                | Some slot \<Rightarrow> rset slot (\<lambda>r. r\<lparr>sr_map_count := sr_map_count r - 1\<rparr>) k))"

end
