(* ===== verification/Process_Facts.thy ===== *)
theory Process_Facts
  imports Process
begin

text \<open>
  What creating and ending a process do: the blocks a new process owns, what its exit gives back and what it does not, who is
  woken, and the invariant of the process table.
\<close>

subsection \<open>Waking the waiters\<close>

definition woken :: "u32 \<Rightarrow> process \<Rightarrow> process" where
  "woken pid r = (if pr_state r = PROC_BLOCKED \<and> pr_blocked_on_pid r = pid then r\<lparr>pr_blocked_on_pid := 0, pr_state := PROC_READY\<rparr> else r)"

lemma woken_idem [simp]: "woken pid (woken pid r) = woken pid r"
  by (simp add: woken_def)

lemma unlink_woken: "unlink (woken pid r) = woken pid (unlink r)"
  by (simp add: woken_def unlink_def)

lemma wake_waiter_ok:
  assumes "sched_inv s qs" and "i < MAX_PROCESSES"
  shows "\<exists>qs'. sched_inv (wake_waiter pid i s) qs' \<and> grows qs qs' \<and> quiet s (wake_waiter pid i s)"
  using make_ready_step [OF assms, of "\<lambda>r. r\<lparr>pr_blocked_on_pid := 0, pr_state := PROC_READY\<rparr>"] assms(1) grows_refl quiet_refl
  unfolding wake_waiter_def by (cases "pr_state (pget s i) = PROC_BLOCKED \<and> pr_blocked_on_pid (pget s i) = pid") auto

lemma same_procs_enqueue: "same_procs s (sched_enqueue po s)"
proof (cases po)
  case (Some p)
  have "same_procs (pset p (\<lambda>r. r\<lparr>pr_sched_next := None\<rparr>) s) (pset c (\<lambda>r. r\<lparr>pr_sched_next := Some p\<rparr>) (pset p (\<lambda>r. r\<lparr>pr_sched_next := None\<rparr>) s))" for c by simp
  then have "same_procs s (pset c (\<lambda>r. r\<lparr>pr_sched_next := Some p\<rparr>) (pset p (\<lambda>r. r\<lparr>pr_sched_next := None\<rparr>) s))" for c
    using same_procs_trans [OF same_procs_pset] by blast
  moreover have "same_procs s (qset q h (pset p (\<lambda>r. r\<lparr>pr_sched_next := None\<rparr>) s))" for q h
    using same_procs_trans [OF same_procs_pset same_procs_qset] .
  ultimately show ?thesis using Some
    by (auto simp: sched_enqueue_def Let_def split: scan_result.splits option.splits)
qed (simp add: sched_enqueue_def)

lemma wake_waiter_procs:
  assumes l: "length (g_proc_table s) = MAX_PROCESSES" and i: "i < MAX_PROCESSES"
  shows "unlink (pget (wake_waiter pid i s) j) = (if j = i then woken pid (unlink (pget s j)) else unlink (pget s j))"
    "length (g_proc_table (wake_waiter pid i s)) = MAX_PROCESSES" "g_current_proc (wake_waiter pid i s) = g_current_proc s"
proof -
  let ?f = "\<lambda>r. r\<lparr>pr_blocked_on_pid := 0, pr_state := PROC_READY\<rparr>"
  note sp = same_procs_enqueue [of "pset i ?f s" "Some i"]
  have e: "unlink (pget (sched_enqueue (Some i) (pset i ?f s)) j) = unlink (pget (pset i ?f s) j)" using sp by (simp add: same_procs_def)
  show "unlink (pget (wake_waiter pid i s) j) = (if j = i then woken pid (unlink (pget s j)) else unlink (pget s j))"
    unfolding unlink_woken [symmetric] using e l i by (auto simp: wake_waiter_def pget_pset woken_def)
  show "length (g_proc_table (wake_waiter pid i s)) = MAX_PROCESSES" using same_procs_rest(3) [OF sp] l by (simp add: wake_waiter_def)
  have "(sched_enqueue (Some i) (pset i ?f s))\<lparr>g_proc_table := [], g_queues := []\<rparr> = (pset i ?f s)\<lparr>g_proc_table := [], g_queues := []\<rparr>"
    using sp by (simp add: same_procs_def)
  from arg_cong [OF this, of g_current_proc] show "g_current_proc (wake_waiter pid i s) = g_current_proc s" by (simp add: wake_waiter_def pset_def)
qed

lemma wake_waiters_ok:
  assumes "sched_inv s qs"
  shows "\<exists>qs'. sched_inv (fold (wake_waiter pid) [0..<MAX_PROCESSES] s) qs' \<and> grows qs qs'"
    using unblock_fold [where f = "wake_waiter pid" and s = s and qs = qs and js = "[0..<MAX_PROCESSES]", OF wake_waiter_ok assms] by auto

lemma wake_waiters_procs:
  assumes "length (g_proc_table s) = MAX_PROCESSES" and "\<forall>i \<in> set js. i < MAX_PROCESSES"
  shows "unlink (pget (fold (wake_waiter pid) js s) j) = (if j \<in> set js then woken pid (unlink (pget s j)) else unlink (pget s j))
    \<and> g_current_proc (fold (wake_waiter pid) js s) = g_current_proc s"
  using assms
proof (induction js arbitrary: s)
  case (Cons i js)
  have i: "i < MAX_PROCESSES" using Cons.prems(2) by simp
  note w = wake_waiter_procs [OF Cons.prems(1) i, of pid]
  from Cons.IH [OF w(2)] Cons.prems(2) w(1) [of j] w(3) show ?case by auto
qed simp

text \<open>A process that is not ready may be changed freely as long as it does not become ready or running.\<close>

lemma retire_inv:
  assumes inv: "sched_inv s qs" and i: "i < MAX_PROCESSES" and nr: "pr_state (pget s i) \<noteq> PROC_READY"
    and f: "pr_sched_next (f (pget s i)) = pr_sched_next (pget s i)" "pr_intent (f (pget s i)) = pr_intent (pget s i)"
      "pr_state (f (pget s i)) \<noteq> PROC_READY" "pr_state (f (pget s i)) = PROC_RUNNING \<longrightarrow> pr_state (pget s i) = PROC_RUNNING"
  shows "sched_inv (pset i f s) qs"
proof -
  have "i < length (g_proc_table s)" using inv i by (simp add: sched_inv_def sched_wf_def)
  then have g: "pget (pset i f s) p = (if p = i then f (pget s i) else pget s p)" for p by (simp add: pget_pset)
  have "sched_wf (pset i f s) qs = sched_wf s qs" using g f by (intro sched_wf_cong) auto
  then show ?thesis using inv nr i g f by (auto simp: sched_inv_def)
qed

subsection \<open>What a process owns\<close>

definition fpu_raw :: "heap \<Rightarrow> u64 \<Rightarrow> u64" where
  "fpu_raw H a = (if a = 0 then 0 else ld64 (h_mem H) (a - 8))"

text \<open>The heap blocks that \<^verbatim>\<open>proc_exit\<close> has to give back for the process itself: inbox and FPU area.\<close>

definition proc_blocks :: "heap \<Rightarrow> process \<Rightarrow> u64 list" where
  "proc_blocks H r = filter (\<lambda>a. a \<noteq> 0) [pr_ipc r, fpu_raw H (pr_fpu_state r)]"

text \<open>The pointer below an FPU area lies within the block it points to.\<close>

definition fpu_ok :: "heap \<Rightarrow> u64 \<Rightarrow> bool" where
  "fpu_ok H a \<longleftrightarrow> a = 0 \<or> 8 \<le> unat a \<and> fpu_raw H a \<noteq> 0
     \<and> (\<exists>n. (unat (fpu_raw H a), n) \<in> live H \<and> unat (fpu_raw H a) \<le> unat a - 8 \<and> unat a \<le> unat (fpu_raw H a) + n)"

definition proc_owns_ok :: "'a vkernel_scheme \<Rightarrow> process \<Rightarrow> bool" where
  "proc_owns_ok k r \<longleftrightarrow> fds_ok k \<and> distinct (proc_blocks (k_heap k) r @ fds_blocks k) \<and> fpu_ok (k_heap k) (pr_fpu_state r)
     \<and> (pr_ipc r \<noteq> 0 \<longrightarrow> (\<exists>n. (unat (pr_ipc r), n) \<in> live (k_heap k)))"

lemma releases_fpu_raw:
  assumes inv: "heap_inv H" and "releases H P H'" and f: "fpu_ok H a" and "fpu_raw H a \<notin> P"
  shows "fpu_raw H' a = fpu_raw H a" and "fpu_ok H' a"
proof -
  have "fpu_raw H' a = fpu_raw H a \<and> fpu_ok H' a"
  proof (cases "a = 0")
    case True
    then show ?thesis by (simp add: fpu_raw_def fpu_ok_def)
  next
    case False
    let ?r = "fpu_raw H a"
    obtain n where n: "(unat ?r, n) \<in> live H" "unat ?r \<le> unat a - 8" "unat a \<le> unat ?r + n" "8 \<le> unat a" "?r \<noteq> 0"
      using f False by (auto simp: fpu_ok_def)
    have l: "(unat ?r, n) \<in> live H'" using releases_keeps [OF assms(2) n(1) assms(4)] .
    have s: "same_on (live H') (h_mem H) (h_mem H')" using assms(2) by (simp add: releases_def)
    have "unat ?r + n < 2 ^ 64" using kheap.used_range [OF inv n(1)] by simp
    then have "ld 8 (h_mem H') (of_nat (unat a - 8)) = (ld 8 (h_mem H) (of_nat (unat a - 8)) :: u64)"
      using same_on_ld [OF s l n(2), of 8] n by simp
    moreover have "(of_nat (unat a - 8) :: u64) = a - 8" using n(4) by (simp add: of_nat_diff)
    ultimately have e: "fpu_raw H' a = ?r" using False by (simp add: fpu_raw_def)
    then show ?thesis using n l by (auto simp: fpu_ok_def)
  qed
  then show "fpu_raw H' a = fpu_raw H a" and "fpu_ok H' a" by auto
qed

lemma fds_blocks_heap [simp]:
  "fd_blocks (k\<lparr>k_heap := H\<rparr>) = fd_blocks k" "fd_blocks (k\<lparr>k_sched := s\<rparr>) = fd_blocks k"
  "fds_blocks (k\<lparr>k_heap := H\<rparr>) = fds_blocks k" "fds_blocks (k\<lparr>k_sched := s\<rparr>) = fds_blocks k"
proof -
  show h: "fd_blocks (k\<lparr>k_heap := H\<rparr>) = fd_blocks k" and s: "fd_blocks (k\<lparr>k_sched := s\<rparr>) = fd_blocks k"
    by (rule ext, simp add: fd_blocks_def node_blocks_def node_at_def cong: if_cong)+
  show "fds_blocks (k\<lparr>k_heap := H\<rparr>) = fds_blocks k" "fds_blocks (k\<lparr>k_sched := s\<rparr>) = fds_blocks k"
    by (simp_all add: fds_blocks_def h s)
qed

lemma fds_ok_releases:
  assumes "fds_ok k" and "releases (k_heap k) P H'" and "P \<inter> set (fds_blocks k) = {}"
  shows "fds_ok (k\<lparr>k_sched := s, k_heap := H'\<rparr>)"
proof -
  have "\<exists>n. (unat p, n) \<in> live H'" if "p \<in> set (fds_blocks k)" for p
    using assms(1,3) that releases_keeps [OF assms(2)] unfolding fds_ok_def by blast
  moreover have "heap_inv H'" using assms(2) by (simp add: releases_def)
  ultimately show ?thesis using assms(1) by (simp add: fds_ok_def)
qed

text \<open>The first half of \<^verbatim>\<open>proc_exit\<close>: the process is a zombie without inbox and FPU area.\<close>

definition buried :: "int \<Rightarrow> process \<Rightarrow> process" where
  "buried code r = r\<lparr>pr_state := PROC_ZOMBIE, pr_exit_code := code, pr_ipc := 0, pr_fpu_state := 0\<rparr>"

lemma pset_pset: "pset p f (pset p g s) = pset p (\<lambda>r. f (g r)) s"
  by (cases "p < length (g_proc_table s)") (simp_all add: pset_def not_less list_update_beyond)

lemma pset_cong: "f (pget s p) = g (pget s p) \<Longrightarrow> pset p f s = pset p g s"
  by (simp add: pset_def pget_def)

lemma exit_ipc:
  assumes "p < length (g_proc_table (k_sched k))" and "heap_inv (k_heap k)" and a: "pr_ipc (pget (k_sched k) p) = a"
    and "a \<noteq> 0 \<longrightarrow> (\<exists>n. (unat a, n) \<in> live (k_heap k))"
  shows "\<exists>H'. (if a \<noteq> 0 then do { k \<leftarrow> ipc_free_state a k; Some (pupd p (\<lambda>r. r\<lparr>pr_ipc := 0\<rparr>) k) } else Some k)
        = Some (pupd p (\<lambda>r. r\<lparr>pr_ipc := 0\<rparr>) (k\<lparr>k_heap := H'\<rparr>))
     \<and> releases (k_heap k) (if a = 0 then {} else {a}) H'"
proof -
  obtain H' where h: "kfree (k_heap k) a = Some H'" "releases (k_heap k) (if a = 0 then {} else {a}) H'"
    using kfree_releases [OF assms(2), of a] assms(4) by blast
  show ?thesis
  proof (cases "a = 0")
    case True
    have "pset p (\<lambda>r. r\<lparr>pr_ipc := 0\<rparr>) (k_sched k) = pset p (\<lambda>r. r) (k_sched k)"
      by (rule pset_cong) (use a True in simp)
    then have "pupd p (\<lambda>r. r\<lparr>pr_ipc := 0\<rparr>) k = k" by (simp add: pupd_def pset_def)
    then show ?thesis using True releases_refl [OF assms(2)] by (intro exI [of _ "k_heap k"]) simp
  next
    case False
    then show ?thesis using h by (intro exI [of _ H']) (simp add: ipc_free_state_def)
  qed
qed

lemma exit_fpu:
  assumes "p < length (g_proc_table (k_sched k))" and "heap_inv (k_heap k)" and a: "pr_fpu_state (pget (k_sched k) p) = a"
    and f: "fpu_ok (k_heap k) a"
  shows "\<exists>H'. (if a \<noteq> 0 then do { k \<leftarrow> fpu_free_state a k; Some (pupd p (\<lambda>r. r\<lparr>pr_fpu_state := 0\<rparr>) k) } else Some k)
        = Some (pupd p (\<lambda>r. r\<lparr>pr_fpu_state := 0\<rparr>) (k\<lparr>k_heap := H'\<rparr>))
     \<and> releases (k_heap k) (if fpu_raw (k_heap k) a = 0 then {} else {fpu_raw (k_heap k) a}) H'"
proof -
  let ?r = "fpu_raw (k_heap k) a"
  have "?r \<noteq> 0 \<Longrightarrow> \<exists>n. (unat ?r, n) \<in> live (k_heap k)" using f by (auto simp: fpu_ok_def fpu_raw_def split: if_splits)
  then obtain H' where h: "kfree (k_heap k) ?r = Some H'" "releases (k_heap k) (if ?r = 0 then {} else {?r}) H'"
    using kfree_releases [OF assms(2), of ?r] by blast
  show ?thesis
  proof (cases "a = 0")
    case True
    have "pset p (\<lambda>r. r\<lparr>pr_fpu_state := 0\<rparr>) (k_sched k) = pset p (\<lambda>r. r) (k_sched k)"
      by (rule pset_cong) (use a True in simp)
    then have "pupd p (\<lambda>r. r\<lparr>pr_fpu_state := 0\<rparr>) k = k" by (simp add: pupd_def pset_def)
    then show ?thesis using True releases_refl [OF assms(2)] by (intro exI [of _ "k_heap k"]) (simp add: fpu_raw_def)
  next
    case False
    then have "?r = ld64 (h_mem (k_heap k)) (a - 8)" by (simp add: fpu_raw_def)
    then show ?thesis using False h by (intro exI [of _ H']) (simp add: fpu_free_state_def Let_def)
  qed
qed

lemma pupd_twice:
  "pupd p g (pupd p f k\<lparr>k_heap := H\<rparr>) = k\<lparr>k_sched := pset p (\<lambda>r. g (f r)) (k_sched k), k_heap := H\<rparr>"
  by (simp add: pupd_def pset_pset)

definition exit_released :: "'a vkernel_scheme \<Rightarrow> u32 \<Rightarrow> process \<Rightarrow> u64 set" where
  "exit_released k pid r = set (proc_blocks (k_heap k) r)
     \<union> (\<Union>j \<in> {j \<in> {3..<VFS_MAX_FDS}. owned_by pid (g_fds k ! j)}. set (fd_blocks k (g_fds k ! j)))"

lemma exit_frees:
  assumes ex: "exfs_close ops" and p: "proc_get (k_sched k) pid = Some p" and pid: "pid \<noteq> 0"
    and own: "proc_owns_ok k (pget (k_sched k) p)"
  shows "\<exists>H' fds'. proc_exit ops pid code k = Some (k\<lparr>k_sched := fold (wake_waiter pid) [0..<MAX_PROCESSES] (pset p (buried code) (k_sched k)),
        k_heap := H', g_fds := fds', k_audit := audit_record AUDIT_PROC_EXIT pid (of_int code) 0 (k_audit k)\<rparr>)
     \<and> releases (k_heap k) (exit_released k pid (pget (k_sched k) p)) H'
     \<and> (\<forall>j. fds' ! j = (if j \<in> {3..<VFS_MAX_FDS} \<and> owned_by pid (g_fds k ! j) then zero_fd else g_fds k ! j))"
proof -
  let ?r = "pget (k_sched k) p" and ?H = "k_heap k"
  let ?z = "\<lambda>r. r\<lparr>pr_state := PROC_ZOMBIE, pr_exit_code := code\<rparr>"
  let ?f = "fpu_raw ?H (pr_fpu_state ?r)"
  have pl: "p < length (g_proc_table (k_sched k))" using proc_getD(1) [OF p] .
  have fds: "fds_ok k" and inv: "heap_inv ?H" using own by (simp_all add: proc_owns_ok_def fds_ok_def)
  have d: "pr_ipc ?r \<noteq> 0 \<Longrightarrow> ?f \<noteq> pr_ipc ?r" and dis: "set (proc_blocks ?H ?r) \<inter> set (fds_blocks k) = {}"
    using own by (auto simp: proc_owns_ok_def proc_blocks_def split: if_splits)
  define k1 where "k1 = pupd p ?z k"
  have k1: "pget (k_sched k1) p = ?z ?r" "k_heap k1 = ?H" "length (g_proc_table (k_sched k1)) = length (g_proc_table (k_sched k))"
    using pl by (simp_all add: k1_def pupd_def pget_pset)
  obtain H1 where H1: "(if pr_ipc ?r \<noteq> 0 then do { k \<leftarrow> ipc_free_state (pr_ipc ?r) k1; Some (pupd p (\<lambda>r. r\<lparr>pr_ipc := 0\<rparr>) k) } else Some k1)
        = Some (pupd p (\<lambda>r. r\<lparr>pr_ipc := 0\<rparr>) (k1\<lparr>k_heap := H1\<rparr>))"
      "releases ?H (if pr_ipc ?r = 0 then {} else {pr_ipc ?r}) H1"
    using exit_ipc [of p k1 "pr_ipc ?r"] pl inv own unfolding k1 by (auto simp: proc_owns_ok_def)
  define k2 where "k2 = pupd p (\<lambda>r. r\<lparr>pr_ipc := 0\<rparr>) (k1\<lparr>k_heap := H1\<rparr>)"
  have k2e: "k2 = k\<lparr>k_sched := pset p (\<lambda>r. (?z r)\<lparr>pr_ipc := 0\<rparr>) (k_sched k), k_heap := H1\<rparr>"
    unfolding k2_def k1_def by (rule pupd_twice)
  have k2: "pr_fpu_state (pget (k_sched k2) p) = pr_fpu_state ?r" "k_heap k2 = H1" "p < length (g_proc_table (k_sched k2))"
    using pl by (simp_all add: k2e pget_pset)
  have inv1: "heap_inv H1" using H1(2) by (simp add: releases_def)
  have f1: "fpu_raw H1 (pr_fpu_state ?r) = ?f" "fpu_ok H1 (pr_fpu_state ?r)"
    using releases_fpu_raw [OF inv H1(2)] own d by (auto simp: proc_owns_ok_def split: if_splits)
  obtain H2 where H2: "(if pr_fpu_state ?r \<noteq> 0 then do { k \<leftarrow> fpu_free_state (pr_fpu_state ?r) k2; Some (pupd p (\<lambda>r. r\<lparr>pr_fpu_state := 0\<rparr>) k) } else Some k2)
        = Some (pupd p (\<lambda>r. r\<lparr>pr_fpu_state := 0\<rparr>) (k2\<lparr>k_heap := H2\<rparr>))"
      "releases H1 (if ?f = 0 then {} else {?f}) H2"
    using exit_fpu [OF k2(3) _ k2(1)] inv1 f1 unfolding k2(2) f1(1) by blast
  define k3 where "k3 = pupd p (\<lambda>r. r\<lparr>pr_fpu_state := 0\<rparr>) (k2\<lparr>k_heap := H2\<rparr>)"
  have k3: "k3 = k\<lparr>k_sched := pset p (buried code) (k_sched k), k_heap := H2\<rparr>"
    unfolding k3_def k2e pupd_def by (simp add: pset_pset buried_def [abs_def])
  have r2: "releases ?H (set (proc_blocks ?H ?r)) H2"
    using releases_trans [OF H1(2) H2(2)] by (simp add: proc_blocks_def insert_commute split: if_splits)
  have "fds_ok k3" unfolding k3 by (rule fds_ok_releases [OF fds r2 dis])
  from vfs_close_all_ok [OF ex this pid] obtain H3 fds' where 3: "vfs_close_all_for_pid ops pid k3 = Some (k3\<lparr>k_heap := H3, g_fds := fds'\<rparr>)"
     "\<forall>j. fds' ! j = (if j \<in> {3..<VFS_MAX_FDS} \<and> owned_by pid (g_fds k3 ! j) then zero_fd else g_fds k3 ! j)"
     "releases (k_heap k3) (\<Union>j \<in> {j \<in> {3..<VFS_MAX_FDS}. owned_by pid (g_fds k3 ! j)}. set (fd_blocks k3 (g_fds k3 ! j))) H3" by blast
  have g3: "g_fds k3 = g_fds k" "fd_blocks k3 = fd_blocks k" "k_heap k3 = H2" unfolding k3 by simp_all
  have "releases ?H (exit_released k pid ?r) H3"
    unfolding exit_released_def using releases_trans [OF r2 3(3) [unfolded g3]] .
  moreover have "proc_exit ops pid code k = Some (k\<lparr>k_sched := fold (wake_waiter pid) [0..<MAX_PROCESSES] (pset p (buried code) (k_sched k)),
        k_heap := H3, g_fds := fds', k_audit := audit_record AUDIT_PROC_EXIT pid (of_int code) 0 (k_audit k)\<rparr>)"
  proof -
    have i: "pr_ipc (pget (k_sched k1) p) = pr_ipc ?r" unfolding k1 by simp
    show ?thesis
      unfolding proc_exit_def p option.case Let_def bind.simps k1_def [symmetric] i
        H1(1) [folded k2_def] k2(1) H2(1) [folded k3_def] 3(1)
      by (simp add: k3)
  qed
  ultimately show ?thesis using 3(2) unfolding g3 by blast
qed

subsection \<open>Allocation\<close>

lemma align16:
  fixes x :: u64
  shows "unat (x AND NOT 15) = unat x - unat x mod 16"
proof -
  have m: "(15 :: u64) = mask 4" by (simp add: mask_eq_exp_minus_1)
  have "x AND NOT (mask 4) = push_bit 4 (drop_bit 4 x)"
    by (rule bit_word_eqI) (auto simp: bit_simps)
  moreover have "unat (drop_bit 4 x) = unat x div 16" by (simp add: unat_drop_bit_eq drop_bit_eq_div [where 'a = nat])
  moreover have "unat x div 16 * 16 \<le> unat x" by simp
  then have "unat x div 16 * 16 < 18446744073709551616" using unat_u64 [of x] by linarith
  ultimately show ?thesis unfolding m
    by (simp add: push_bit_eq_mult unat_word_ariths minus_mod_eq_div_mult)
qed

lemma fpu_alloc_ok:
  assumes inv: "heap_inv (k_heap k)"
  shows "fpu_alloc_state k = Some (0, k) \<or>
    (\<exists>a H' n. fpu_alloc_state k = Some (a, k\<lparr>k_heap := H',
         k_sched := (k_sched k)\<lparr>fpu_areas := (fpu_areas (k_sched k))(a := g_fpu_template k)\<rparr>\<rparr>)
       \<and> a \<noteq> 0 \<and> heap_inv H' \<and> fpu_ok H' a \<and> same_on (live (k_heap k)) (h_mem (k_heap k)) (h_mem H')
       \<and> (unat (fpu_raw H' a), n) \<notin> live (k_heap k) \<and> live H' = insert (unat (fpu_raw H' a), n) (live (k_heap k))
       \<and> unat a mod 16 = 0 \<and> unat a + unat FPU_STATE_SIZE \<le> unat (fpu_raw H' a) + n)"
proof -
  let ?H = "k_heap k"
  from inv show ?thesis
  proof (cases rule: kheap.alloc_cases [where sz = "FPU_STATE_SIZE + 32"])
    case fail
    then show ?thesis by (simp add: fpu_alloc_state_def)
  next
    case (ok raw H1 n)
    define a where "a = (raw + 16 + 15) AND NOT 15"
    define m where "m = st64 (h_mem H1) (a - 8) raw"
    have n: "544 \<le> n" using ok(4) by (simp add: FPU_STATE_SIZE_def)
    have rn: "unat raw + n < 2 ^ 64" "0 < unat raw" using kheap.used_range [OF ok(2), of "unat raw" n] ok(5) by auto
    have "unat (raw + 16 + 15) = unat raw + 31"
    proof -
      have "unat (raw + 31) = unat raw + unat (31 :: u64)" using rn n by (intro unat_add_word) simp
      then show ?thesis by (simp add: add.assoc)
    qed
    then have a: "unat a = unat raw + 31 - (unat raw + 31) mod 16" unfolding a_def align16 by simp
    have "(unat raw + 31) mod 16 < 16" by simp
    then have ar: "unat raw + 16 \<le> unat a" "unat a \<le> unat raw + 31" using a by linarith+
    have a16: "unat a mod 16 = 0" unfolding a by (simp add: minus_mod_eq_mult_div)
    have a8: "a - 8 = of_nat (unat a - 8)" using ar by (simp add: of_nat_diff)
    have out: "unat raw \<le> unat x \<and> unat x < unat raw + n" if "m x \<noteq> h_mem H1 x" for x
      using that st_outside [of "unat a - 8" 8 x "h_mem H1" raw] ar rn n unfolding m_def a8 by (cases "unat x < unat a - 8 \<or> unat a - 8 + 8 \<le> unat x") auto
    have lv: "(unat raw, n) \<in> live H1" using ok(5) by simp
    note poke = kheap.poke_block [OF ok(2) lv, of m, OF out]
    let ?H' = "H1\<lparr>h_mem := m\<rparr>"
    have a0: "a \<noteq> 0" using ar rn by (auto simp: word_unat_eq_iff)
    have raw: "fpu_raw ?H' a = raw" using a0 by (simp add: fpu_raw_def m_def)
    have l: "live ?H' = insert (unat raw, n) (live ?H)" using poke(2) ok(5) by simp
    have "fpu_ok ?H' a" unfolding fpu_ok_def raw using ar n ok(3) l by auto
    moreover have "same_on (live ?H) (h_mem ?H) (h_mem ?H')"
    proof -
      have "same_on (live ?H) (h_mem H1) (h_mem ?H')" using poke(3) ok(5,6) by (auto intro: same_on_subset)
      then show ?thesis using same_on_trans [OF ok(7)] by simp
    qed
    moreover have "fpu_alloc_state k = Some (a, k\<lparr>k_heap := ?H',
         k_sched := (k_sched k)\<lparr>fpu_areas := (fpu_areas (k_sched k))(a := g_fpu_template k)\<rparr>\<rparr>)"
      using ok(1,3) by (simp add: fpu_alloc_state_def Let_def a_def m_def)
    moreover have "unat a + unat FPU_STATE_SIZE \<le> unat raw + n" using ar n by (simp add: FPU_STATE_SIZE_def)
    ultimately show ?thesis using a0 poke(1) raw l ok(6) a16 by (intro disjI2 exI [of _ a] exI [of _ ?H'] exI [of _ n]) simp
  qed
qed

text \<open>Blocks in use are told apart by their address.\<close>

lemma tiles_size: "tiles lo bs hi \<Longrightarrow> (a, s, f) \<in> set bs \<Longrightarrow> 16 \<le> s"
  by (induction lo bs hi rule: tiles.induct) auto

lemma live_unique:
  assumes "heap_inv H" and "(p, n) \<in> live H" and "(p, n') \<in> live H"
  shows "n = n'"
proof -
  obtain bs where r: "heap_rel H bs" using assms(1) by (auto simp: heap_inv_def)
  have "16 \<le> n" "16 \<le> n'" using assms(2,3) tiles_size r unfolding live_rel [OF r] heap_rel_def by blast+
  then show ?thesis using kheap.used_disjoint [OF assms] by auto
qed

lemma live_subset_eq:
  assumes "heap_inv H" and "A \<subseteq> live H" and "B \<subseteq> live H" and "fst ` A = fst ` B"
  shows "A = B"
proof -
  have sub: "A \<subseteq> B" if "A \<subseteq> live H" "B \<subseteq> live H" "fst ` A = fst ` B" for A B
  proof
    fix x
    assume x: "x \<in> A"
    obtain p n where pn: "x = (p, n)" by (cases x)
    have "p \<in> fst ` B" using that(3) x pn by force
    then obtain n' where y: "(p, n') \<in> B" by auto
    have "n = n'" using live_unique [OF assms(1), of p n n'] x pn y that(1,2) by blast
    then show "x \<in> B" using y pn by simp
  qed
  show ?thesis using sub [OF assms(2,3,4)] sub [OF assms(3,2) assms(4) [symmetric]] by (rule subset_antisym)
qed

lemma ipc_alloc_ok:
  assumes inv: "heap_inv (k_heap k)"
  shows "ipc_alloc_state k = Some (0, k) \<or>
    (\<exists>a H' n. ipc_alloc_state k = Some (a, k\<lparr>k_heap := H', k_inbox := (k_inbox k)(a := zero_inbox)\<rparr>)
       \<and> a \<noteq> 0 \<and> heap_inv H' \<and> same_on (live (k_heap k)) (h_mem (k_heap k)) (h_mem H')
       \<and> (unat a, n) \<notin> live (k_heap k) \<and> live H' = insert (unat a, n) (live (k_heap k)))"
  using inv
proof (cases rule: kheap.alloc_cases [where sz = sizeof_ipc_state])
  case fail
  then show ?thesis by (simp add: ipc_alloc_state_def)
next
  case (ok a H' n)
  then show ?thesis by (intro disjI2 exI [of _ a] exI [of _ H'] exI [of _ n]) (simp add: ipc_alloc_state_def)
qed

text \<open>A fresh block starts where no block in use starts.\<close>

lemma fresh_start:
  assumes "heap_inv H'" and "live H' = insert (p, n) (live H)" and "(p, n) \<notin> live H"
  shows "(p, n') \<notin> live H"
  using live_unique [OF assms(1), of p n n'] assms(2,3) by auto

subsection \<open>The outcome of proc_create\<close>

lemma pset_areas [simp]: "(pset p f s)\<lparr>fpu_areas := ar\<rparr> = pset p f (s\<lparr>fpu_areas := ar\<rparr>)"
  by (simp add: pset_def)

lemma pset_next_pid [simp]: "g_next_pid (pset p f s) = g_next_pid s"
  by (simp add: pset_def)

lemma proc_fresh_eq:
  "\<exists>uid gid. proc_fresh intent parent_pid p k =
     k\<lparr>k_sched := pset p (\<lambda>_. zero_process\<lparr>pr_pid := g_next_pid (k_sched k), pr_parent_pid := parent_pid, pr_state := PROC_BLOCKED,
             pr_intent := intent, pr_uid := uid, pr_gid := gid\<rparr>)
          ((k_sched k)\<lparr>g_next_pid := g_next_pid (k_sched k) + 1\<rparr>)\<rparr>
     \<and> (parent_pid = 0 \<longrightarrow> uid = UID_ROOT \<and> gid = GID_ROOT)"
  unfolding proc_fresh_def Let_def pupd_def by (simp add: pset_pset) blast

text \<open>What \<^verbatim>\<open>proc_create\<close> adds to the process once its stack is there.\<close>

definition equipped :: "'a pkernel_scheme \<Rightarrow> u64 \<Rightarrow> u64 \<Rightarrow> u64 \<Rightarrow> process \<Rightarrow> process" where
  "equipped k stack inbox fpu r =
     r\<lparr>pr_kernel_stack := stack, pr_kernel_stack_top := stack + KERNEL_STACK_SIZE, pr_cr3 := read_cr3 (k_vm k),
       pr_context := blank_context\<lparr>cx_rip := proc_idle_loop k, cx_rsp := stack + KERNEL_STACK_SIZE\<rparr>,
       pr_mmap_top := 0x00007FF000000000, pr_cap_count := 0, pr_ipc := inbox, pr_fpu_state := fpu\<rparr>"

text \<open>The blocks of the process: its stack and those that \<^verbatim>\<open>proc_exit\<close> will release.\<close>

definition owns :: "heap \<Rightarrow> heap \<Rightarrow> process \<Rightarrow> bool" where
  "owns H H' r \<longleftrightarrow> heap_inv H' \<and> same_on (live H) (h_mem H) (h_mem H') \<and> fpu_ok H' (pr_fpu_state r) \<and> pr_kernel_stack r \<noteq> 0
     \<and> distinct (pr_kernel_stack r # proc_blocks H' r) \<and> unat ` set (pr_kernel_stack r # proc_blocks H' r) \<inter> fst ` live H = {}
     \<and> (\<exists>ns B. unat KERNEL_STACK_SIZE \<le> ns \<and> live H' = insert (unat (pr_kernel_stack r), ns) (live H \<union> B)
          \<and> fst ` B = unat ` set (proc_blocks H' r))"

text \<open>An allocation that may fail, with the new block (if any) as a set.\<close>

definition allocates :: "heap \<Rightarrow> u64 \<Rightarrow> heap \<Rightarrow> bool" where
  "allocates H a H' \<longleftrightarrow> heap_inv H' \<and> same_on (live H) (h_mem H) (h_mem H')
     \<and> (\<exists>B. live H' = live H \<union> B \<and> fst ` B = (if a = 0 then {} else {unat a}) \<and> fst ` B \<inter> fst ` live H = {})"

lemma allocates_none: "heap_inv H \<Longrightarrow> allocates H 0 H"
  by (auto simp: allocates_def)

lemma allocates_block:
  assumes "heap_inv H'" and "same_on (live H) (h_mem H) (h_mem H')" and "a \<noteq> 0"
    and "live H' = insert (unat a, n) (live H)" and "(unat a, n) \<notin> live H"
  shows "allocates H a H'"
proof -
  have "unat a \<notin> fst ` live H" using fresh_start [OF assms(1,4,5)] by auto
  then show ?thesis using assms unfolding allocates_def by (intro conjI exI [of _ "{(unat a, n)}"]) auto
qed

lemma ipc_alloc_uniform:
  assumes "heap_inv (k_heap k)"
  shows "\<exists>a H' ib. ipc_alloc_state k = Some (a, k\<lparr>k_heap := H', k_inbox := ib\<rparr>) \<and> allocates (k_heap k) a H'"
  using ipc_alloc_ok [OF assms]
proof
  assume "ipc_alloc_state k = Some (0, k)"
  then show ?thesis using allocates_none [OF assms]
    by (intro exI [of _ 0] exI [of _ "k_heap k"] exI [of _ "k_inbox k"]) simp
qed (use allocates_block in blast)

lemma fpu_alloc_uniform:
  assumes "heap_inv (k_heap k)"
  shows "\<exists>a H' ar. fpu_alloc_state k = Some (a, k\<lparr>k_heap := H', k_sched := (k_sched k)\<lparr>fpu_areas := ar\<rparr>\<rparr>)
     \<and> allocates (k_heap k) (fpu_raw H' a) H' \<and> fpu_ok H' a"
  using fpu_alloc_ok [OF assms]
proof
  assume "fpu_alloc_state k = Some (0, k)"
  then show ?thesis using allocates_none [OF assms]
    by (intro exI [of _ 0] exI [of _ "k_heap k"] exI [of _ "fpu_areas (k_sched k)"]) (simp add: fpu_raw_def fpu_ok_def)
next
  assume "\<exists>a H' n. fpu_alloc_state k = Some (a, k\<lparr>k_heap := H',
         k_sched := (k_sched k)\<lparr>fpu_areas := (fpu_areas (k_sched k))(a := g_fpu_template k)\<rparr>\<rparr>)
       \<and> a \<noteq> 0 \<and> heap_inv H' \<and> fpu_ok H' a \<and> same_on (live (k_heap k)) (h_mem (k_heap k)) (h_mem H')
       \<and> (unat (fpu_raw H' a), n) \<notin> live (k_heap k) \<and> live H' = insert (unat (fpu_raw H' a), n) (live (k_heap k))
       \<and> unat a mod 16 = 0 \<and> unat a + unat FPU_STATE_SIZE \<le> unat (fpu_raw H' a) + n"
  then obtain a H' n where f: "fpu_alloc_state k = Some (a, k\<lparr>k_heap := H',
         k_sched := (k_sched k)\<lparr>fpu_areas := (fpu_areas (k_sched k))(a := g_fpu_template k)\<rparr>\<rparr>)"
      "a \<noteq> 0" "heap_inv H'" "fpu_ok H' a" "same_on (live (k_heap k)) (h_mem (k_heap k)) (h_mem H')"
      "(unat (fpu_raw H' a), n) \<notin> live (k_heap k)" "live H' = insert (unat (fpu_raw H' a), n) (live (k_heap k))" by blast
  have "fpu_raw H' a \<noteq> 0" using f(2,4) by (auto simp: fpu_ok_def)
  from allocates_block [OF f(3,5) this f(7,6)] f(1,4) show ?thesis by blast
qed

lemma disjoint_three:
  "X \<inter> insert s L = {} \<Longrightarrow> Y \<inter> (insert s L \<union> X) = {} \<Longrightarrow> (X \<union> Y) \<inter> L = {} \<and> s \<notin> X \<union> Y \<and> X \<inter> Y = {}"
  by blast

lemma allocates_owns:
  assumes s: "heap_inv H1" "same_on (live H) (h_mem H) (h_mem H1)" "stack \<noteq> 0" "unat KERNEL_STACK_SIZE \<le> ns"
      "live H1 = insert (unat stack, ns) (live H)" "(unat stack, ns) \<notin> live H"
    and a: "allocates H1 (pr_ipc r) H2" "allocates H2 (fpu_raw H3 (pr_fpu_state r)) H3" "fpu_ok H3 (pr_fpu_state r)"
    and st: "pr_kernel_stack r = stack"
  shows "owns H H3 r"
proof -
  let ?f = "fpu_raw H3 (pr_fpu_state r)"
  obtain B where b: "live H2 = live H1 \<union> B" "fst ` B = (if pr_ipc r = 0 then {} else {unat (pr_ipc r)})" "fst ` B \<inter> fst ` live H1 = {}"
    and s2: "same_on (live H1) (h_mem H1) (h_mem H2)" using a(1) unfolding allocates_def by blast
  obtain C where c: "live H3 = live H2 \<union> C" "fst ` C = (if ?f = 0 then {} else {unat ?f})" "fst ` C \<inter> fst ` live H2 = {}"
    and s3: "heap_inv H3" "same_on (live H2) (h_mem H2) (h_mem H3)" using a(2) unfolding allocates_def by blast
  have pb: "unat ` set (proc_blocks H3 r) = fst ` (B \<union> C)" unfolding image_Un b(2) c(2) proc_blocks_def by (simp add: insert_commute)
  have fr: "unat stack \<notin> fst ` live H" using fresh_start [OF s(1,5,6)] by force
  have e: "fst ` live H1 = insert (unat stack) (fst ` live H)" unfolding s(5) by simp
  have e2: "fst ` live H2 = insert (unat stack) (fst ` live H) \<union> fst ` B" unfolding b(1) image_Un e ..
  have d: "fst ` (B \<union> C) \<inter> fst ` live H = {}" "unat stack \<notin> fst ` (B \<union> C)" "fst ` B \<inter> fst ` C = {}"
    unfolding image_Un using disjoint_three [OF b(3) [unfolded e] c(3) [unfolded e2]] by blast+
  have ds: "distinct (stack # proc_blocks H3 r)"
  proof -
    have "stack \<notin> set (proc_blocks H3 r)" using d(2) unfolding pb [symmetric] by (rule contrapos_nn) (rule imageI)
    moreover have "unat (pr_ipc r) \<noteq> unat ?f" if "pr_ipc r \<noteq> 0" "?f \<noteq> 0" using d(3) that unfolding b(2) c(2) by simp
    then have "pr_ipc r \<noteq> ?f" if "pr_ipc r \<noteq> 0" using that by metis
    then have "distinct (proc_blocks H3 r)" by (simp add: proc_blocks_def)
    ultimately show ?thesis by simp
  qed
  have so: "same_on (live H) (h_mem H) (h_mem H3)"
  proof -
    have l: "live H \<subseteq> live H1" "live H \<subseteq> live H2" unfolding b(1) s(5) by (simp_all add: subset_insertI subset_insertI2 le_supI1)
    show ?thesis using same_on_trans [OF same_on_trans [OF s(2) same_on_subset [OF s2 l(1)]] same_on_subset [OF s3(2) l(2)]] .
  qed
  have lv: "live H3 = insert (unat stack, ns) (live H \<union> (B \<union> C))" unfolding c(1) b(1) s(5) by (simp add: Un_assoc)
  have di: "unat ` set (stack # proc_blocks H3 r) \<inter> fst ` live H = {}"
    using fr d(1) unfolding list.set(2) image_insert pb by (simp only: Int_insert_left if_False)
  show ?thesis
    unfolding owns_def st by (intro conjI exI) (rule s3(1) so a(3) s(3) ds di s(4) lv pb [symmetric])+
qed

lemma pset_const: "p < length (g_proc_table s) \<Longrightarrow> pget (pset p f s) p = f (pget s p)"
  by (simp add: pget_pset)

lemma proc_equip_ok:
  assumes inv: "heap_inv (k_heap k)" and p: "p < length (g_proc_table (k_sched k))"
  shows "proc_equip p k = Some (False, pupd p (\<lambda>r. r\<lparr>pr_kernel_stack := 0\<rparr>) k) \<or>
    (\<exists>stack inbox fpu H' ib ar. proc_equip p k =
        Some (True, k\<lparr>k_sched := pset p (equipped k stack inbox fpu) ((k_sched k)\<lparr>fpu_areas := ar\<rparr>), k_heap := H', k_inbox := ib\<rparr>)
      \<and> owns (k_heap k) H' (equipped k stack inbox fpu (pget (k_sched k) p)))"
  using inv
proof (cases rule: kheap.alloc_cases [where sz = KERNEL_STACK_SIZE])
  case fail
  then show ?thesis by (intro disjI1) (simp add: proc_equip_def)
next
  case (ok stack H1 ns)
  define f where "f r = r\<lparr>pr_kernel_stack := stack, pr_kernel_stack_top := stack + KERNEL_STACK_SIZE, pr_cr3 := read_cr3 (k_vm k),
       pr_context := blank_context\<lparr>cx_rip := proc_idle_loop k, cx_rsp := stack + KERNEL_STACK_SIZE\<rparr>,
       pr_mmap_top := 0x00007FF000000000, pr_cap_count := 0\<rparr>" for r :: process
  define k1 where "k1 = k\<lparr>k_sched := pset p f (k_sched k), k_heap := H1\<rparr>"
  have k1: "k_heap k1 = H1" "k_sched k1 = pset p f (k_sched k)" by (simp_all add: k1_def)
  obtain inbox H2 ib where i: "ipc_alloc_state k1 = Some (inbox, k1\<lparr>k_heap := H2, k_inbox := ib\<rparr>)" "allocates H1 inbox H2"
    using ipc_alloc_uniform [of k1] ok(2) unfolding k1 by blast
  define k2 where "k2 = pupd p (\<lambda>r. r\<lparr>pr_ipc := inbox\<rparr>) (k1\<lparr>k_heap := H2, k_inbox := ib\<rparr>)"
  have k2: "k_heap k2 = H2" by (simp add: k2_def pupd_def)
  have "heap_inv H2" using i(2) by (simp add: allocates_def)
  then obtain fpu H3 ar where u: "fpu_alloc_state k2 = Some (fpu, k2\<lparr>k_heap := H3, k_sched := (k_sched k2)\<lparr>fpu_areas := ar\<rparr>\<rparr>)"
      "allocates H2 (fpu_raw H3 fpu) H3" "fpu_ok H3 fpu"
    using fpu_alloc_uniform [of k2] unfolding k2 by blast
  have e1: "proc_equip p k = Some (True, pupd p (\<lambda>r. r\<lparr>pr_fpu_state := fpu\<rparr>) (k2\<lparr>k_heap := H3, k_sched := (k_sched k2)\<lparr>fpu_areas := ar\<rparr>\<rparr>))"
  proof -
    have e: "pupd p (\<lambda>r. r\<lparr>pr_kernel_stack_top := stack + KERNEL_STACK_SIZE, pr_cr3 := read_cr3 (k_vm k),
                    pr_context := blank_context\<lparr>cx_rip := proc_idle_loop k, cx_rsp := stack + KERNEL_STACK_SIZE\<rparr>,
                    pr_mmap_top := 0x00007FF000000000, pr_cap_count := 0\<rparr>) (pupd p (\<lambda>r. r\<lparr>pr_kernel_stack := stack\<rparr>) (k\<lparr>k_heap := H1\<rparr>)) = k1"
      by (simp add: pupd_def pset_pset k1_def f_def [abs_def])
    have c: "k_vm (pupd p g (k\<lparr>k_heap := H1\<rparr>)) = k_vm k" "proc_idle_loop (pupd p g (k\<lparr>k_heap := H1\<rparr>)) = proc_idle_loop k" for g
      by (simp_all add: pupd_def)
    show ?thesis unfolding proc_equip_def ok(1) bind.simps prod.case if_not_P [OF ok(3)] c e i(1) k2_def [symmetric] u(1) ..
  qed
  have e2: "pupd p (\<lambda>r. r\<lparr>pr_fpu_state := fpu\<rparr>) (k2\<lparr>k_heap := H3, k_sched := (k_sched k2)\<lparr>fpu_areas := ar\<rparr>\<rparr>)
      = k\<lparr>k_sched := pset p (equipped k stack inbox fpu) ((k_sched k)\<lparr>fpu_areas := ar\<rparr>), k_heap := H3, k_inbox := ib\<rparr>"
    by (simp add: k2_def k1_def pupd_def pset_pset f_def equipped_def [abs_def])
  have o3: "owns (k_heap k) H3 (equipped k stack inbox fpu (pget (k_sched k) p))"
    using i(2) u(2,3) by (intro allocates_owns [OF ok(2,7,3,4,5,6), where ?H2.0 = H2]) (simp_all add: equipped_def)
  show ?thesis by (intro disjI2 exI conjI) (rule e1 [unfolded e2], rule o3)
qed

text \<open>The arrays of a process and the number of capabilities in use have the sizes of the declaration.\<close>

definition proc_typed :: "process \<Rightarrow> bool" where
  "proc_typed r \<longleftrightarrow> length (pr_caps r) = MAX_CAPS_PER_PROC \<and> pr_cap_count r \<le> MAX_CAPS_PER_PROC
     \<and> length (pr_sig_handlers r) = 16 \<and> length (pr_sig_saved_frame r) = 22 \<and> length (pr_fork_frame r) = 22"

definition newborn :: "nat \<Rightarrow> u32 \<Rightarrow> u32 \<Rightarrow> process \<Rightarrow> bool" where
  "newborn intent parent_pid pid r \<longleftrightarrow> pr_pid r = pid \<and> pr_parent_pid r = parent_pid \<and> pr_state r = PROC_BLOCKED \<and> pr_intent r = intent
     \<and> pr_sched_next r = None \<and> pr_cap_count r = 0 \<and> proc_typed r"

lemma proc_create_ok:
  assumes inv: "heap_inv (k_heap k)" and f: "first_idx (\<lambda>r. pr_state r = PROC_UNUSED) (g_proc_table (k_sched k)) = Some p"
  defines "pid \<equiv> g_next_pid (k_sched k)"
  shows "(\<exists>r. proc_create intent parent_pid k = Some (None, k\<lparr>k_sched := pset p (\<lambda>_. r) ((k_sched k)\<lparr>g_next_pid := pid + 1\<rparr>)\<rparr>)
        \<and> newborn intent parent_pid pid r) \<or>
    (\<exists>r ar H' ib au. proc_create intent parent_pid k = Some (Some p, k\<lparr>k_sched := pset p (\<lambda>_. r) ((k_sched k)\<lparr>g_next_pid := pid + 1, fpu_areas := ar\<rparr>),
          k_heap := H', k_inbox := ib, k_audit := au\<rparr>)
        \<and> newborn intent parent_pid pid r \<and> owns (k_heap k) H' r \<and> pr_cr3 r = read_cr3 (k_vm k))"
proof -
  let ?s = "(k_sched k)\<lparr>g_next_pid := pid + 1\<rparr>"
  obtain uid gid where fr: "proc_fresh intent parent_pid p k = k\<lparr>k_sched := pset p (\<lambda>_. zero_process\<lparr>pr_pid := pid, pr_parent_pid := parent_pid,
       pr_state := PROC_BLOCKED, pr_intent := intent, pr_uid := uid, pr_gid := gid\<rparr>) ?s\<rparr>"
    using proc_fresh_eq [of intent parent_pid p k] unfolding pid_def by blast
  define r where "r = zero_process\<lparr>pr_pid := pid, pr_parent_pid := parent_pid,
       pr_state := PROC_BLOCKED, pr_intent := intent, pr_uid := uid, pr_gid := gid\<rparr>"
  define k0 where "k0 = k\<lparr>k_sched := pset p (\<lambda>_. r) ?s\<rparr>"
  have fr: "proc_fresh intent parent_pid p k = k0" using fr by (simp add: k0_def r_def)
  have pl: "p < length (g_proc_table (k_sched k))" using first_idx_SomeD [OF f] by blast
  have n: "newborn intent parent_pid pid (g r)" if "\<And>r. pr_pid (g r) = pr_pid r" "\<And>r. pr_parent_pid (g r) = pr_parent_pid r" "\<And>r. pr_state (g r) = pr_state r"
      "\<And>r. pr_intent (g r) = pr_intent r" "\<And>r. pr_sched_next (g r) = pr_sched_next r" "\<And>r. pr_caps (g r) = pr_caps r" "pr_cap_count (g r) = 0"
      "\<And>r. pr_sig_handlers (g r) = pr_sig_handlers r" "\<And>r. pr_sig_saved_frame (g r) = pr_sig_saved_frame r" "\<And>r. pr_fork_frame (g r) = pr_fork_frame r" for g
    unfolding newborn_def proc_typed_def that by (simp add: r_def zero_process_def blank_process_def)
  have k0: "k_heap k0 = k_heap k" "pget (k_sched k0) p = r" "p < length (g_proc_table (k_sched k0))" using pl by (simp_all add: k0_def pget_pset)
  have r0: "r\<lparr>pr_kernel_stack := 0\<rparr> = r" by (simp add: r_def zero_process_def blank_process_def)
  have inv0: "heap_inv (k_heap k0)" using inv k0(1) by simp
  from proc_equip_ok [OF inv0 k0(3)] show ?thesis
  proof (elim disjE exE conjE)
    assume "proc_equip p k0 = Some (False, pupd p (\<lambda>r. r\<lparr>pr_kernel_stack := 0\<rparr>) k0)"
    moreover have "pupd p (\<lambda>r. r\<lparr>pr_kernel_stack := 0\<rparr>) k0 = k0" by (simp add: k0_def pupd_def pset_pset r0)
    ultimately have "proc_create intent parent_pid k = Some (None, k0)" unfolding proc_create_def f option.case fr by simp
    moreover have "newborn intent parent_pid pid r" by (rule n) (simp_all add: r_def zero_process_def blank_process_def)
    ultimately show ?thesis unfolding k0_def by blast
  next
    fix stack inbox fpu H' ib ar
    let ?r = "equipped k0 stack inbox fpu r"
    let ?k1 = "k0\<lparr>k_sched := pset p (equipped k0 stack inbox fpu) ((k_sched k0)\<lparr>fpu_areas := ar\<rparr>), k_heap := H', k_inbox := ib\<rparr>"
    assume e: "proc_equip p k0 = Some (True, ?k1)" and o: "owns (k_heap k0) H' (equipped k0 stack inbox fpu (pget (k_sched k0) p))"
    have k1: "?k1 = k\<lparr>k_sched := pset p (\<lambda>_. ?r) ((k_sched k)\<lparr>g_next_pid := pid + 1, fpu_areas := ar\<rparr>), k_heap := H', k_inbox := ib\<rparr>"
      by (simp add: k0_def pset_pset)
    have c: "proc_create intent parent_pid k = Some (Some p, ?k1\<lparr>k_audit :=
               audit_record AUDIT_PROC_FORK (pr_pid (pget (k_sched ?k1) p)) (ucast parent_pid) (of_nat intent) (k_audit ?k1)\<rparr>)"
      unfolding proc_create_def f option.case fr e by simp
    have nb: "newborn intent parent_pid pid ?r" by (rule n) (simp_all add: equipped_def)
    have ow: "owns (k_heap k) H' ?r" using o unfolding k0(1,2) .
    have cr: "pr_cr3 ?r = read_cr3 (k_vm k)" by (simp add: equipped_def k0_def)
    show ?thesis by (rule disjI2, intro exI conjI, rule c [unfolded k1], rule nb, rule ow, rule cr)
  qed
qed

subsection \<open>Creating and ending the same process\<close>

lemma owns_ok:
  assumes o: "owns (k_heap k) (k_heap k1) r" and f: "fds_ok k" and same: "g_fds k1 = g_fds k" "v_nodes k1 = v_nodes k"
  shows "proc_owns_ok k1 r"
proof -
  have "node_blocks k1 n = node_blocks k n" for n using same(2) by (simp add: node_blocks_def node_at_def)
  then have "fd_blocks k1 = fd_blocks k" using same(2) by (intro ext) (simp add: fd_blocks_def node_at_def)
  then have nb: "fds_blocks k1 = fds_blocks k" using same(1) by (simp add: fds_blocks_def)
  obtain ns B where l: "live (k_heap k1) = insert (unat (pr_kernel_stack r), ns) (live (k_heap k) \<union> B)" "fst ` B = unat ` set (proc_blocks (k_heap k1) r)"
    and d: "distinct (pr_kernel_stack r # proc_blocks (k_heap k1) r)" "unat ` set (pr_kernel_stack r # proc_blocks (k_heap k1) r) \<inter> fst ` live (k_heap k) = {}"
    and i: "heap_inv (k_heap k1)" "fpu_ok (k_heap k1) (pr_fpu_state r)"
    using o unfolding owns_def by blast
  have fl: "\<exists>n. (unat q, n) \<in> live (k_heap k)" if "q \<in> set (fds_blocks k)" for q using f that by (simp add: fds_ok_def)
  have "q \<notin> set (fds_blocks k)" if "q \<in> set (proc_blocks (k_heap k1) r)" for q
  proof
    assume "q \<in> set (fds_blocks k)"
    then have "unat q \<in> fst ` live (k_heap k)" using fl by force
    then show False using d(2) that by auto
  qed
  then have "distinct (proc_blocks (k_heap k1) r @ fds_blocks k1)" using d(1) f nb by (auto simp: fds_ok_def)
  moreover have "fds_ok k1" using f i(1) nb same(1) fl l(1) by (auto simp: fds_ok_def)
  moreover have "\<exists>n. (unat (pr_ipc r), n) \<in> live (k_heap k1)" if "pr_ipc r \<noteq> 0"
  proof -
    have "pr_ipc r \<in> set (proc_blocks (k_heap k1) r)" using that by (simp add: proc_blocks_def)
    then have "unat (pr_ipc r) \<in> fst ` B" unfolding l(2) by (rule imageI)
    then show ?thesis unfolding l(1) by auto
  qed
  ultimately show ?thesis using i(2) by (simp add: proc_owns_ok_def)
qed

lemma owns_released:
  assumes o: "owns H H1 r" and i: "heap_inv H" and rel: "releases H1 (set (proc_blocks H1 r)) H2"
  shows "\<exists>ns. unat KERNEL_STACK_SIZE \<le> ns \<and> live H2 = insert (unat (pr_kernel_stack r), ns) (live H) \<and> (unat (pr_kernel_stack r), ns) \<notin> live H"
proof -
  let ?st = "unat (pr_kernel_stack r)"
  obtain ns B where l: "unat KERNEL_STACK_SIZE \<le> ns" "live H1 = insert (?st, ns) (live H \<union> B)" "fst ` B = unat ` set (proc_blocks H1 r)"
    and d: "distinct (pr_kernel_stack r # proc_blocks H1 r)" "unat ` set (pr_kernel_stack r # proc_blocks H1 r) \<inter> fst ` live H = {}"
    and i1: "heap_inv H1"
    using o unfolding owns_def by blast
  obtain F where F: "F \<subseteq> live H1" "fst ` F = unat ` set (proc_blocks H1 r)" "live H2 = live H1 - F" using rel by (rule releasesE)
  have "B \<subseteq> live H1" unfolding l(2) by blast
  then have FB: "F = B" using live_subset_eq [OF i1 F(1)] F(2) l(3) by simp
  have nst: "?st \<notin> fst ` B"
  proof
    assume "?st \<in> fst ` B"
    then obtain q where "q \<in> set (proc_blocks H1 r)" "?st = unat q" unfolding l(3) by blast
    then show False using d(1) by (simp add: word_unat_eq_iff [symmetric])
  qed
  have "fst ` B \<inter> fst ` live H = {}" "?st \<notin> fst ` live H" using d(2) unfolding l(3) by auto
  then have "B \<inter> live H = {}" "(?st, ns) \<notin> live H" "(?st, ns) \<notin> B" using nst by force+
  then have "live H2 = insert (?st, ns) (live H)" unfolding F(3) FB l(2) by blast
  then show ?thesis using l(1) \<open>(?st, ns) \<notin> live H\<close> by blast
qed

lemma proc_get_new:
  assumes "p < length (g_proc_table s)" and "proc_get s pid = None" and "pr_pid r = pid" and "pr_state r \<noteq> PROC_UNUSED"
  shows "proc_get (pset p (\<lambda>_. r) s) pid = Some p"
proof -
  have "first_idx (\<lambda>q. pr_pid q = pid \<and> pr_state q \<noteq> PROC_UNUSED) ((g_proc_table s)[p := r]) = Some p"
  proof (rule first_idx_SomeI)
    fix j
    assume "j < p"
    then have "(g_proc_table s)[p := r] ! j = g_proc_table s ! j" "g_proc_table s ! j \<in> set (g_proc_table s)" using assms(1) by auto
    then show "\<not> (pr_pid ((g_proc_table s)[p := r] ! j) = pid \<and> pr_state ((g_proc_table s)[p := r] ! j) \<noteq> PROC_UNUSED)"
      using assms(2) by (auto simp: proc_get_def first_idx_None)
  qed (use assms in auto)
  then show ?thesis by (simp add: proc_get_def pset_def)
qed

text \<open>
  C36: A process that is created and ends again costs the kernel its stack.  If \<^verbatim>\<open>proc_create\<close> succeeds and
  the new process then exits, with no descriptor left open, inbox and FPU area are back in the heap;
  but the kernel stack of at least 16 KiB stays allocated, and it is exactly the difference to the heap before.
\<close>

theorem proc_leaks_stack:
  assumes "exfs_close ops" and "fds_ok k" and "g_next_pid (k_sched k) = pid" and "pid \<noteq> 0" and "proc_get (k_sched k) pid = None"
    and "\<forall>j \<in> {3..<VFS_MAX_FDS}. \<not> owned_by pid (g_fds k ! j)"
    and "proc_create intent parent_pid k = Some (Some p, k1)"
  shows "\<exists>k2 ns. proc_exit ops pid code k1 = Some k2 \<and> unat KERNEL_STACK_SIZE \<le> ns
     \<and> (unat (pr_kernel_stack (pget (k_sched k1) p)), ns) \<notin> live (k_heap k)
     \<and> live (k_heap k2) = insert (unat (pr_kernel_stack (pget (k_sched k1) p)), ns) (live (k_heap k))"
proof -
  have inv: "heap_inv (k_heap k)" using assms(2) by (simp add: fds_ok_def)
  have f: "first_idx (\<lambda>r. pr_state r = PROC_UNUSED) (g_proc_table (k_sched k)) = Some p"
    using assms(7) by (auto simp: proc_create_def bind_eq_Some_conv split: option.splits if_splits)
  have pl: "p < length (g_proc_table (k_sched k))" using first_idx_SomeD [OF f] by blast
  obtain r ar H' ib au where k1: "k1 = k\<lparr>k_sched := pset p (\<lambda>_. r) ((k_sched k)\<lparr>g_next_pid := pid + 1, fpu_areas := ar\<rparr>),
          k_heap := H', k_inbox := ib, k_audit := au\<rparr>" and nb: "newborn intent parent_pid pid r" and o: "owns (k_heap k) H' r"
    using proc_create_ok [OF inv f, of intent parent_pid] assms(3,7) by auto
  have r: "pget (k_sched k1) p = r" "k_heap k1 = H'" using pl by (simp_all add: k1 pget_pset)
  have g: "proc_get (k_sched k1) pid = Some p"
    unfolding k1 using proc_get_new [of p "(k_sched k)\<lparr>g_next_pid := pid + 1, fpu_areas := ar\<rparr>" pid r] pl assms(5) nb
    by (simp add: newborn_def proc_get_def)
  have "proc_owns_ok k1 r" using o assms(2) by (intro owns_ok [of k]) (simp_all add: k1)
  then have ow: "proc_owns_ok k1 (pget (k_sched k1) p)" unfolding r .
  from exit_frees [OF assms(1) g assms(4) ow, of code] obtain k2 where k2: "proc_exit ops pid code k1 = Some k2"
    "releases (k_heap k1) (exit_released k1 pid (pget (k_sched k1) p)) (k_heap k2)" by fastforce
  have "{j \<in> {3..<VFS_MAX_FDS}. owned_by pid (g_fds k1 ! j)} = {}" using assms(6) by (auto simp: k1)
  then have "exit_released k1 pid (pget (k_sched k1) p) = set (proc_blocks H' r)" unfolding exit_released_def r by (simp only: SUP_empty Un_empty_right)
  with k2(2) have "releases H' (set (proc_blocks H' r)) (k_heap k2)" unfolding r by simp
  from owns_released [OF o inv this] show ?thesis using k2(1) unfolding r by blast
qed

subsection \<open>The process table is well typed\<close>

definition alive :: "process \<Rightarrow> bool" where "alive r \<longleftrightarrow> pr_state r \<noteq> PROC_UNUSED"

definition table_ok :: "sched \<Rightarrow> bool" where
  "table_ok s \<longleftrightarrow> length (g_proc_table s) = MAX_PROCESSES \<and> 0 < g_next_pid s
     \<and> (\<forall>i < MAX_PROCESSES. proc_typed (pget s i) \<and> (alive (pget s i) \<longrightarrow> 0 < pr_pid (pget s i) \<and> pr_pid (pget s i) < g_next_pid s))
     \<and> (\<forall>i < MAX_PROCESSES. \<forall>j < MAX_PROCESSES. alive (pget s i) \<and> alive (pget s j) \<and> pr_pid (pget s i) = pr_pid (pget s j) \<longrightarrow> i = j)"

lemma table_ok_cong:
  assumes "length (g_proc_table s') = length (g_proc_table s)" and "g_next_pid s' = g_next_pid s"
    and "\<And>i. i < MAX_PROCESSES \<Longrightarrow> pr_pid (pget s' i) = pr_pid (pget s i) \<and> alive (pget s' i) = alive (pget s i)"
    and "\<And>i. i < MAX_PROCESSES \<Longrightarrow> proc_typed (pget s i) \<Longrightarrow> proc_typed (pget s' i)"
    and "table_ok s"
  shows "table_ok s'"
  using assms by (simp add: table_ok_def)

lemma unlink_typed: "unlink r' = unlink r \<Longrightarrow> proc_typed r' = proc_typed r \<and> alive r' = alive r"
proof -
  assume u: "unlink r' = unlink r"
  have "proc_typed (unlink r) = proc_typed r" "alive (unlink r) = alive r" for r by (simp_all add: proc_typed_def alive_def unlink_def)
  then show ?thesis using u by metis
qed

lemma table_ok_enqueue:
  assumes "table_ok s"
  shows "table_ok (sched_enqueue po s)"
proof (rule table_ok_cong [OF _ _ _ _ assms])
  note sp = same_procs_enqueue [of s po]
  have "(sched_enqueue po s)\<lparr>g_proc_table := [], g_queues := []\<rparr> = s\<lparr>g_proc_table := [], g_queues := []\<rparr>" using sp by (simp add: same_procs_def)
  from arg_cong [OF this, of g_next_pid] show "g_next_pid (sched_enqueue po s) = g_next_pid s" by simp
  show "length (g_proc_table (sched_enqueue po s)) = length (g_proc_table s)" using same_procs_rest(3) [OF sp] .
  have u: "unlink (pget (sched_enqueue po s) i) = unlink (pget s i)" for i using sp by (simp add: same_procs_def)
  show "pr_pid (pget (sched_enqueue po s) i) = pr_pid (pget s i) \<and> alive (pget (sched_enqueue po s) i) = alive (pget s i)" for i
    using unlink_typed [OF u] unlink_fields(1) [OF u] by blast
  show "proc_typed (pget s i) \<Longrightarrow> proc_typed (pget (sched_enqueue po s) i)" for i using unlink_typed [OF u] by blast
qed

lemma table_ok_pset:
  assumes "table_ok s" and "\<And>r. pr_pid (f r) = pr_pid r" and "\<And>r. alive r \<Longrightarrow> alive (f r)"
    and "proc_typed (pget s p) \<Longrightarrow> proc_typed (f (pget s p))" and "alive (pget s p)"
  shows "table_ok (pset p f s)"
proof (cases "p < length (g_proc_table s)")
  case True
  then have g: "pget (pset p f s) i = (if i = p then f (pget s p) else pget s i)" for i by (simp add: pget_pset)
  show ?thesis using assms g by (intro table_ok_cong [OF _ _ _ _ assms(1)]) auto
next
  case False
  then show ?thesis using assms(1) by (simp add: pset_def not_less list_update_beyond)
qed

lemma proc_get_alive: "proc_get s pid = Some p \<Longrightarrow> alive (pget s p)"
  using proc_getD(3) by (simp add: alive_def)

lemma table_ok_init: "table_ok (k_sched (proc_init k))"
proof -
  have "pget (k_sched (proc_init k)) i = zero_process" if "i < MAX_PROCESSES" for i using that by (simp add: proc_init_def pget_def)
  moreover have "proc_typed zero_process" "\<not> alive zero_process"
    by (simp_all add: proc_typed_def alive_def zero_process_def blank_process_def)
  ultimately show ?thesis by (simp add: table_ok_def) (simp add: proc_init_def)
qed

lemma table_ok_add_cap:
  assumes "table_ok (k_sched k)"
  shows "table_ok (k_sched (snd (proc_add_cap pid token owner delegatable k)))"
proof (cases "proc_get (k_sched k) pid")
  case (Some p)
  let ?n = "pr_cap_count (pget (k_sched k) p)"
  show ?thesis
  proof (cases "MAX_CAPS_PER_PROC \<le> ?n")
    case False
    then show ?thesis using Some assms
      by (auto simp: proc_add_cap_def Let_def pupd_def proc_typed_def alive_def intro!: table_ok_pset proc_get_alive [unfolded alive_def])
  qed (use Some assms in \<open>simp add: proc_add_cap_def\<close>)
qed (use assms in \<open>simp add: proc_add_cap_def\<close>)

lemma vfs_close_sched:
  assumes "exfs_close ops" and "vfs_close ops fd k = Some (x, k')"
  shows "k_sched k' = k_sched k"
proof -
  have c: "k1 = k" if "(case node_op ops op_close n of None \<Rightarrow> Some k | Some f \<Rightarrow> map_option snd (f a k)) = Some k1" for n a k1
    using that close_op_nop [OF assms(1), where n = n and k = k and a = a] by simp
  show ?thesis using assms(2) unfolding vfs_close_def
    by (auto simp: Let_def bind_eq_Some_conv free_unless_root_def free_node_def split: if_splits dest!: c)
qed

lemma close_owned_sched:
  assumes "exfs_close ops" and "close_owned ops pid js k = Some k'"
  shows "k_sched k' = k_sched k"
  using assms(2)
proof (induction js arbitrary: k)
  case (Cons i js)
  show ?case
  proof (cases "fd_active (g_fds k ! i) \<and> fd_owner_pid (g_fds k ! i) = pid")
    case True
    then obtain x k1 where "vfs_close ops (int i) k = Some (x, k1)" "close_owned ops pid js k1 = Some k'"
      using Cons.prems by (auto simp: bind_eq_Some_conv)
    then show ?thesis using Cons.IH vfs_close_sched [OF assms(1)] by metis
  next
    case False
    then show ?thesis using Cons by auto
  qed
qed simp

lemma vfs_close_all_sched: "exfs_close ops \<Longrightarrow> vfs_close_all_for_pid ops pid k = Some k' \<Longrightarrow> k_sched k' = k_sched k"
  unfolding vfs_close_all_for_pid_def by (auto split: if_splits dest: close_owned_sched)

lemma table_ok_wake:
  assumes "table_ok s"
  shows "table_ok (fold (wake_waiter pid) js s)"
  using assms
proof (induction js arbitrary: s)
  case (Cons i js)
  have "table_ok (wake_waiter pid i s)"
  proof (cases "pr_state (pget s i) = PROC_BLOCKED \<and> pr_blocked_on_pid (pget s i) = pid")
    case True
    then have "table_ok (pset i (\<lambda>r. r\<lparr>pr_blocked_on_pid := 0, pr_state := PROC_READY\<rparr>) s)"
      by (intro table_ok_pset [OF Cons.prems]) (simp_all add: alive_def proc_typed_def)
    then show ?thesis using True table_ok_enqueue by (simp add: wake_waiter_def)
  qed (use Cons.prems in \<open>auto simp: wake_waiter_def\<close>)
  then show ?case using Cons.IH by simp
qed simp

lemma table_ok_exit:
  assumes ex: "exfs_close ops" and t: "table_ok (k_sched k)" and e: "proc_exit ops pid code k = Some k'"
  shows "table_ok (k_sched k')"
proof (cases "proc_get (k_sched k) pid")
  case None
  then show ?thesis using t e by (simp add: proc_exit_def)
next
  case (Some p)
  have al: "alive (pget (k_sched k) p)" using proc_get_alive [OF Some] .
  have up: "table_ok (pset p f s) \<and> alive (pget (pset p f s) p)"
    if "table_ok s" "alive (pget s p)" "\<And>r. pr_pid (f r) = pr_pid r" "\<And>r. alive r \<Longrightarrow> alive (f r)" "\<And>r. proc_typed (f r) = proc_typed r" for f s
  proof
    show "table_ok (pset p f s)" using that by (intro table_ok_pset) auto
    show "alive (pget (pset p f s) p)" using that(2,4)
      by (cases "p < length (g_proc_table s)") (auto simp: pget_pset, simp add: pset_def pget_def not_less list_update_beyond)
  qed
  let ?k1 = "pupd p (\<lambda>r. r\<lparr>pr_state := PROC_ZOMBIE, pr_exit_code := code\<rparr>) k"
  have 1: "table_ok (k_sched ?k1) \<and> alive (pget (k_sched ?k1) p)"
    using up [OF t al, of "\<lambda>r. r\<lparr>pr_state := PROC_ZOMBIE, pr_exit_code := code\<rparr>"] by (simp add: pupd_def alive_def proc_typed_def)
  obtain k2 where k2: "(let ipc = pr_ipc (pget (k_sched ?k1) p) in
        if ipc \<noteq> 0 then do { k \<leftarrow> ipc_free_state ipc ?k1; Some (pupd p (\<lambda>r. r\<lparr>pr_ipc := 0\<rparr>) k) } else Some ?k1) = Some k2"
    and e2: "(let fpu = pr_fpu_state (pget (k_sched k2) p) in
        if fpu \<noteq> 0 then do { k \<leftarrow> fpu_free_state fpu k2; Some (pupd p (\<lambda>r. r\<lparr>pr_fpu_state := 0\<rparr>) k) } else Some k2) \<bind>
      (\<lambda>k. vfs_close_all_for_pid ops pid k \<bind>
      (\<lambda>k. Some (k\<lparr>k_audit := audit_record AUDIT_PROC_EXIT pid (of_int code) 0 (k_audit k)\<rparr>) \<bind>
      (\<lambda>k. Some (k\<lparr>k_sched := fold (wake_waiter pid) [0..<MAX_PROCESSES] (k_sched k)\<rparr>)))) = Some k'"
    using e unfolding proc_exit_def Some option.case bind.simps(2) bind_eq_Some_conv by blast
  have 2: "table_ok (k_sched k2) \<and> alive (pget (k_sched k2) p)"
    using k2 1 up [of "k_sched ?k1" "\<lambda>r. r\<lparr>pr_ipc := 0\<rparr>"]
    by (auto simp: Let_def bind_eq_Some_conv ipc_free_state_def pupd_def [of _ "\<lambda>r. r\<lparr>pr_ipc := 0\<rparr>"] alive_def proc_typed_def split: if_splits)
  obtain k3 where k3: "(let fpu = pr_fpu_state (pget (k_sched k2) p) in
        if fpu \<noteq> 0 then do { k \<leftarrow> fpu_free_state fpu k2; Some (pupd p (\<lambda>r. r\<lparr>pr_fpu_state := 0\<rparr>) k) } else Some k2) = Some k3"
    and e3: "vfs_close_all_for_pid ops pid k3 \<bind>
      (\<lambda>k. Some (k\<lparr>k_audit := audit_record AUDIT_PROC_EXIT pid (of_int code) 0 (k_audit k)\<rparr>) \<bind>
      (\<lambda>k. Some (k\<lparr>k_sched := fold (wake_waiter pid) [0..<MAX_PROCESSES] (k_sched k)\<rparr>))) = Some k'"
    using e2 unfolding bind_eq_Some_conv by blast
  have 3: "table_ok (k_sched k3)"
    using k3 2 up [of "k_sched k2" "\<lambda>r. r\<lparr>pr_fpu_state := 0\<rparr>"]
    by (auto simp: Let_def bind_eq_Some_conv fpu_free_state_def pupd_def alive_def proc_typed_def split: if_splits)
  obtain k4 where "vfs_close_all_for_pid ops pid k3 = Some k4" "k_sched k' = fold (wake_waiter pid) [0..<MAX_PROCESSES] (k_sched k4)"
    using e3 by (auto simp: bind_eq_Some_conv)
  then show ?thesis using 3 vfs_close_all_sched [OF ex] table_ok_wake by metis
qed

subsection \<open>Exit\<close>

lemma unlink_woken_fields:
  assumes "unlink r' = woken pid (unlink r)"
  shows "pr_state r' = (if pr_state r = PROC_BLOCKED \<and> pr_blocked_on_pid r = pid then PROC_READY else pr_state r)"
    "pr_state r = PROC_BLOCKED \<and> pr_blocked_on_pid r = pid \<Longrightarrow> pr_blocked_on_pid r' = 0"
    "pr_exit_code r' = pr_exit_code r" "pr_ipc r' = pr_ipc r" "pr_fpu_state r' = pr_fpu_state r" "pr_cr3 r' = pr_cr3 r" "pr_pid r' = pr_pid r"
proof -
  have u: "unlink r' = unlink (woken pid r)" using assms by (simp add: unlink_woken)
  have e: "g r' = g (woken pid r)" if "\<And>r. g (unlink r) = g r" for g :: "process \<Rightarrow> 'b"
    using arg_cong [OF u, of g] that by simp
  show "pr_state r' = (if pr_state r = PROC_BLOCKED \<and> pr_blocked_on_pid r = pid then PROC_READY else pr_state r)"
    using e [of pr_state] by (simp add: unlink_def woken_def)
  show "pr_state r = PROC_BLOCKED \<and> pr_blocked_on_pid r = pid \<Longrightarrow> pr_blocked_on_pid r' = 0"
    using e [of pr_blocked_on_pid] by (simp add: unlink_def woken_def)
  show "pr_exit_code r' = pr_exit_code r" using e [of pr_exit_code] by (simp add: unlink_def woken_def)
  show "pr_ipc r' = pr_ipc r" using e [of pr_ipc] by (simp add: unlink_def woken_def)
  show "pr_fpu_state r' = pr_fpu_state r" using e [of pr_fpu_state] by (simp add: unlink_def woken_def)
  show "pr_cr3 r' = pr_cr3 r" using e [of pr_cr3] by (simp add: unlink_def woken_def)
  show "pr_pid r' = pr_pid r" using e [of pr_pid] by (simp add: unlink_def woken_def)
qed

text \<open>
  C34: \<^verbatim>\<open>proc_exit\<close> ends a process that is not queued and gives everything back but its stack.  It returns, keeps the ready queues in
  order and leaves a zombie with the exit code, without inbox and FPU area; every process that was blocked on it is ready, and every other
  process keeps its state.  Its descriptors are closed and no others, and from the heap exactly its inbox, its FPU block and the blocks of
  its descriptors are gone.
\<close>

theorem proc_exit_releases:
  assumes "exfs_close ops" and "sched_inv (k_sched k) qs" and "proc_get (k_sched k) pid = Some p" and "pid \<noteq> 0"
    and "pr_state (pget (k_sched k) p) \<noteq> PROC_READY" and "proc_owns_ok k (pget (k_sched k) p)"
  shows "\<exists>k' qs'. proc_exit ops pid code k = Some k' \<and> sched_inv (k_sched k') qs'
    \<and> (let z = pget (k_sched k') p in pr_state z = PROC_ZOMBIE \<and> pr_exit_code z = code \<and> pr_ipc z = 0 \<and> pr_fpu_state z = 0)
    \<and> (\<forall>i < MAX_PROCESSES. i \<noteq> p \<longrightarrow> (let r = pget (k_sched k) i; r' = pget (k_sched k') i in
          pr_state r' = (if pr_state r = PROC_BLOCKED \<and> pr_blocked_on_pid r = pid then PROC_READY else pr_state r)))
    \<and> (\<forall>j. g_fds k' ! j = (if j \<in> {3..<VFS_MAX_FDS} \<and> owned_by pid (g_fds k ! j) then zero_fd else g_fds k ! j))
    \<and> releases (k_heap k) (exit_released k pid (pget (k_sched k) p)) (k_heap k')"
proof -
  let ?s = "pset p (buried code) (k_sched k)"
  let ?s' = "fold (wake_waiter pid) [0..<MAX_PROCESSES] ?s"
  have pl: "p < length (g_proc_table (k_sched k))" using proc_getD(1) [OF assms(3)] .
  have len: "length (g_proc_table (k_sched k)) = MAX_PROCESSES" using assms(2) by (simp add: sched_inv_def sched_wf_def)
  with pl have pm: "p < MAX_PROCESSES" by simp
  have inv: "sched_inv ?s qs" by (rule retire_inv [OF assms(2) pm assms(5)]) (simp_all add: buried_def)
  obtain qs' where inv': "sched_inv ?s' qs'" using wake_waiters_ok [OF inv] by blast
  have u: "unlink (pget ?s' i) = woken pid (unlink (pget ?s i))" if "i < MAX_PROCESSES" for i
    using wake_waiters_procs [of ?s "[0..<MAX_PROCESSES]" pid i] that len by simp
  have g: "pget ?s i = (if i = p then buried code (pget (k_sched k) p) else pget (k_sched k) i)" for i using pl by (simp add: pget_pset)
  note z = unlink_woken_fields [OF u [OF pm], unfolded g]
  have z': "pr_state (pget ?s' p) = PROC_ZOMBIE \<and> pr_exit_code (pget ?s' p) = code \<and> pr_ipc (pget ?s' p) = 0 \<and> pr_fpu_state (pget ?s' p) = 0"
    using z by (simp add: buried_def)
  have w: "pr_state (pget ?s' i) = (if pr_state (pget (k_sched k) i) = PROC_BLOCKED \<and> pr_blocked_on_pid (pget (k_sched k) i) = pid
      then PROC_READY else pr_state (pget (k_sched k) i))" if "i < MAX_PROCESSES" "i \<noteq> p" for i
    using unlink_woken_fields(1) [OF u [OF that(1)], unfolded g] that(2) by simp
  obtain H' fds' where e: "proc_exit ops pid code k = Some (k\<lparr>k_sched := ?s', k_heap := H', g_fds := fds',
        k_audit := audit_record AUDIT_PROC_EXIT pid (of_int code) 0 (k_audit k)\<rparr>)"
     "releases (k_heap k) (exit_released k pid (pget (k_sched k) p)) H'"
     "\<forall>j. fds' ! j = (if j \<in> {3..<VFS_MAX_FDS} \<and> owned_by pid (g_fds k ! j) then zero_fd else g_fds k ! j)"
    using exit_frees [OF assms(1,3,4,6)] by blast
  show ?thesis
    by (rule exI, rule exI [of _ qs'], intro conjI, rule e(1)) (use inv' z' w e(2,3) in \<open>simp_all add: Let_def\<close>)
qed

subsection \<open>A small kernel\<close>

text \<open>
  A running process, one that waits for it, and nothing else: no descriptor is open, the heap of 64 KiB is free, and no page is left.
\<close>

definition init_table :: "process list" where
  "init_table =
     zero_process\<lparr>pr_pid := 1, pr_state := PROC_RUNNING, pr_cr3 := 0x1000\<rparr>
     # zero_process\<lparr>pr_pid := 2, pr_parent_pid := 1, pr_state := PROC_BLOCKED, pr_blocked_on_pid := 1\<rparr>
     # replicate 254 zero_process"

definition init_sched :: sched where
  "init_sched = demo_sched\<lparr>g_proc_table := init_table, g_next_pid := 3, g_queues := replicate INTENT_COUNT None\<rparr>"

definition init_kernel :: pkernel where
  "init_kernel = \<lparr>k_sched = init_sched, k_heap = kmalloc_init 0x100000 0x10000 (\<lambda>_. 0), k_inbox = (\<lambda>_. zero_inbox),
     v_nodes = v_nodes demo_vfs, g_mounts = [], g_fds = replicate VFS_MAX_FDS zero_fd, g_mount_count = 0, g_cwd = 0, v_alerts = [],
     k_audit = audit_init,
     k_vm = \<lparr>vm_mem = (\<lambda>_. 0), vm_pmm = demo_pmm\<lparr>g_zone_free := [0, 0, 0]\<rparr>, kernel_pml4 = 0x2000, vm_cr3 = 0x1000\<rparr>,
     g_fpu_template = [], proc_idle_loop = 0x4000\<rparr>"

lemma init_pget:
  "pget init_sched 0 = zero_process\<lparr>pr_pid := 1, pr_state := PROC_RUNNING, pr_cr3 := 0x1000\<rparr>"
  "pget init_sched (Suc 0) = zero_process\<lparr>pr_pid := 2, pr_parent_pid := 1, pr_state := PROC_BLOCKED, pr_blocked_on_pid := 1\<rparr>"
  "2 \<le> i \<Longrightarrow> i < 256 \<Longrightarrow> pget init_sched i = zero_process"
  by (simp_all add: pget_def init_sched_def init_table_def nth_Cons' One_nat_def)

lemma init_fields:
  "k_sched init_kernel = init_sched" "g_next_pid init_sched = 3" "g_current_proc init_sched = Some 0" "length (g_proc_table init_sched) = MAX_PROCESSES"
  "k_heap init_kernel = kmalloc_init 0x100000 0x10000 (\<lambda>_. 0)" "g_fds init_kernel = replicate VFS_MAX_FDS zero_fd"
  by (simp_all add: init_kernel_def init_sched_def init_table_def demo_sched_def MAX_PROCESSES_def)

lemma zero_process_fields:
  "pr_state zero_process = PROC_UNUSED" "pr_intent zero_process = 0" "pr_pid zero_process = 0" "pr_ipc zero_process = 0" "pr_fpu_state zero_process = 0"
  "proc_typed zero_process"
  by (simp_all add: zero_process_def blank_process_def proc_typed_def)

lemma below_256: "p < MAX_PROCESSES \<Longrightarrow> p = 0 \<or> p = Suc 0 \<or> (2 \<le> p \<and> p < 256)"
  by (auto simp: MAX_PROCESSES_def)

lemma init_sched_inv: "sched_inv init_sched (replicate INTENT_COUNT [])"
proof -
  have "queue_ok init_sched q []" if "q < INTENT_COUNT" for q using that by (simp add: queue_ok_def init_sched_def)
  moreover have "pr_intent (pget init_sched p) < INTENT_COUNT \<and> pr_state (pget init_sched p) \<noteq> PROC_READY
      \<and> (pr_state (pget init_sched p) = PROC_RUNNING \<longrightarrow> g_current_proc init_sched = Some p)" if "p < MAX_PROCESSES" for p
    using below_256 [OF that] by (auto simp: init_pget init_fields zero_process_fields INTENT_COUNT_def)
  ultimately show ?thesis
    by (auto simp: sched_inv_def sched_wf_def queued_def init_fields) (simp add: init_sched_def)
qed

lemma init_table_ok: "table_ok init_sched"
  unfolding table_ok_def init_fields
proof (intro conjI allI impI)
  fix i
  assume i: "i < MAX_PROCESSES"
  show "proc_typed (pget init_sched i)" using below_256 [OF i] zero_process_fields(6) by (auto simp: init_pget proc_typed_def)
  assume "alive (pget init_sched i)"
  then show "0 < pr_pid (pget init_sched i)" "pr_pid (pget init_sched i) < 3"
    using below_256 [OF i] by (auto simp: init_pget alive_def zero_process_fields)
next
  fix i j
  assume "i < MAX_PROCESSES" "j < MAX_PROCESSES" "alive (pget init_sched i) \<and> alive (pget init_sched j) \<and> pr_pid (pget init_sched i) = pr_pid (pget init_sched j)"
  then show "i = j" using below_256 [of i] below_256 [of j] by (auto simp: init_pget alive_def zero_process_fields)
qed simp_all

lemma init_heap_rel: "heap_rel (k_heap init_kernel) [(0x100000, 0xFFE0, True)]"
  using kmalloc_init_rel [of "0x100000" "0x10000" "\<lambda>_. 0"] by (simp add: init_fields)

lemma init_heap_inv: "heap_inv (k_heap init_kernel)"
  using init_heap_rel by (auto simp: heap_inv_def)

lemma init_fds_ok: "fds_ok init_kernel"
proof -
  have "fd_blocks init_kernel zero_fd = []" by (simp add: fd_blocks_def zero_fd_def)
  then have "fds_blocks init_kernel = []" by (simp add: fds_blocks_def init_fields)
  then show ?thesis using init_heap_inv by (simp add: fds_ok_def init_fields)
qed

lemma demo_ops_close: "exfs_close demo_ops"
  by (simp add: exfs_close_def demo_ops_def)

lemma init_owns: "pr_ipc r = 0 \<Longrightarrow> pr_fpu_state r = 0 \<Longrightarrow> proc_owns_ok init_kernel r"
  using init_fds_ok by (simp add: proc_owns_ok_def fpu_ok_def proc_blocks_def fpu_raw_def fds_ok_def)

lemma init_first_free: "first_idx (\<lambda>r. pr_state r = PROC_UNUSED) (g_proc_table (k_sched init_kernel)) = Some 2"
  unfolding init_fields
proof (rule first_idx_SomeI)
  have p: "g_proc_table init_sched ! i = pget init_sched i" for i by (simp add: pget_def)
  show "2 < length (g_proc_table init_sched)" by (simp add: init_fields MAX_PROCESSES_def)
  show "pr_state (g_proc_table init_sched ! 2) = PROC_UNUSED" unfolding p by (simp add: init_pget(3) zero_process_fields)
  show "pr_state (g_proc_table init_sched ! j) \<noteq> PROC_UNUSED" if "j < 2" for j
  proof -
    have "j = 0 \<or> j = Suc 0" using that by auto
    then show ?thesis unfolding p by (auto simp: init_pget)
  qed
qed

lemma create_succeeds:
  assumes inv: "heap_inv (k_heap k)" and f: "first_idx (\<lambda>r. pr_state r = PROC_UNUSED) (g_proc_table (k_sched k)) = Some p"
    and st: "kmalloc (k_heap k) KERNEL_STACK_SIZE = Some (q, H)" "q \<noteq> 0"
  shows "\<exists>k1. proc_create intent parent_pid k = Some (Some p, k1)"
proof -
  have "k_heap (proc_fresh intent parent_pid p k) = k_heap k" by (simp add: proc_fresh_def Let_def pupd_def)
  then have "proc_equip p (proc_fresh intent parent_pid p k) \<noteq> Some (False, k')" for k'
    using st by (auto simp: proc_equip_def bind_eq_Some_conv)
  then have "proc_create intent parent_pid k \<noteq> Some (None, k')" for k'
    by (auto simp: proc_create_def f bind_eq_Some_conv split: if_splits)
  then show ?thesis using proc_create_ok [OF inv f, of intent parent_pid] by auto
qed

lemma init_stack: "\<exists>H. kmalloc (k_heap init_kernel) KERNEL_STACK_SIZE = Some (0x100020, H)"
  using kmalloc_refines [OF init_heap_rel, of KERNEL_STACK_SIZE] by (auto simp: round16_def KERNEL_STACK_SIZE_def)

lemma init_create: "\<exists>k1. proc_create intent parent_pid init_kernel = Some (Some 2, k1)"
proof -
  obtain H where "kmalloc (k_heap init_kernel) KERNEL_STACK_SIZE = Some (0x100020, H)" using init_stack by blast
  then show ?thesis by (rule create_succeeds [OF init_heap_inv init_first_free]) simp
qed

theorem proc_leaks_stack_witness:
  "\<exists>k1 k2 a n. proc_create 0 1 init_kernel = Some (Some 2, k1) \<and> proc_exit demo_ops 3 0 k1 = Some k2
     \<and> live (k_heap k2) = insert (a, n) (live (k_heap init_kernel)) \<and> 16384 \<le> n"
proof -
  obtain k1 where c: "proc_create 0 1 init_kernel = Some (Some 2, k1)" using init_create by blast
  have g: "proc_get (k_sched init_kernel) 3 = None"
  proof -
    have "\<not> (pr_pid r = 3 \<and> pr_state r \<noteq> PROC_UNUSED)" if "r \<in> set init_table" for r
      using that by (auto simp: init_table_def zero_process_fields)
    then show ?thesis by (auto simp: proc_get_def first_idx_None init_fields init_sched_def)
  qed
  have "\<forall>j \<in> {3..<VFS_MAX_FDS}. \<not> owned_by 3 (g_fds init_kernel ! j)" by (simp add: init_fields owned_by_def zero_fd_def)
  from proc_leaks_stack [OF demo_ops_close init_fds_ok _ _ g this c, of 0] c show ?thesis
    by (auto simp: init_fields KERNEL_STACK_SIZE_def)
qed

theorem proc_exit_releases_witness:
  "\<exists>k'. proc_exit demo_ops 1 7 init_kernel = Some k' \<and> pr_exit_code (pget (k_sched k') 0) = 7
     \<and> pr_state (pget (k_sched k') 0) = PROC_ZOMBIE \<and> pr_state (pget (k_sched k') 1) = PROC_READY"
proof -
  have g: "proc_get (k_sched init_kernel) 1 = Some 0" by (simp add: proc_get_def init_fields init_sched_def init_table_def)
  have s: "pr_state (pget (k_sched init_kernel) 0) \<noteq> PROC_READY" by (simp add: init_fields init_pget)
  have o: "proc_owns_ok init_kernel (pget (k_sched init_kernel) 0)" by (rule init_owns) (simp_all add: init_fields init_pget zero_process_fields)
  have b: "(1::nat) < MAX_PROCESSES" "(1::nat) \<noteq> 0" by (simp_all add: MAX_PROCESSES_def)
  obtain k' where k': "proc_exit demo_ops 1 7 init_kernel = Some k'" "pr_state (pget (k_sched k') 0) = PROC_ZOMBIE" "pr_exit_code (pget (k_sched k') 0) = 7"
    and w: "\<forall>i < MAX_PROCESSES. i \<noteq> 0 \<longrightarrow> pr_state (pget (k_sched k') i) = (if pr_state (pget (k_sched init_kernel) i) = PROC_BLOCKED
      \<and> pr_blocked_on_pid (pget (k_sched init_kernel) i) = 1 then PROC_READY else pr_state (pget (k_sched init_kernel) i))"
    using proc_exit_releases [OF demo_ops_close init_sched_inv [folded init_fields(1)] g _ s o, of 7] unfolding Let_def by auto
  have "pr_state (pget (k_sched k') 1) = PROC_READY" using w [rule_format, OF b] by (simp add: init_fields init_pget)
  then show ?thesis using k' by blast
qed

end
