(* ===== verification/Fork_Facts.thy ===== *)
theory Fork_Facts
  imports Process_Facts Fork
begin

text \<open>
  What \<^verbatim>\<open>fork\<close>, \<^verbatim>\<open>waitpid\<close> and the operations of \<^verbatim>\<open>process.c\<close> keep of the process table, and what happens to the memory of the
  parent when \<^verbatim>\<open>fork\<close> fails.
\<close>

subsection \<open>Creation\<close>

lemma unatSuc2_32:
  fixes n :: u32
  assumes "unat n \<noteq> 2 ^ 32 - 1"
  shows "unat (n + 1) = unat n + 1"
proof -
  have "unat n < 2 ^ LENGTH(32)" by (rule unsigned_less)
  then show ?thesis using assms by (simp add: unat_word_ariths)
qed

lemma table_ok_new:
  assumes t: "table_ok s" and p: "p < MAX_PROCESSES" and un: "\<not> alive (pget s p)" and r: "proc_typed r" "alive r" "pr_pid r = g_next_pid s"
    and mx: "g_next_pid s \<noteq> -1"
  shows "table_ok (pset p (\<lambda>_. r) (s\<lparr>g_next_pid := g_next_pid s + 1, fpu_areas := ar\<rparr>))"
proof -
  let ?n = "g_next_pid s"
  let ?s = "pset p (\<lambda>_. r) (s\<lparr>g_next_pid := ?n + 1, fpu_areas := ar\<rparr>)"
  have l: "length (g_proc_table s) = MAX_PROCESSES" "0 < ?n" using t by (simp_all add: table_ok_def)
  have g: "pget ?s i = (if i = p then r else pget s i)" for i using p l(1) by (simp add: pget_pset) (simp add: pget_def)
  have n: "g_next_pid ?s = ?n + 1" by (simp add: pset_def)
  have lt: "x < ?n + 1 \<longleftrightarrow> x \<le> ?n" for x :: u32
  proof -
    have "unat ?n \<noteq> 2 ^ 32 - 1"
    proof
      assume "unat ?n = 2 ^ 32 - 1"
      then have "unat ?n = unat (0xFFFFFFFF :: u32)" by simp
      then have "?n = 0xFFFFFFFF" by (simp only: word_unat_eq_iff)
      then show False using mx by simp
    qed
    then have "unat (?n + 1) = unat ?n + 1" by (intro unatSuc2_32)
    then show ?thesis by (simp add: word_less_nat_alt word_le_nat_alt less_Suc_eq_le)
  qed
  have old: "0 < pr_pid (pget s i) \<and> pr_pid (pget s i) < ?n" if "i < MAX_PROCESSES" "alive (pget s i)" for i
    using t that by (simp add: table_ok_def)
  have ty: "proc_typed (pget s i)" if "i < MAX_PROCESSES" for i using t that by (simp add: table_ok_def)
  have uq: "i = j" if "i < MAX_PROCESSES" "j < MAX_PROCESSES" "alive (pget s i)" "alive (pget s j)" "pr_pid (pget s i) = pr_pid (pget s j)" for i j
    using t that by (simp add: table_ok_def)
  show ?thesis
    unfolding table_ok_def n
  proof (intro conjI allI impI)
    show "length (g_proc_table ?s) = MAX_PROCESSES" using l by simp
    show "0 < ?n + 1" using lt [of 0] by simp
    fix i assume i: "i < MAX_PROCESSES"
    show "proc_typed (pget ?s i)" using ty [OF i] r g by simp
    assume a: "alive (pget ?s i)"
    show "0 < pr_pid (pget ?s i)" using a g old [OF i] r l(2) by (auto split: if_splits)
    show "pr_pid (pget ?s i) < ?n + 1" unfolding lt using a g old [OF i] r by (auto split: if_splits)
  next
    fix i j
    assume i: "i < MAX_PROCESSES" and j: "j < MAX_PROCESSES"
      and a: "alive (pget ?s i) \<and> alive (pget ?s j) \<and> pr_pid (pget ?s i) = pr_pid (pget ?s j)"
    show "i = j" using a g old [OF i] old [OF j] uq [OF i j] r(3) by (auto split: if_splits)
  qed
qed

lemma first_free:
  assumes "table_ok s" and "first_idx (\<lambda>r. pr_state r = PROC_UNUSED) (g_proc_table s) = Some p"
  shows "p < MAX_PROCESSES" "\<not> alive (pget s p)"
  using first_idx_SomeD [OF assms(2)] assms(1) by (auto simp: table_ok_def alive_def pget_def)

lemma table_ok_create:
  assumes t: "table_ok (k_sched k)" and h: "heap_inv (k_heap k)" and mx: "g_next_pid (k_sched k) \<noteq> -1"
    and c: "proc_create intent parent_pid k = Some (x, k')"
  shows "table_ok (k_sched k')" and "x = Some p \<Longrightarrow> alive (pget (k_sched k') p) \<and> p < MAX_PROCESSES"
proof -
  have "table_ok (k_sched k') \<and> (x = Some p \<longrightarrow> alive (pget (k_sched k') p) \<and> p < MAX_PROCESSES)" for p
  proof (cases "first_idx (\<lambda>r. pr_state r = PROC_UNUSED) (g_proc_table (k_sched k))")
    case None
    then show ?thesis using t c by (simp add: proc_create_def)
  next
    case (Some q)
    note q = first_free [OF t Some]
    have ql: "q < length (g_proc_table (k_sched k))" using q t by (simp add: table_ok_def)
    have nb: "proc_typed r \<and> alive r \<and> pr_pid r = g_next_pid (k_sched k)" if "newborn intent parent_pid (g_next_pid (k_sched k)) r" for r
      using that by (simp add: newborn_def alive_def)
    from proc_create_ok [OF h Some, of intent parent_pid] show ?thesis
    proof (elim disjE exE conjE)
      fix r
      assume e: "proc_create intent parent_pid k = Some (None, k\<lparr>k_sched := pset q (\<lambda>_. r) ((k_sched k)\<lparr>g_next_pid := g_next_pid (k_sched k) + 1\<rparr>)\<rparr>)"
        and "newborn intent parent_pid (g_next_pid (k_sched k)) r"
      note n = nb [OF this(2)]
      show ?thesis using c e table_ok_new [OF t q, of r "fpu_areas (k_sched k)"] n mx by auto
    next
      fix r ar H' ib au
      assume e: "proc_create intent parent_pid k = Some (Some q, k\<lparr>k_sched := pset q (\<lambda>_. r) ((k_sched k)\<lparr>g_next_pid := g_next_pid (k_sched k) + 1, fpu_areas := ar\<rparr>),
          k_heap := H', k_inbox := ib, k_audit := au\<rparr>)" and "newborn intent parent_pid (g_next_pid (k_sched k)) r"
      note n = nb [OF this(2)]
      show ?thesis using c e table_ok_new [OF t q, of r ar] n mx ql q(1) by (auto simp: pget_pset)
    qed
  qed
  then show "table_ok (k_sched k')" and "x = Some p \<Longrightarrow> alive (pget (k_sched k') p) \<and> p < MAX_PROCESSES" by blast+
qed

lemma table_ok_pupd:
  assumes "table_ok (k_sched k)" and "\<And>r. pr_pid (f r) = pr_pid r" and "\<And>r. alive r \<Longrightarrow> alive (f r)"
    and "proc_typed (pget (k_sched k) p) \<Longrightarrow> proc_typed (f (pget (k_sched k) p))" and "alive (pget (k_sched k) p)" and "p < MAX_PROCESSES"
  shows "table_ok (k_sched (pupd p f k))" "alive (pget (k_sched (pupd p f k)) p)"
proof -
  show "table_ok (k_sched (pupd p f k))" using table_ok_pset [OF assms(1-5)] by (simp add: pupd_def)
  have "p < length (g_proc_table (k_sched k))" using assms(1,6) by (simp add: table_ok_def)
  then show "alive (pget (k_sched (pupd p f k)) p)" using assms(3,5) by (simp add: pupd_def pget_pset)
qed

subsection \<open>fork and waitpid\<close>

lemma set_cr3_sched [simp]: "k_sched (set_cr3 v k) = k_sched k" "k_heap (set_cr3 v k) = k_heap k"
  by (simp_all add: set_cr3_def)

lemma table_ok_fork_fail:
  assumes "exfs_close ops" and "table_ok (k_sched k)" and "fork_fail ops child v k = Some (x, k')"
  shows "table_ok (k_sched k')"
  using assms(3) table_ok_exit [OF assms(1), of "set_cr3 v k"] assms(2) by (auto simp: fork_fail_def bind_eq_Some_conv)

lemma table_ok_fork_finish:
  assumes t: "table_ok (k_sched k)" and c: "alive (pget (k_sched k) child)" "child < MAX_PROCESSES" and p: "parent < MAX_PROCESSES"
  shows "table_ok (k_sched (snd (fork_finish parent child t4 v k)))"
proof -
  let ?k1 = "pupd child (\<lambda>r. r\<lparr>pr_cr3 := t4\<rparr>) k"
  let ?k2 = "set_cr3 v ?k1"
  let ?pa = "pget (k_sched ?k2) parent"
  let ?f = "\<lambda>r. r\<lparr>pr_caps := take (pr_cap_count ?pa) (pr_caps ?pa) @ drop (pr_cap_count ?pa) (pr_caps r), pr_cap_count := pr_cap_count ?pa\<rparr>"
  let ?k3 = "pupd child ?f ?k2"
  let ?k4 = "pupd child (\<lambda>r. r\<lparr>pr_context := (pr_context r)\<lparr>cx_rsp := pr_kernel_stack_top r\<rparr>, pr_state := PROC_READY\<rparr>) ?k3"
  have 1: "table_ok (k_sched ?k1)" "alive (pget (k_sched ?k1) child)"
    by (rule table_ok_pupd [OF t _ _ _ c]; simp add: alive_def proc_typed_def)+
  have 2: "table_ok (k_sched ?k2)" "alive (pget (k_sched ?k2) child)" using 1 by simp_all
  have pa: "proc_typed ?pa" using 2(1) p unfolding table_ok_def by blast
  have 3: "table_ok (k_sched ?k3)" "alive (pget (k_sched ?k3) child)"
    by (rule table_ok_pupd [OF 2(1) _ _ _ 2(2) c(2)]; use pa in \<open>simp add: alive_def proc_typed_def\<close>)+
  have 4: "table_ok (k_sched ?k4)"
    by (rule table_ok_pupd(1) [OF 3(1) _ _ _ 3(2) c(2)]) (simp_all add: alive_def proc_typed_def)
  from table_ok_enqueue [OF this] show ?thesis by (simp add: fork_finish_def Let_def)
qed

lemma table_ok_fork:
  assumes ex: "exfs_close ops" and t: "table_ok (k_sched k)" and h: "heap_inv (k_heap k)" and mx: "g_next_pid (k_sched k) \<noteq> -1"
    and cur: "\<forall>p. g_current_proc (k_sched k) = Some p \<longrightarrow> p < MAX_PROCESSES" and f: "sys_fork_impl ops entry c fr k = Some (x, k')"
  shows "table_ok (k_sched k')"
proof (cases "g_current_proc (k_sched k)")
  case None
  then show ?thesis using f t by (simp add: sys_fork_impl_def)
next
  case (Some parent)
  have pm: "parent < MAX_PROCESSES" using cur Some by blast
  obtain created k1 where k1: "proc_create (pr_intent (pget (k_sched k) parent)) (pr_pid (pget (k_sched k) parent)) k = Some (created, k1)"
    using f Some by (cases "proc_create (pr_intent (pget (k_sched k) parent)) (pr_pid (pget (k_sched k) parent)) k") (auto simp: sys_fork_impl_def)
  note t1 = table_ok_create [OF t h mx k1]
  show ?thesis
  proof (cases created)
    case None
    then show ?thesis using f Some k1 t1(1) by (simp add: sys_fork_impl_def)
  next
    case c: (Some child)
    let ?g = "\<lambda>r. r\<lparr>pr_fork_frame := fork_regs c fr (pr_fork_frame r), pr_context := (pr_context r)\<lparr>cx_rip := entry\<rparr>\<rparr>"
    let ?k2 = "pupd child ?g k1"
    let ?pp = "read_cr3 (k_vm ?k2) AND VMM_ADDR_MASK" and ?kp = "vmm_get_kernel_pml4 (k_vm ?k2)"
    let ?k3 = "set_cr3 ?kp ?k2"
    note al = t1(2) [OF c, THEN conjunct1] and cm = t1(2) [OF c, THEN conjunct2]
    have 2: "table_ok (k_sched ?k2)" "alive (pget (k_sched ?k2) child)"
      by (rule table_ok_pupd [OF t1(1) _ _ _ al cm]; simp add: alive_def proc_typed_def fork_regs_def)+
    have 3: "table_ok (k_sched (?k3\<lparr>k_vm := vm\<rparr>))" "alive (pget (k_sched (?k3\<lparr>k_vm := vm\<rparr>)) child)" for vm using 2 by simp_all
    have 4: "table_ok (k_sched (pupd child (\<lambda>r. r\<lparr>pr_cr3 := 0\<rparr>) (?k3\<lparr>k_vm := vm\<rparr>)))" for vm
      by (rule table_ok_pupd(1) [OF 3(1) _ _ _ 3(2) cm]) (simp_all add: alive_def proc_typed_def)
    obtain cp vm where a: "pmm_alloc_vm ZONE_GREEN (k_vm ?k3) = Some (cp, vm)"
      using f Some k1 c by (auto simp: sys_fork_impl_def bind_eq_Some_conv)
    let ?k4 = "?k3\<lparr>k_vm := vm\<rparr>"
    let ?m = "vm\<lparr>vm_mem := copy_entries 512 cp ?kp (vm_mem vm)\<rparr>"
    have e: "sys_fork_impl ops entry c fr k = (if cp = 0 then fork_fail ops child ?pp ?k4
       else Option.bind (for_each (copy_p4 ?kp ?pp cp) [0..<256] ?m)
         (\<lambda>(ok, vm). if ok then Some (fork_finish parent child cp ?pp (?k4\<lparr>k_vm := vm\<rparr>))
            else fork_fail ops child ?pp (pupd child (\<lambda>r. r\<lparr>pr_cr3 := 0\<rparr>) (?k4\<lparr>k_vm := free_user_address_space cp vm\<rparr>))))"
      unfolding sys_fork_impl_def Some k1 c option.case bind.simps prod.case a by (simp cong: if_cong)
    show ?thesis
    proof (cases "cp = 0")
      case True
      then show ?thesis using f table_ok_fork_fail [OF ex 3(1)] unfolding e by simp
    next
      case False
      then obtain ok vm' where b: "for_each (copy_p4 ?kp ?pp cp) [0..<256] ?m = Some (ok, vm')"
        using f unfolding e if_not_P [OF False] by (cases "for_each (copy_p4 ?kp ?pp cp) [0..<256] ?m") auto
      have 5: "?k4\<lparr>k_vm := v\<rparr> = ?k3\<lparr>k_vm := v\<rparr>" for v by simp
      show ?thesis
      proof (cases ok)
        case True
        then have "k' = snd (fork_finish parent child cp ?pp (?k3\<lparr>k_vm := vm'\<rparr>))"
          using f unfolding e b if_not_P [OF False] 5 by simp
        then show ?thesis using table_ok_fork_finish [OF 3 cm pm] by blast
      next
        case ok: False
        have "fork_fail ops child ?pp (pupd child (\<lambda>r. r\<lparr>pr_cr3 := 0\<rparr>) (?k3\<lparr>k_vm := free_user_address_space cp vm'\<rparr>)) = Some (x, k')"
          using f unfolding e b if_not_P [OF False] 5 using ok by simp
        then show ?thesis by (rule table_ok_fork_fail [OF ex 4])
      qed
    qed
  qed
qed

lemma table_ok_wait_block:
  assumes "table_ok (k_sched k)" and "\<forall>p. g_current_proc (k_sched k) = Some p \<longrightarrow> p < MAX_PROCESSES \<and> alive (pget (k_sched k) p)"
  shows "table_ok (k_sched (snd (waitpid_block pid child k)))"
proof (cases "g_current_proc (k_sched k)")
  case (Some self)
  have "table_ok (k_sched (pupd self (\<lambda>r. r\<lparr>pr_blocked_on_pid := pid, pr_state := PROC_BLOCKED\<rparr>) k))"
    using assms Some by (intro table_ok_pupd(1)) (simp_all add: alive_def proc_typed_def)
  then show ?thesis using Some assms(1) by (simp add: waitpid_block_def)
qed (use assms(1) in \<open>simp add: waitpid_block_def\<close>)

lemma table_ok_bury:
  assumes t: "table_ok s" and p: "p < MAX_PROCESSES"
  shows "table_ok (pset p (\<lambda>r. r\<lparr>pr_cr3 := c, pr_state := PROC_UNUSED, pr_pid := 0\<rparr>) s)" "table_ok (pset p (\<lambda>r. r\<lparr>pr_state := PROC_UNUSED, pr_pid := 0\<rparr>) s)"
proof -
  have b: "table_ok (pset p f s)" if "\<And>r. \<not> alive (f r)" "\<And>r. proc_typed (f r) = proc_typed r" for f
  proof -
    have l: "p < length (g_proc_table s)" using t p by (simp add: table_ok_def)
    have g: "pget (pset p f s) i = (if i = p then f (pget s p) else pget s i)" for i using l by (simp add: pget_pset)
    have n: "g_next_pid (pset p f s) = g_next_pid s" "length (g_proc_table (pset p f s)) = length (g_proc_table s)" by (simp_all add: pset_def)
    show ?thesis using t that unfolding table_ok_def n g by (simp split: if_splits)
  qed
  show "table_ok (pset p (\<lambda>r. r\<lparr>pr_cr3 := c, pr_state := PROC_UNUSED, pr_pid := 0\<rparr>) s)" "table_ok (pset p (\<lambda>r. r\<lparr>pr_state := PROC_UNUSED, pr_pid := 0\<rparr>) s)"
    by (rule b; simp add: alive_def proc_typed_def)+
qed

lemma reap_sched:
  assumes "proc_get (k_sched k) pid = Some child"
  shows "k_sched (snd (waitpid_reap pid k)) = pset child (\<lambda>r. r\<lparr>pr_cr3 := 0, pr_state := PROC_UNUSED, pr_pid := 0\<rparr>) (k_sched k)
    \<or> k_sched (snd (waitpid_reap pid k)) = pset child (\<lambda>r. r\<lparr>pr_state := PROC_UNUSED, pr_pid := 0\<rparr>) (k_sched k)"
  by (simp add: waitpid_reap_def assms Let_def pupd_def pset_pset)

lemma table_ok_reap:
  assumes "table_ok (k_sched k)"
  shows "table_ok (k_sched (snd (waitpid_reap pid k)))"
proof (cases "proc_get (k_sched k) pid")
  case (Some child)
  have "child < MAX_PROCESSES" using proc_getD(1) [OF Some] assms by (simp add: table_ok_def)
  note b = table_ok_bury [OF assms this]
  show ?thesis using reap_sched [OF Some] b by auto
qed (use assms in \<open>simp add: waitpid_reap_def\<close>)

subsection \<open>Reachable process tables\<close>

text \<open>
  The states that the operations on processes lead to from \<^verbatim>\<open>proc_init\<close>, in any order.  Creating a process needs a heap in order and
  a pid counter that has not reached its largest value.  What the rest of the kernel does in between may change everything but the
  pids, which slots are used, and the sizes of the arrays.
\<close>

definition current_ok :: "sched \<Rightarrow> bool" where
  "current_ok s \<longleftrightarrow> (\<forall>p. g_current_proc s = Some p \<longrightarrow> p < MAX_PROCESSES \<and> alive (pget s p))"

definition can_create :: "'a pkernel_scheme \<Rightarrow> bool" where
  "can_create k \<longleftrightarrow> heap_inv (k_heap k) \<and> g_next_pid (k_sched k) \<noteq> -1"

definition same_table :: "sched \<Rightarrow> sched \<Rightarrow> bool" where
  "same_table s s' \<longleftrightarrow> length (g_proc_table s') = length (g_proc_table s) \<and> g_next_pid s' = g_next_pid s
     \<and> (\<forall>i < MAX_PROCESSES. pr_pid (pget s' i) = pr_pid (pget s i) \<and> alive (pget s' i) = alive (pget s i)
          \<and> (proc_typed (pget s i) \<longrightarrow> proc_typed (pget s' i)))"

inductive proc_reach :: "(u64 \<Rightarrow> 'a pkernel_scheme vfs_ops) \<Rightarrow> 'a pkernel_scheme \<Rightarrow> bool" for ops where
  boot: "proc_reach ops (proc_init k)"
| create: "proc_reach ops k \<Longrightarrow> can_create k \<Longrightarrow> proc_create intent parent_pid k = Some (x, k') \<Longrightarrow> proc_reach ops k'"
| ending: "proc_reach ops k \<Longrightarrow> proc_exit ops pid code k = Some k' \<Longrightarrow> proc_reach ops k'"
| add_cap: "proc_reach ops k \<Longrightarrow> proc_reach ops (snd (proc_add_cap pid token owner delegatable k))"
| fork: "proc_reach ops k \<Longrightarrow> can_create k \<Longrightarrow> current_ok (k_sched k) \<Longrightarrow> sys_fork_impl ops entry c f k = Some (n, k') \<Longrightarrow> proc_reach ops k'"
| block: "proc_reach ops k \<Longrightarrow> current_ok (k_sched k) \<Longrightarrow> proc_reach ops (snd (waitpid_block pid child k))"
| reap: "proc_reach ops k \<Longrightarrow> proc_reach ops (snd (waitpid_reap pid k))"
| other: "proc_reach ops k \<Longrightarrow> same_table (k_sched k) (k_sched k') \<Longrightarrow> proc_reach ops k'"

lemma proc_reach_table:
  assumes "proc_reach ops k" and ex: "exfs_close ops"
  shows "table_ok (k_sched k)"
  using assms(1)
proof induction
  case (boot k)
  show ?case by (rule table_ok_init)
next
  case (create k intent parent_pid x k')
  then show ?case using table_ok_create(1) by (auto simp: can_create_def)
next
  case (ending k pid code k')
  then show ?case using table_ok_exit [OF ex] by blast
next
  case (add_cap k pid token owner delegatable)
  then show ?case using table_ok_add_cap by blast
next
  case (fork k entry c f n k')
  then show ?case using table_ok_fork [OF ex] by (auto simp: can_create_def current_ok_def)
next
  case (block k pid child)
  then show ?case using table_ok_wait_block by (auto simp: current_ok_def)
next
  case (reap k pid)
  then show ?case using table_ok_reap by blast
next
  case (other k k')
  show ?case by (rule table_ok_cong [OF _ _ _ _ other.IH]) (use other.hyps in \<open>simp_all add: same_table_def\<close>)
qed

lemma proc_get_unique:
  assumes t: "table_ok s" and i: "i < MAX_PROCESSES" and a: "alive (pget s i)"
  shows "proc_get s (pr_pid (pget s i)) = Some i"
proof -
  have l: "length (g_proc_table s) = MAX_PROCESSES" using t by (simp add: table_ok_def)
  have uq: "j = i" if "j < MAX_PROCESSES" "alive (pget s j)" "pr_pid (pget s j) = pr_pid (pget s i)" for j
    using t that i a by (simp add: table_ok_def)
  have "first_idx (\<lambda>q. pr_pid q = pr_pid (pget s i) \<and> pr_state q \<noteq> PROC_UNUSED) (g_proc_table s) = Some i"
  proof (rule first_idx_SomeI)
    show "i < length (g_proc_table s)" using i l by simp
    show "pr_pid (g_proc_table s ! i) = pr_pid (pget s i) \<and> pr_state (g_proc_table s ! i) \<noteq> PROC_UNUSED"
      using a by (simp add: pget_def alive_def)
    fix j
    assume "j < i"
    then show "\<not> (pr_pid (g_proc_table s ! j) = pr_pid (pget s i) \<and> pr_state (g_proc_table s ! j) \<noteq> PROC_UNUSED)"
      using uq [of j] i by (auto simp: pget_def alive_def)
  qed
  then show ?thesis by (simp add: proc_get_def)
qed

lemma table_slot:
  assumes "table_ok s" and "r \<in> set (g_proc_table s)"
  shows "\<exists>i < MAX_PROCESSES. r = pget s i"
proof -
  have "length (g_proc_table s) = MAX_PROCESSES" using assms(1) by (simp add: table_ok_def)
  then show ?thesis using assms(2) by (metis in_set_conv_nth pget_def)
qed

lemma proc_get_next:
  assumes t: "table_ok s"
  shows "proc_get s (g_next_pid s) = None"
proof -
  have "\<not> (pr_pid r = g_next_pid s \<and> pr_state r \<noteq> PROC_UNUSED)" if "r \<in> set (g_proc_table s)" for r
  proof -
    from table_slot [OF t that] obtain i where "i < MAX_PROCESSES" "r = pget s i" by blast
    then show ?thesis using t by (auto simp: table_ok_def alive_def)
  qed
  then show ?thesis by (auto simp: proc_get_def first_idx_None)
qed

text \<open>
  C35: While the 32-bit counter of pids has not wrapped, the process table stays well typed, whatever sequence of creations, exits, forks,
  waits and grants of capabilities has run since \<^verbatim>\<open>proc_init\<close>: it has its 256 slots, every slot has arrays of the declared sizes and counts at most 64 capabilities, no used slot has
  pid 0, \<^verbatim>\<open>proc_get\<close> on the pid of a used slot finds this very slot, and the next pid is not in use.
\<close>

theorem proc_table_typed:
  assumes "proc_reach ops k" and "exfs_close ops"
  shows "length (g_proc_table (k_sched k)) = MAX_PROCESSES
    \<and> (\<forall>r \<in> set (g_proc_table (k_sched k)). length (pr_caps r) = MAX_CAPS_PER_PROC \<and> pr_cap_count r \<le> MAX_CAPS_PER_PROC
         \<and> length (pr_sig_handlers r) = 16 \<and> length (pr_sig_saved_frame r) = 22 \<and> length (pr_fork_frame r) = 22
         \<and> (pr_state r \<noteq> PROC_UNUSED \<longrightarrow> pr_pid r \<noteq> 0))
    \<and> (\<forall>i < MAX_PROCESSES. pr_state (pget (k_sched k) i) \<noteq> PROC_UNUSED \<longrightarrow> proc_get (k_sched k) (pr_pid (pget (k_sched k) i)) = Some i)
    \<and> proc_get (k_sched k) (g_next_pid (k_sched k)) = None"
proof -
  have t: "table_ok (k_sched k)" by (rule proc_reach_table [OF assms])
  then have l: "length (g_proc_table (k_sched k)) = MAX_PROCESSES" by (simp add: table_ok_def)
  have "proc_typed r \<and> (alive r \<longrightarrow> pr_pid r \<noteq> 0)" if "r \<in> set (g_proc_table (k_sched k))" for r
  proof -
    from table_slot [OF t that] obtain i where "i < MAX_PROCESSES" "r = pget (k_sched k) i" by blast
    then show ?thesis using t by (auto simp: table_ok_def)
  qed
  then show ?thesis using l proc_get_unique [OF t] proc_get_next [OF t] by (simp add: proc_typed_def alive_def)
qed

subsection \<open>A fork without a page for the top-level table\<close>

lemma proc_get_pupd:
  assumes "\<And>r. pr_pid (f r) = pr_pid r" and "\<And>r. pr_state (f r) = pr_state r"
  shows "proc_get (k_sched (pupd p f k)) pid = proc_get (k_sched k) pid"
proof -
  have m: "map (\<lambda>r. (pr_pid r, pr_state r)) ((g_proc_table (k_sched k))[p := f (g_proc_table (k_sched k) ! p)]) = map (\<lambda>r. (pr_pid r, pr_state r)) (g_proc_table (k_sched k))"
    by (cases "p < length (g_proc_table (k_sched k))") (simp_all add: map_update assms list_update_same_conv list_update_beyond)
  from arg_cong [OF m, of "first_idx (\<lambda>(a, b). a = pid \<and> b \<noteq> PROC_UNUSED)"] show ?thesis
    unfolding first_idx_map by (simp add: proc_get_def pupd_def pset_def)
qed

text \<open>The child with its first registers.\<close>

definition forked :: "cpu_context \<Rightarrow> syscall_frame \<Rightarrow> u64 \<Rightarrow> process \<Rightarrow> process" where
  "forked c f entry r = r\<lparr>pr_fork_frame := fork_regs c f (pr_fork_frame r), pr_context := (pr_context r)\<lparr>cx_rip := entry\<rparr>\<rparr>"

lemma fork_fails_early:
  assumes cur: "g_current_proc (k_sched k) = Some parent"
    and cr: "proc_create (pr_intent (pget (k_sched k) parent)) (pr_pid (pget (k_sched k) parent)) k = Some (Some child, k1)"
    and al: "pmm_alloc (vm_pmm (k_vm k1)) ZONE_GREEN = Some (0, pm)"
  shows "sys_fork_impl ops entry c f k =
     map_option (Pair (-1)) (proc_exit ops (pr_pid (pget (k_sched (pupd child (forked c f entry) k1)) child)) (-1)
       ((pupd child (forked c f entry) k1)\<lparr>k_vm := write_cr3 ((k_vm k1)\<lparr>vm_pmm := pm\<rparr>) (read_cr3 (k_vm k1) AND VMM_ADDR_MASK)\<rparr>))"
proof -
  have a: "pmm_alloc_vm ZONE_GREEN (k_vm (set_cr3 v (pupd child (forked c f entry) k1))) = Some (0, (write_cr3 (k_vm k1) v)\<lparr>vm_pmm := pm\<rparr>)" for v
    using al by (simp add: pmm_alloc_vm_def set_cr3_def pupd_def write_cr3_def)
  have m: "(if (0::u64) = 0 then x else y) = x" for x y :: "(int \<times> 'a pkernel_scheme) option" by simp
  have v: "k_vm (pupd child (forked c f entry) k1) = k_vm k1" by (simp add: pupd_def)
  have s: "set_cr3 w ((set_cr3 u q)\<lparr>k_vm := (write_cr3 vm u)\<lparr>vm_pmm := pm\<rparr>\<rparr>) = q\<lparr>k_vm := write_cr3 (vm\<lparr>vm_pmm := pm\<rparr>) w\<rparr>" for w u q vm
    by (simp add: set_cr3_def write_cr3_def)
  have b: "Option.bind x (\<lambda>k. Some (-1, k)) = map_option (Pair (-1)) x" for x :: "'a pkernel_scheme option" by (cases x) simp_all
  show ?thesis
    unfolding sys_fork_impl_def cur cr option.case bind.simps prod.case forked_def [symmetric] a m fork_fail_def v s b by simp
qed

lemma fork_oom_zombie:
  assumes "exfs_close ops" and "fds_ok k" and "table_ok (k_sched k)" and "g_next_pid (k_sched k) \<noteq> -1"
    and "g_current_proc (k_sched k) = Some parent" and "parent < MAX_PROCESSES" and "alive (pget (k_sched k) parent)"
    and "pr_cr3 (pget (k_sched k) parent) = t" and "vm_cr3 (k_vm k) = t" and "t AND VMM_ADDR_MASK = t" and "t \<noteq> 0"
    and "proc_create (pr_intent (pget (k_sched k) parent)) (pr_pid (pget (k_sched k) parent)) k = Some (Some child, k1)"
    and "pmm_alloc (vm_pmm (k_vm k)) ZONE_GREEN = Some (0, pm)"
  shows "\<exists>k2. sys_fork_impl ops entry c f k = Some (-1, k2) \<and> proc_get (k_sched k2) (g_next_pid (k_sched k)) = Some child
    \<and> g_current_proc (k_sched k2) = Some parent \<and> pr_cr3 (pget (k_sched k2) parent) = t \<and> child \<noteq> parent \<and> child < length (g_proc_table (k_sched k2))
    \<and> (let z = pget (k_sched k2) child in pr_state z = PROC_ZOMBIE \<and> pr_exit_code z = -1 \<and> pr_cr3 z = t)
    \<and> k_vm k2 = (k_vm k)\<lparr>vm_pmm := pm\<rparr>"
proof -
  let ?pid = "g_next_pid (k_sched k)" and ?g = "forked c f entry"
  let ?intent = "pr_intent (pget (k_sched k) parent)" and ?ppid = "pr_pid (pget (k_sched k) parent)"
  have inv: "heap_inv (k_heap k)" using assms(2) by (simp add: fds_ok_def)
  have fi: "first_idx (\<lambda>r. pr_state r = PROC_UNUSED) (g_proc_table (k_sched k)) = Some child"
    using assms(12) by (auto simp: proc_create_def bind_eq_Some_conv split: option.splits if_splits)
  note ch = first_free [OF assms(3) fi]
  have len: "length (g_proc_table (k_sched k)) = MAX_PROCESSES" and pid0: "0 < ?pid" using assms(3) by (simp_all add: table_ok_def)
  have pidn: "?pid \<noteq> 0" using pid0 by auto
  have cp: "child \<noteq> parent" using ch(2) assms(7) by auto
  obtain r ar H' ib au where k1: "k1 = k\<lparr>k_sched := pset child (\<lambda>_. r) ((k_sched k)\<lparr>g_next_pid := ?pid + 1, fpu_areas := ar\<rparr>),
          k_heap := H', k_inbox := ib, k_audit := au\<rparr>" and nb: "newborn ?intent ?ppid ?pid r" and o: "owns (k_heap k) H' r" and r3: "pr_cr3 r = t"
    using proc_create_ok [OF inv fi, of ?intent ?ppid] assms(12) unfolding assms(9) [symmetric] read_cr3_def by auto
  define q where "q = (pupd child ?g k1)\<lparr>k_vm := write_cr3 ((k_vm k1)\<lparr>vm_pmm := pm\<rparr>) (read_cr3 (k_vm k1) AND VMM_ADDR_MASK)\<rparr>"
  have vm1: "k_vm k1 = k_vm k" unfolding k1 by simp
  have r: "pget (k_sched k1) child = r" using ch(1) len by (simp add: k1 pget_pset)
  have t1: "table_ok (k_sched k1)" by (rule table_ok_create(1) [OF assms(3) inv assms(4,12)])
  have len1: "length (g_proc_table (k_sched k1)) = MAX_PROCESSES" using t1 by (simp add: table_ok_def)
  have qs: "k_sched q = pset child ?g (k_sched k1)" by (simp add: q_def pupd_def)
  have qc: "pget (k_sched q) child = ?g r" unfolding qs using ch(1) len1 r by (simp add: pget_pset)
  have pp: "pr_pid (pget (k_sched (pupd child ?g k1)) child) = ?pid" using qc nb by (simp add: q_def newborn_def forked_def)
  have get1: "proc_get (k_sched k1) ?pid = Some child"
    using proc_get_unique [OF t1 ch(1)] r nb by (simp add: newborn_def alive_def)
  have get: "proc_get (k_sched q) ?pid = Some child"
    using proc_get_pupd [of ?g child k1 ?pid] get1 by (simp add: q_def forked_def)
  have "proc_owns_ok q (?g r)"
    using owns_ok [of k q "?g r"] o assms(2) by (simp add: q_def pupd_def k1 owns_def forked_def proc_blocks_def)
  then have ow: "proc_owns_ok q (pget (k_sched q) child)" unfolding qc .
  define s' where "s' = fold (wake_waiter ?pid) [0..<MAX_PROCESSES] (pset child (buried (-1)) (k_sched q))"
  obtain H2 fds2 where e: "proc_exit ops ?pid (-1) q = Some (q\<lparr>k_sched := s', k_heap := H2, g_fds := fds2,
        k_audit := audit_record AUDIT_PROC_EXIT ?pid (of_int (-1)) 0 (k_audit q)\<rparr>)"
    using exit_frees [OF assms(1) get pidn ow, of "-1"] unfolding s'_def by blast
  define k2 where "k2 = q\<lparr>k_sched := s', k_heap := H2, g_fds := fds2, k_audit := audit_record AUDIT_PROC_EXIT ?pid (of_int (-1)) 0 (k_audit q)\<rparr>"
  have F: "sys_fork_impl ops entry c f k = Some (-1, k2)"
    unfolding fork_fails_early [OF assms(5,12) assms(13) [folded vm1]] pp q_def [symmetric] e k2_def by simp
  have ls: "length (g_proc_table (pset child (buried (-1)) (k_sched q))) = MAX_PROCESSES" using len1 by (simp add: qs)
  have gs: "pget (pset child (buried (-1)) (k_sched q)) i = (if i = child then buried (-1) (?g r) else pget (k_sched k) i)" for i
    using ch(1) len1 len by (simp add: pget_pset qs r k1) (simp add: pget_def)
  have w: "unlink (pget s' i) = woken ?pid (unlink (if i = child then buried (-1) (?g r) else pget (k_sched k) i))" if "i < MAX_PROCESSES" for i
    using wake_waiters_procs [OF ls, of "[0..<MAX_PROCESSES]" ?pid i] that unfolding s'_def gs by simp
  note z = unlink_woken_fields [OF w [OF ch(1)], unfolded if_P [OF refl]]
  have pa: "pr_cr3 (pget s' parent) = t" using unlink_woken_fields(6) [OF w [OF assms(6)]] cp assms(8) by simp
  have cu: "g_current_proc s' = Some parent"
    using wake_waiters_procs [OF ls, of "[0..<MAX_PROCESSES]" ?pid 0] assms(5) unfolding s'_def by (simp add: qs k1 pset_def)
  have t2: "table_ok (k_sched k2)" by (rule table_ok_fork [OF assms(1,3) inv assms(4) _ F]) (use assms(5,6) in simp)
  have z': "pr_state (pget s' child) = PROC_ZOMBIE" "pr_exit_code (pget s' child) = -1" "pr_cr3 (pget s' child) = t" "pr_pid (pget s' child) = ?pid"
    using z r3 nb by (simp_all add: buried_def forked_def newborn_def)
  have k2s: "k_sched k2 = s'" by (simp add: k2_def)
  have g2: "proc_get (k_sched k2) ?pid = Some child"
    using proc_get_unique [OF t2 ch(1)] z' unfolding k2s by (simp add: alive_def)
  have v2: "k_vm k2 = (k_vm k)\<lparr>vm_pmm := pm\<rparr>" using assms(9,10) by (simp add: k2_def q_def vm1 write_cr3_def read_cr3_def)
  have l2: "child < length (g_proc_table (k_sched k2))" using t2 ch(1) by (simp add: table_ok_def)
  show ?thesis
    by (rule exI [of _ k2], intro conjI, rule F, rule g2) (use z' pa cu cp l2 v2 in \<open>simp_all add: k2s Let_def\<close>)
qed

text \<open>
  C37: When no page is left for the child's top-level table, \<^verbatim>\<open>fork\<close> fails but leaves the child as a zombie that still has the page tables
  of the parent, and waiting for it takes the parent's memory away.  \<^verbatim>\<open>fork\<close> returns -1; \<^verbatim>\<open>waitpid\<close> on the child returns at once with
  its exit code -1; and in between it has released the address space at \<^verbatim>\<open>cr3\<close>, which the parent still runs on.
\<close>

theorem fork_oom_frees_parent:
  assumes "exfs_close ops" and "fds_ok k" and "table_ok (k_sched k)" and "g_next_pid (k_sched k) \<noteq> -1"
    and "g_current_proc (k_sched k) = Some parent" and "parent < MAX_PROCESSES" and "alive (pget (k_sched k) parent)"
    and "pr_cr3 (pget (k_sched k) parent) = t" and "vm_cr3 (k_vm k) = t" and "t AND VMM_ADDR_MASK = t" and "t \<noteq> 0"
    and "proc_create (pr_intent (pget (k_sched k) parent)) (pr_pid (pget (k_sched k) parent)) k = Some (Some child, k1)"
    and "pmm_alloc (vm_pmm (k_vm k)) ZONE_GREEN = Some (0, pm)"
  shows "\<exists>k2 k3. sys_fork_impl ops entry c f k = Some (-1, k2)
    \<and> sys_waitpid_impl yield (g_next_pid (k_sched k)) k2 = Some (-1, k3)
    \<and> k_vm k3 = write_cr3 (free_user_address_space t (write_cr3 ((k_vm k)\<lparr>vm_pmm := pm\<rparr>) (kernel_pml4 (k_vm k)))) t
    \<and> g_current_proc (k_sched k3) = Some parent \<and> pr_cr3 (pget (k_sched k3) parent) = t \<and> read_cr3 (k_vm k3) = t"
proof -
  let ?pid = "g_next_pid (k_sched k)"
  obtain k2 where F: "sys_fork_impl ops entry c f k = Some (-1, k2)" and g: "proc_get (k_sched k2) ?pid = Some child"
    and cu: "g_current_proc (k_sched k2) = Some parent" "pr_cr3 (pget (k_sched k2) parent) = t" "child \<noteq> parent" "child < length (g_proc_table (k_sched k2))"
    and z: "pr_state (pget (k_sched k2) child) = PROC_ZOMBIE" "pr_exit_code (pget (k_sched k2) child) = -1" "pr_cr3 (pget (k_sched k2) child) = t"
    and v: "k_vm k2 = (k_vm k)\<lparr>vm_pmm := pm\<rparr>"
    using fork_oom_zombie [OF assms, of entry c f] unfolding Let_def by blast
  define k3 where "k3 = snd (waitpid_reap ?pid k2)"
  have r: "waitpid_reap ?pid k2 = (-1, pupd child (\<lambda>r. r\<lparr>pr_state := PROC_UNUSED, pr_pid := 0\<rparr>) (pupd child (\<lambda>r. r\<lparr>pr_cr3 := 0\<rparr>)
      (k2\<lparr>k_vm := write_cr3 (free_user_address_space t (write_cr3 (k_vm k2) (kernel_pml4 (k_vm k2)))) t\<rparr>)))"
    using z cu(1,2) assms(11) by (simp add: waitpid_reap_def g Let_def set_cr3_def vmm_get_kernel_pml4_def)
  have w: "sys_waitpid_impl yield ?pid k2 = Some (-1, k3)"
    using z(1) cu(1) by (simp add: sys_waitpid_impl_def g waitpid_block_def r k3_def)
  have s3: "k_sched k3 = pset child (\<lambda>r. r\<lparr>pr_cr3 := 0, pr_state := PROC_UNUSED, pr_pid := 0\<rparr>) (k_sched k2)"
    by (simp add: k3_def r pupd_def pset_pset)
  have "k_vm k3 = write_cr3 (free_user_address_space t (write_cr3 ((k_vm k)\<lparr>vm_pmm := pm\<rparr>) (kernel_pml4 (k_vm k)))) t"
    by (simp add: k3_def r pupd_def v)
  moreover have "g_current_proc (k_sched k3) = Some parent" unfolding s3 using cu(1) by (simp add: pset_def)
  moreover have "pr_cr3 (pget (k_sched k3) parent) = t" unfolding s3 using cu(2-4) by (simp add: pget_pset)
  ultimately show ?thesis using F w by (simp add: read_cr3_def write_cr3_def)
qed

theorem proc_table_typed_witness:
  "\<exists>k1. proc_create 0 0 (proc_init init_kernel) = Some (Some 0, k1) \<and> proc_get (k_sched k1) 1 = Some 0 \<and> proc_get (k_sched k1) 2 = None"
proof -
  let ?k = "proc_init init_kernel"
  have h: "k_heap ?k = k_heap init_kernel" and n: "g_next_pid (k_sched ?k) = 1" by (simp_all add: proc_init_def)
  have f: "first_idx (\<lambda>r. pr_state r = PROC_UNUSED) (g_proc_table (k_sched ?k)) = Some 0"
    by (rule first_idx_SomeI) (simp_all add: proc_init_def zero_process_fields MAX_PROCESSES_def)
  obtain H where "kmalloc (k_heap ?k) KERNEL_STACK_SIZE = Some (0x100020, H)" using init_stack unfolding h by blast
  then obtain k1 where c: "proc_create 0 0 ?k = Some (Some 0, k1)"
    using create_succeeds [OF init_heap_inv [folded h] f, of "0x100020" H 0 0] by auto
  have "can_create ?k" using init_heap_inv h n by (simp add: can_create_def)
  then have r: "proc_reach demo_ops k1" using proc_reach.create [OF proc_reach.boot _ c] by blast
  obtain r ar where k1: "k_sched k1 = pset 0 (\<lambda>_. r) ((k_sched ?k)\<lparr>g_next_pid := 1 + 1, fpu_areas := ar\<rparr>)" "newborn 0 0 1 r"
    using proc_create_ok [OF init_heap_inv [folded h] f, of 0 0] c n by auto
  have "length (g_proc_table (k_sched ?k)) = MAX_PROCESSES" by (simp add: proc_init_def)
  then have p: "pget (k_sched k1) 0 = r" "g_next_pid (k_sched k1) = 2" unfolding k1(1) by (simp_all add: pget_pset MAX_PROCESSES_def)
  have "(0::nat) < MAX_PROCESSES" by (simp add: MAX_PROCESSES_def)
  then show ?thesis using proc_table_typed [OF r demo_ops_close] c p k1(2) by (auto simp: newborn_def)
qed

definition zero_frame :: syscall_frame where
  "zero_frame = \<lparr>sf_r9 = 0, sf_r8 = 0, sf_r10 = 0, sf_rdx = 0, sf_rsi = 0, sf_rdi = 0, sf_rax = 0, sf_r11 = 0x202, sf_rcx = 0x401000, sf_user_rsp = 0x7000\<rparr>"

theorem fork_oom_frees_parent_witness:
  "\<exists>k2 k3. sys_fork_impl demo_ops 0x5000 blank_context zero_frame init_kernel = Some (-1, k2)
     \<and> sys_waitpid_impl Some 3 k2 = Some (-1, k3)
     \<and> k_vm k3 = write_cr3 (free_user_address_space 0x1000 (write_cr3 (k_vm init_kernel) 0x2000)) 0x1000
     \<and> pr_cr3 (pget (k_sched k3) 0) = 0x1000 \<and> read_cr3 (k_vm k3) = 0x1000"
proof -
  have v: "vm_cr3 (k_vm init_kernel) = 0x1000" "kernel_pml4 (k_vm init_kernel) = 0x2000" "(k_vm init_kernel)\<lparr>vm_pmm := vm_pmm (k_vm init_kernel)\<rparr> = k_vm init_kernel"
    by (simp_all add: init_kernel_def)
  have a: "pmm_alloc (vm_pmm (k_vm init_kernel)) ZONE_GREEN = Some (0, vm_pmm (k_vm init_kernel))"
    by (simp add: pmm_alloc_def init_kernel_def ZONE_GREEN_def)
  have c: "g_current_proc (k_sched init_kernel) = Some 0" "(0::nat) < MAX_PROCESSES" "alive (pget (k_sched init_kernel) 0)" "pr_cr3 (pget (k_sched init_kernel) 0) = 0x1000"
    "g_next_pid (k_sched init_kernel) \<noteq> -1"
    by (simp_all add: init_fields MAX_PROCESSES_def init_pget alive_def)
  have m: "0x1000 AND VMM_ADDR_MASK = 0x1000" "(0x1000 :: u64) \<noteq> 0" by (simp_all add: VMM_ADDR_MASK_def)
  obtain k1 where p: "proc_create (pr_intent (pget (k_sched init_kernel) 0)) (pr_pid (pget (k_sched init_kernel) 0)) init_kernel = Some (Some 2, k1)"
    using init_create by blast
  from fork_oom_frees_parent [OF demo_ops_close init_fds_ok init_table_ok [folded init_fields(1)] c(5) c(1-4) v(1) m p a, of "0x5000" blank_context zero_frame Some]
  show ?thesis unfolding v init_fields by blast
qed

end
