(* ===== verification/Shm_Facts.thy ===== *)
theory Shm_Facts
  imports Shm Fork_Facts
begin

text \<open>
  Creating a shared region is all or nothing, mapping one changes exactly its own addresses, and the count of mappings does not
  protect the pages.
\<close>

subsection \<open>Pages\<close>

lemma free_pages_eq:
  assumes "n \<le> length (sr_phys_pages (rget k slot))"
  shows "free_pages slot n k = k\<lparr>k_vm := (k_vm k)\<lparr>vm_pmm := fold (\<lambda>p s. pmm_free s p) (take n (sr_phys_pages (rget k slot))) (vm_pmm (k_vm k))\<rparr>\<rparr>"
proof -
  let ?ps = "sr_phys_pages (rget k slot)"
  have f: "fold pmm_free_vm qs vm = vm\<lparr>vm_pmm := fold (\<lambda>p s. pmm_free s p) qs (vm_pmm vm)\<rparr>" for qs vm
    by (induction qs arbitrary: vm) (simp_all add: pmm_free_vm_def)
  have "fold (\<lambda>j. pmm_free_vm (?ps ! j)) [0..<n] vm = fold pmm_free_vm (map (\<lambda>j. ?ps ! j) [0..<n]) vm" for vm
    by (simp add: fold_map comp_def)
  moreover have "map (\<lambda>j. ?ps ! j) [0..<n] = take n ?ps" by (rule nth_equalityI) (use assms in simp_all)
  ultimately show ?thesis by (simp add: free_pages_def f)
qed

lemma pmm_alloc_vm_cases:
  assumes "pmm_inv (vm_pmm vm)"
  obtains (none) "pmm_alloc_vm z vm = Some (0, vm)"
  | (page) p pm where "pmm_alloc_vm z vm = Some (p, vm\<lparr>vm_pmm := pm\<rparr>)" "pmm_inv pm" "p \<noteq> 0" "p AND 0xFFF = 0" "pmm_refs (vm_pmm vm) p = 0"
      "pmm_refs pm = (pmm_refs (vm_pmm vm))(p := 1)"
  using assms by (cases rule: pmm_frames.falloc_cases [where z = z]) (auto simp: pmm_alloc_vm_def)

text \<open>The state with other pages in a slot and another page allocator.\<close>

definition with_pages :: "nat \<Rightarrow> u64 list \<Rightarrow> pmm \<Rightarrow> 'a skernel_scheme \<Rightarrow> 'a skernel_scheme" where
  "with_pages slot ps pm k = rset slot (\<lambda>r. r\<lparr>sr_phys_pages := ps\<rparr>) (k\<lparr>k_vm := (k_vm k)\<lparr>vm_pmm := pm\<rparr>\<rparr>)"

lemma with_pages_simps [simp]:
  "k_vm (with_pages slot ps pm k) = (k_vm k)\<lparr>vm_pmm := pm\<rparr>" "length (g_regions (with_pages slot ps pm k)) = length (g_regions k)"
  "slot < length (g_regions k) \<Longrightarrow> rget (with_pages slot ps pm k) slot = (rget k slot)\<lparr>sr_phys_pages := ps\<rparr>"
  "with_pages slot ps' pm' (with_pages slot ps pm k) = with_pages slot ps' pm' k"
  by (cases "slot < length (g_regions k)"; simp add: with_pages_def rset_def rget_def list_update_beyond not_less)+

lemma with_pages_same: "with_pages slot (sr_phys_pages (rget k slot)) (vm_pmm (k_vm k)) k = k"
  by (simp add: with_pages_def rset_def rget_def)

text \<open>
  \<open>R\<close> are the reference counts before the loop.  The pages allocated so far had none and have one now.
\<close>

definition held :: "(u64 \<Rightarrow> nat) \<Rightarrow> u64 list \<Rightarrow> pmm \<Rightarrow> bool" where
  "held R ps pm \<longleftrightarrow> pmm_inv pm \<and> distinct ps \<and> (\<forall>p \<in> set ps. p \<noteq> 0 \<and> p AND 0xFFF = 0 \<and> R p = 0)
     \<and> pmm_refs pm = (\<lambda>p. if p \<in> set ps then 1 else R p)"

lemma held_free:
  assumes "held R ps pm"
  shows "pmm_inv (fold (\<lambda>p s. pmm_free s p) ps pm)" "pmm_refs (fold (\<lambda>p s. pmm_free s p) ps pm) = R"
  using pmm_frames.ffree_all [of pm ps] assms by (auto simp: held_def fun_eq_iff)

lemma alloc_pages_ok:
  assumes "held R (take i (sr_phys_pages (rget k slot))) (vm_pmm (k_vm k))" and "slot < length (g_regions k)"
    and "i + n \<le> length (sr_phys_pages (rget k slot))"
  shows "\<exists>b ps pm. alloc_pages slot i n k = Some (b, with_pages slot ps pm k) \<and> length ps = length (sr_phys_pages (rget k slot))
    \<and> (if b then held R (take (i + n) ps) pm else pmm_inv pm \<and> pmm_refs pm = R)"
  using assms
proof (induction n arbitrary: i k)
  case 0
  then show ?case by (intro exI [of _ True] exI [of _ "sr_phys_pages (rget k slot)"] exI [of _ "vm_pmm (k_vm k)"]) (simp add: with_pages_same)
next
  case (Suc n)
  let ?ps = "sr_phys_pages (rget k slot)"
  have inv: "pmm_inv (vm_pmm (k_vm k))" using Suc.prems(1) by (simp add: held_def)
  then show ?case
  proof (cases rule: pmm_alloc_vm_cases [where z = ZONE_RED])
    case none
    let ?pm = "fold (\<lambda>p s. pmm_free s p) (take i ?ps) (vm_pmm (k_vm k))"
    have "free_pages slot i k = with_pages slot ?ps ?pm k"
      using Suc.prems(3) by (simp add: free_pages_eq with_pages_def rset_def rget_def)
    then have "alloc_pages slot i (Suc n) k = Some (False, with_pages slot ?ps ?pm k)" by (simp add: none)
    then show ?thesis using held_free [OF Suc.prems(1)] by (intro exI [of _ False] exI [of _ ?ps] exI [of _ ?pm]) simp
  next
    case (page p pm)
    let ?k = "with_pages slot (?ps[i := p]) pm k"
    have k: "rset slot (\<lambda>r. r\<lparr>sr_phys_pages := (sr_phys_pages r)[i := p]\<rparr>) (k\<lparr>k_vm := (k_vm k)\<lparr>vm_pmm := pm\<rparr>\<rparr>) = ?k"
      by (simp add: with_pages_def rset_def rget_def)
    have e: "alloc_pages slot i (Suc n) k = alloc_pages slot (Suc i) n ?k" using page(1,3) by (simp add: k)
    have t: "take (Suc i) (?ps[i := p]) = take i ?ps @ [p]" using Suc.prems(3) by (simp add: take_Suc_conv_app_nth)
    have np: "p \<notin> set (take i ?ps)" and Rp: "R p = 0" using Suc.prems(1) page(5) by (auto simp: held_def split: if_splits)
    have "held R (take i ?ps @ [p]) pm"
      using Suc.prems(1) page np Rp by (auto simp: held_def fun_eq_iff)
    then have h: "held R (take (Suc i) (sr_phys_pages (rget ?k slot))) (vm_pmm (k_vm ?k))" using Suc.prems(2) t by simp
    have l: "slot < length (g_regions ?k)" "Suc i + n \<le> length (sr_phys_pages (rget ?k slot))" "length (sr_phys_pages (rget ?k slot)) = length ?ps"
      using Suc.prems(2,3) by simp_all
    from Suc.IH [OF h l(1,2)] obtain b ps pm' where r: "alloc_pages slot (Suc i) n ?k = Some (b, with_pages slot ps pm' ?k)" "length ps = length ?ps"
      "if b then held R (take (Suc i + n) ps) pm' else pmm_inv pm' \<and> pmm_refs pm' = R" unfolding l(3) by blast
    show ?thesis unfolding e using r by (intro exI conjI) (simp, assumption, simp only: add_Suc add_Suc_right)
  qed
qed

subsection \<open>Creating\<close>

text \<open>The region table has its size, and so has the page list of every region.\<close>

definition regions_ok :: "'a skernel_scheme \<Rightarrow> bool" where
  "regions_ok k \<longleftrightarrow> length (g_regions k) = SHM_MAX_REGIONS \<and> (\<forall>r \<in> set (g_regions k). length (sr_phys_pages r) = 256)
     \<and> pmm_inv (vm_pmm (k_vm k))"

definition region_pages :: "shm_region \<Rightarrow> u64 list" where
  "region_pages r = take (unat (sr_page_count r)) (sr_phys_pages r)"

abbreviation page_refs :: "'a skernel_scheme \<Rightarrow> u64 \<Rightarrow> nat" where
  "page_refs k \<equiv> pmm_refs (vm_pmm (k_vm k))"

text \<open>
  What \<^verbatim>\<open>shm_create\<close> leaves in the slot it fills: a new id, no mapping, and as many pages as asked for, all different, page aligned
  and held by nobody before.
\<close>

definition created :: "u32 \<Rightarrow> nat \<Rightarrow> 'a skernel_scheme \<Rightarrow> nat \<Rightarrow> 'a skernel_scheme \<Rightarrow> bool" where
  "created owner n k slot k' \<longleftrightarrow> slot < SHM_MAX_REGIONS \<and> \<not> sr_valid (rget k slot)
     \<and> (let r = rget k' slot in sr_valid r \<and> sr_id r = g_next_id k \<and> sr_owner_pid r = owner \<and> sr_map_count r = 0
          \<and> unat (sr_size r) = n * 4096 \<and> unat (sr_page_count r) = n \<and> length (region_pages r) = n \<and> distinct (region_pages r)
          \<and> (\<forall>p \<in> set (region_pages r). p \<noteq> 0 \<and> p AND 0xFFF = 0 \<and> page_refs k p = 0)
          \<and> page_refs k' = (\<lambda>p. if p \<in> set (region_pages r) then 1 else page_refs k p))
     \<and> (\<forall>i < SHM_MAX_REGIONS. i \<noteq> slot \<longrightarrow> rget k' i = rget k i)"

lemma page_count_bound:
  fixes pages :: u64
  assumes "\<not> SHM_MAX_PAGES < pages"
  shows "unat pages \<le> 256" "unat (ucast pages :: u32) = unat pages" "unat (pages * SHM_PAGE_SIZE) = unat pages * 4096"
proof -
  show u: "unat pages \<le> 256" using assms by (simp add: SHM_MAX_PAGES_def word_le_nat_alt not_less)
  show "unat (ucast pages :: u32) = unat pages" using u by (simp add: unsigned_ucast_eq take_bit_nat_eq_self)
  show "unat (pages * SHM_PAGE_SIZE) = unat pages * 4096" using u by (simp add: SHM_PAGE_SIZE_def unat_word_ariths)
qed

lemma with_pages_maps:
  "map sr_valid (g_regions (with_pages slot ps pm k)) = map sr_valid (g_regions k)"
  "map sr_id (g_regions (with_pages slot ps pm k)) = map sr_id (g_regions k)"
  "i \<noteq> slot \<Longrightarrow> rget (with_pages slot ps pm k) i = rget k i" "g_next_id (with_pages slot ps pm k) = g_next_id k"
  by (cases "slot < length (g_regions k)"; simp add: with_pages_def rset_def rget_def map_update list_update_beyond list_update_same_conv not_less)+

text \<open>The last lines of \<^verbatim>\<open>shm_create\<close>.\<close>

definition publish :: "u32 \<Rightarrow> u64 \<Rightarrow> nat \<Rightarrow> 'a skernel_scheme \<Rightarrow> 'a skernel_scheme" where
  "publish owner pages slot k = rset slot (\<lambda>r. r\<lparr>sr_id := g_next_id k, sr_owner_pid := owner, sr_size := pages * SHM_PAGE_SIZE,
      sr_page_count := ucast pages, sr_map_count := 0, sr_valid := True\<rparr>) (k\<lparr>g_next_id := g_next_id k + 1\<rparr>)"

lemma publish_created:
  fixes owner :: u32
  assumes ok: "regions_ok k" and sl: "slot < length (g_regions k)" "\<not> sr_valid (rget k slot)" and pg: "\<not> SHM_MAX_PAGES < pages"
    and ps: "length ps = 256" "held (page_refs k) (take (unat pages) ps) pm"
  defines "k' \<equiv> publish owner pages slot (with_pages slot ps pm k)"
  shows "regions_ok k'" "created owner (unat pages) k slot k'"
proof -
  note b = page_count_bound [OF pg]
  let ?w = "with_pages slot ps pm k"
  have r: "rget k' slot = (rget k slot)\<lparr>sr_phys_pages := ps, sr_id := g_next_id k, sr_owner_pid := owner, sr_size := pages * SHM_PAGE_SIZE,
      sr_page_count := ucast pages, sr_map_count := 0, sr_valid := True\<rparr>"
    using sl(1) by (simp add: k'_def publish_def rset_def rget_def with_pages_def)
  have vm: "vm_pmm (k_vm k') = pm" by (simp add: k'_def publish_def rset_def)
  have rp: "region_pages (rget k' slot) = take (unat pages) ps" unfolding r region_pages_def by (simp add: b(2))
  have rest: "rget k' i = rget k i" if "i \<noteq> slot" for i
    using that with_pages_maps(3) [OF that, of ps pm k] by (simp add: k'_def publish_def rset_def rget_def)
  have len: "length (g_regions k') = length (g_regions k)" by (simp add: k'_def publish_def rset_def)
  have h: "pmm_inv pm" using ps(2) by (simp add: held_def)
  have "length (sr_phys_pages (rget k' i)) = 256" if "i < length (g_regions k)" for i
    using r rest [of i] ok ps(1) that by (cases "i = slot") (simp_all add: regions_ok_def rget_def)
  then show "regions_ok k'" using ok len vm h by (auto simp: regions_ok_def rget_def in_set_conv_nth)
  show "created owner (unat pages) k slot k'"
    unfolding created_def Let_def rp vm using sl ok b ps rest by (simp add: r held_def regions_ok_def)
qed

lemma shm_create_cases:
  assumes ok: "regions_ok k"
  shows "\<exists>k'. (shm_create owner sz k = Some (0, k') \<and> pmm_inv (vm_pmm (k_vm k')) \<and> page_refs k' = page_refs k
        \<and> map sr_valid (g_regions k') = map sr_valid (g_regions k) \<and> map sr_id (g_regions k') = map sr_id (g_regions k))
    \<or> (\<exists>slot. shm_create owner sz k = Some (g_next_id k, k') \<and> regions_ok k'
        \<and> created owner (unat ((sz + SHM_PAGE_SIZE - 1) div SHM_PAGE_SIZE)) k slot k')"
proof -
  let ?pages = "(sz + SHM_PAGE_SIZE - 1) div SHM_PAGE_SIZE"
  show ?thesis
  proof (cases "sz = 0 \<or> SHM_MAX_PAGES < ?pages \<or> find_free_slot k = None")
    case True
    then have "shm_create owner sz k = Some (0, k)" by (auto simp: shm_create_def Let_def)
    then show ?thesis using ok by (auto simp: regions_ok_def)
  next
    case False
    then obtain slot where slot: "find_free_slot k = Some slot" by auto
    have sl: "slot < length (g_regions k)" "\<not> sr_valid (rget k slot)"
      using first_idx_SomeD [OF slot [unfolded find_free_slot_def]] by (auto simp: rget_def)
    note b = page_count_bound [of ?pages]
    have len: "length (sr_phys_pages (rget k slot)) = 256" using ok sl(1) by (simp add: regions_ok_def rget_def)
    have "held (page_refs k) (take 0 (sr_phys_pages (rget k slot))) (vm_pmm (k_vm k))" using ok by (simp add: held_def regions_ok_def)
    then have "\<exists>b ps pm. alloc_pages slot 0 (unat ?pages) k = Some (b, with_pages slot ps pm k) \<and> length ps = 256
      \<and> (if b then held (page_refs k) (take (unat ?pages) ps) pm else pmm_inv pm \<and> pmm_refs pm = page_refs k)"
      using alloc_pages_ok [of "page_refs k" 0 k slot "unat ?pages"] sl(1) b(1) False len by (simp only: add_0) simp
    then obtain bb ps pm where a: "alloc_pages slot 0 (unat ?pages) k = Some (bb, with_pages slot ps pm k)" "length ps = 256"
      "if bb then held (page_refs k) (take (unat ?pages) ps) pm else pmm_inv pm \<and> pmm_refs pm = page_refs k"
      by blast
    show ?thesis
    proof (cases bb)
      case True
      have "shm_create owner sz k = Some (g_next_id k, publish owner ?pages slot (with_pages slot ps pm k))"
        using False slot a(1) True by (simp add: shm_create_def Let_def publish_def with_pages_maps)
      moreover have "\<not> SHM_MAX_PAGES < ?pages" "held (page_refs k) (take (unat ?pages) ps) pm" using False True a(3) by simp_all
      note publish_created [OF ok sl this(1) a(2) this(2), of owner]
      ultimately show ?thesis by blast
    next
      case bf: False
      have "shm_create owner sz k = Some (0, with_pages slot ps pm k)" using False slot a(1) bf by (simp add: shm_create_def Let_def)
      then show ?thesis using a(3) bf with_pages_maps(1,2) [of slot ps pm k] by auto
    qed
  qed
qed

lemma shm_get_new:
  assumes "created owner n k slot k'" and "regions_ok k'" and "g_next_id k \<noteq> 0"
    and u: "\<forall>i < SHM_MAX_REGIONS. sr_valid (rget k i) \<longrightarrow> sr_id (rget k i) \<noteq> g_next_id k"
  shows "shm_get (g_next_id k) k' = Some slot"
proof -
  have c: "slot < SHM_MAX_REGIONS" "sr_valid (rget k' slot)" "sr_id (rget k' slot) = g_next_id k" "\<And>i. i < SHM_MAX_REGIONS \<Longrightarrow> i \<noteq> slot \<Longrightarrow> rget k' i = rget k i"
    using assms(1) by (simp_all add: created_def Let_def)
  have "first_idx (\<lambda>r. sr_valid r \<and> sr_id r = g_next_id k) (g_regions k') = Some slot"
  proof (rule first_idx_SomeI)
    show "slot < length (g_regions k')" using c(1) assms(2) by (simp add: regions_ok_def)
    show "sr_valid (g_regions k' ! slot) \<and> sr_id (g_regions k' ! slot) = g_next_id k" using c(2,3) by (simp add: rget_def)
    fix j
    assume "j < slot"
    then show "\<not> (sr_valid (g_regions k' ! j) \<and> sr_id (g_regions k' ! j) = g_next_id k)" using c(1) c(4) [of j] u by (auto simp: rget_def)
  qed
  then show ?thesis using assms(3) by (simp add: shm_get_def)
qed

lemma shm_destroy_new:
  assumes c: "created owner n k slot k'" and ok: "regions_ok k'" and g: "shm_get i k' = Some slot"
  shows "\<exists>k''. shm_destroy i owner k' = (0, k'') \<and> page_refs k'' = page_refs k \<and> \<not> sr_valid (rget k'' slot)"
proof -
  let ?r = "rget k' slot"
  let ?k = "rset slot (\<lambda>r. r\<lparr>sr_valid := False, sr_id := 0\<rparr>) (free_pages slot (unat (sr_page_count ?r)) k')"
  have x: "slot < length (g_regions k')" "length (sr_phys_pages ?r) = 256"
    using c ok by (auto simp: created_def regions_ok_def rget_def)
  have y: "sr_owner_pid ?r = owner" "sr_map_count ?r = 0" "distinct (region_pages ?r)" "\<forall>p \<in> set (region_pages ?r). p \<noteq> 0 \<and> p AND 0xFFF = 0 \<and> page_refs k p = 0"
    "page_refs k' = (\<lambda>p. if p \<in> set (region_pages ?r) then 1 else page_refs k p)" "unat (sr_page_count ?r) = length (region_pages ?r)"
    using c by (simp_all add: created_def Let_def)
  have "held (page_refs k) (region_pages ?r) (vm_pmm (k_vm k'))" using y ok by (simp add: held_def regions_ok_def)
  note h = held_free [OF this]
  have "unat (sr_page_count ?r) \<le> length (sr_phys_pages ?r)" using y(6) by (simp add: region_pages_def)
  then have "page_refs ?k = page_refs k" using h(2) by (simp add: free_pages_eq rset_def region_pages_def)
  moreover have "shm_destroy i owner k' = (0, ?k)" using g y(1,2) by (simp add: shm_destroy_def)
  moreover have "\<not> sr_valid (rget ?k slot)" using x(1) by (simp add: rset_def rget_def free_pages_def)
  ultimately show ?thesis by blast
qed

text \<open>
  The pages a size asks for.  The sum of \<^verbatim>\<open>shm_create\<close> that rounds the size up is taken modulo \<open>2\<^sup>6\<^sup>4\<close>, so it is right up to
  \<open>2\<^sup>6\<^sup>4 - 4096\<close> and gives 0 pages beyond.
\<close>

definition pages_for :: "u64 \<Rightarrow> nat" where
  "pages_for sz = (unat sz + 4095) div 4096"

lemma pages_rounding:
  "unat ((sz + SHM_PAGE_SIZE - 1) div SHM_PAGE_SIZE) = (if unat sz \<le> 2 ^ 64 - 4096 then pages_for sz else 0)"
proof -
  have "sz + SHM_PAGE_SIZE - 1 = sz + 4095" by (simp add: SHM_PAGE_SIZE_def)
  moreover have "unat (sz + 4095) = (unat sz + 4095) mod 2 ^ 64" by (simp add: unat_word_ariths)
  moreover have "unat SHM_PAGE_SIZE = 4096" by (simp add: SHM_PAGE_SIZE_def)
  ultimately have u: "unat ((sz + SHM_PAGE_SIZE - 1) div SHM_PAGE_SIZE) = (unat sz + 4095) mod 2 ^ 64 div 4096" by (simp only: unat_div)
  show ?thesis
  proof (cases "unat sz \<le> 2 ^ 64 - 4096")
    case True
    then show ?thesis unfolding u by (simp add: pages_for_def)
  next
    case False
    have "unat sz < 2 ^ 64" using unsigned_less [of sz] by simp
    then have "(unat sz + 4095) mod 2 ^ 64 = unat sz + 4095 - 2 ^ 64" using False by (simp add: mod_if)
    then show ?thesis unfolding u using False \<open>unat sz < 2 ^ 64\<close> by simp
  qed
qed

text \<open>A region that got the id 0 is found by nobody.\<close>

lemma shm_get_zero:
  assumes "created owner n k slot k'" and "g_next_id k = 0"
  shows "shm_get j k' \<noteq> Some slot"
proof
  assume j: "shm_get j k' = Some slot"
  then have "j \<noteq> 0" "first_idx (\<lambda>r. sr_valid r \<and> sr_id r = j) (g_regions k') = Some slot" by (auto simp: shm_get_def split: if_splits)
  then have "sr_id (rget k' slot) = j" using first_idx_SomeD [of _ "g_regions k'" slot] by (fastforce simp: rget_def)
  then show False using \<open>j \<noteq> 0\<close> assms by (simp add: created_def Let_def)
qed

text \<open>
  C39: \<^verbatim>\<open>shm_create\<close> is all or nothing, and always returns.  Either it returns 0, every page has the reference count it had before and no
  region has appeared, so the pages of an allocation that fails half way are given back; or it returns \<^verbatim>\<open>g_next_id\<close> and exactly one free slot has
  become a region with the pages that the size asks for, each held once and by nobody before.  For sizes above \<open>2\<^sup>6\<^sup>4 - 4096\<close> that is a
  region of no pages, as the rounding wraps.  If \<^verbatim>\<open>g_next_id\<close> is not 0 and no region in use has it as its id, \<^verbatim>\<open>shm_get\<close> finds the new
  region and destroying it brings every reference count back.  If \<^verbatim>\<open>g_next_id\<close> has wrapped to 0, the caller gets the value for failure
  while the region holds its pages, and no id finds it.
\<close>

theorem shm_create_atomic:
  assumes "regions_ok k"
  shows "\<exists>i k'. shm_create owner sz k = Some (i, k')
    \<and> (i = 0 \<and> page_refs k' = page_refs k \<and> map sr_valid (g_regions k') = map sr_valid (g_regions k)
       \<or> i = g_next_id k \<and> (\<exists>slot. created owner (if unat sz \<le> 2 ^ 64 - 4096 then pages_for sz else 0) k slot k'
           \<and> (i \<noteq> 0 \<and> (\<forall>j < SHM_MAX_REGIONS. sr_valid (rget k j) \<longrightarrow> sr_id (rget k j) \<noteq> i) \<longrightarrow>
                shm_get i k' = Some slot \<and> (\<exists>k''. shm_destroy i owner k' = (0, k'') \<and> page_refs k'' = page_refs k))
           \<and> (i = 0 \<longrightarrow> (\<forall>j. shm_get j k' \<noteq> Some slot))))"
  using shm_create_cases [OF assms, of owner sz] unfolding pages_rounding
proof (elim exE disjE conjE)
  fix k' slot
  let ?n = "if unat sz \<le> 2 ^ 64 - 4096 then pages_for sz else 0"
  assume c: "shm_create owner sz k = Some (g_next_id k, k')" and ok: "regions_ok k'" and cr: "created owner ?n k slot k'"
  have "shm_get (g_next_id k) k' = Some slot \<and> (\<exists>k''. shm_destroy (g_next_id k) owner k' = (0, k'') \<and> page_refs k'' = page_refs k)"
    if "g_next_id k \<noteq> 0" "\<forall>j < SHM_MAX_REGIONS. sr_valid (rget k j) \<longrightarrow> sr_id (rget k j) \<noteq> g_next_id k"
    using shm_get_new [OF cr ok that] shm_destroy_new [OF cr ok] by blast
  then show ?thesis using c cr shm_get_zero [OF cr] by blast
qed blast

subsection \<open>Pages of addresses\<close>

lemma idx_bits: "bit (drop_bit m v AND 0x1FF) n \<longleftrightarrow> n < 9 \<and> bit (v :: u64) (m + n)"
proof -
  have "(0x1FF :: u64) = mask 9" by (simp add: mask_eq_exp_minus_1)
  then have "bit (drop_bit m v AND 0x1FF) n \<longleftrightarrow> bit (drop_bit m v AND mask 9) n" by simp
  then show ?thesis by (auto simp: bit_and_iff bit_mask_iff bit_drop_bit_eq dest: bit_imp_le_length)
qed

lemma same_page_bits:
  assumes "same_page v w" and "n < 36"
  shows "bit v (12 + n) = bit w (12 + n)"
proof -
  have b: "bit v (m + n) = bit w (m + n)" if "drop_bit m v AND 0x1FF = drop_bit m w AND 0x1FF" "n < 9" for m n
    using that idx_bits [of m v n] idx_bits [of m w n] by auto
  have i: "drop_bit 39 v AND 0x1FF = drop_bit 39 w AND 0x1FF" "drop_bit 30 v AND 0x1FF = drop_bit 30 w AND 0x1FF"
    "drop_bit 21 v AND 0x1FF = drop_bit 21 w AND 0x1FF" "drop_bit 12 v AND 0x1FF = drop_bit 12 w AND 0x1FF"
    using assms(1) by (simp_all add: same_page_def idx4_def idx3_def idx2_def idx1_def)
  consider "n < 9" | "9 \<le> n \<and> n < 18" | "18 \<le> n \<and> n < 27" | "27 \<le> n" by linarith
  then show ?thesis
    using b [OF i(4), of n] b [OF i(3), of "n - 9"] b [OF i(2), of "n - 18"] b [OF i(1), of "n - 27"] assms(2) by cases auto
qed

lemma same_page_number:
  assumes "same_page v w"
  shows "unat v div 4096 mod 2 ^ 36 = unat w div 4096 mod 2 ^ 36"
proof -
  have "take_bit 36 (drop_bit 12 v) = take_bit 36 (drop_bit 12 w)"
    by (rule bit_eqI) (use same_page_bits [OF assms] in \<open>auto simp: bit_take_bit_iff bit_drop_bit_eq\<close>)
  then have "unat (take_bit 36 (drop_bit 12 v)) = unat (take_bit 36 (drop_bit 12 w))" by simp
  then show ?thesis by (simp add: take_bit_eq_mod drop_bit_eq_div unat_mod unat_div)
qed

lemma page_va_apart:
  assumes "i < j" and "j \<le> 256"
  shows "\<not> same_page (page_va v i) (page_va v j)"
proof
  assume "same_page (page_va v i) (page_va v j)"
  note s = same_page_number [OF this]
  have n: "unat (page_va v k) div 4096 mod 2 ^ 36 = (unat v div 4096 + k) mod 2 ^ 36" if "k \<le> 256" for k
  proof -
    have "unat (of_nat k * SHM_PAGE_SIZE) = k * 4096" using that by (simp add: SHM_PAGE_SIZE_def unat_word_ariths unat_of_nat64)
    then have "unat (page_va v k) = (unat v + k * 4096) mod 2 ^ 64" unfolding page_va_def by (simp add: unat_word_ariths)
    moreover have "x mod 2 ^ 64 div 4096 mod 2 ^ 36 = x div 4096 mod 2 ^ 36" for x :: nat
    proof -
      have "x mod 2 ^ 64 div 4096 = x div 4096 mod 2 ^ 52" using mod_mult2_eq [of x 4096 "2 ^ 52"] by simp
      then show ?thesis by (simp add: mod_mod_cancel)
    qed
    ultimately show ?thesis by (simp add: add.commute)
  qed
  have "(unat v div 4096 + i) mod 2 ^ 36 = (unat v div 4096 + j) mod 2 ^ 36" using s n [of i] n [of j] assms by simp
  then have "(2 ^ 36 :: nat) dvd j - i" using assms(1) by (metis add_diff_cancel_left mod_eq_dvd_iff_nat nat_add_left_cancel_le less_imp_le)
  then show False using assms by (auto dest: dvd_imp_le)
qed

subsection \<open>Mapping\<close>

text \<open>A translation with the pages \<open>ps\<close> at the addresses from page \<open>i\<close> on.\<close>

fun mapped :: "(u64 \<Rightarrow> u64) \<Rightarrow> u64 \<Rightarrow> nat \<Rightarrow> u64 list \<Rightarrow> u64 \<Rightarrow> u64" where
  "mapped T virt i [] = T"
| "mapped T virt i (p # ps) =
     mapped (\<lambda>w. if same_page w (page_va virt i) then (p AND VMM_ADDR_MASK) OR (w AND 0xFFF) else T w) virt (Suc i) ps"

lemma mapped_outside:
  assumes "\<forall>j < length ps. \<not> same_page w (page_va virt (i + j))"
  shows "mapped T virt i ps w = T w"
  using assms
proof (induction ps arbitrary: T i)
  case (Cons p ps)
  have "\<forall>j < length ps. \<not> same_page w (page_va virt (Suc i + j))" using Cons.prems by auto
  moreover have "\<not> same_page w (page_va virt i)" using Cons.prems [rule_format, of 0] by simp
  ultimately show ?case using Cons.IH by simp
qed simp

lemma mapped_inside:
  assumes "j < length ps" and "i + length ps \<le> 257" and "same_page w (page_va virt (i + j))"
  shows "mapped T virt i ps w = (ps ! j AND VMM_ADDR_MASK) OR (w AND 0xFFF)"
  using assms
proof (induction ps arbitrary: T i j)
  case (Cons p ps)
  show ?case
  proof (cases j)
    case 0
    have "\<not> same_page w (page_va virt (Suc i + l))" if "l < length ps" for l
    proof
      assume "same_page w (page_va virt (Suc i + l))"
      then have "same_page (page_va virt i) (page_va virt (Suc i + l))" using Cons.prems(3) 0 by (simp add: same_page_def)
      then show False using page_va_apart [of i "Suc i + l" virt] that Cons.prems(2) by simp
    qed
    then show ?thesis using mapped_outside [of ps w virt "Suc i"] Cons.prems(3) 0 by simp
  next
    case (Suc l)
    then show ?thesis using Cons.IH [of l "Suc i"] Cons.prems by simp
  qed
qed simp

lemma unmap_pages_ok:
  assumes "vm_ok L s t4" and "\<forall>j < n. no_huge (ent s) t4 (page_va virt j)"
  shows "vm_ok L (unmap_pages t4 virt n s) t4
    \<and> (\<forall>w. vmm_get_phys_into (unmap_pages t4 virt n s) t4 w = (if \<exists>j < n. same_page w (page_va virt j) then 0 else vmm_get_phys_into s t4 w))
    \<and> (\<forall>w. no_huge (ent s) t4 w \<longrightarrow> no_huge (ent (unmap_pages t4 virt n s)) t4 w)"
  using assms(2)
proof (induction n)
  case 0
  then show ?case using assms(1) by (simp add: unmap_pages_def)
next
  case (Suc n)
  let ?s = "unmap_pages t4 virt n s"
  have IH: "vm_ok L ?s t4" "\<forall>w. vmm_get_phys_into ?s t4 w = (if \<exists>j < n. same_page w (page_va virt j) then 0 else vmm_get_phys_into s t4 w)"
    "\<forall>w. no_huge (ent s) t4 w \<longrightarrow> no_huge (ent ?s) t4 w" using Suc by simp_all
  have e: "unmap_pages t4 virt (Suc n) s = vmm_unmap_into ?s t4 (page_va virt n)" by (simp add: unmap_pages_def)
  have nh: "no_huge (ent ?s) t4 (page_va virt n)" using IH(3) Suc.prems by simp
  note u = vmm_unmap_into_ok [OF IH(1) nh]
  show ?case unfolding e using u IH(2,3) by (auto simp: less_Suc_eq)
qed

lemma shm_flags: "(VMM_WRITE OR VMM_USER OR VMM_NX) AND VMM_ADDR_MASK = 0"
  by (simp add: VMM_WRITE_def VMM_USER_def VMM_NX_def VMM_ADDR_MASK_def)

lemma map_pages_ok:
  assumes "vm_ok L s t4" and "\<forall>j < i + length ps. no_huge (ent s) t4 (page_va virt j)"
    and "\<forall>w. (\<exists>j < i. same_page w (page_va virt j)) \<or> vmm_get_phys_into s t4 w = T w"
    and "\<forall>j < i + length ps. \<forall>w. same_page w (page_va virt j) \<longrightarrow> T w = 0"
  shows "\<exists>b s' L'. map_pages t4 virt i ps s = Some (b, s') \<and> vm_ok L' s' t4
    \<and> vmm_get_phys_into s' t4 = (if b then mapped (vmm_get_phys_into s t4) virt i ps else T)"
  using assms
proof (induction ps arbitrary: i s L)
  case Nil
  then show ?case by auto
next
  case (Cons p ps)
  let ?va = "page_va virt i"
  have nh: "no_huge (ent s) t4 ?va" using Cons.prems(2) by simp
  obtain b s1 L1 where m: "vmm_map_into s t4 p ?va (VMM_WRITE OR VMM_USER OR VMM_NX) = Some (b, s1)" "vm_ok L1 s1 t4"
    "\<forall>w. vmm_get_phys_into s1 t4 w = (if b \<and> same_page w ?va then (p AND VMM_ADDR_MASK) OR (w AND 0xFFF) else vmm_get_phys_into s t4 w)"
    "\<forall>w. no_huge (ent s) t4 w \<longrightarrow> no_huge (ent s1) t4 w"
    using vmm_map_into_ok [OF Cons.prems(1) nh shm_flags, of p] by blast
  show ?case
  proof (cases b)
    case True
    have 2: "\<forall>j < Suc i + length ps. no_huge (ent s1) t4 (page_va virt j)" using Cons.prems(2) m(4) by simp
    have 3: "\<forall>w. (\<exists>j < Suc i. same_page w (page_va virt j)) \<or> vmm_get_phys_into s1 t4 w = T w"
      using Cons.prems(3) m(3) by (auto simp: less_Suc_eq)
    have 4: "\<forall>j < Suc i + length ps. \<forall>w. same_page w (page_va virt j) \<longrightarrow> T w = 0" using Cons.prems(4) by simp
    have g: "vmm_get_phys_into s1 t4 = (\<lambda>w. if same_page w ?va then (p AND VMM_ADDR_MASK) OR (w AND 0xFFF) else vmm_get_phys_into s t4 w)"
      using m(3) True by (simp add: fun_eq_iff)
    have e: "map_pages t4 virt i (p # ps) s = map_pages t4 virt (Suc i) ps s1" using m(1) True by simp
    show ?thesis using Cons.IH [OF m(2) 2 3 4] unfolding e g mapped.simps(2) .
  next
    case False
    have e: "map_pages t4 virt i (p # ps) s = Some (False, unmap_pages t4 virt i s1)" using m(1) False by simp
    have "\<forall>j < i. no_huge (ent s1) t4 (page_va virt j)" using Cons.prems(2) m(4) by simp
    note u = unmap_pages_ok [OF m(2) this]
    have "vmm_get_phys_into (unmap_pages t4 virt i s1) t4 w = T w" for w
    proof (cases "\<exists>j < i. same_page w (page_va virt j)")
      case True
      then obtain j where "j < i" "same_page w (page_va virt j)" by blast
      then have "T w = 0" using Cons.prems(4) [rule_format, of j w] by simp
      then show ?thesis using u True by simp
    next
      case nw: False
      then show ?thesis using u Cons.prems(3) m(3) False by auto
    qed
    then show ?thesis using e u by (intro exI [of _ False]) (auto simp: fun_eq_iff)
  qed
qed

text \<open>
  C38: \<^verbatim>\<open>shm_map\<close> maps a region exactly.  Let the addresses below \<^verbatim>\<open>mmap_top\<close> be unmapped and not covered by a large page.  The call
  returns.  With the new address, page \<open>j\<close> of the range translates to page \<open>j\<close> of the region and every other address translates as before, the
  region counts one more mapping and \<^verbatim>\<open>mmap_top\<close> is the new address; with 0, no translation, region or process has changed, even
  when the page tables ran out of pages half way.
\<close>

theorem shm_map_exact:
  assumes "shm_get shm_id k = Some slot" and "proc_get (k_sched k) pid = Some p" and "regions_ok k" and "sr_page_count (rget k slot) \<le> 256"
    and "pr_cr3 (pget (k_sched k) p) = t4" and "vm_ok L (k_vm k) t4"
    and "virt = pr_mmap_top (pget (k_sched k) p) - sr_size (rget k slot)" and "virt < pr_mmap_top (pget (k_sched k) p)" and "0x1000 \<le> virt"
    and "\<forall>j < length (region_pages (rget k slot)). no_huge (ent (k_vm k)) t4 (page_va virt j)
           \<and> (\<forall>w. same_page w (page_va virt j) \<longrightarrow> vmm_get_phys_into (k_vm k) t4 w = 0)"
  shows "\<exists>va k' L'. shm_map shm_id pid k = Some (va, k') \<and> vm_ok L' (k_vm k') t4
    \<and> (if va = 0 then vmm_get_phys_into (k_vm k') t4 = vmm_get_phys_into (k_vm k) t4 \<and> g_regions k' = g_regions k \<and> k_sched k' = k_sched k
       else va = virt \<and> pr_mmap_top (pget (k_sched k') p) = virt \<and> sr_map_count (rget k' slot) = sr_map_count (rget k slot) + 1
         \<and> (\<forall>j < length (region_pages (rget k slot)). \<forall>w. same_page w (page_va virt j) \<longrightarrow>
              vmm_get_phys_into (k_vm k') t4 w = (region_pages (rget k slot) ! j AND VMM_ADDR_MASK) OR (w AND 0xFFF))
         \<and> (\<forall>w. (\<forall>j < length (region_pages (rget k slot)). \<not> same_page w (page_va virt j)) \<longrightarrow>
              vmm_get_phys_into (k_vm k') t4 w = vmm_get_phys_into (k_vm k) t4 w))"
proof -
  let ?ps = "region_pages (rget k slot)" and ?T = "vmm_get_phys_into (k_vm k) t4"
  have len: "length ?ps \<le> 256" using assms(4) by (simp add: region_pages_def word_le_nat_alt)
  have sl: "slot < length (g_regions k)" using assms(1) first_idx_SomeD(1) by (fastforce simp: shm_get_def split: if_splits)
  have pl: "p < length (g_proc_table (k_sched k))" by (rule proc_getD(1) [OF assms(2)])
  have v0: "virt \<noteq> 0" using assms(9) by auto
  have a: "\<forall>j < 0 + length ?ps. no_huge (ent (k_vm k)) t4 (page_va virt j)" "\<forall>j < 0 + length ?ps. \<forall>w. same_page w (page_va virt j) \<longrightarrow> ?T w = 0"
    using assms(10) by auto
  have b: "\<forall>w. (\<exists>j < 0. same_page w (page_va virt j)) \<or> ?T w = ?T w" by simp
  obtain bb vm L' where m: "map_pages t4 virt 0 ?ps (k_vm k) = Some (bb, vm)" "vm_ok L' vm t4"
    "vmm_get_phys_into vm t4 = (if bb then mapped ?T virt 0 ?ps else ?T)"
    using map_pages_ok [OF assms(6) a(1) b a(2)] by blast
  let ?k = "rset slot (\<lambda>r. r\<lparr>sr_map_count := sr_map_count r + 1\<rparr>) (pupd p (\<lambda>q. q\<lparr>pr_mmap_top := virt\<rparr>) (k\<lparr>k_vm := vm\<rparr>))"
  have e: "shm_map shm_id pid k = Some (if bb then (virt, ?k) else (0, k\<lparr>k_vm := vm\<rparr>))"
  proof -
    have c: "\<not> pr_mmap_top (pget (k_sched k) p) \<le> virt" "\<not> virt < 0x1000" using assms(8,9) by auto
    show ?thesis
      unfolding shm_map_def assms(1,2) option.case Let_def assms(7) [symmetric] assms(5) if_not_P [OF c(1)] if_not_P [OF c(2)]
        region_pages_def [symmetric] m(1) by (cases bb) simp_all
  qed
  show ?thesis
  proof (cases bb)
    case True
    have g: "vmm_get_phys_into (k_vm ?k) t4 = mapped ?T virt 0 ?ps" using m(3) True by (simp add: rset_def pupd_def)
    have "pr_mmap_top (pget (k_sched ?k) p) = virt" "sr_map_count (rget ?k slot) = sr_map_count (rget k slot) + 1" "vm_ok L' (k_vm ?k) t4"
      using pl sl m(2) by (simp_all add: rset_def pupd_def pget_pset rget_def)
    moreover have "mapped ?T virt 0 ?ps w = (?ps ! j AND VMM_ADDR_MASK) OR (w AND 0xFFF)" if "j < length ?ps" "same_page w (page_va virt j)" for j w
      using mapped_inside [of j ?ps 0 w virt ?T] that len by simp
    moreover have "mapped ?T virt 0 ?ps w = ?T w" if "\<forall>j < length ?ps. \<not> same_page w (page_va virt j)" for w
      using mapped_outside [of ?ps w virt 0 ?T] that by simp
    moreover have "shm_map shm_id pid k = Some (virt, ?k)" using e True by simp
    ultimately show ?thesis using v0 unfolding g [symmetric] by (intro exI [of _ virt] exI [of _ ?k] exI [of _ L']) simp
  next
    case False
    then show ?thesis using e m by (intro exI [of _ 0] exI [of _ "k\<lparr>k_vm := vm\<rparr>"] exI [of _ L']) simp
  qed
qed

subsection \<open>The count of mappings\<close>

lemma unmap_nothing:
  assumes "\<not> present (ent s t (idx4 v))"
  shows "vmm_unmap_into s t v = s"
  using assms by (simp add: vmm_unmap_into_def present_def ent_def)

lemma unmap_pages_nothing:
  assumes "\<forall>j < n. \<not> present (ent s t (idx4 (page_va va j)))"
  shows "unmap_pages t va n s = s"
  using assms by (induction n) (simp_all add: unmap_pages_def unmap_nothing)

lemma get_phys_pmm: "vmm_get_phys_into (s\<lparr>vm_pmm := pm\<rparr>) t w = vmm_get_phys_into s t w"
proof (cases "t = 0")
  case False
  have "ent (s\<lparr>vm_pmm := pm\<rparr>) = ent s" by (intro ext) (simp add: ent_def)
  then show ?thesis using get_phys_translate [OF False] by simp
qed (simp add: vmm_get_phys_into_def)

lemma page_round:
  fixes sz :: u64
  assumes "unat sz = n * 4096" and "0 < n" and "n \<le> 256"
  shows "(sz + SHM_PAGE_SIZE - 1) div SHM_PAGE_SIZE = of_nat n" "of_nat n * SHM_PAGE_SIZE = sz" "sz \<noteq> 0"
proof -
  have s: "sz = of_nat (n * 4096)" using arg_cong [OF assms(1), of "of_nat :: nat \<Rightarrow> u64"] by simp
  have "sz + SHM_PAGE_SIZE - 1 = of_nat (n * 4096 + 4095)" unfolding s by (simp add: SHM_PAGE_SIZE_def)
  then have "unat (sz + SHM_PAGE_SIZE - 1) = n * 4096 + 4095" using assms(3) by (simp only:) (rule unat_of_nat64, simp)
  then have "unat ((sz + SHM_PAGE_SIZE - 1) div SHM_PAGE_SIZE) = n" by (simp add: unat_div SHM_PAGE_SIZE_def)
  from arg_cong [OF this, of "of_nat :: nat \<Rightarrow> u64"] show "(sz + SHM_PAGE_SIZE - 1) div SHM_PAGE_SIZE = of_nat n" by simp
  show "of_nat n * SHM_PAGE_SIZE = sz" unfolding s by (simp add: SHM_PAGE_SIZE_def)
  show "sz \<noteq> 0" using assms(1,2) by auto
qed

text \<open>
  C40: The count of mappings does not protect the pages of a region.  A process that has mapped nothing can call \<^verbatim>\<open>shm_unmap\<close> with the
  size of a region that is mapped once by another: no address space changes, but the count of the region falls to 0.  The owner can then
  destroy the region, and its pages are given back while every translation to them, in whatever page tables, is still there.
\<close>

theorem shm_freed_while_mapped:
  assumes "regions_ok k" and "shm_get shm_id k = Some slot" and "mapped_slot (sr_size (rget k slot)) k = Some slot" and "sr_map_count (rget k slot) = 1"
    and "unat (sr_size (rget k slot)) = n * 4096" and "unat (sr_page_count (rget k slot)) = n" and "0 < n" and "n \<le> 256"
    and "distinct (region_pages (rget k slot))" and "\<forall>p \<in> set (region_pages (rget k slot)). 0 < page_refs k p"
    and "proc_get (k_sched k) stranger = Some q" and "va \<noteq> 0" and "\<forall>j < n. \<not> present (ent (k_vm k) (pr_cr3 (pget (k_sched k) q)) (idx4 (page_va va j)))"
  shows "\<exists>k1 k2. shm_unmap va (sr_size (rget k slot)) stranger k = k1 \<and> k_vm k1 = k_vm k
    \<and> shm_destroy shm_id (sr_owner_pid (rget k slot)) k1 = (0, k2)
    \<and> (\<forall>p \<in> set (region_pages (rget k slot)). page_refs k2 p = page_refs k p - 1)
    \<and> (\<forall>t w. vmm_get_phys_into (k_vm k2) t w = vmm_get_phys_into (k_vm k) t w)"
proof -
  let ?r = "rget k slot"
  note pr = page_round [OF assms(5,7,8)]
  have sl: "slot < length (g_regions k)" using assms(2) first_idx_SomeD(1) by (fastforce simp: shm_get_def split: if_splits)
  define k1 where "k1 = rset slot (\<lambda>r. r\<lparr>sr_map_count := sr_map_count r - 1\<rparr>) k"
  have un: "unat (of_nat n :: u64) = n" using assms(8) by (intro unat_of_nat64) simp
  have u: "shm_unmap va (sr_size ?r) stranger k = k1"
    unfolding shm_unmap_def assms(11) option.case Let_def pr(1,2) un unmap_pages_nothing [OF assms(13)]
    using pr(3) assms(3,12) by (simp add: k1_def)
  have r1: "rget k1 slot = ?r\<lparr>sr_map_count := 0\<rparr>" "k_vm k1 = k_vm k" using sl assms(4) by (simp_all add: k1_def rset_def rget_def)
  have g1: "shm_get shm_id k1 = Some slot"
  proof -
    have "map (\<lambda>r. (sr_valid r, sr_id r)) (g_regions k1) = map (\<lambda>r. (sr_valid r, sr_id r)) (g_regions k)"
      using sl by (simp add: k1_def rset_def map_update list_update_same_conv)
    from arg_cong [OF this, of "first_idx (\<lambda>(v, i). v \<and> i = shm_id)"] show ?thesis using assms(2) unfolding first_idx_map by (simp add: shm_get_def split: if_splits)
  qed
  let ?k2 = "rset slot (\<lambda>r. r\<lparr>sr_valid := False, sr_id := 0\<rparr>) (free_pages slot n k1)"
  have d: "shm_destroy shm_id (sr_owner_pid ?r) k1 = (0, ?k2)" by (simp add: shm_destroy_def g1 r1 assms(6))
  have rp: "take n (sr_phys_pages (rget k1 slot)) = region_pages ?r" by (simp add: r1 region_pages_def assms(6))
  have len: "n \<le> length (sr_phys_pages (rget k1 slot))" using assms(1,8) sl unfolding r1 by (simp add: regions_ok_def rget_def)
  have vm2: "k_vm ?k2 = (k_vm k)\<lparr>vm_pmm := fold (\<lambda>p s. pmm_free s p) (region_pages ?r) (vm_pmm (k_vm k))\<rparr>"
    using free_pages_eq [OF len] unfolding rp r1(2) by (simp add: rset_def)
  have "pmm_inv (vm_pmm (k_vm k))" using assms(1) by (simp add: regions_ok_def)
  from pmm_frames.ffree_all [OF this assms(9,10)] have "\<forall>p \<in> set (region_pages ?r). page_refs ?k2 p = page_refs k p - 1" unfolding vm2 by simp
  moreover have "\<forall>t w. vmm_get_phys_into (k_vm ?k2) t w = vmm_get_phys_into (k_vm k) t w" unfolding vm2 by (simp add: get_phys_pmm)
  ultimately show ?thesis using u d r1(2) by blast
qed

subsection \<open>A region of one page\<close>

text \<open>The small kernel with a page allocator \<open>pm\<close> and one region of the page \<open>pg\<close>, mapped \<open>c\<close> times; process 1 has an empty top-level table.\<close>

definition blank_region :: shm_region where
  "blank_region = \<lparr>sr_id = 0, sr_owner_pid = 0, sr_size = 0, sr_page_count = 0, sr_phys_pages = replicate 256 0, sr_map_count = 0, sr_valid = False\<rparr>"

definition shm_kernel :: "pmm \<Rightarrow> u64 \<Rightarrow> u8 \<Rightarrow> skernel" where
  "shm_kernel pm pg c = pkernel.extend
     (init_kernel\<lparr>k_vm := demo_vm\<lparr>vm_pmm := pm\<rparr>, k_sched := pset 0 (\<lambda>r. r\<lparr>pr_mmap_top := 0x7FF000000000\<rparr>) init_sched\<rparr>)
     \<lparr>g_regions = blank_region\<lparr>sr_id := 1, sr_owner_pid := 1, sr_size := 4096, sr_page_count := 1, sr_phys_pages := pg # replicate 255 0,
        sr_map_count := c, sr_valid := True\<rparr> # replicate 31 blank_region, g_next_id = 2\<rparr>"

lemma shm_kernel_fields:
  "k_vm (shm_kernel pm pg c) = demo_vm\<lparr>vm_pmm := pm\<rparr>" "k_sched (shm_kernel pm pg c) = pset 0 (\<lambda>r. r\<lparr>pr_mmap_top := 0x7FF000000000\<rparr>) init_sched"
  "length (g_regions (shm_kernel pm pg c)) = SHM_MAX_REGIONS" "g_next_id (shm_kernel pm pg c) = 2"
  "rget (shm_kernel pm pg c) 0 = blank_region\<lparr>sr_id := 1, sr_owner_pid := 1, sr_size := 4096, sr_page_count := 1, sr_phys_pages := pg # replicate 255 0,
        sr_map_count := c, sr_valid := True\<rparr>"
  "region_pages (rget (shm_kernel pm pg c) 0) = [pg]"
  by (simp_all add: shm_kernel_def pkernel.defs rget_def SHM_MAX_REGIONS_def region_pages_def)

lemma shm_kernel_ok: "pmm_inv pm \<Longrightarrow> regions_ok (shm_kernel pm pg c)"
  by (simp add: regions_ok_def shm_kernel_fields) (simp add: shm_kernel_def pkernel.defs blank_region_def)

lemma shm_kernel_get: "shm_get 1 (shm_kernel pm pg c) = Some 0"
  by (simp add: shm_get_def shm_kernel_def pkernel.defs blank_region_def)

lemma shm_kernel_procs:
  "proc_get (k_sched (shm_kernel pm pg c)) 1 = Some 0" "proc_get (k_sched (shm_kernel pm pg c)) 2 = Some 1"
  "pr_cr3 (pget (k_sched (shm_kernel pm pg c)) 0) = 0x1000" "pr_mmap_top (pget (k_sched (shm_kernel pm pg c)) 0) = 0x7FF000000000"
  by (simp_all add: shm_kernel_fields proc_get_def pset_def pget_def init_sched_def init_table_def)

lemma shm_kernel_ent: "ent (k_vm (shm_kernel pm pg c)) t i = 0"
  using demo_vm_ent [of t i] by (simp add: shm_kernel_fields ent_def)

theorem shm_create_atomic_witness:
  "\<exists>i k'. shm_create 1 8000 (shm_kernel demo_pmm 0x103000 0) = Some (i, k')
    \<and> (i = 0 \<and> page_refs k' = page_refs (shm_kernel demo_pmm 0x103000 0)
       \<or> (\<exists>slot k''. length (region_pages (rget k' slot)) = 2 \<and> shm_destroy i 1 k' = (0, k'')))"
proof -
  let ?k = "shm_kernel demo_pmm 0x103000 0"
  have n: "g_next_id ?k \<noteq> 0" by (simp add: shm_kernel_fields)
  have "sr_id (rget ?k i) \<noteq> 2" if "i < SHM_MAX_REGIONS" for i
    using that by (cases i) (simp_all add: shm_kernel_def pkernel.defs rget_def SHM_MAX_REGIONS_def blank_region_def)
  then have u: "\<forall>i < SHM_MAX_REGIONS. sr_valid (rget ?k i) \<longrightarrow> sr_id (rget ?k i) \<noteq> g_next_id ?k" by (simp add: shm_kernel_fields)
  have s: "(if unat (8000 :: u64) \<le> 2 ^ 64 - 4096 then pages_for 8000 else 0) = 2" by (simp add: pages_for_def)
  have l: "length (region_pages (rget k' slot)) = 2" if "created 1 2 ?k slot k'" for slot and k' :: skernel
    using that by (simp add: created_def Let_def)
  show ?thesis using shm_create_atomic [OF shm_kernel_ok [OF demo_pmm_inv], of 1 8000] n u l unfolding s by blast
qed

lemma shm_kernel_untranslated: "vmm_get_phys_into (k_vm (shm_kernel pm pg c)) t w = 0" "no_huge (ent (k_vm (shm_kernel pm pg c))) t w"
proof -
  show "vmm_get_phys_into (k_vm (shm_kernel pm pg c)) t w = 0"
    by (cases "t = 0") (simp add: vmm_get_phys_into_def, simp add: get_phys_translate translate_def shm_kernel_ent)
  show "no_huge (ent (k_vm (shm_kernel pm pg c))) t w" by (simp add: no_huge_def shm_kernel_ent)
qed

theorem shm_map_exact_witness:
  "\<exists>va k'. shm_map 1 1 (shm_kernel demo_pmm 0x103000 0) = Some (va, k')
    \<and> vmm_get_phys_into (k_vm k') 0x1000 0x7FEFFFFFF123 = (if va = 0 then 0 else 0x103123)
    \<and> vmm_get_phys_into (k_vm k') 0x1000 0x7FEFFFFFE000 = 0"
proof -
  let ?k = "shm_kernel demo_pmm 0x103000 0" and ?v = "0x7FEFFFFFF000"
  have sp: "same_page 0x7FEFFFFFF123 (page_va ?v 0)" "\<not> same_page 0x7FEFFFFFE000 (page_va ?v 0)"
    by (simp_all add: same_page_def page_va_def idx4_def idx3_def idx2_def idx1_def)
  have ok: "vm_ok [0x1000 \<mapsto> 4] (k_vm ?k) 0x1000" using demo_vm_ok by (simp add: shm_kernel_fields demo_vm_def)
  have v: "?v = pr_mmap_top (pget (k_sched ?k) 0) - sr_size (rget ?k 0)" "?v < pr_mmap_top (pget (k_sched ?k) 0)" "0x1000 \<le> (?v :: u64)"
    unfolding shm_kernel_procs by (simp_all add: shm_kernel_fields)
  have pc: "sr_page_count (rget ?k 0) \<le> 256" by (simp add: shm_kernel_fields)
  have h: "\<forall>j < length (region_pages (rget ?k 0)). no_huge (ent (k_vm ?k)) 0x1000 (page_va ?v j)
      \<and> (\<forall>w. same_page w (page_va ?v j) \<longrightarrow> vmm_get_phys_into (k_vm ?k) 0x1000 w = 0)" using shm_kernel_untranslated by blast
  note r = shm_map_exact [OF shm_kernel_get shm_kernel_procs(1) shm_kernel_ok [OF demo_pmm_inv] pc shm_kernel_procs(3) ok v h, unfolded shm_kernel_fields(6)]
  obtain va k' where m: "shm_map 1 1 ?k = Some (va, k')"
    "if va = 0 then vmm_get_phys_into (k_vm k') 0x1000 = vmm_get_phys_into (k_vm ?k) 0x1000
     else (\<forall>j < 1. \<forall>w. same_page w (page_va ?v j) \<longrightarrow> vmm_get_phys_into (k_vm k') 0x1000 w = ([0x103000] ! j AND VMM_ADDR_MASK) OR (w AND 0xFFF))
       \<and> (\<forall>w. (\<forall>j < 1. \<not> same_page w (page_va ?v j)) \<longrightarrow> vmm_get_phys_into (k_vm k') 0x1000 w = vmm_get_phys_into (k_vm ?k) 0x1000 w)"
    using r by (elim exE conjE) (simp split: if_splits)
  show ?thesis
  proof (cases "va = 0")
    case True
    then show ?thesis using m shm_kernel_untranslated(1) by (intro exI [of _ va] exI [of _ k']) simp
  next
    case False
    then have "vmm_get_phys_into (k_vm k') 0x1000 0x7FEFFFFFF123 = 0x103123" "vmm_get_phys_into (k_vm k') 0x1000 0x7FEFFFFFE000 = 0"
      using m(2) sp shm_kernel_untranslated(1) by (simp_all add: VMM_ADDR_MASK_def)
    then show ?thesis using m(1) False by (intro exI [of _ va] exI [of _ k']) simp
  qed
qed

theorem shm_freed_while_mapped_witness:
  "\<exists>pm pg k2. page_refs (shm_kernel pm pg 1) pg = 1
    \<and> shm_destroy 1 1 (shm_unmap 0x5000 4096 2 (shm_kernel pm pg 1)) = (0, k2) \<and> page_refs k2 pg = 0"
proof -
  obtain j where j: "j \<in> zone_frames demo_pmm 2" "pmm_alloc demo_pmm 2 = Some (idx_to_phys demo_pmm (of_nat j), pmm_take demo_pmm 2 (of_nat j))"
    using pmm_alloc_ok [OF demo_pmm_inv, of 2] demo_pmm_zone by auto
  then have "idx_to_phys demo_pmm (of_nat j) \<in> pmm_avail demo_pmm" by (auto simp: pmm_avail_def zone_frames_def)
  moreover have "unat (g_frame_base demo_pmm) + unat (g_frame_count demo_pmm) * 4096 \<le> 2 ^ 52"
    by (simp add: demo_pmm_def pmm_init_def PAGE_SIZE_def sizeof_page_frame_def Let_def)
  ultimately have "g_frame_base demo_pmm \<le> idx_to_phys demo_pmm (of_nat j)" using avail_tables(2) [OF demo_pmm_inv] by blast
  then have "idx_to_phys demo_pmm (of_nat j) \<noteq> 0" using demo_pmm_inv by (auto simp: pmm_inv_def)
  then obtain pg pm where a: "pmm_alloc demo_pmm 2 = Some (pg, pm)" "pg \<noteq> 0" using j(2) by blast
  then have p: "pmm_inv pm" "pmm_refs pm pg = 1" using pmm_frames.falloc_ok [OF demo_pmm_inv, of 2] by auto
  let ?k = "shm_kernel pm pg 1"
  have r: "page_refs ?k pg = 1" using p(2) by (simp add: shm_kernel_fields)
  have ms: "mapped_slot (sr_size (rget ?k 0)) ?k = Some 0"
    by (simp add: mapped_slot_def shm_kernel_fields) (simp add: shm_kernel_def pkernel.defs)
  have f: "sr_map_count (rget ?k 0) = 1" "unat (sr_size (rget ?k 0)) = 1 * 4096" "unat (sr_page_count (rget ?k 0)) = 1"
    "distinct (region_pages (rget ?k 0))" "\<forall>q \<in> set (region_pages (rget ?k 0)). 0 < page_refs ?k q"
    using p(2) unfolding shm_kernel_fields(6) by (simp_all add: shm_kernel_fields)
  have np: "\<forall>j < 1. \<not> present (ent (k_vm ?k) (pr_cr3 (pget (k_sched ?k) 1)) (idx4 (page_va 0x5000 j)))" by (simp add: shm_kernel_ent)
  have "\<exists>k2. shm_destroy 1 1 (shm_unmap 0x5000 4096 2 ?k) = (0, k2) \<and> page_refs k2 pg = page_refs ?k pg - 1"
    using shm_freed_while_mapped [OF shm_kernel_ok [OF p(1)] shm_kernel_get ms f(1-3) _ _ f(4,5) shm_kernel_procs(2) _ np]
    by (auto simp: shm_kernel_fields(6)) (simp add: shm_kernel_fields)
  then show ?thesis using r by fastforce
qed

end
