(* ===== verification/Spec2Isabelle.thy ===== *)
theory Spec2Isabelle
  imports Audit_Log Blake3 Kmalloc Capability Pmm Vmm_Facts Scheduler Sha256 Sha512 Aead Ipc Fim Cnsl Vfs_Facts Shm_Facts
begin

text \<open>
  Verification of the Exploidus kernel, an x86-64 kernel in C.  Paths below are relative to \<^verbatim>\<open>src/\<close>.

  \<^bold>\<open>The program.\<close>  The kernel gives out physical pages (\<^verbatim>\<open>kernel/mm/pmm.c\<close>), builds page tables from them (\<^verbatim>\<open>kernel/mm/vmm.c\<close>) and keeps a
  heap for its own data (\<^verbatim>\<open>kernel/mm/kmalloc.c\<close>).  Processes live in a fixed table (\<^verbatim>\<open>kernel/proc/process.c\<close>) whose entries are linked into
  run queues (\<^verbatim>\<open>kernel/proc/scheduler.c\<close>).  They are made and copied by \<^verbatim>\<open>kernel/proc/fork_exec.c\<close>, wait for each other through
  \<^verbatim>\<open>kernel/sync/sync.c\<close> and \<^verbatim>\<open>kernel/sync/futex.c\<close>, exchange messages through inboxes in the heap (\<^verbatim>\<open>kernel/ipc/ipc.c\<close>), share pages
  (\<^verbatim>\<open>kernel/shm/shm.c\<close>) and use files through \<^verbatim>\<open>kernel/fs/vfs/vfs.c\<close>.  Access is decided on capability tokens (\<^verbatim>\<open>kernel/cap/capability.c\<close>,
  \<^verbatim>\<open>kernel/cap/broker.c\<close>) that are sealed with a hash (\<^verbatim>\<open>kernel/crypto/blake3.c\<close>); decisions go to an audit ring (\<^verbatim>\<open>kernel/audit/audit.c\<close>).
  Events of the network reach a policy engine that blocks addresses (\<^verbatim>\<open>kernel/cnsl/cnsl.c\<close>), writes to files a monitor
  (\<^verbatim>\<open>kernel/cnsl/fim.c\<close>).  Hashes, cipher and authenticator of the secure shell are in \<^verbatim>\<open>kernel/crypto\<close>.

  \<^bold>\<open>The model.\<close>  Machine integers are words of their width, so wrap-around is that of C; a C \<^verbatim>\<open>int\<close> that counts is a word read as
  signed.  Natural numbers and integers stand for array indices, for flags and for counters that the code compares with a bound before it increments
  them, and for return codes.  What the C code reads and writes through pointers is a memory from 64-bit addresses to bytes
  (\<^verbatim>\<open>Kernel_Prelude\<close>): the block headers of the heap, the revocation table, the page tables and the buffers of the cipher are kept there in the
  layout of the C code.  Three kinds of heap objects are records in maps beside the heap memory, keyed by the address of their block: inboxes
  (\<^verbatim>\<open>k_inbox\<close>), nodes of the file system (\<^verbatim>\<open>v_nodes\<close>) and the contents of FXSAVE areas (\<^verbatim>\<open>fpu_areas\<close>).  Their blocks are allocated and
  freed in the heap model, so ownership and leaks are exact, but the model does not show what a stray write does to such an object or
  what becomes of its contents after it is freed.  A static table is a list of records, and a pointer into it an index.  The state of the
  kernel is one record that grows with the components: \<^verbatim>\<open>kernel\<close> in \<^verbatim>\<open>Ipc\<close> (scheduler, heap and inboxes), \<^verbatim>\<open>vkernel\<close> in
  \<^verbatim>\<open>Vfs\<close> (mounts, nodes, descriptors), \<^verbatim>\<open>pkernel\<close> in \<^verbatim>\<open>Process\<close> (audit ring, page tables), \<^verbatim>\<open>skernel\<close> in \<^verbatim>\<open>Shm\<close> (regions).
  Operations take the state and return it with their result; error codes are the results of the C functions.

  \<^item> \<^verbatim>\<open>Kernel_Prelude\<close>, \<^verbatim>\<open>Byte_Blocks\<close>: types, byte memory, the scan of a table for its first free slot, byte strings in blocks.
  \<^item> \<^verbatim>\<open>Allocator\<close>, \<^verbatim>\<open>Frame_Allocator\<close>: the interfaces of heap and page allocator.  \<^verbatim>\<open>allocator\<close> is interpreted in \<^verbatim>\<open>Kmalloc\<close>
    (\<^verbatim>\<open>kheap\<close>), \<^verbatim>\<open>frame_allocator\<close> and its extension \<^verbatim>\<open>page_source\<close> in \<^verbatim>\<open>Pmm\<close> (\<^verbatim>\<open>pmm_frames\<close>, \<^verbatim>\<open>pmm_pages\<close>); capabilities,
    inboxes, processes, page tables and shared memory are proved against their laws.
  \<^item> \<^verbatim>\<open>Kmalloc\<close> (\<^verbatim>\<open>kernel/mm/kmalloc.c\<close>): the chain of block headers in memory refines a list of blocks.  \<^verbatim>\<open>kmalloc\<close> is first fit and always
    returns, \<^verbatim>\<open>kfree\<close> merges neighbours, blocks in use never overlap.
  \<^item> \<^verbatim>\<open>Pmm\<close> (\<^verbatim>\<open>kernel/mm/pmm.c\<close>): zone counters and reference counts are exact, \<^verbatim>\<open>pmm_alloc\<close> finds a page whenever there is one; freeing a
    page that is not held makes a later search endless.
  \<^item> \<^verbatim>\<open>Vmm\<close>, \<^verbatim>\<open>Vmm_Facts\<close> (\<^verbatim>\<open>kernel/mm/vmm.c\<close>): four levels of tables refine a function from addresses to addresses; mapping and unmapping
    change it at one page and keep the tables a tree.
  \<^item> \<^verbatim>\<open>Scheduler\<close> (\<^verbatim>\<open>kernel/proc/process.h\<close>, \<^verbatim>\<open>kernel/proc/scheduler.c\<close>): linked queues refine lists, \<^verbatim>\<open>sched_yield\<close> runs the head of the first
    queue that is not empty, ticks wake the processes that are due, and audit processes are served in turn.
  \<^item> \<^verbatim>\<open>Sync\<close> (\<^verbatim>\<open>kernel/sync\<close>): over every interleaving of the critical sections, mutual exclusion as long as only holders unlock, and its
    failure when another process does; a semaphore counts within the range of its 32-bit count; a \<^verbatim>\<open>futex_wake\<close> reaches nobody.
    Its locale \<^verbatim>\<open>blocking_resource\<close> is what a mutex and a semaphore have in common (interpretations \<^verbatim>\<open>mx\<close> and \<^verbatim>\<open>sm\<close>).
  \<^item> \<^verbatim>\<open>Ipc\<close> (\<^verbatim>\<open>kernel/ipc/ipc.c\<close>): a circular inbox refines a bounded queue, and a blocked receiver gets the first message.
  \<^item> \<^verbatim>\<open>Audit_Log\<close> (\<^verbatim>\<open>kernel/audit/audit.c\<close>): the ring holds the last 4096 events.
  \<^item> \<^verbatim>\<open>Capability\<close> (\<^verbatim>\<open>kernel/cap\<close>): the broker's decision is exact, revocation is permanent and refines a set, delegation never adds a right.
  \<^item> \<^verbatim>\<open>Fim\<close>, \<^verbatim>\<open>Cnsl\<close> (\<^verbatim>\<open>kernel/cnsl\<close>): how long an address is blocked, and that a rule's cooldown begins when it is tried.
  \<^item> \<^verbatim>\<open>Vfs\<close>, \<^verbatim>\<open>Vfs_Facts\<close> (\<^verbatim>\<open>kernel/fs/vfs/vfs.c\<close>): lookup, permission of \<^verbatim>\<open>vfs_open\<close>, to which root is subject as owner, and the
    access mode that passes every check.
  \<^item> \<^verbatim>\<open>Process\<close>, \<^verbatim>\<open>Process_Facts\<close> (\<^verbatim>\<open>kernel/proc/process.c\<close>, \<^verbatim>\<open>kernel/arch/x86_64/fpu.c\<close>): what \<^verbatim>\<open>proc_create\<close> allocates, what \<^verbatim>\<open>proc_exit\<close>
    gives back, whom it wakes, and the kernel stack that nobody frees.
  \<^item> \<^verbatim>\<open>Fork\<close>, \<^verbatim>\<open>Fork_Facts\<close> (\<^verbatim>\<open>kernel/proc/fork_exec.c\<close>): the invariant of the process table over all operations, and the exit of \<^verbatim>\<open>fork\<close>
    after which \<^verbatim>\<open>waitpid\<close> releases the tables of the parent.
  \<^item> \<^verbatim>\<open>Shm\<close>, \<^verbatim>\<open>Shm_Facts\<close> (\<^verbatim>\<open>kernel/shm/shm.c\<close>): creating a region is all or nothing, with what happens when the size or the id counter
    wraps; mapping one changes exactly its addresses, also when it fails half way; the count of mappings does not protect the pages.
  \<^item> \<^verbatim>\<open>Blake3\<close>, \<^verbatim>\<open>Sha256\<close>, \<^verbatim>\<open>Sha512\<close>, \<^verbatim>\<open>Chacha20\<close>, \<^verbatim>\<open>Poly1305\<close>, \<^verbatim>\<open>Aead\<close> (\<^verbatim>\<open>kernel/crypto\<close>): streaming equals hashing at once, the
    routines equal FIPS 180-4 and RFC 8439, and decryption accepts exactly the genuine tag.  The specifications of SHA-256 and SHA-512 share
    the constant tables and the functions of a round with the model; separate lemmas derive the tables from the roots of the first primes, as the
    standard defines them, and describe rotation, choice and majority bit by bit.  The rotation distances, and the ChaCha20 block
    function that the specification of the tag uses, have no second definition.

  \<^bold>\<open>Loops.\<close>  Loops that follow links in memory or wait for others are partial functions whose value is \<^verbatim>\<open>None\<close> when they do not end:
  the walks over the heap, the search of \<^verbatim>\<open>pmm_alloc\<close>, \<^verbatim>\<open>dequeue\<close>, the idle loop, \<^verbatim>\<open>mutex_lock\<close>, \<^verbatim>\<open>sem_wait\<close> and \<^verbatim>\<open>ipc_recv\<close>.  The theorems state that they
  return wherever they do.  \<^verbatim>\<open>sys_waitpid_impl\<close> yields once, as in the code, and the depth of symbolic links in a path has the bound that the code has.  All other loops are recursive functions with
  termination proofs.

  \<^bold>\<open>Arguments of the model.\<close>  The random source, the bytes of uninitialised stack memory, what interrupts and other processes do while a process
  yields or halts, and the operation tables of the file system drivers are arguments.  A section between \<^verbatim>\<open>cli\<close> and \<^verbatim>\<open>sti\<close> is one step.
  Serial output is dropped.  A switch of context is an event.  The translation cache of the processor is not modelled, so a mapping is
  what the tables say.

  \<^bold>\<open>Not modelled.\<close>  The dispatch of system calls, \<^verbatim>\<open>exec\<close> and the ELF loader, the on-disk file system but for its close operation, the network
  stack, X25519 and Ed25519, device drivers, USB, interrupt and processor set-up and assembly code, the boot sequence, and everything that runs in user
  space: the C library, shells, the Lua interpreter and the compositor.  Most of it is port or memory-mapped I/O, or
  code that only calls the components above; the network stack, the curves and the on-disk file system are components of their own.
\<close>

end
